(* ===== verification/Prelude.thy ===== *)
theory Prelude
  imports Main "HOL-Library.Word"
begin

text \<open>
  Shared types, fault values, memory writes and the byte/word conversions of
  \<^verbatim>\<open>misc.h\<close> that every component of the development uses.

  \<^item> C machine integers are words of their width (\<open>byte\<close>, \<open>u16\<close>, \<open>u32\<close>, \<open>u64\<close>);
    the target is LP64, so \<^verbatim>\<open>unsigned long\<close> and \<^verbatim>\<open>size_t\<close> have 64 bits. Buffer
    lengths that the code only compares and adds below the size of an object are \<open>nat\<close>.
  \<^item> A failed assertion, an exhausted allocator, a division by zero, an access outside an
    object, a null dereference a conversion to \<^verbatim>\<open>int\<close> of a
    value outside its range and a read of a union member that was not stored are values of
    \<open>fault\<close>, as is a loop that exceeds its step budget (no theorem lets that happen); a
    computation that can fault returns \<open>fault + 'a\<close>, with \<open>Inl\<close> for the fault.
  \<^item> A block of memory whose bytes may be indeterminate is a list of \<open>byte option\<close>.
\<close>

unbundle bit_operations_syntax

type_synonym byte = "8 word"
type_synonym u16 = "16 word"
type_synonym u32 = "32 word"
type_synonym u64 = "64 word"

datatype fault = AssertFail | OutOfMemory | DivideByZero | OutOfBounds
  | NullDeref | IntRange | WrongMember | StepLimit

type_synonym 'a res = "fault + 'a"

named_theorems endian_simps \<open>the definitions of the GET/PUT accessors\<close>
named_theorems res_simps \<open>rewriting of computations that may fault\<close>

abbreviation SIZE_MAX :: nat where
  "SIZE_MAX \<equiv> 18446744073709551615"

abbreviation INT_MAX :: nat where
  "INT_MAX \<equiv> 2147483647"

subsection \<open>Computations that may fault\<close>

definition res_bind :: "'a res \<Rightarrow> ('a \<Rightarrow> 'b res) \<Rightarrow> 'b res" where
  "res_bind m f = (case m of Inl e \<Rightarrow> Inl e | Inr x \<Rightarrow> f x)"

lemma res_bind_Inl [simp, res_simps]: "res_bind (Inl e) f = Inl e"
  by (simp add: res_bind_def)

lemma res_bind_Inr [simp, res_simps]: "res_bind (Inr x) f = f x"
  by (simp add: res_bind_def)

lemma res_bind_eq_Inr: "res_bind m f = Inr y \<longleftrightarrow> (\<exists>x. m = Inr x \<and> f x = Inr y)"
  by (cases m) auto

lemma res_bind_eq_Inl:
  "res_bind m f = Inl e \<longleftrightarrow> m = Inl e \<or> (\<exists>x. m = Inr x \<and> f x = Inl e)"
  by (cases m) auto

definition assert_res :: "bool \<Rightarrow> unit res" where
  "assert_res b = (if b then Inr () else Inl AssertFail)"

lemma assert_res_True [simp, res_simps]: "b \<Longrightarrow> assert_res b = Inr ()"
  by (simp add: assert_res_def)

lemma assert_res_eq_Inr: "assert_res b = Inr u \<longleftrightarrow> b"
  by (simp add: assert_res_def)

subsection \<open>Lists\<close>

lemma length_takeWhile_less:
  "x \<in> set xs \<Longrightarrow> \<not> P x \<Longrightarrow> length (takeWhile P xs) < length xs"
  by (induction xs) auto

subsection \<open>Writing into a block of memory\<close>

definition mem_write :: "'a list \<Rightarrow> nat \<Rightarrow> 'a list \<Rightarrow> 'a list res" where
  "mem_write blk i d =
     (if i + length d \<le> length blk
      then Inr (take i blk @ d @ drop (i + length d) blk) else Inl OutOfBounds)"

lemma mem_write_ok:
  "i + length d \<le> length blk \<Longrightarrow>
   mem_write blk i d = Inr (take i blk @ d @ drop (i + length d) blk)"
  by (simp add: mem_write_def)

lemma mem_write_eq_Inr:
  "mem_write blk i d = Inr blk' \<longleftrightarrow>
   i + length d \<le> length blk \<and> blk' = take i blk @ d @ drop (i + length d) blk"
  by (auto simp: mem_write_def)

lemma length_mem_write: "mem_write blk i d = Inr blk' \<Longrightarrow> length blk' = length blk"
  by (auto simp: mem_write_def split: if_splits)

subsection \<open>Big-endian and little-endian accessors of misc.h\<close>

definition GET_16BIT_MSB_FIRST :: "byte list \<Rightarrow> u16" where
  [endian_simps]: "GET_16BIT_MSB_FIRST p = ucast (p ! 1) OR push_bit 8 (ucast (p ! 0))"

definition PUT_16BIT_MSB_FIRST :: "u16 \<Rightarrow> byte list" where
  [endian_simps]: "PUT_16BIT_MSB_FIRST v = [ucast (drop_bit 8 v), ucast v]"

definition GET_32BIT_MSB_FIRST :: "byte list \<Rightarrow> u32" where
  [endian_simps]: "GET_32BIT_MSB_FIRST p =
     ucast (p ! 3) OR push_bit 8 (ucast (p ! 2)) OR
     push_bit 16 (ucast (p ! 1)) OR push_bit 24 (ucast (p ! 0))"

definition PUT_32BIT_MSB_FIRST :: "u32 \<Rightarrow> byte list" where
  [endian_simps]: "PUT_32BIT_MSB_FIRST v =
     [ucast (drop_bit 24 v), ucast (drop_bit 16 v), ucast (drop_bit 8 v), ucast v]"

definition GET_64BIT_MSB_FIRST :: "byte list \<Rightarrow> u64" where
  [endian_simps]: "GET_64BIT_MSB_FIRST p =
     ucast (p ! 7) OR push_bit 8 (ucast (p ! 6)) OR
     push_bit 16 (ucast (p ! 5)) OR push_bit 24 (ucast (p ! 4)) OR
     push_bit 32 (ucast (p ! 3)) OR push_bit 40 (ucast (p ! 2)) OR
     push_bit 48 (ucast (p ! 1)) OR push_bit 56 (ucast (p ! 0))"

definition PUT_64BIT_MSB_FIRST :: "u64 \<Rightarrow> byte list" where
  [endian_simps]: "PUT_64BIT_MSB_FIRST v =
     [ucast (drop_bit 56 v), ucast (drop_bit 48 v), ucast (drop_bit 40 v),
      ucast (drop_bit 32 v), ucast (drop_bit 24 v), ucast (drop_bit 16 v),
      ucast (drop_bit 8 v), ucast v]"

definition GET_16BIT_LSB_FIRST :: "byte list \<Rightarrow> u16" where
  [endian_simps]: "GET_16BIT_LSB_FIRST p = ucast (p ! 0) OR push_bit 8 (ucast (p ! 1))"

definition PUT_16BIT_LSB_FIRST :: "u16 \<Rightarrow> byte list" where
  [endian_simps]: "PUT_16BIT_LSB_FIRST v = [ucast v, ucast (drop_bit 8 v)]"

definition GET_32BIT_LSB_FIRST :: "byte list \<Rightarrow> u32" where
  [endian_simps]: "GET_32BIT_LSB_FIRST p =
     ucast (p ! 0) OR push_bit 8 (ucast (p ! 1)) OR
     push_bit 16 (ucast (p ! 2)) OR push_bit 24 (ucast (p ! 3))"

definition PUT_32BIT_LSB_FIRST :: "u32 \<Rightarrow> byte list" where
  [endian_simps]: "PUT_32BIT_LSB_FIRST v =
     [ucast v, ucast (drop_bit 8 v), ucast (drop_bit 16 v), ucast (drop_bit 24 v)]"

definition GET_64BIT_LSB_FIRST :: "byte list \<Rightarrow> u64" where
  [endian_simps]: "GET_64BIT_LSB_FIRST p =
     ucast (p ! 0) OR push_bit 8 (ucast (p ! 1)) OR
     push_bit 16 (ucast (p ! 2)) OR push_bit 24 (ucast (p ! 3)) OR
     push_bit 32 (ucast (p ! 4)) OR push_bit 40 (ucast (p ! 5)) OR
     push_bit 48 (ucast (p ! 6)) OR push_bit 56 (ucast (p ! 7))"

definition PUT_64BIT_LSB_FIRST :: "u64 \<Rightarrow> byte list" where
  [endian_simps]: "PUT_64BIT_LSB_FIRST v =
     [ucast v, ucast (drop_bit 8 v), ucast (drop_bit 16 v), ucast (drop_bit 24 v),
      ucast (drop_bit 32 v), ucast (drop_bit 40 v), ucast (drop_bit 48 v),
      ucast (drop_bit 56 v)]"

lemma length_PUT [simp]:
  "length (PUT_16BIT_MSB_FIRST v) = 2" "length (PUT_32BIT_MSB_FIRST w) = 4"
  "length (PUT_64BIT_MSB_FIRST x) = 8" "length (PUT_16BIT_LSB_FIRST v) = 2"
  "length (PUT_32BIT_LSB_FIRST w) = 4" "length (PUT_64BIT_LSB_FIRST x) = 8"
  by (simp_all add: endian_simps)

text \<open>
  Byte splitting: the bytes of a word, shifted back to their places, give the word. All
  six accessor pairs follow from joining adjacent bit ranges.
\<close>

lemma ucast_byte: "ucast (ucast (v :: 'a::len word) :: byte) = (take_bit 8 v :: 'a word)"
  by (rule bit_word_eqI) (auto simp: bit_simps dest: bit_imp_le_length)

lemma take_bit_join:
  "take_bit m v OR push_bit m (take_bit n (drop_bit m v)) = take_bit (m + n) (v :: 'a::len word)"
  by (rule bit_word_eqI) (auto simp: bit_simps)

lemma take_bit_full: "LENGTH('a) \<le> n \<Longrightarrow> take_bit n (v :: 'a::len word) = v"
  by (rule bit_word_eqI) (auto simp: bit_simps)

lemmas take_bit_join8 =
  take_bit_join [of 8 _ 8, simplified] take_bit_join [of 16 _ 8, simplified]
  take_bit_join [of 24 _ 8, simplified] take_bit_join [of 32 _ 8, simplified]
  take_bit_join [of 40 _ 8, simplified] take_bit_join [of 48 _ 8, simplified]
  take_bit_join [of 56 _ 8, simplified]

lemma GET_PUT_16 [simp]:
  "GET_16BIT_MSB_FIRST (PUT_16BIT_MSB_FIRST v) = v"
  "GET_16BIT_LSB_FIRST (PUT_16BIT_LSB_FIRST v) = v"
  by (simp_all add: endian_simps ucast_byte take_bit_join8 take_bit_full flip: or.assoc)

lemma GET_PUT_32 [simp]:
  "GET_32BIT_MSB_FIRST (PUT_32BIT_MSB_FIRST v) = v"
  "GET_32BIT_LSB_FIRST (PUT_32BIT_LSB_FIRST v) = v"
  by (simp_all add: endian_simps ucast_byte take_bit_join8 take_bit_full flip: or.assoc)

lemma GET_PUT_64 [simp]:
  "GET_64BIT_MSB_FIRST (PUT_64BIT_MSB_FIRST v) = v"
  "GET_64BIT_LSB_FIRST (PUT_64BIT_LSB_FIRST v) = v"
  by (simp_all add: endian_simps ucast_byte take_bit_join8 take_bit_full flip: or.assoc)

lemma GET_append:
  "2 \<le> length p \<Longrightarrow> GET_16BIT_MSB_FIRST (p @ q) = GET_16BIT_MSB_FIRST p"
  "4 \<le> length p \<Longrightarrow> GET_32BIT_MSB_FIRST (p @ q) = GET_32BIT_MSB_FIRST p"
  "8 \<le> length p \<Longrightarrow> GET_64BIT_MSB_FIRST (p @ q) = GET_64BIT_MSB_FIRST p"
  by (auto simp: endian_simps nth_append)

end
