(* ===== verification/Memory.thy ===== *)
theory Memory
  imports Prelude
begin

text \<open>
  The allocation wrappers of \<^verbatim>\<open>memory.c\<close>: \<open>safemalloc\<close>, \<open>saferealloc\<close> and the
  array-growing routine \<open>safegrowarray\<close> behind the \<^verbatim>\<open>sgrowarray\<close> macros. The C
  library's allocator is a parameter: \<open>alloc n\<close> says whether a request of \<open>n\<close> bytes
  can be met. Memory contents are byte lists with \<open>None\<close> for indeterminate bytes.
\<close>

definition safemalloc :: "(nat \<Rightarrow> bool) \<Rightarrow> nat \<Rightarrow> nat \<Rightarrow> nat \<Rightarrow> nat res" where
  "safemalloc alloc factor1 factor2 addend =
     (if factor2 = 0 then Inl DivideByZero
      else if factor1 > SIZE_MAX div factor2 then Inl OutOfMemory
      else let product = factor1 * factor2 in
        if addend > SIZE_MAX then Inl OutOfMemory
        else if product > SIZE_MAX - addend then Inl OutOfMemory
        else let sz = product + addend; sz = (if sz = 0 then 1 else sz) in
          if alloc sz then Inr sz else Inl OutOfMemory)"

definition saferealloc :: "(nat \<Rightarrow> bool) \<Rightarrow> nat \<Rightarrow> nat \<Rightarrow> nat res" where
  "saferealloc alloc n eltsize =
     (if eltsize = 0 then Inl DivideByZero
      else if n > INT_MAX div eltsize then Inl OutOfMemory
      else let sz = eltsize * n in if alloc sz then Inr sz else Inl OutOfMemory)"

definition smemclr :: "byte option list \<Rightarrow> nat \<Rightarrow> byte option list" where
  "smemclr b n = replicate (min n (length b)) (Some 0) @ drop n b"

text \<open>
  \<open>safegrowarray alloc blk allocated eltsize oldlen extralen secret\<close> returns the
  (possibly moved) block, the new element count and the blocks it explicitly hands back
  to \<^verbatim>\<open>sfree\<close>, with the bytes they hold at that moment.
\<close>

definition grow_size :: "nat \<Rightarrow> nat \<Rightarrow> nat \<Rightarrow> nat \<Rightarrow> nat" where
  "grow_size maxsize eltsize oldsize needed =
     (let increment = needed - oldsize;
          increment = (if increment < 256 div eltsize then 256 div eltsize else increment);
          increment = (if increment < oldsize div 16 then oldsize div 16 else increment);
          maxincr = maxsize - oldsize;
          increment = (if increment > maxincr then maxincr else increment)
      in oldsize + increment)"

definition safegrowarray ::
  "(nat \<Rightarrow> bool) \<Rightarrow> byte option list \<Rightarrow> nat \<Rightarrow> nat \<Rightarrow> nat \<Rightarrow> nat \<Rightarrow> bool \<Rightarrow>
   (byte option list \<times> nat \<times> byte option list list) res" where
  "safegrowarray alloc blk allocated eltsize oldlen extralen secret =
     res_bind (assert_res (eltsize > 0)) (\<lambda>_.
     let maxsize = SIZE_MAX div eltsize; oldsize = allocated in
     res_bind (assert_res (oldsize \<le> maxsize)) (\<lambda>_.
     res_bind (assert_res (oldlen \<le> maxsize)) (\<lambda>_.
     res_bind (assert_res (extralen \<le> maxsize - oldlen)) (\<lambda>_.
     if oldsize > oldlen + extralen then Inr (blk, allocated, [])
     else
       let newsize = grow_size maxsize eltsize oldsize (oldlen + extralen);
           grown = blk @ replicate ((newsize - oldsize) * eltsize) None in
       if secret then
         res_bind (safemalloc alloc newsize eltsize 0) (\<lambda>_.
           Inr (grown, newsize,
                if oldsize \<noteq> 0 then [smemclr blk (oldsize * eltsize)] else []))
       else
         res_bind (saferealloc alloc newsize eltsize) (\<lambda>_. Inr (grown, newsize, []))))))"

subsection \<open>Sizes\<close>

lemma safemalloc_InrD:
  "safemalloc alloc a b c = Inr n \<Longrightarrow>
   n = (if a * b + c = 0 then 1 else a * b + c) \<and> n \<le> SIZE_MAX \<and> alloc n"
  by (auto simp: safemalloc_def Let_def split: if_splits)

lemma safemalloc_exact:
  assumes "b \<noteq> 0" and "a * b + c \<le> SIZE_MAX" and "\<forall>k. alloc k"
  shows "safemalloc alloc a b c = Inr (if a * b + c = 0 then 1 else a * b + c)"
proof -
  have "a \<le> SIZE_MAX div b"
    using assms(1,2) by (simp add: less_eq_div_iff_mult_less_eq)
  then show ?thesis
    using assms by (auto simp: safemalloc_def Let_def)
qed

lemma grow_size_bounds:
  assumes "oldsize \<le> needed" and "needed \<le> maxsize"
  shows "needed \<le> grow_size maxsize eltsize oldsize needed"
    and "oldsize \<le> grow_size maxsize eltsize oldsize needed"
    and "grow_size maxsize eltsize oldsize needed \<le> maxsize"
  using assms by (auto simp: grow_size_def Let_def)

lemma grow_size_le:
  "oldsize \<le> needed \<Longrightarrow> eltsize = 1 \<Longrightarrow>
   grow_size maxsize eltsize oldsize needed \<le> needed + 256 + oldsize div 16"
  by (auto simp: grow_size_def Let_def)

lemma smemclr_all: "length b \<le> n \<Longrightarrow> smemclr b n = replicate (length b) (Some 0)"
  by (simp add: smemclr_def)

lemma safegrowarray_cases:
  assumes "safegrowarray alloc blk allocated eltsize oldlen extralen secret = Inr (blk', n, rel)"
  obtains
    (enough) "oldlen + extralen < allocated" "blk' = blk" "n = allocated" "rel = []"
  | (grown) "allocated \<le> oldlen + extralen" "eltsize > 0"
      "oldlen + extralen \<le> SIZE_MAX div eltsize"
      "n = grow_size (SIZE_MAX div eltsize) eltsize allocated (oldlen + extralen)"
      "blk' = blk @ replicate ((n - allocated) * eltsize) None"
      "rel = (if secret \<and> allocated \<noteq> 0 then [smemclr blk (allocated * eltsize)] else [])"
  using assms
  by (fastforce simp: safegrowarray_def res_bind_eq_Inr assert_res_eq_Inr Let_def
      split: if_splits)

lemma safegrowarray_size:
  assumes "safegrowarray alloc blk allocated eltsize oldlen extralen secret = Inr (blk', n, rel)"
    and "length blk = allocated * eltsize"
  shows "oldlen + extralen \<le> n" "allocated \<le> n" "length blk' = n * eltsize"
    "take (allocated * eltsize) blk' = blk"
proof -
  have "oldlen + extralen \<le> n \<and> allocated \<le> n \<and> length blk' = n * eltsize \<and>
        take (allocated * eltsize) blk' = blk"
    using assms(1)
  proof (cases rule: safegrowarray_cases)
    case enough
    with assms(2) show ?thesis by simp
  next
    case grown
    then have "oldlen + extralen \<le> n" "allocated \<le> n"
      using grow_size_bounds [OF grown(1,3)] by simp_all
    with grown assms(2) show ?thesis
      by (simp add: flip: add_mult_distrib)
  qed
  then show "oldlen + extralen \<le> n" "allocated \<le> n" "length blk' = n * eltsize"
    "take (allocated * eltsize) blk' = blk" by blast+
qed

lemma safegrowarray_progress:
  assumes "safegrowarray alloc blk allocated 1 oldlen extralen secret = Inr (blk', n, rel)"
    and "allocated < oldlen + extralen"
  shows "allocated < n" "n \<le> SIZE_MAX"
proof -
  have "allocated < n \<and> n \<le> SIZE_MAX"
    using assms(1)
  proof (cases rule: safegrowarray_cases)
    case enough
    with assms(2) show ?thesis by simp
  next
    case grown
    with assms(2) show ?thesis using grow_size_bounds [OF grown(1,3), of 1] by simp
  qed
  then show "allocated < n" "n \<le> SIZE_MAX" by blast+
qed

lemma safegrowarray_faults:
  "safegrowarray alloc blk allocated eltsize oldlen extralen secret = Inl e \<Longrightarrow>
   e \<in> {AssertFail, OutOfMemory}"
  by (auto simp: safegrowarray_def res_bind_eq_Inl assert_res_def safemalloc_def
      saferealloc_def Let_def split: if_splits)

lemma safegrowarray_succeeds:
  assumes "\<forall>n. alloc n" and "allocated \<le> 2 ^ 30" and "oldlen + extralen \<le> 2 ^ 30"
  shows "\<exists>r. safegrowarray alloc blk allocated 1 oldlen extralen secret = Inr r"
proof (cases "allocated > oldlen + extralen")
  case True
  with assms show ?thesis by (simp add: safegrowarray_def Let_def)
next
  case False
  let ?n = "grow_size SIZE_MAX 1 allocated (oldlen + extralen)"
  have "?n \<le> oldlen + extralen + 256 + allocated div 16"
    using False by (intro grow_size_le) auto
  then have n: "?n \<le> INT_MAX" using assms(2,3) by simp
  have "safemalloc alloc ?n 1 0 = Inr (if ?n * 1 + 0 = 0 then 1 else ?n * 1 + 0)"
    using n assms(1) by (intro safemalloc_exact) auto
  moreover have "saferealloc alloc ?n 1 = Inr ?n"
    using n assms(1) by (simp add: saferealloc_def)
  ultimately show ?thesis
    using False assms by (auto simp: safegrowarray_def Let_def simp del: One_nat_def)
qed

subsection \<open>Properties\<close>

text \<open>
  C28. Growing an array: whenever \<open>safegrowarray\<close> returns, the array has room for
  \<open>oldlen + extralen\<close> elements, it has not shrunk, its byte size does not overflow
  \<^verbatim>\<open>size_t\<close> and its old contents are kept.  When a secret array that had an allocation is
  grown, its old block is handed back to the allocator, once and with every byte zero; in every
  other case no block is handed back here (the array stays, there was none, or it is not secret
  and the C library's reallocation disposes of it).
\<close>

theorem safegrowarray_correct:
  assumes "safegrowarray alloc blk allocated eltsize oldlen extralen secret = Inr (blk', n, rel)"
    and "length blk = allocated * eltsize"
  shows "oldlen + extralen \<le> n \<and> allocated \<le> n \<and> n * eltsize \<le> SIZE_MAX \<and>
    length blk' = n * eltsize \<and> take (length blk) blk' = blk \<and>
    rel = (if secret \<and> allocated \<noteq> 0 \<and> allocated \<le> oldlen + extralen then [replicate (length blk) (Some 0)] else [])"
proof -
  have le: "k * eltsize \<le> SIZE_MAX" if "k \<le> SIZE_MAX div eltsize" for k
    using that by (meson le_trans mult_le_mono1 div_times_less_eq_dividend)
  have al: "allocated \<le> SIZE_MAX div eltsize"
    using assms(1)
    by (auto simp: safegrowarray_def res_bind_eq_Inr assert_res_eq_Inr Let_def)
  have "n \<le> SIZE_MAX div eltsize \<and>
    rel = (if secret \<and> allocated \<noteq> 0 \<and> allocated \<le> oldlen + extralen then [replicate (length blk) (Some 0)] else [])"
    using assms(1)
  proof (cases rule: safegrowarray_cases)
    case enough
    with al show ?thesis by simp
  next
    case grown
    have "n \<le> SIZE_MAX div eltsize"
      using grow_size_bounds(3) [OF grown(1,3)] grown(4) by simp
    with grown(1,6) assms(2) show ?thesis by (simp add: smemclr_all)
  qed
  with le safegrowarray_size [OF assms] assms(2) show ?thesis by simp
qed

theorem safegrowarray_correct_witness:
  "safegrowarray (\<lambda>_. True) [Some 7, Some 8] 2 1 2 1 True =
     Inr ([Some 7, Some 8] @ replicate 256 None, 258, [[Some 0, Some 0]]) \<and>
   (3::nat) \<le> 258"
proof -
  have run: "safegrowarray (\<lambda>_. True) [Some 7, Some 8] 2 1 2 1 True =
     Inr ([Some 7, Some 8] @ replicate 256 None, 258, [[Some 0, Some 0]])"
    by (simp add: safegrowarray_def grow_size_def safemalloc_def smemclr_def Let_def
        numeral_2_eq_2)
  show ?thesis using safegrowarray_correct [OF run] run by simp
qed

end
