(* ===== verification/Strbuf.thy ===== *)
theory Strbuf
  imports Memory
begin

text \<open>
  The growable string buffer \<^verbatim>\<open>strbuf\<close> of \<^verbatim>\<open>utils.c\<close> with its formatted append.
  The record holds the hidden implementation structure: the allocated size, the memory
  block, the logical length and the no-move flag. Every store into the block goes through
  \<open>mem_write\<close>, so a store past the allocation is the fault \<open>OutOfBounds\<close>.
\<close>

record strbuf =
  sb_size :: nat
  sb_s :: "byte option list"
  sb_len :: nat
  sb_nm :: bool

definition strbuf_append :: "(nat \<Rightarrow> bool) \<Rightarrow> strbuf \<Rightarrow> nat \<Rightarrow> (strbuf \<times> nat) res" where
  "strbuf_append alloc buf n =
     res_bind (safegrowarray alloc (sb_s buf) (sb_size buf) 1 (sb_len buf + 1) n (sb_nm buf))
       (\<lambda>(s, sz, _).
         let toret = sb_len buf; newlen = sb_len buf + n in
         res_bind (mem_write s newlen [Some 0]) (\<lambda>s.
           Inr (buf\<lparr>sb_s := s, sb_size := sz, sb_len := newlen\<rparr>, toret)))"

definition strbuf_shrink_to :: "strbuf \<Rightarrow> nat \<Rightarrow> strbuf res" where
  "strbuf_shrink_to buf new_len =
     res_bind (assert_res (new_len \<le> sb_len buf)) (\<lambda>_.
     res_bind (mem_write (sb_s buf) new_len [Some 0]) (\<lambda>s.
       Inr (buf\<lparr>sb_len := new_len, sb_s := s\<rparr>)))"

definition strbuf_shrink_by :: "strbuf \<Rightarrow> nat \<Rightarrow> strbuf res" where
  "strbuf_shrink_by buf amount_to_remove =
     res_bind (assert_res (amount_to_remove \<le> sb_len buf)) (\<lambda>_.
     let newlen = sb_len buf - amount_to_remove in
     res_bind (mem_write (sb_s buf) newlen [Some 0]) (\<lambda>s.
       Inr (buf\<lparr>sb_len := newlen, sb_s := s\<rparr>)))"

definition strbuf_chomp :: "strbuf \<Rightarrow> byte \<Rightarrow> (strbuf \<times> bool) res" where
  "strbuf_chomp buf char_to_remove =
     (if sb_len buf > 0 \<and> sb_s buf ! (sb_len buf - 1) = Some char_to_remove
      then res_bind (strbuf_shrink_by buf 1) (\<lambda>buf. Inr (buf, True))
      else Inr (buf, False))"

definition strbuf_BinarySink_write ::
  "(nat \<Rightarrow> bool) \<Rightarrow> strbuf \<Rightarrow> byte list \<Rightarrow> strbuf res" where
  "strbuf_BinarySink_write alloc buf data =
     res_bind (strbuf_append alloc buf (length data)) (\<lambda>(buf, off).
     res_bind (mem_write (sb_s buf) off (map Some data)) (\<lambda>s. Inr (buf\<lparr>sb_s := s\<rparr>)))"

definition strbuf_new_general :: "(nat \<Rightarrow> bool) \<Rightarrow> bool \<Rightarrow> strbuf res" where
  "strbuf_new_general alloc nm =
     res_bind (safemalloc alloc 512 1 0) (\<lambda>n.
     res_bind (mem_write (replicate n None) 0 [Some 0]) (\<lambda>s.
       Inr \<lparr>sb_size = 512, sb_s = s, sb_len = 0, sb_nm = nm\<rparr>))"

definition strbuf_new :: "(nat \<Rightarrow> bool) \<Rightarrow> strbuf res" where
  "strbuf_new alloc = strbuf_new_general alloc False"

definition strbuf_new_nm :: "(nat \<Rightarrow> bool) \<Rightarrow> strbuf res" where
  "strbuf_new_nm alloc = strbuf_new_general alloc True"

definition strbuf_free :: "strbuf \<Rightarrow> byte option list" where
  \<comment> \<open>the bytes of the block at the moment it is handed back to the allocator\<close>
  "strbuf_free buf = smemclr (sb_s buf) (sb_size buf)"

definition strbuf_to_str :: "strbuf \<Rightarrow> byte option list" where
  "strbuf_to_str buf = sb_s buf"

definition strbuf_new_for_agent_query :: "(nat \<Rightarrow> bool) \<Rightarrow> strbuf res" where
  "strbuf_new_for_agent_query alloc =
     res_bind (strbuf_new alloc) (\<lambda>buf.
     res_bind (strbuf_append alloc buf 4) (\<lambda>(buf, _). Inr buf))"

definition strbuf_finalise_agent_query :: "strbuf \<Rightarrow> strbuf res" where
  "strbuf_finalise_agent_query buf =
     res_bind (assert_res (sb_len buf \<ge> 5)) (\<lambda>_.
     res_bind (mem_write (sb_s buf) 0
         (map Some (PUT_32BIT_MSB_FIRST (of_nat (sb_len buf - 4))))) (\<lambda>s.
       Inr (buf\<lparr>sb_s := s\<rparr>)))"

subsection \<open>Formatted output\<close>

text \<open>
  The C library's \<^verbatim>\<open>vsnprintf\<close> on a format whose expansion is \<open>out\<close>: it stores as much
  of the expansion as fits before a terminating NUL and returns the whole length, or a
  negative value when that length is not an \<^verbatim>\<open>int\<close>.
\<close>

definition vsnprintf ::
  "byte option list \<Rightarrow> nat \<Rightarrow> nat \<Rightarrow> byte list \<Rightarrow> (byte option list \<times> int) res" where
  "vsnprintf blk off avail out =
     (let ret = (if length out \<le> INT_MAX then int (length out) else -1) in
      if avail = 0 then Inr (blk, ret)
      else res_bind (mem_write blk off (map Some (take (avail - 1) out) @ [Some 0]))
             (\<lambda>blk. Inr (blk, ret)))"

function dupvprintf_loop ::
  "(nat \<Rightarrow> bool) \<Rightarrow> byte option list \<Rightarrow> nat \<Rightarrow> nat \<Rightarrow> byte list \<Rightarrow>
   (byte option list \<times> nat) res" where
  "dupvprintf_loop alloc buf oldlen sz out =
     (case vsnprintf buf oldlen (sz - oldlen) out of
        Inl e \<Rightarrow> Inl e
      | Inr (buf, len) \<Rightarrow>
          if len \<ge> 0 \<and> len < int sz then Inr (buf, sz)
          else if len > 0 then
            (case safegrowarray alloc buf sz 1 (oldlen + 1) (nat len) True of
               Inl e \<Rightarrow> Inl e
             | Inr (buf, sz, _) \<Rightarrow> dupvprintf_loop alloc buf oldlen sz out)
          else
            (case safegrowarray alloc buf sz 1 sz 1 True of
               Inl e \<Rightarrow> Inl e
             | Inr (buf, sz, _) \<Rightarrow> dupvprintf_loop alloc buf oldlen sz out))"
  by pat_completeness auto
termination dupvprintf_loop
proof (relation "measure (\<lambda>(alloc, buf, oldlen, sz, out). SIZE_MAX - sz)", goal_cases)
  case (2 alloc buf oldlen sz out p buf' len q buf'' r sz' rel)
  then have "safegrowarray alloc buf' sz 1 (oldlen + 1) (nat len) True = Inr (buf'', sz', rel)"
    and "sz < oldlen + 1 + nat len" by auto
  from safegrowarray_progress [OF this] show ?case by simp
next
  case (3 alloc buf oldlen sz out p buf' len q buf'' r sz' rel)
  then have "safegrowarray alloc buf' sz 1 sz 1 True = Inr (buf'', sz', rel)" by simp
  from safegrowarray_progress [OF this] show ?case by simp
qed simp

declare dupvprintf_loop.simps [simp del]

definition dupvprintf_inner ::
  "(nat \<Rightarrow> bool) \<Rightarrow> byte option list \<Rightarrow> nat \<Rightarrow> nat \<Rightarrow> byte list \<Rightarrow>
   (byte option list \<times> nat) res" where
  "dupvprintf_inner alloc buf oldlen sz out =
     res_bind (safegrowarray alloc buf sz 1 oldlen 512 True) (\<lambda>(buf, sz, _).
       dupvprintf_loop alloc buf oldlen sz out)"

definition c_strlen :: "byte option list \<Rightarrow> nat \<Rightarrow> nat res" where
  "c_strlen blk off =
     (if Some 0 \<in> set (drop off blk)
      then Inr (length (takeWhile (\<lambda>c. c \<noteq> Some 0) (drop off blk))) else Inl OutOfBounds)"

definition strbuf_catfv :: "(nat \<Rightarrow> bool) \<Rightarrow> strbuf \<Rightarrow> byte list \<Rightarrow> strbuf res" where
  "strbuf_catfv alloc buf out =
     res_bind (dupvprintf_inner alloc (sb_s buf) (sb_len buf) (sb_size buf) out) (\<lambda>(s, sz).
     res_bind (c_strlen s (sb_len buf)) (\<lambda>n.
       Inr (buf\<lparr>sb_s := s, sb_size := sz, sb_len := sb_len buf + n\<rparr>)))"

subsection \<open>Invariant and contents\<close>

definition strbuf_ok :: "strbuf \<Rightarrow> bool" where
  "strbuf_ok b \<longleftrightarrow> length (sb_s b) = sb_size b \<and> sb_len b < sb_size b \<and>
     sb_s b ! sb_len b = Some 0"

definition strbuf_contents :: "strbuf \<Rightarrow> byte option list" where
  "strbuf_contents b = take (sb_len b) (sb_s b)"

lemma strbuf_append_ok:
  assumes ok: "strbuf_ok b" and app: "strbuf_append alloc b n = Inr (b', off)"
  shows "strbuf_ok b'" "off = sb_len b" "sb_len b' = sb_len b + n" "sb_nm b' = sb_nm b"
    "take (sb_len b) (sb_s b') = strbuf_contents b"
proof -
  from app obtain s sz rel where
    g: "safegrowarray alloc (sb_s b) (sb_size b) 1 (sb_len b + 1) n (sb_nm b) = Inr (s, sz, rel)"
    and w: "sb_len b + n < length s" 
    and b': "b' = b\<lparr>sb_s := take (sb_len b + n) s @ [Some 0] @ drop (sb_len b + n + 1) s, sb_size := sz, sb_len := sb_len b + n\<rparr>" "off = sb_len b"
    by (auto simp: strbuf_append_def res_bind_eq_Inr mem_write_eq_Inr Let_def)
  from safegrowarray_size [OF g] ok
  have sz: "sb_len b + 1 + n \<le> sz" "length s = sz" "take (sb_size b) s = sb_s b"
    by (auto simp: strbuf_ok_def)
  have "take (sb_len b) s = strbuf_contents b"
    using sz(3) ok by (metis strbuf_contents_def strbuf_ok_def less_imp_le min.absorb1 take_take)
  with sz w show "strbuf_ok b'" "off = sb_len b" "sb_len b' = sb_len b + n" "sb_nm b' = sb_nm b"
    "take (sb_len b) (sb_s b') = strbuf_contents b"
    by (auto simp: b' strbuf_ok_def nth_append min_def)
qed

lemma strbuf_append_faults:
  assumes ok: "strbuf_ok b" and app: "strbuf_append alloc b n = Inl e"
  shows "e \<in> {AssertFail, OutOfMemory}"
  using app
proof (cases "safegrowarray alloc (sb_s b) (sb_size b) 1 (sb_len b + 1) n (sb_nm b)")
  case (Inl e')
  with app show ?thesis using safegrowarray_faults [OF Inl] by (simp add: strbuf_append_def)
next
  case (Inr r)
  obtain s sz rel where r: "r = (s, sz, rel)" by (cases r)
  from safegrowarray_size [OF Inr [unfolded r]] ok
  have "sb_len b + n + 1 \<le> length s" by (simp add: strbuf_ok_def)
  then show ?thesis using app Inr r by (simp add: strbuf_append_def mem_write_ok Let_def)
qed

lemma strbuf_write_ok:
  assumes ok: "strbuf_ok b" and w: "strbuf_BinarySink_write alloc b d = Inr b'"
  shows "strbuf_ok b' \<and> strbuf_contents b' = strbuf_contents b @ map Some d"
proof -
  from w obtain b1 off s where a: "strbuf_append alloc b (length d) = Inr (b1, off)"
    and s: "mem_write (sb_s b1) off (map Some d) = Inr s" and b': "b' = b1\<lparr>sb_s := s\<rparr>"
    by (auto simp: strbuf_BinarySink_write_def res_bind_eq_Inr)
  note a1 = strbuf_append_ok [OF ok a]
  from s a1 have "s = strbuf_contents b @ map Some d @ drop (sb_len b + length d) (sb_s b1)"
    by (simp add: mem_write_eq_Inr)
  moreover have "length (strbuf_contents b) = sb_len b"
    using ok by (simp add: strbuf_ok_def strbuf_contents_def)
  ultimately show ?thesis
    using a1(1,3) by (auto simp: b' strbuf_ok_def strbuf_contents_def nth_append)
qed

lemma strbuf_write_faults:
  assumes ok: "strbuf_ok b" and w: "strbuf_BinarySink_write alloc b d = Inl e"
  shows "e \<in> {AssertFail, OutOfMemory}"
proof (cases "strbuf_append alloc b (length d)")
  case (Inl e')
  with w show ?thesis using strbuf_append_faults [OF ok Inl]
    by (simp add: strbuf_BinarySink_write_def)
next
  case (Inr r)
  obtain b1 off where r: "r = (b1, off)" by (cases r)
  note a1 = strbuf_append_ok [OF ok Inr [unfolded r]]
  then have "off + length d \<le> length (sb_s b1)" by (simp add: strbuf_ok_def)
  then show ?thesis using w Inr r by (simp add: strbuf_BinarySink_write_def mem_write_ok)
qed

lemma strbuf_write_succeeds:
  assumes ok: "strbuf_ok b" and "\<forall>n. alloc n" and "sb_size b \<le> 2 ^ 30"
    and "sb_len b + length d < 2 ^ 30"
  shows "\<exists>b'. strbuf_BinarySink_write alloc b d = Inr b'"
proof -
  have "sb_len b + 1 + length d \<le> 2 ^ 30" using assms(4) by simp
  from safegrowarray_succeeds [OF assms(2,3) this, of "sb_s b" "sb_nm b"] obtain s sz rel where
    g: "safegrowarray alloc (sb_s b) (sb_size b) 1 (sb_len b + 1) (length d) (sb_nm b) = Inr (s, sz, rel)"
    by auto
  with safegrowarray_size [OF g] ok show ?thesis
    by (simp add: strbuf_BinarySink_write_def strbuf_append_def strbuf_ok_def mem_write_def Let_def)
qed
lemma strbuf_new_ok:
  assumes "strbuf_new_general alloc nm = Inr b"
  shows "strbuf_ok b" "strbuf_contents b = []" "sb_nm b = nm" "sb_size b = 512"
  using assms
  by (auto simp: strbuf_new_general_def strbuf_ok_def strbuf_contents_def res_bind_eq_Inr
      mem_write_eq_Inr dest!: safemalloc_InrD)

lemma strbuf_shrink_ok:
  assumes "strbuf_ok b"
  shows "n \<le> sb_len b \<Longrightarrow> \<exists>b'. strbuf_shrink_to b n = Inr b' \<and> strbuf_ok b' \<and>
           strbuf_contents b' = take n (strbuf_contents b)"
    and "n \<le> sb_len b \<Longrightarrow> \<exists>b'. strbuf_shrink_by b n = Inr b' \<and> strbuf_ok b' \<and>
           strbuf_contents b' = take (sb_len b - n) (strbuf_contents b)"
  using assms
  by (auto simp: strbuf_shrink_to_def strbuf_shrink_by_def strbuf_ok_def strbuf_contents_def
      mem_write_ok nth_append min_def Let_def)

lemma strbuf_chomp_ok:
  assumes "strbuf_ok b"
  shows "\<exists>b'. strbuf_chomp b c = Inr (b', sb_len b > 0 \<and> last (strbuf_contents b) = Some c) \<and>
     strbuf_ok b' \<and>
     strbuf_contents b' = (if sb_len b > 0 \<and> last (strbuf_contents b) = Some c
        then butlast (strbuf_contents b) else strbuf_contents b)"
proof -
  have len: "length (strbuf_contents b) = sb_len b"
    using assms by (simp add: strbuf_ok_def strbuf_contents_def)
  have "last (strbuf_contents b) = sb_s b ! (sb_len b - 1)"
    "butlast (strbuf_contents b) = take (sb_len b - 1) (strbuf_contents b)" if "sb_len b > 0"
  proof -
    have "last (strbuf_contents b) = strbuf_contents b ! (sb_len b - 1)"
      using len that by (subst last_conv_nth) auto
    then show "last (strbuf_contents b) = sb_s b ! (sb_len b - 1)"
      using that by (simp add: strbuf_contents_def)
    show "butlast (strbuf_contents b) = take (sb_len b - 1) (strbuf_contents b)"
      by (simp add: butlast_conv_take len)
  qed
  then show ?thesis
    using strbuf_shrink_ok(2) [OF assms, of 1] assms by (auto simp: strbuf_chomp_def)
qed
subsection \<open>What a formatted append stores\<close>

definition vsn_block :: "byte option list \<Rightarrow> nat \<Rightarrow> nat \<Rightarrow> byte list \<Rightarrow> byte option list" where
  "vsn_block buf off avail out = take off buf @ map Some (take (avail - 1) out) @ [Some 0] @
         drop (off + min (length out) (avail - 1) + 1) buf"

lemma length_vsn_block:
  "off < length buf \<Longrightarrow> length (vsn_block buf off (length buf - off) out) = length buf"
  by (auto simp: vsn_block_def)

lemma vsnprintf_Inr:
  assumes "oldlen < length buf" "length out \<le> INT_MAX"
  shows "vsnprintf buf oldlen (length buf - oldlen) out =
    Inr (vsn_block buf oldlen (length buf - oldlen) out, int (length out))"
  using assms by (auto simp: vsnprintf_def vsn_block_def mem_write_def Let_def min.commute)

lemma dupvprintf_loop_fits:
  assumes "oldlen < length buf" "length out \<le> INT_MAX" "length out < length buf"
  shows "dupvprintf_loop alloc buf oldlen (length buf) out =
    Inr (vsn_block buf oldlen (length buf - oldlen) out, length buf)"
  using assms by (simp add: dupvprintf_loop.simps [of alloc buf] vsnprintf_Inr)

lemma dupvprintf_loop_grows:
  assumes "oldlen < length buf" "length out \<le> INT_MAX" "length buf \<le> length out"
  shows "dupvprintf_loop alloc buf oldlen (length buf) out =
    (case safegrowarray alloc (vsn_block buf oldlen (length buf - oldlen) out) (length buf) 1
            (oldlen + 1) (length out) True of
       Inl e \<Rightarrow> Inl e | Inr (buf, sz, _) \<Rightarrow> dupvprintf_loop alloc buf oldlen sz out)"
proof -
  have "out \<noteq> []" using assms by auto
  then show ?thesis using assms by (simp add: dupvprintf_loop.simps [of alloc buf] vsnprintf_Inr)
qed

definition catf_room :: "nat \<Rightarrow> nat \<Rightarrow> nat \<Rightarrow> nat" where
  "catf_room oldlen sz n = (if n < sz then min n (sz - oldlen - 1) else n)"

lemma vsn_block_decomp:
  assumes "oldlen < length buf" and "catf_room oldlen sz (length out) = min (length out) (length buf - oldlen - 1)"
  shows "\<exists>rest. vsn_block buf oldlen (length buf - oldlen) out =
    take oldlen buf @ map Some (take (catf_room oldlen sz (length out)) out) @ [Some 0] @ rest"
  unfolding assms(2) vsn_block_def
  by (simp add: min_def take_all)

lemma dupvprintf_loop_result:
  assumes "oldlen < length buf" "length out \<le> INT_MAX"
    and run: "dupvprintf_loop alloc buf oldlen (length buf) out = Inr (buf', sz')"
  shows "length buf' = sz' \<and> (\<exists>rest. buf' = take oldlen buf @ 
    map Some (take (catf_room oldlen (length buf) (length out)) out) @ [Some 0] @ rest)"
proof (cases "length out < length buf")
  case True
  have "catf_room oldlen (length buf) (length out) = min (length out) (length buf - oldlen - 1)"
    using True by (simp add: catf_room_def)
  from vsn_block_decomp [OF assms(1) this] show ?thesis
    using run dupvprintf_loop_fits [OF assms(1,2) True] length_vsn_block [OF assms(1)] by auto
next
  case False
  let ?b1 = "vsn_block buf oldlen (length buf - oldlen) out"
  from False run obtain b2 n rel where
    g: "safegrowarray alloc ?b1 (length buf) 1 (oldlen + 1) (length out) True = Inr (b2, n, rel)"
    and l: "dupvprintf_loop alloc b2 oldlen n out = Inr (buf', sz')"
    using dupvprintf_loop_grows [OF assms(1,2), of alloc] by (auto split: sum.splits)
  from safegrowarray_size [OF g] length_vsn_block [OF assms(1)]
  have n: "oldlen + 1 + length out \<le> n" "length b2 = n" "take (length buf) b2 = ?b1" by simp_all
  have on: "oldlen < length b2" "length out < length b2" using n by simp_all
  have "take oldlen b2 = take oldlen (take (length buf) b2)" using assms(1) by (simp add: min_def)
  also have "\<dots> = take oldlen buf" using assms(1) unfolding n(3) by (simp add: vsn_block_def)
  finally have t: "take oldlen b2 = take oldlen buf" .
  have room: "catf_room oldlen (length buf) (length out) = min (length out) (length b2 - oldlen - 1)"
    using n False by (simp add: catf_room_def)
  show ?thesis
    using l dupvprintf_loop_fits [OF on(1) assms(2) on(2), of alloc] n(2) length_vsn_block [OF on(1)]
      vsn_block_decomp [OF on(1) room] t by auto
qed

lemma takeWhile_NUL:
  "0 \<notin> set out \<Longrightarrow> takeWhile (\<lambda>c. c \<noteq> Some 0) (map Some out @ Some 0 # rest) = map Some out"
  by (induction out) auto

lemma strbuf_catfv_room:
  assumes ok: "strbuf_ok b" and out: "length out \<le> INT_MAX" "0 \<notin> set out"
    and g: "safegrowarray alloc (sb_s b) (sb_size b) 1 (sb_len b) 512 True = Inr (s1, sz1, rel)"
    and run: "strbuf_catfv alloc b out = Inr b'"
  shows "strbuf_ok b'"
    "strbuf_contents b' = strbuf_contents b @ map Some (take (catf_room (sb_len b) sz1 (length out)) out)"
proof -
  let ?k = "catf_room (sb_len b) sz1 (length out)"
  from run g obtain s sz n where
    l: "dupvprintf_loop alloc s1 (sb_len b) sz1 out = Inr (s, sz)" and n: "c_strlen s (sb_len b) = Inr n"
    and b': "b' = b\<lparr>sb_s := s, sb_size := sz, sb_len := sb_len b + n\<rparr>"
    by (auto simp: strbuf_catfv_def dupvprintf_inner_def res_bind_eq_Inr)
  from safegrowarray_size [OF g] ok
  have s1: "sb_len b + 512 \<le> sz1" "length s1 = sz1" "take (sb_size b) s1 = sb_s b"
    by (auto simp: strbuf_ok_def)
  then have t: "take (sb_len b) s1 = strbuf_contents b" "sb_len b < length s1" "length (strbuf_contents b) = sb_len b"
    using ok by (auto simp: strbuf_contents_def strbuf_ok_def dest: arg_cong [where f = "take (sb_len b)"])
  from dupvprintf_loop_result [OF t(2) out(1), unfolded s1(2), OF l] obtain rest where
    s: "length s = sz" "s = strbuf_contents b @ map Some (take ?k out) @ Some 0 # rest" 
    using t(1) by auto
  have "0 \<notin> set (take ?k out)" using out(2) by (meson in_set_takeD)
  then have n': "n = length (take ?k out)" using n t(3)
    by (auto simp: c_strlen_def s(2) takeWhile_NUL split: if_splits)
  show "strbuf_ok b'" "strbuf_contents b' = strbuf_contents b @ map Some (take ?k out)"
    using s t(3) by (auto simp: b' strbuf_ok_def strbuf_contents_def n' nth_append)
qed

subsection \<open>Properties\<close>

text \<open>
  C27. Memory safety of the string buffer: on a well-formed buffer, appending data never
  stores outside the allocation; it either keeps the buffer well-formed with exactly the
  data added at the end, or stops because the allocator is exhausted or the size check of
  the array code fails.
\<close>

theorem strbuf_write_safe:
  assumes "strbuf_ok b"
  shows "case strbuf_BinarySink_write alloc b d of
      Inl e \<Rightarrow> e = AssertFail \<or> e = OutOfMemory
    | Inr b' \<Rightarrow> strbuf_ok b' \<and> strbuf_contents b' = strbuf_contents b @ map Some d"
  using strbuf_write_ok [OF assms] strbuf_write_faults [OF assms]
  by (auto split: sum.split)

definition sb_sample :: strbuf where
  "sb_sample = \<lparr>sb_size = 1, sb_s = [Some 0], sb_len = 0, sb_nm = False\<rparr>"

lemma sb_sample_ok: "strbuf_ok sb_sample" "strbuf_contents sb_sample = []" "sb_len sb_sample = 0"
  "sb_size sb_sample \<le> 2 ^ 30"
  by (simp_all add: sb_sample_def strbuf_ok_def strbuf_contents_def)

theorem strbuf_write_safe_witness:
  "\<exists>b'. strbuf_BinarySink_write (\<lambda>_. True) sb_sample [104, 105] = Inr b' \<and> strbuf_ok b' \<and>
     strbuf_contents b' = [Some 104, Some 105]"
proof -
  obtain b' where b': "strbuf_BinarySink_write (\<lambda>_. True) sb_sample [104, 105] = Inr b'"
    using strbuf_write_succeeds [OF sb_sample_ok(1) _ sb_sample_ok(4),
        where alloc = "\<lambda>_. True" and d = "[104, 105]"]
    by (auto simp: sb_sample_ok)
  show ?thesis
    using strbuf_write_safe [OF sb_sample_ok(1), where alloc = "\<lambda>_. True" and d = "[104, 105]"] b'
    by (simp add: sb_sample_ok)
qed

text \<open>
  C29. What a formatted append really stores. The test for success compares the formatted
  length with the whole buffer size instead of the room after the existing text, so an
  expansion that is shorter than the buffer but longer than that room is cut: exactly
  \<open>catf_room\<close> bytes of it are kept, and the buffer stays well-formed.
\<close>

theorem strbuf_catfv_stores:
  assumes "strbuf_ok b" and "length out \<le> INT_MAX" and "0 \<notin> set out"
    and "safegrowarray alloc (sb_s b) (sb_size b) 1 (sb_len b) 512 True = Inr (s1, sz1, rel)"
    and "strbuf_catfv alloc b out = Inr b'"
  shows "strbuf_ok b' \<and>
    strbuf_contents b' = strbuf_contents b @
      map Some (if length out < sz1 then take (sz1 - sb_len b - 1) out else out)"
proof -
  have "take (catf_room (sb_len b) sz1 (length out)) out =
    (if length out < sz1 then take (sz1 - sb_len b - 1) out else out)"
    by (auto simp: catf_room_def min_def)
  with strbuf_catfv_room [OF assms] show ?thesis by simp
qed

definition sb_long :: strbuf where
  "sb_long = \<lparr>sb_size = 700, sb_s = replicate 600 (Some 65) @ Some 0 # replicate 99 None,
     sb_len = 600, sb_nm = False\<rparr>"

theorem strbuf_catfv_stores_witness:
  "\<exists>b'. strbuf_catfv (\<lambda>_. True) sb_long (replicate 600 66) = Inr b' \<and>
     strbuf_contents b' = replicate 600 (Some 65) @ replicate 511 (Some 66)"
proof -
  let ?al = "\<lambda>_ :: nat. True" and ?out = "replicate 600 (66 :: byte)"
  have ok: "strbuf_ok sb_long"
    by (simp add: sb_long_def strbuf_ok_def nth_append)
  have g: "safegrowarray ?al (sb_s sb_long) (sb_size sb_long) 1 (sb_len sb_long) 512 True =
      Inr (sb_s sb_long @ replicate 412 None, 1112, [smemclr (sb_s sb_long) 700])"
    by (simp add: safegrowarray_def grow_size_def safemalloc_def Let_def sb_long_def)
  let ?s = "sb_s sb_long @ replicate 412 None" and ?k = "1112 :: nat"
  have len: "length ?s = ?k" by (simp add: sb_long_def)
  have loop: "dupvprintf_loop ?al ?s 600 ?k ?out = Inr (vsn_block ?s 600 512 ?out, ?k)"
    using dupvprintf_loop_fits [of 600 ?s ?out ?al, unfolded len] by simp
  have blk: "vsn_block ?s 600 512 ?out =
      replicate 600 (Some 65) @ replicate 511 (Some 66) @ [Some 0]"
    by (simp add: vsn_block_def sb_long_def)
  have "c_strlen (vsn_block ?s 600 512 ?out) 600 = Inr 511"
    using takeWhile_NUL [of "replicate 511 (66 :: byte)" "[]"]
    by (simp add: c_strlen_def blk map_replicate)
  then obtain b' where b': "strbuf_catfv ?al sb_long ?out = Inr b'"
    using g loop
    by (simp add: strbuf_catfv_def dupvprintf_inner_def sb_long_def del: append_assoc)
  have c: "strbuf_contents sb_long = replicate 600 (Some 65)"
    by (simp add: strbuf_contents_def sb_long_def)
  have "strbuf_contents b' = replicate 600 (Some 65) @ replicate 511 (Some 66)"
    using strbuf_catfv_stores [OF ok _ _ g b'] c by (simp add: sb_long_def map_replicate)
  with b' show ?thesis by blast
qed

end
