(* ===== verification/Marshal.thy ===== *)
theory Marshal
  imports Strbuf
begin

text \<open>
  SSH wire-format marshalling (\<^verbatim>\<open>marshal.c\<close>, \<^verbatim>\<open>marshal.h\<close>). A \<^verbatim>\<open>BinarySink\<close> is its
  \<^verbatim>\<open>write\<close> method: every \<open>put\<close> function takes it as an argument, applied to the
  sink's state, and may fault as the method does. A \<^verbatim>\<open>BinarySource\<close> is a record of the
  block being decoded, the position in it and the sticky error; \<^verbatim>\<open>len\<close> is the length of
  the block. Every \<open>get\<close> function returns the decoded value and the updated source.
\<close>

subsection \<open>Writing\<close>

definition BinarySink_put_data :: "('s \<Rightarrow> byte list \<Rightarrow> 's res) \<Rightarrow> 's \<Rightarrow> byte list \<Rightarrow> 's res" where
  "BinarySink_put_data wr bs data = wr bs data"

definition BinarySink_put_datapl :: "('s \<Rightarrow> byte list \<Rightarrow> 's res) \<Rightarrow> 's \<Rightarrow> byte list \<Rightarrow> 's res" where
  "BinarySink_put_datapl wr bs pl = BinarySink_put_data wr bs pl"

fun BinarySink_put_padding ::
  "('s \<Rightarrow> byte list \<Rightarrow> 's res) \<Rightarrow> 's \<Rightarrow> nat \<Rightarrow> byte \<Rightarrow> 's res" where
  "BinarySink_put_padding wr bs len padbyte =
     (if len > 0 then
        let thislen = (if len < 16 then len else 16) in
        (case wr bs (replicate thislen padbyte) of
           Inl e \<Rightarrow> Inl e
         | Inr bs \<Rightarrow> BinarySink_put_padding wr bs (len - thislen) padbyte)
      else Inr bs)"

declare BinarySink_put_padding.simps [simp del]

definition BinarySink_put_byte :: "('s \<Rightarrow> byte list \<Rightarrow> 's res) \<Rightarrow> 's \<Rightarrow> byte \<Rightarrow> 's res" where
  "BinarySink_put_byte wr bs val = wr bs [val]"

definition BinarySink_put_bool :: "('s \<Rightarrow> byte list \<Rightarrow> 's res) \<Rightarrow> 's \<Rightarrow> bool \<Rightarrow> 's res" where
  "BinarySink_put_bool wr bs val = (let cval = (if val then 1 else 0) in wr bs [cval])"

definition BinarySink_put_uint16 :: "('s \<Rightarrow> byte list \<Rightarrow> 's res) \<Rightarrow> 's \<Rightarrow> u64 \<Rightarrow> 's res" where
  "BinarySink_put_uint16 wr bs val = wr bs (PUT_16BIT_MSB_FIRST (ucast val))"

definition BinarySink_put_uint32 :: "('s \<Rightarrow> byte list \<Rightarrow> 's res) \<Rightarrow> 's \<Rightarrow> u64 \<Rightarrow> 's res" where
  "BinarySink_put_uint32 wr bs val = wr bs (PUT_32BIT_MSB_FIRST (ucast val))"

definition BinarySink_put_uint64 :: "('s \<Rightarrow> byte list \<Rightarrow> 's res) \<Rightarrow> 's \<Rightarrow> u64 \<Rightarrow> 's res" where
  "BinarySink_put_uint64 wr bs val = wr bs (PUT_64BIT_MSB_FIRST val)"

definition BinarySink_put_string :: "('s \<Rightarrow> byte list \<Rightarrow> 's res) \<Rightarrow> 's \<Rightarrow> byte list \<Rightarrow> 's res" where
  "BinarySink_put_string wr bs data =
     res_bind (assert_res (drop_bit 31 (length data) < 2)) (\<lambda>_.
     res_bind (BinarySink_put_uint32 wr bs (of_nat (length data))) (\<lambda>bs. wr bs data))"

definition BinarySink_put_stringpl :: "('s \<Rightarrow> byte list \<Rightarrow> 's res) \<Rightarrow> 's \<Rightarrow> byte list \<Rightarrow> 's res" where
  "BinarySink_put_stringpl wr bs pl = BinarySink_put_string wr bs pl"

definition BinarySink_put_stringz :: "('s \<Rightarrow> byte list \<Rightarrow> 's res) \<Rightarrow> 's \<Rightarrow> byte list \<Rightarrow> 's res" where
  "BinarySink_put_stringz wr bs str = BinarySink_put_string wr bs str"

definition BinarySink_put_stringsb ::
  "('s \<Rightarrow> byte list \<Rightarrow> 's res) \<Rightarrow> 's \<Rightarrow> strbuf \<Rightarrow> ('s \<times> byte option list) res" where
  "BinarySink_put_stringsb wr bs buf =
     res_bind (BinarySink_put_string wr bs (map the (strbuf_contents buf))) (\<lambda>bs.
       Inr (bs, strbuf_free buf))"

definition BinarySink_put_asciz :: "('s \<Rightarrow> byte list \<Rightarrow> 's res) \<Rightarrow> 's \<Rightarrow> byte list \<Rightarrow> 's res" where
  "BinarySink_put_asciz wr bs str = wr bs (str @ [0])"

definition BinarySink_put_pstring ::
  "('s \<Rightarrow> byte list \<Rightarrow> 's res) \<Rightarrow> 's \<Rightarrow> byte list \<Rightarrow> ('s \<times> bool) res" where
  "BinarySink_put_pstring wr bs str =
     (let len = length str in
      if len > 255 then Inr (bs, False)
      else res_bind (BinarySink_put_byte wr bs (of_nat len)) (\<lambda>bs.
           res_bind (wr bs str) (\<lambda>bs. Inr (bs, True))))"

subsection \<open>Reading\<close>

datatype BinarySourceError = BSE_NO_ERROR | BSE_OUT_OF_DATA | BSE_INVALID

record BinarySource =
  src_data :: "byte list"
  src_pos :: nat
  src_err :: BinarySourceError

abbreviation src_len :: "BinarySource \<Rightarrow> nat" where
  "src_len src \<equiv> length (src_data src)"

definition BinarySource_INIT :: "byte list \<Rightarrow> BinarySource" where
  "BinarySource_INIT data = \<lparr>src_data = data, src_pos = 0, src_err = BSE_NO_ERROR\<rparr>"

definition BinarySource_data_avail :: "BinarySource \<Rightarrow> nat \<Rightarrow> bool \<times> BinarySource" where
  "BinarySource_data_avail src wanted =
     (if src_err src \<noteq> BSE_NO_ERROR then (False, src)
      else if wanted \<le> src_len src - src_pos src then (True, src)
      else (False, src\<lparr>src_err := BSE_OUT_OF_DATA\<rparr>))"

definition src_here :: "BinarySource \<Rightarrow> byte list" where
  "src_here src = drop (src_pos src) (src_data src)"

definition src_consume :: "BinarySource \<Rightarrow> nat \<Rightarrow> byte list \<times> BinarySource" where
  "src_consume src dist = (src_here src, src\<lparr>src_pos := src_pos src + dist\<rparr>)"

definition BinarySource_get_data :: "BinarySource \<Rightarrow> nat \<Rightarrow> byte list \<times> BinarySource" where
  "BinarySource_get_data src wanted =
     (let (ok, src) = BinarySource_data_avail src wanted in
      if \<not> ok then ([], src)
      else let (ptr, src) = src_consume src wanted in (take wanted ptr, src))"

definition BinarySource_get_byte :: "BinarySource \<Rightarrow> byte \<times> BinarySource" where
  "BinarySource_get_byte src =
     (let (ok, src) = BinarySource_data_avail src 1 in
      if \<not> ok then (0, src)
      else let (ucp, src) = src_consume src 1 in (ucp ! 0, src))"

definition BinarySource_get_bool :: "BinarySource \<Rightarrow> bool \<times> BinarySource" where
  "BinarySource_get_bool src =
     (let (ok, src) = BinarySource_data_avail src 1 in
      if \<not> ok then (False, src)
      else let (ucp, src) = src_consume src 1 in (ucp ! 0 \<noteq> 0, src))"

definition BinarySource_get_uint16 :: "BinarySource \<Rightarrow> u32 \<times> BinarySource" where
  "BinarySource_get_uint16 src =
     (let (ok, src) = BinarySource_data_avail src 2 in
      if \<not> ok then (0, src)
      else let (ucp, src) = src_consume src 2 in (ucast (GET_16BIT_MSB_FIRST ucp), src))"

definition BinarySource_get_uint32 :: "BinarySource \<Rightarrow> u64 \<times> BinarySource" where
  "BinarySource_get_uint32 src =
     (let (ok, src) = BinarySource_data_avail src 4 in
      if \<not> ok then (0, src)
      else let (ucp, src) = src_consume src 4 in (ucast (GET_32BIT_MSB_FIRST ucp), src))"

definition BinarySource_get_uint64 :: "BinarySource \<Rightarrow> u64 \<times> BinarySource" where
  "BinarySource_get_uint64 src =
     (let (ok, src) = BinarySource_data_avail src 8 in
      if \<not> ok then (0, src)
      else let (ucp, src) = src_consume src 8 in (GET_64BIT_MSB_FIRST ucp, src))"

definition BinarySource_get_string :: "BinarySource \<Rightarrow> byte list \<times> BinarySource" where
  "BinarySource_get_string src =
     (let (ok, src) = BinarySource_data_avail src 4 in
      if \<not> ok then ([], src)
      else
        let (ucp, src) = src_consume src 4; len = unat (GET_32BIT_MSB_FIRST ucp);
            (ok, src) = BinarySource_data_avail src len in
        if \<not> ok then ([], src)
        else let (ptr, src) = src_consume src len in (take len ptr, src))"

definition BinarySource_get_asciz :: "BinarySource \<Rightarrow> byte list \<times> BinarySource" where
  "BinarySource_get_asciz src =
     (if src_err src \<noteq> BSE_NO_ERROR then ([], src)
      else
        let start = src_here src in
        if 0 \<notin> set start then ([], src\<lparr>src_err := BSE_OUT_OF_DATA\<rparr>)
        else
          let str = takeWhile (\<lambda>b. b \<noteq> 0) start in
          (str, src\<lparr>src_pos := src_pos src + length str + 1\<rparr>))"

text \<open>
  \<^verbatim>\<open>strchr\<close> also finds the terminator of its string, so a zero byte counts as present in
  every character set.
\<close>

definition c_strchr :: "byte list \<Rightarrow> byte \<Rightarrow> bool" where
  "c_strchr cset c \<longleftrightarrow> c \<in> set cset \<or> c = 0"

function get_chars_loop :: "BinarySource \<Rightarrow> byte list \<Rightarrow> bool \<Rightarrow> BinarySource" where
  "get_chars_loop src cset incl =
     (let (ok, src) = BinarySource_data_avail src 1 in
      if ok then
        let present = c_strchr cset (src_here src ! 0) in
        if present \<noteq> incl then src
        else get_chars_loop (snd (src_consume src 1)) cset incl
      else src)"
  by pat_completeness auto
termination
  by (relation "measure (\<lambda>(src, _, _). src_len src - src_pos src)")
    (auto simp: BinarySource_data_avail_def src_consume_def split: if_splits)

declare get_chars_loop.simps [simp del]

definition BinarySource_get_chars_internal ::
  "BinarySource \<Rightarrow> byte list \<Rightarrow> bool \<Rightarrow> byte list \<times> BinarySource" where
  "BinarySource_get_chars_internal src cset incl =
     (let start = src_pos src; src = get_chars_loop src cset incl in
      (take (src_pos src - start) (drop start (src_data src)), src))"

definition BinarySource_get_chars :: "BinarySource \<Rightarrow> byte list \<Rightarrow> byte list \<times> BinarySource" where
  "BinarySource_get_chars src include_set = BinarySource_get_chars_internal src include_set True"

definition BinarySource_get_nonchars :: "BinarySource \<Rightarrow> byte list \<Rightarrow> byte list \<times> BinarySource" where
  "BinarySource_get_nonchars src exclude_set = BinarySource_get_chars_internal src exclude_set False"

definition BinarySource_get_chomped_line :: "BinarySource \<Rightarrow> byte list \<times> BinarySource" where
  "BinarySource_get_chomped_line src =
     (if src_err src \<noteq> BSE_NO_ERROR then ([], src)
      else
        let start = src_here src;
            n = (if 10 \<in> set start then length (takeWhile (\<lambda>b. b \<noteq> 10) start) + 1
                 else src_len src - src_pos src);
            line = take n start;
            line = (if line \<noteq> [] \<and> last line = 10 then butlast line else line);
            line = (if line \<noteq> [] \<and> last line = 13 then butlast line else line) in
        (line, src\<lparr>src_pos := src_pos src + n\<rparr>))"

definition BinarySource_get_pstring :: "BinarySource \<Rightarrow> byte list \<times> BinarySource" where
  "BinarySource_get_pstring src =
     (let (ok, src) = BinarySource_data_avail src 1 in
      if \<not> ok then ([], src)
      else
        let (ucp, src) = src_consume src 1; len = unat (ucp ! 0);
            (ok, src) = BinarySource_data_avail src len in
        if \<not> ok then ([], src)
        else let (ptr, src) = src_consume src len in (take len ptr, src))"

definition BinarySource_REWIND_TO :: "BinarySource \<Rightarrow> nat \<Rightarrow> BinarySource" where
  "BinarySource_REWIND_TO src pos =
     (if pos \<le> src_len src
      then src\<lparr>src_pos := pos, src_err := BSE_NO_ERROR\<rparr>
      else src\<lparr>src_pos := src_len src, src_err := BSE_OUT_OF_DATA\<rparr>)"

lemma ucast_of_nat_u64: "(ucast (of_nat n :: u64) :: u32) = of_nat n"
  by (rule bit_word_eqI) (auto simp: bit_simps)

subsection \<open>The contract of a sink\<close>

text \<open>
  What the \<open>put\<close> functions rely on: the write method appends the bytes it is given to
  the sink's contents, keeps the sink well-formed, and never touches memory outside it.
\<close>

locale binary_sink =
  fixes wr :: "'s \<Rightarrow> byte list \<Rightarrow> 's res"
    and contents :: "'s \<Rightarrow> byte option list"
    and invar :: "'s \<Rightarrow> bool"
  assumes write_invar: "invar s \<Longrightarrow> wr s d = Inr s' \<Longrightarrow> invar s'"
    and write_contents: "invar s \<Longrightarrow> wr s d = Inr s' \<Longrightarrow> contents s' = contents s @ map Some d"
    and write_faults: "invar s \<Longrightarrow> wr s d = Inl e \<Longrightarrow> e \<in> {AssertFail, OutOfMemory}"
begin

definition appends :: "'s \<Rightarrow> 's res \<Rightarrow> byte list \<Rightarrow> bool" where
  "appends s r d \<longleftrightarrow>
     (case r of Inl e \<Rightarrow> e \<in> {AssertFail, OutOfMemory}
      | Inr s' \<Rightarrow> invar s' \<and> contents s' = contents s @ map Some d)"

lemma appends_write: "invar s \<Longrightarrow> appends s (wr s d) d"
  by (auto simp: appends_def split: sum.split dest: write_faults
      intro: write_invar write_contents)

lemma appends_bind:
  assumes "appends s r d" and "\<And>s'. invar s' \<Longrightarrow> appends s' (f s') d'"
  shows "appends s (res_bind r f) (d @ d')"
proof (cases r)
  case (Inl e)
  with assms(1) show ?thesis by (simp add: appends_def)
next
  case (Inr s')
  with assms(1) have "invar s'" "contents s' = contents s @ map Some d"
    by (simp_all add: appends_def)
  with assms(2) [of s'] show ?thesis
    by (simp add: Inr appends_def split: sum.splits)
qed

lemma appends_assert: "appends s r d \<Longrightarrow> appends s (res_bind (assert_res b) (\<lambda>_. r)) d"
  by (cases b) (auto simp: appends_def assert_res_def)

lemma put_fixed:
  assumes "invar s"
  shows "appends s (BinarySink_put_byte wr s b) [b]"
    and "appends s (BinarySink_put_bool wr s t) [of_bool t]"
    and "appends s (BinarySink_put_uint16 wr s v) (PUT_16BIT_MSB_FIRST (ucast v))"
    and "appends s (BinarySink_put_uint32 wr s v) (PUT_32BIT_MSB_FIRST (ucast v))"
    and "appends s (BinarySink_put_uint64 wr s v) (PUT_64BIT_MSB_FIRST v)"
    and "appends s (BinarySink_put_data wr s d) d"
    and "appends s (BinarySink_put_asciz wr s d) (d @ [0])"
  using appends_write [OF assms]
  by (simp_all add: BinarySink_put_byte_def BinarySink_put_bool_def BinarySink_put_uint16_def
      BinarySink_put_uint32_def BinarySink_put_uint64_def BinarySink_put_data_def
      BinarySink_put_asciz_def Let_def of_bool_def)

lemma put_string:
  assumes "invar s"
  shows "appends s (BinarySink_put_string wr s d)
           (PUT_32BIT_MSB_FIRST (of_nat (length d)) @ d)"
proof -
  have "appends s (res_bind (BinarySink_put_uint32 wr s (of_nat (length d))) (\<lambda>s. wr s d))
          (PUT_32BIT_MSB_FIRST (ucast (of_nat (length d) :: u64)) @ d)"
    by (intro appends_bind put_fixed(4) assms appends_write)
  then show ?thesis
    unfolding BinarySink_put_string_def by (intro appends_assert) (simp add: ucast_of_nat_u64)
qed

lemma put_padding:
  "invar s \<Longrightarrow> appends s (BinarySink_put_padding wr s n b) (replicate n b)"
proof (induction n arbitrary: s rule: less_induct)
  case (less n)
  show ?case
  proof (cases "n = 0")
    case True
    with less.prems show ?thesis
      by (simp add: BinarySink_put_padding.simps [of wr s] appends_def)
  next
    case False
    let ?m = "if n < 16 then n else 16"
    have eq: "BinarySink_put_padding wr s n b =
        res_bind (wr s (replicate ?m b)) (\<lambda>s. BinarySink_put_padding wr s (n - ?m) b)"
      using False by (subst BinarySink_put_padding.simps) (simp add: res_bind_def Let_def)
    have "appends s (BinarySink_put_padding wr s n b) (replicate ?m b @ replicate (n - ?m) b)"
      unfolding eq using False by (intro appends_bind appends_write less) auto
    then show ?thesis by (simp flip: replicate_add)
  qed
qed

end

interpretation sb: binary_sink "strbuf_BinarySink_write alloc" strbuf_contents strbuf_ok for alloc
  by unfold_locales (use strbuf_write_ok strbuf_write_faults in blast)+

subsection \<open>The contract of a decoder\<close>

definition src_wf :: "BinarySource \<Rightarrow> bool" where
  "src_wf src \<longleftrightarrow> src_pos src \<le> src_len src"

lemma length_src_here [simp]: "length (src_here src) = src_len src - src_pos src"
  by (simp add: src_here_def)

lemma src_here_advance [simp]:
  "src_here (src\<lparr>src_pos := src_pos src + n\<rparr>) = drop n (src_here src)"
  by (simp add: src_here_def add.commute)

lemma src_here_advance_Suc [simp]:
  "src_here (src\<lparr>src_pos := Suc (src_pos src)\<rparr>) = drop 1 (src_here src)"
  by (simp add: src_here_def)

lemma data_avail_True: "BinarySource_data_avail src n = (True, src') \<longleftrightarrow>
   src_err src = BSE_NO_ERROR \<and> n \<le> src_len src - src_pos src \<and> src' = src"
  by (auto simp: BinarySource_data_avail_def)

lemma data_avail_ok [simp]: "src_err src = BSE_NO_ERROR \<Longrightarrow> n \<le> src_len src - src_pos src \<Longrightarrow>
   BinarySource_data_avail src n = (True, src)"
  by (simp add: BinarySource_data_avail_def)

lemma data_avail_short [simp]: "src_err src = BSE_NO_ERROR \<Longrightarrow> \<not> n \<le> src_len src - src_pos src \<Longrightarrow>
   BinarySource_data_avail src n = (False, src\<lparr>src_err := BSE_OUT_OF_DATA\<rparr>)"
  by (simp add: BinarySource_data_avail_def)

lemma data_avail_err [simp]: "src_err src \<noteq> BSE_NO_ERROR \<Longrightarrow>
   BinarySource_data_avail src n = (False, src)"
  by (simp add: BinarySource_data_avail_def)

text \<open>
  A decoder \<open>get\<close> for the encoding \<open>enc\<close> of the values \<open>valid\<close> accepts: it reads an
  encoded value back and stops right after it; it reports a truncated encoding as
  \<open>BSE_OUT_OF_DATA\<close>; once an error is set it changes nothing and returns its default;
  and it keeps the position inside the block.
\<close>

locale wire_codec =
  fixes enc :: "'a \<Rightarrow> byte list"
    and get :: "BinarySource \<Rightarrow> 'a \<times> BinarySource"
    and dflt :: 'a
    and valid :: "'a \<Rightarrow> bool"
  assumes get_enc: "valid x \<Longrightarrow> src_err src = BSE_NO_ERROR \<Longrightarrow> src_here src = enc x @ rest \<Longrightarrow>
      get src = (x, src\<lparr>src_pos := src_pos src + length (enc x)\<rparr>)"
    and get_truncated: "valid x \<Longrightarrow> src_err src = BSE_NO_ERROR \<Longrightarrow> src_here src @ missing = enc x \<Longrightarrow>
      missing \<noteq> [] \<Longrightarrow> fst (get src) = dflt \<and> src_err (snd (get src)) = BSE_OUT_OF_DATA"
    and get_sticky: "src_err src \<noteq> BSE_NO_ERROR \<Longrightarrow> get src = (dflt, src)"
    and get_wf: "src_wf src \<Longrightarrow> get src = (x, src') \<Longrightarrow>
      src_wf src' \<and> src_data src' = src_data src \<and> src_pos src \<le> src_pos src'"
begin

text \<open>A client that reads a fixed number of fields in a row.\<close>

primrec get_many :: "nat \<Rightarrow> BinarySource \<Rightarrow> 'a list \<times> BinarySource" where
  "get_many 0 src = ([], src)"
| "get_many (Suc n) src =
     (let (x, src) = get src; (xs, src) = get_many n src in (x # xs, src))"

lemma get_many_enc:
  assumes "\<forall>x \<in> set xs. valid x" and "src_err src = BSE_NO_ERROR"
    and "src_here src = concat (map enc xs) @ rest"
  shows "get_many (length xs) src =
    (xs, src\<lparr>src_pos := src_pos src + length (concat (map enc xs))\<rparr>)"
  using assms
proof (induction xs arbitrary: src)
  case Nil
  then show ?case by simp
next
  case (Cons x xs)
  let ?s1 = "src\<lparr>src_pos := src_pos src + length (enc x)\<rparr>"
  have "get src = (x, ?s1)"
    using Cons.prems by (intro get_enc [where rest = "concat (map enc xs) @ rest"]) auto
  moreover have "get_many (length xs) ?s1 =
      (xs, ?s1\<lparr>src_pos := src_pos ?s1 + length (concat (map enc xs))\<rparr>)"
    using Cons.prems by (intro Cons.IH) auto
  ultimately show ?case by (simp add: add.assoc)
qed

lemma get_many_sticky: "src_err src \<noteq> BSE_NO_ERROR \<Longrightarrow> get_many n src = (replicate n dflt, src)"
  by (induction n) (simp_all add: get_sticky)

lemma get_many_wf:
  "src_wf src \<Longrightarrow> get_many n src = (xs, src') \<Longrightarrow> src_wf src' \<and> src_data src' = src_data src"
  by (induction n arbitrary: src xs) (fastforce dest: get_wf split: prod.splits)+

lemma get_inject:
  assumes "valid x" "valid y" "enc x @ r = enc y @ r'"
  shows "x = y \<and> r = r'"
proof -
  let ?s = "BinarySource_INIT (enc x @ r)"
  have "get ?s = (x, ?s\<lparr>src_pos := length (enc x)\<rparr>)" "get ?s = (y, ?s\<lparr>src_pos := length (enc y)\<rparr>)"
    using get_enc [of x ?s r] get_enc [of y ?s r'] assms
    by (auto simp: BinarySource_INIT_def src_here_def)
  with assms(3) show ?thesis by simp
qed

end

lemmas get_defs = BinarySource_get_byte_def BinarySource_get_bool_def BinarySource_get_uint16_def
  BinarySource_get_uint32_def BinarySource_get_uint64_def BinarySource_get_string_def
  BinarySource_get_data_def BinarySource_get_pstring_def src_consume_def Let_def

lemma take_bit_small: "unat (v :: 'a::len word) < 2 ^ n \<Longrightarrow> take_bit n v = v"
  by (simp add: word_unat_eq_iff unsigned_take_bit_eq take_bit_nat_eq_self)

lemma ucast_up_down_16: "unat v < 65536 \<Longrightarrow> (ucast (ucast (v :: u32) :: u16) :: u32) = v"
proof -
  assume "unat v < 65536"
  then have "take_bit 16 v = v" by (intro take_bit_small) simp
  moreover have "(ucast (ucast v :: u16) :: u32) = take_bit 16 v"
    by (rule bit_word_eqI) (auto simp: bit_simps)
  ultimately show ?thesis by simp
qed

lemma ucast_up_down_32: "unat v < 4294967296 \<Longrightarrow> (ucast (ucast (v :: u64) :: u32) :: u64) = v"
proof -
  assume "unat v < 4294967296"
  then have "take_bit 32 v = v" by (intro take_bit_small) simp
  moreover have "(ucast (ucast v :: u32) :: u64) = take_bit 32 v"
    by (rule bit_word_eqI) (auto simp: bit_simps)
  ultimately show ?thesis by simp
qed

lemma here_len: "src_here src = xs \<Longrightarrow> src_len src - src_pos src = length xs"
  using length_src_here [of src] by simp

lemma here_trunc: "src_here src @ missing = xs \<Longrightarrow> missing \<noteq> [] \<Longrightarrow> src_len src - src_pos src < length xs"
  using length_src_here [of src] by (cases missing) auto

lemma get_fixed_wf:
  assumes "src_wf src"
  shows "BinarySource_get_byte src = (b, s1) \<Longrightarrow>
      src_wf s1 \<and> src_data s1 = src_data src \<and> src_pos src \<le> src_pos s1"
    and "BinarySource_get_bool src = (t, s1) \<Longrightarrow>
      src_wf s1 \<and> src_data s1 = src_data src \<and> src_pos src \<le> src_pos s1"
    and "BinarySource_get_uint16 src = (v, s1) \<Longrightarrow>
      src_wf s1 \<and> src_data s1 = src_data src \<and> src_pos src \<le> src_pos s1"
    and "BinarySource_get_uint32 src = (w, s1) \<Longrightarrow>
      src_wf s1 \<and> src_data s1 = src_data src \<and> src_pos src \<le> src_pos s1"
    and "BinarySource_get_uint64 src = (w, s1) \<Longrightarrow>
      src_wf s1 \<and> src_data s1 = src_data src \<and> src_pos src \<le> src_pos s1"
  using assms
  by (auto simp: get_defs src_wf_def BinarySource_data_avail_def split: if_splits)

lemma get_counted_wf:
  assumes "src_wf src"
  shows "BinarySource_get_string src = (d, s1) \<Longrightarrow>
      src_wf s1 \<and> src_data s1 = src_data src \<and> src_pos src \<le> src_pos s1"
    and "BinarySource_get_pstring src = (d, s1) \<Longrightarrow>
      src_wf s1 \<and> src_data s1 = src_data src \<and> src_pos src \<le> src_pos s1"
    and "BinarySource_get_asciz src = (d, s1) \<Longrightarrow>
      src_wf s1 \<and> src_data s1 = src_data src \<and> src_pos src \<le> src_pos s1"
proof -
  show "BinarySource_get_string src = (d, s1) \<Longrightarrow>
      src_wf s1 \<and> src_data s1 = src_data src \<and> src_pos src \<le> src_pos s1"
    using assms by (auto simp: get_defs src_wf_def BinarySource_data_avail_def split: if_splits)
  show "BinarySource_get_pstring src = (d, s1) \<Longrightarrow>
      src_wf s1 \<and> src_data s1 = src_data src \<and> src_pos src \<le> src_pos s1"
    using assms by (auto simp: get_defs src_wf_def BinarySource_data_avail_def split: if_splits)
  assume g: "BinarySource_get_asciz src = (d, s1)"
  show "src_wf s1 \<and> src_data s1 = src_data src \<and> src_pos src \<le> src_pos s1"
  proof (cases "src_err src = BSE_NO_ERROR \<and> 0 \<in> set (src_here src)")
    case True
    then have "length (takeWhile (\<lambda>b. b \<noteq> 0) (src_here src)) < length (src_here src)"
      by (intro length_takeWhile_less [of 0]) auto
    with True g assms show ?thesis
      by (auto simp: BinarySource_get_asciz_def src_wf_def Let_def)
  next
    case False
    with g assms show ?thesis
      by (auto simp: BinarySource_get_asciz_def src_wf_def Let_def split: if_splits)
  qed
qed

interpretation byte_codec: wire_codec "\<lambda>b. [b]" BinarySource_get_byte 0 "\<lambda>_. True"
proof (unfold_locales, goal_cases)
  case (1 x src rest)
  then show ?case using here_len [OF 1(3)] by (simp add: get_defs)
next
  case (2 x src missing)
  then show ?case using here_trunc [OF 2(3,4)] by (simp add: get_defs)
next
  case (3 src)
  then show ?case by (simp add: get_defs)
next
  case (4 src x src')
  then show ?case by (rule get_fixed_wf(1))
qed

interpretation bool_codec: wire_codec "\<lambda>b. [of_bool b]" BinarySource_get_bool False "\<lambda>_. True"
proof (unfold_locales, goal_cases)
  case (1 x src rest)
  then show ?case using here_len [OF 1(3)] by (simp add: get_defs)
next
  case (2 x src missing)
  then show ?case using here_trunc [OF 2(3,4)] by (simp add: get_defs)
next
  case (3 src)
  then show ?case by (simp add: get_defs)
next
  case (4 src x src')
  then show ?case by (rule get_fixed_wf(2))
qed

interpretation uint16_codec: wire_codec "\<lambda>v. PUT_16BIT_MSB_FIRST (ucast v)"
  BinarySource_get_uint16 0 "\<lambda>v. unat v < 2 ^ 16"
proof (unfold_locales, goal_cases)
  case (1 x src rest)
  then show ?case
    using here_len [OF 1(3)] by (simp add: get_defs GET_append ucast_up_down_16)
next
  case (2 x src missing)
  then show ?case using here_trunc [OF 2(3,4)] by (simp add: get_defs)
next
  case (3 src)
  then show ?case by (simp add: get_defs)
next
  case (4 src x src')
  then show ?case by (rule get_fixed_wf(3))
qed

interpretation uint32_codec: wire_codec "\<lambda>v. PUT_32BIT_MSB_FIRST (ucast v)"
  BinarySource_get_uint32 0 "\<lambda>v. unat v < 2 ^ 32"
proof (unfold_locales, goal_cases)
  case (1 x src rest)
  then show ?case
    using here_len [OF 1(3)] by (simp add: get_defs GET_append ucast_up_down_32)
next
  case (2 x src missing)
  then show ?case using here_trunc [OF 2(3,4)] by (simp add: get_defs)
next
  case (3 src)
  then show ?case by (simp add: get_defs)
next
  case (4 src x src')
  then show ?case by (rule get_fixed_wf(4))
qed

interpretation uint64_codec: wire_codec PUT_64BIT_MSB_FIRST BinarySource_get_uint64 0 "\<lambda>_. True"
proof (unfold_locales, goal_cases)
  case (1 x src rest)
  then show ?case using here_len [OF 1(3)] by (simp add: get_defs GET_append)
next
  case (2 x src missing)
  then show ?case using here_trunc [OF 2(3,4)] by (simp add: get_defs)
next
  case (3 src)
  then show ?case by (simp add: get_defs)
next
  case (4 src x src')
  then show ?case by (rule get_fixed_wf(5))
qed

definition enc_string :: "byte list \<Rightarrow> byte list" where
  "enc_string d = PUT_32BIT_MSB_FIRST (of_nat (length d)) @ d"

interpretation string_codec: wire_codec enc_string BinarySource_get_string "[]"
  "\<lambda>d. length d < 2 ^ 32"
proof (unfold_locales, goal_cases)
  case (1 x src rest)
  then show ?case
    using here_len [OF 1(3)]
    by (simp add: get_defs enc_string_def GET_append unat_of_nat)
next
  case (2 x src missing)
  note short = here_trunc [OF 2(3,4)]
  show ?case
  proof (cases "4 \<le> src_len src - src_pos src")
    case True
    then have "take 4 (src_here src) = take 4 (src_here src @ missing)" by simp
    then have "take 4 (src_here src) = PUT_32BIT_MSB_FIRST (of_nat (length x))"
      unfolding 2(3) by (simp add: enc_string_def)
    then have "src_here src = PUT_32BIT_MSB_FIRST (of_nat (length x)) @ drop 4 (src_here src)"
      by (metis append_take_drop_id)
    then have "GET_32BIT_MSB_FIRST (src_here src) = of_nat (length x)"
      by (metis GET_PUT_32(1) GET_append(2) length_PUT(2) order_refl)
    then show ?thesis
      using 2 True short by (simp add: get_defs enc_string_def unat_of_nat)
  next
    case False
    with 2 show ?thesis by (simp add: get_defs)
  qed
next
  case (3 src)
  then show ?case by (simp add: get_defs)
next
  case (4 src x src')
  then show ?case by (rule get_counted_wf(1))
qed

definition enc_pstring :: "byte list \<Rightarrow> byte list" where
  "enc_pstring d = of_nat (length d) # d"

interpretation pstring_codec: wire_codec enc_pstring BinarySource_get_pstring "[]"
  "\<lambda>d. length d \<le> 255"
proof (unfold_locales, goal_cases)
  case (1 x src rest)
  then show ?case
    using here_len [OF 1(3)] by (simp add: get_defs enc_pstring_def unat_of_nat)
next
  case (2 x src missing)
  note short = here_trunc [OF 2(3,4)]
  show ?case
  proof (cases "1 \<le> src_len src - src_pos src")
    case True
    then have "src_here src ! 0 = of_nat (length x)"
      using arg_cong [OF 2(3), of hd] length_src_here [of src]
      by (cases "src_here src") (auto simp: enc_pstring_def)
    then show ?thesis
      using 2 True short by (simp add: get_defs enc_pstring_def unat_of_nat)
  next
    case False
    with 2 show ?thesis by (simp add: get_defs)
  qed
next
  case (3 src)
  then show ?case by (simp add: get_defs)
next
  case (4 src x src')
  then show ?case by (rule get_counted_wf(2))
qed

lemma takeWhile_nul: "0 \<notin> set x \<Longrightarrow> takeWhile (\<lambda>b. b \<noteq> 0) (x @ 0 # rest) = (x :: byte list)"
  by (induction x) auto

interpretation asciz_codec: wire_codec "\<lambda>d. d @ [0]" BinarySource_get_asciz "[]"
  "\<lambda>d. 0 \<notin> set d"
proof (unfold_locales, goal_cases)
  case (1 x src rest)
  then show ?case by (simp add: BinarySource_get_asciz_def takeWhile_nul Let_def)
next
  case (2 x src missing)
  then have "0 \<notin> set (src_here src)"
    by (cases missing rule: rev_cases) auto
  with 2 show ?case by (simp add: BinarySource_get_asciz_def)
next
  case (3 src)
  then show ?case by (simp add: BinarySource_get_asciz_def)
next
  case (4 src x src')
  then show ?case by (rule get_counted_wf(3))
qed

lemma get_data_wf:
  assumes "src_wf src"
  shows "BinarySource_get_data src n = (d, s1) \<Longrightarrow>
      src_wf s1 \<and> src_data s1 = src_data src \<and> src_pos src \<le> src_pos s1"
  using assms by (auto simp: get_defs src_wf_def BinarySource_data_avail_def split: if_splits)

text \<open>What the character-set scan stops at, and what it leaves behind.\<close>

lemma get_chars_loop_spec:
  assumes "src_err src = BSE_NO_ERROR" "src_wf src"
  shows "get_chars_loop src cset incl =
    (let n = length (takeWhile (\<lambda>c. c_strchr cset c = incl) (src_here src)) in
     src\<lparr>src_pos := src_pos src + n,
         src_err := (if src_pos src + n < src_len src then BSE_NO_ERROR else BSE_OUT_OF_DATA)\<rparr>)"
  using assms
proof (induction src cset incl rule: get_chars_loop.induct)
  case (1 src cset incl)
  show ?case
  proof (cases "src_here src")
    case Nil
    then have "src_pos src = src_len src"
      using length_src_here [of src] "1.prems"(2) by (auto simp: src_wf_def)
    with Nil "1.prems" show ?thesis
      by (subst get_chars_loop.simps) (simp add: Let_def)
  next
    case (Cons c cs)
    then have av: "Suc (src_pos src) \<le> src_len src"
      using length_src_here [of src] by simp
    then have avail: "BinarySource_data_avail src 1 = (True, src)"
      using "1.prems" by simp
    show ?thesis
    proof (cases "c_strchr cset c = incl")
      case True
      let ?s = "snd (src_consume src 1)"
      have s: "src_here ?s = cs" "src_err ?s = BSE_NO_ERROR" "src_wf ?s" "src_len ?s = src_len src" "src_pos ?s = Suc (src_pos src)"
        using "1.prems" av Cons by (auto simp: src_consume_def src_wf_def)
      have "get_chars_loop src cset incl = get_chars_loop ?s cset incl"
        by (subst get_chars_loop.simps) (use avail True Cons in simp)
      also have "\<dots> = (let n = length (takeWhile (\<lambda>c. c_strchr cset c = incl) (src_here ?s)) in
         ?s\<lparr>src_pos := src_pos ?s + n,
         src_err := (if src_pos ?s + n < src_len ?s then BSE_NO_ERROR else BSE_OUT_OF_DATA)\<rparr>)"
        using "1.IH" [OF avail [symmetric] refl] True Cons s by auto
      finally show ?thesis
        using True Cons s by (auto simp: Let_def src_consume_def)
    next
      case False
      then show ?thesis
        by (subst get_chars_loop.simps) (use avail Cons av "1.prems" in \<open>auto simp: Let_def\<close>)
    qed
  qed
qed

subsection \<open>Properties\<close>

text \<open>
  C23. Round trip through a string buffer: a string marshalled into a well-formed
  \<^verbatim>\<open>strbuf\<close> is read back, byte for byte, by the unmarshalling code positioned where
  the buffer ended before, whatever data follows it, and reading stops exactly where
  writing stopped.
\<close>

theorem put_get_string_roundtrip:
  assumes "strbuf_ok b"
    and "BinarySink_put_string (strbuf_BinarySink_write alloc) b d = Inr b'"
  shows "BinarySource_get_string
      \<lparr>src_data = map the (strbuf_contents b') @ rest, src_pos = sb_len b, src_err = BSE_NO_ERROR\<rparr> =
    (d, \<lparr>src_data = map the (strbuf_contents b') @ rest, src_pos = sb_len b',
         src_err = BSE_NO_ERROR\<rparr>)"
proof -
  have "length d < 2 ^ 32"
    using assms(2) by (auto simp: BinarySink_put_string_def res_bind_eq_Inr assert_res_eq_Inr
        drop_bit_eq_div)
  moreover have c: "strbuf_ok b'" "strbuf_contents b' = strbuf_contents b @ map Some (enc_string d)"
    using sb.put_string [OF assms(1), where d = d and alloc = alloc] assms(2)
    by (simp_all add: sb.appends_def enc_string_def)
  moreover have len: "length (strbuf_contents b) = sb_len b" "length (strbuf_contents b') = sb_len b'"
    using assms(1) c(1) by (simp_all add: strbuf_ok_def strbuf_contents_def)
  moreover have "sb_len b' = sb_len b + length (enc_string d)"
    using c(2) len by (metis length_append length_map)
  ultimately show ?thesis
    by (subst string_codec.get_enc [of d _ rest]) (simp_all add: src_here_def)
qed

theorem put_get_string_roundtrip_witness:
  "\<exists>b'. BinarySink_put_string (strbuf_BinarySink_write (\<lambda>_. True)) sb_sample [104, 105] = Inr b' \<and>
    BinarySource_get_string
      \<lparr>src_data = map the (strbuf_contents b') @ [9], src_pos = 0, src_err = BSE_NO_ERROR\<rparr> =
    ([104, 105], \<lparr>src_data = map the (strbuf_contents b') @ [9], src_pos = sb_len b',
         src_err = BSE_NO_ERROR\<rparr>)"
proof -
  have "\<exists>b'. BinarySink_put_string (strbuf_BinarySink_write (\<lambda>_. True)) sb_sample [104, 105] = Inr b'"
    by (simp add: BinarySink_put_string_def BinarySink_put_uint32_def strbuf_BinarySink_write_def
        strbuf_append_def safegrowarray_def saferealloc_def grow_size_def mem_write_def
        sb_sample_def assert_res_def drop_bit_eq_div Let_def)
  then obtain b' where
    "BinarySink_put_string (strbuf_BinarySink_write (\<lambda>_. True)) sb_sample [104, 105] = Inr b'"
    by blast
  with put_get_string_roundtrip [OF sb_sample_ok(1) this, of "[9]"] show ?thesis
    by (auto simp: sb_sample_ok)
qed

text \<open>
  C24. Errors are sticky: once the source holds an error, every unmarshalling function
  leaves it exactly as it was and returns the zero, false or empty default, so a client
  may test the error once at the end.
\<close>

theorem get_error_sticky:
  assumes "src_err src \<noteq> BSE_NO_ERROR"
  shows "BinarySource_get_byte src = (0, src) \<and> BinarySource_get_bool src = (False, src) \<and>
    BinarySource_get_uint16 src = (0, src) \<and> BinarySource_get_uint32 src = (0, src) \<and>
    BinarySource_get_uint64 src = (0, src) \<and> BinarySource_get_data src n = ([], src) \<and>
    BinarySource_get_string src = ([], src) \<and> BinarySource_get_pstring src = ([], src) \<and>
    BinarySource_get_asciz src = ([], src) \<and> BinarySource_get_chars src cset = ([], src) \<and>
    BinarySource_get_nonchars src cset = ([], src) \<and>
    BinarySource_get_chomped_line src = ([], src)"
proof -
  have "get_chars_loop src cset incl = src" for incl
    using assms by (subst get_chars_loop.simps) simp
  then show ?thesis
    using byte_codec.get_sticky [OF assms] bool_codec.get_sticky [OF assms]
      uint16_codec.get_sticky [OF assms] uint32_codec.get_sticky [OF assms]
      uint64_codec.get_sticky [OF assms] string_codec.get_sticky [OF assms]
      pstring_codec.get_sticky [OF assms] asciz_codec.get_sticky [OF assms] assms
    by (simp add: BinarySource_get_data_def BinarySource_get_chars_def
        BinarySource_get_nonchars_def BinarySource_get_chars_internal_def
        BinarySource_get_chomped_line_def)
qed

theorem get_error_sticky_witness:
  "BinarySource_get_string \<lparr>src_data = [0, 0, 0, 1, 7], src_pos = 0, src_err = BSE_INVALID\<rparr> =
     ([], \<lparr>src_data = [0, 0, 0, 1, 7], src_pos = 0, src_err = BSE_INVALID\<rparr>)"
  using get_error_sticky [of "\<lparr>src_data = [0, 0, 0, 1, 7], src_pos = 0, src_err = BSE_INVALID\<rparr>"]
  by simp

text \<open>
  C30. Scanning for a set of characters returns the longest prefix of the remaining data
  whose bytes are all in the set (or all outside it), where a zero byte counts as a member
  of every set; the source advances over exactly that prefix, and running into the end of
  the block also sets the out-of-data error.
\<close>

theorem get_chars_longest_prefix:
  assumes "src_err src = BSE_NO_ERROR" and "src_pos src \<le> src_len src"
  shows "BinarySource_get_chars_internal src cset incl =
    (let word = takeWhile (\<lambda>c. (c \<in> set cset \<or> c = 0) = incl) (drop (src_pos src) (src_data src));
         stop = src_pos src + length word in
     (word, src\<lparr>src_pos := stop,
        src_err := (if stop < src_len src then BSE_NO_ERROR else BSE_OUT_OF_DATA)\<rparr>))"
  using get_chars_loop_spec [OF assms(1), of cset incl] assms
  by (simp add: BinarySource_get_chars_internal_def src_wf_def c_strchr_def [abs_def] src_here_def
      Let_def flip: takeWhile_eq_take)

theorem get_chars_longest_prefix_witness:
  "BinarySource_get_chars_internal (BinarySource_INIT [97, 98, 0, 44, 99]) [44] False =
     ([97, 98], (BinarySource_INIT [97, 98, 0, 44, 99])\<lparr>src_pos := 2\<rparr>)"
  using get_chars_longest_prefix [of "BinarySource_INIT [97, 98, 0, 44, 99]" "[44]" False]
  by (simp add: BinarySource_INIT_def)

end
