(* ===== verification/Bufchain.thy ===== *)
theory Bufchain
  imports Marshal
begin

text \<open>
  The send-buffer chain \<^verbatim>\<open>bufchain\<close> of \<^verbatim>\<open>utils.c\<close>: a linked list of granules, each a
  block of memory with the pointers \<^verbatim>\<open>bufpos\<close>, \<^verbatim>\<open>bufend\<close> and \<^verbatim>\<open>bufmax\<close> into it. The
  pointers are offsets from the start of the granule's data area, so \<^verbatim>\<open>bufmax\<close> is the
  length of the block; the linked list is a list and \<^verbatim>\<open>tail\<close> is its last element. The
  idempotent callback that \<^verbatim>\<open>bufchain_add\<close> queues is returned beside the new chain.

  The source keeps the length still to be consumed or fetched in an \<^verbatim>\<open>int\<close>; a length
  that does not fit is the fault \<open>IntRange\<close>.
\<close>

record granule =
  g_mem :: "byte option list"
  bufpos :: nat
  bufend :: nat

abbreviation bufmax :: "granule \<Rightarrow> nat" where
  "bufmax g \<equiv> length (g_mem g)"

record 'ic bufchain =
  bc_granules :: "granule list"
  buffersize :: nat
  bc_ic :: "'ic option"

definition BUFFER_MIN_GRANULE :: nat where
  "BUFFER_MIN_GRANULE = 512"

definition sizeof_granule :: nat where
  \<comment> \<open>four pointers\<close>
  "sizeof_granule = 32"

definition bufchain_init :: "'ic bufchain" where
  "bufchain_init = \<lparr>bc_granules = [], buffersize = 0, bc_ic = None\<rparr>"

definition bufchain_clear :: "'ic bufchain \<Rightarrow> 'ic bufchain" where
  "bufchain_clear ch = ch\<lparr>bc_granules := [], buffersize := 0\<rparr>"

definition bufchain_size :: "'ic bufchain \<Rightarrow> nat" where
  "bufchain_size ch = buffersize ch"

definition bufchain_set_callback_inner :: "'ic bufchain \<Rightarrow> 'ic option \<Rightarrow> 'ic bufchain" where
  "bufchain_set_callback_inner ch ic = ch\<lparr>bc_ic := ic\<rparr>"

text \<open>
  One turn of the copying loop of \<^verbatim>\<open>bufchain_add\<close>: fill the free room of the tail, then
  add a new granule if data is left. \<open>tail_room\<close> is the loop's first test.
\<close>

definition tail_room :: "granule list \<Rightarrow> bool" where
  "tail_room gs \<longleftrightarrow> gs \<noteq> [] \<and> bufend (last gs) < bufmax (last gs)"

definition new_granule :: "(nat \<Rightarrow> bool) \<Rightarrow> nat \<Rightarrow> granule res" where
  "new_granule alloc len =
     (let grainlen = max (sizeof_granule + len) BUFFER_MIN_GRANULE in
      res_bind (safemalloc alloc grainlen 1 0) (\<lambda>_.
        Inr \<lparr>g_mem = replicate (grainlen - sizeof_granule) None, bufpos = 0, bufend = 0\<rparr>))"

definition fill_tail :: "granule list \<Rightarrow> byte list \<Rightarrow> (granule list \<times> byte list) res" where
  "fill_tail gs buf =
     (if tail_room gs then
        let t = last gs; copylen = min (length buf) (bufmax t - bufend t) in
        res_bind (mem_write (g_mem t) (bufend t) (map Some (take copylen buf))) (\<lambda>mem.
          Inr (butlast gs @ [t\<lparr>g_mem := mem, bufend := bufend t + copylen\<rparr>], drop copylen buf))
      else Inr (gs, buf))"

function bufchain_add_loop ::
  "(nat \<Rightarrow> bool) \<Rightarrow> granule list \<Rightarrow> byte list \<Rightarrow> granule list res" where
  "bufchain_add_loop alloc gs buf =
     (if buf = [] then Inr gs
      else
        (case fill_tail gs buf of
           Inl e \<Rightarrow> Inl e
         | Inr (gs, buf) \<Rightarrow>
             if buf = [] then Inr gs
             else
               (case new_granule alloc (length buf) of
                  Inl e \<Rightarrow> Inl e
                | Inr newbuf \<Rightarrow> bufchain_add_loop alloc (gs @ [newbuf]) buf)))"
  by pat_completeness auto
termination
proof (relation "measure (\<lambda>(alloc, gs, buf). 2 * length buf + of_bool (\<not> tail_room gs))", goal_cases)
  case (2 alloc gs buf p gs' buf' newbuf)
  then have fill: "fill_tail gs buf = Inr (gs', buf')" and "buf' \<noteq> []" and "buf \<noteq> []"
    and "new_granule alloc (length buf') = Inr newbuf" by auto
  then have room: "tail_room (gs' @ [newbuf])"
    by (auto simp: new_granule_def tail_room_def Let_def res_bind_eq_Inr max_def
        sizeof_granule_def BUFFER_MIN_GRANULE_def split: if_splits)
  have "length buf' < length buf \<or> \<not> tail_room gs \<and> buf' = buf"
    using fill \<open>buf \<noteq> []\<close>
    by (auto simp: fill_tail_def tail_room_def Let_def res_bind_eq_Inr split: if_splits)
  with room show ?case by auto
qed simp

declare bufchain_add_loop.simps [simp del]

definition bufchain_add ::
  "(nat \<Rightarrow> bool) \<Rightarrow> 'ic bufchain \<Rightarrow> byte list \<Rightarrow> ('ic bufchain \<times> 'ic option) res" where
  "bufchain_add alloc ch data =
     (if length data = 0 then Inr (ch, None)
      else
        res_bind (bufchain_add_loop alloc (bc_granules ch) data) (\<lambda>gs.
          Inr (ch\<lparr>bc_granules := gs, buffersize := buffersize ch + length data\<rparr>, bc_ic ch)))"

function bufchain_consume_loop ::
  "granule list \<Rightarrow> nat \<Rightarrow> nat \<Rightarrow> (granule list \<times> nat) res" where
  "bufchain_consume_loop gs bsize len =
     (if len > 0 then
        if len > INT_MAX then Inl IntRange
        else
          let remlen = len in
          (case gs of
             [] \<Rightarrow> Inl AssertFail
           | h # rest \<Rightarrow>
               if remlen \<ge> bufend h - bufpos h then
                 let remlen = bufend h - bufpos h in
                 bufchain_consume_loop rest (bsize - remlen) (len - remlen)
               else
                 bufchain_consume_loop (h\<lparr>bufpos := bufpos h + remlen\<rparr> # rest)
                   (bsize - remlen) (len - remlen))
      else Inr (gs, bsize))"
  by pat_completeness auto
termination
  by (relation "measure (\<lambda>(gs, bsize, len). length gs + len)") (auto simp: Let_def)

declare bufchain_consume_loop.simps [simp del]

definition bufchain_consume :: "'ic bufchain \<Rightarrow> nat \<Rightarrow> 'ic bufchain res" where
  "bufchain_consume ch len =
     res_bind (assert_res (buffersize ch \<ge> len)) (\<lambda>_.
     res_bind (bufchain_consume_loop (bc_granules ch) (buffersize ch) len) (\<lambda>(gs, bsize).
       Inr (ch\<lparr>bc_granules := gs, buffersize := bsize\<rparr>)))"

definition granule_bytes :: "granule \<Rightarrow> byte option list" where
  "granule_bytes g = take (bufend g - bufpos g) (drop (bufpos g) (g_mem g))"

definition bufchain_prefix :: "'ic bufchain \<Rightarrow> byte option list res" where
  "bufchain_prefix ch =
     (case bc_granules ch of [] \<Rightarrow> Inl NullDeref | h # _ \<Rightarrow> Inr (granule_bytes h))"

fun bufchain_fetch_loop :: "granule list \<Rightarrow> nat \<Rightarrow> byte option list res" where
  "bufchain_fetch_loop gs len =
     (if len > 0 then
        if len > INT_MAX then Inl IntRange
        else
          (case gs of
             [] \<Rightarrow> Inl AssertFail
           | h # rest \<Rightarrow>
               let remlen = min len (bufend h - bufpos h) in
               (case bufchain_fetch_loop rest (len - remlen) of
                  Inl e \<Rightarrow> Inl e
                | Inr more_data \<Rightarrow> Inr (take remlen (drop (bufpos h) (g_mem h)) @ more_data)))
      else Inr [])"

declare bufchain_fetch_loop.simps [simp del]

definition bufchain_fetch :: "'ic bufchain \<Rightarrow> nat \<Rightarrow> byte option list res" where
  "bufchain_fetch ch len =
     res_bind (assert_res (buffersize ch \<ge> len)) (\<lambda>_. bufchain_fetch_loop (bc_granules ch) len)"

definition bufchain_fetch_consume ::
  "'ic bufchain \<Rightarrow> nat \<Rightarrow> (byte option list \<times> 'ic bufchain) res" where
  "bufchain_fetch_consume ch len =
     res_bind (bufchain_fetch ch len) (\<lambda>data.
     res_bind (bufchain_consume ch len) (\<lambda>ch. Inr (data, ch)))"

definition bufchain_try_fetch_consume ::
  "'ic bufchain \<Rightarrow> nat \<Rightarrow> (byte option list option \<times> 'ic bufchain) res" where
  "bufchain_try_fetch_consume ch len =
     (if buffersize ch \<ge> len
      then res_bind (bufchain_fetch_consume ch len) (\<lambda>(data, ch). Inr (Some data, ch))
      else Inr (None, ch))"

definition bufchain_fetch_consume_up_to ::
  "'ic bufchain \<Rightarrow> nat \<Rightarrow> (byte option list \<times> nat \<times> 'ic bufchain) res" where
  "bufchain_fetch_consume_up_to ch len =
     (let len = (if len > buffersize ch then buffersize ch else len) in
      if len \<noteq> 0
      then res_bind (bufchain_fetch_consume ch len) (\<lambda>(data, ch). Inr (data, len, ch))
      else Inr ([], len, ch))"

definition bufchain_sink_write ::
  "(nat \<Rightarrow> bool) \<Rightarrow> 'ic bufchain \<Rightarrow> byte list \<Rightarrow> 'ic bufchain res" where
  "bufchain_sink_write alloc ch data = res_bind (bufchain_add alloc ch data) (\<lambda>(ch, _). Inr ch)"

subsection \<open>Invariant and contents\<close>

definition granule_ok :: "granule \<Rightarrow> bool" where
  "granule_ok g \<longleftrightarrow> bufpos g < bufend g \<and> bufend g \<le> bufmax g"

definition bufchain_contents :: "'ic bufchain \<Rightarrow> byte option list" where
  "bufchain_contents ch = concat (map granule_bytes (bc_granules ch))"

definition bufchain_ok :: "'ic bufchain \<Rightarrow> bool" where
  "bufchain_ok ch \<longleftrightarrow> list_all granule_ok (bc_granules ch) \<and>
     buffersize ch = length (bufchain_contents ch)"

abbreviation chain_bytes :: "granule list \<Rightarrow> byte option list" where
  "chain_bytes gs \<equiv> concat (map granule_bytes gs)"

definition chain_open :: "granule list \<Rightarrow> bool" where
  "chain_open gs \<longleftrightarrow> list_all granule_ok (butlast gs) \<and>
     (gs \<noteq> [] \<longrightarrow> bufpos (last gs) \<le> bufend (last gs) \<and> bufend (last gs) \<le> bufmax (last gs) \<and>
        (granule_ok (last gs) \<or> tail_room gs))"

lemma chain_ok_open: "list_all granule_ok gs \<Longrightarrow> chain_open gs"
  by (cases gs rule: rev_cases) (auto simp: chain_open_def granule_ok_def)

lemma granule_bytes_extend:
  assumes "bufpos g \<le> bufend g" "bufend g + length d \<le> bufmax g"
    and "mem_write (g_mem g) (bufend g) d = Inr mem"
  shows "granule_bytes (g\<lparr>g_mem := mem, bufend := bufend g + length d\<rparr>) = granule_bytes g @ d"
proof -
  have "mem = take (bufend g) (g_mem g) @ d @ drop (bufend g + length d) (g_mem g)"
    using assms(3) by (simp add: mem_write_eq_Inr)
  then show ?thesis using assms(1,2)
    by (simp add: granule_bytes_def drop_take)
qed

lemma fill_tail_spec:
  assumes "chain_open gs" and "buf \<noteq> []"
  obtains gs' buf' where "fill_tail gs buf = Inr (gs', buf')" "list_all granule_ok gs'"
    "chain_bytes gs' @ map Some buf' = chain_bytes gs @ map Some buf"
proof (cases "tail_room gs")
  case True
  then obtain front t where gs: "gs = front @ [t]" by (cases gs rule: rev_cases) (auto simp: tail_room_def)
  let ?n = "min (length buf) (bufmax t - bufend t)"
  let ?d = "map Some (take ?n buf)"
  from True assms gs have t: "bufpos t \<le> bufend t" "bufend t < bufmax t" "list_all granule_ok front"
    by (auto simp: chain_open_def tail_room_def)
  have d: "length ?d = ?n" "bufend t + length ?d \<le> bufmax t" "?n > 0" using t assms(2) by auto
  then obtain mem where mem: "mem_write (g_mem t) (bufend t) ?d = Inr mem"
    by (simp add: mem_write_def)
  let ?t = "t\<lparr>g_mem := mem, bufend := bufend t + ?n\<rparr>"
  have "fill_tail gs buf = Inr (front @ [?t], drop ?n buf)"
    using True mem by (simp add: fill_tail_def gs Let_def)
  moreover have "granule_bytes ?t = granule_bytes t @ ?d"
    using granule_bytes_extend [OF t(1) d(2) mem] d(1) by simp
  moreover have "bufpos t < bufend t + ?n"
    using t(1) d(3) by linarith
  then have "granule_ok ?t"
    using d(1,2) length_mem_write [OF mem] by (simp add: granule_ok_def)
  moreover have "map Some (take ?n buf) @ map Some (drop ?n buf) = map Some buf"
    by (metis map_append append_take_drop_id)
  ultimately show thesis
    using t(3) that [of "front @ [?t]" "drop ?n buf"] by (simp add: gs)
next
  case False
  with assms have "list_all granule_ok gs"
    by (cases gs rule: rev_cases) (auto simp: chain_open_def)
  with False that [of gs buf] show thesis by (simp add: fill_tail_def)
qed

lemma new_granule_spec:
  assumes "new_granule alloc n = Inr g" and "list_all granule_ok gs" 
  shows "chain_open (gs @ [g])" "chain_bytes (gs @ [g]) = chain_bytes gs"
  using assms
  by (auto simp: new_granule_def chain_open_def tail_room_def res_bind_eq_Inr Let_def
      granule_bytes_def sizeof_granule_def BUFFER_MIN_GRANULE_def)

lemma bufchain_add_loop_spec:
  assumes "chain_open gs" and "buf \<noteq> []"
  shows "case bufchain_add_loop alloc gs buf of
      Inl e \<Rightarrow> e = OutOfMemory
    | Inr gs' \<Rightarrow> list_all granule_ok gs' \<and> chain_bytes gs' = chain_bytes gs @ map Some buf"
  using assms
proof (induction alloc gs buf rule: bufchain_add_loop.induct)
  case (1 alloc gs buf)
  obtain gs1 buf1 where f: "fill_tail gs buf = Inr (gs1, buf1)" "list_all granule_ok gs1"
    "chain_bytes gs1 @ map Some buf1 = chain_bytes gs @ map Some buf"
    using fill_tail_spec [OF "1.prems"] by metis
  show ?case
  proof (cases "buf1 = []")
    case True
    with f "1.prems" show ?thesis by (subst bufchain_add_loop.simps) simp
  next
    case False
    show ?thesis
    proof (cases "new_granule alloc (length buf1)")
      case (Inl e)
      then have "e = OutOfMemory"
        by (auto simp: new_granule_def safemalloc_def Let_def res_bind_def split: if_splits)
      with Inl False f "1.prems" show ?thesis by (subst bufchain_add_loop.simps) simp
    next
      case (Inr g)
      note n = new_granule_spec [OF Inr f(2)]
      have "bufchain_add_loop alloc gs buf = bufchain_add_loop alloc (gs1 @ [g]) buf1"
        using Inr False f "1.prems" by (subst bufchain_add_loop.simps) simp
      then show ?thesis
        using "1.IH" [OF "1.prems"(2) f(1) refl False Inr n(1) False] n(2) f(3) by (simp split: sum.splits)
    qed
  qed
qed

lemma bufchain_add_spec:
  assumes "bufchain_ok ch"
  shows "case bufchain_add alloc ch d of
      Inl e \<Rightarrow> e = OutOfMemory
    | Inr (ch', cb) \<Rightarrow> bufchain_ok ch' \<and> bufchain_contents ch' = bufchain_contents ch @ map Some d \<and>
        cb = (if d = [] then None else bc_ic ch)"
  using assms bufchain_add_loop_spec [OF chain_ok_open, of "bc_granules ch" d alloc]
  by (auto simp: bufchain_add_def bufchain_ok_def bufchain_contents_def res_bind_def
      split: sum.splits)

lemma granule_bytes_consume:
  assumes "granule_ok g" "n < bufend g - bufpos g"
  shows "granule_bytes (g\<lparr>bufpos := bufpos g + n\<rparr>) = drop n (granule_bytes g)"
    "granule_ok (g\<lparr>bufpos := bufpos g + n\<rparr>)"
  using assms by (auto simp: granule_bytes_def granule_ok_def drop_take add.commute)

lemma length_granule_bytes: "granule_ok g \<Longrightarrow> length (granule_bytes g) = bufend g - bufpos g"
  by (auto simp: granule_bytes_def granule_ok_def)

lemma bufchain_consume_loop_spec:
  assumes "list_all granule_ok gs" "bsize = length (chain_bytes gs)" "n \<le> bsize" "n \<le> INT_MAX"
  shows "\<exists>gs'. bufchain_consume_loop gs bsize n = Inr (gs', bsize - n) \<and>
    list_all granule_ok gs' \<and> chain_bytes gs' = drop n (chain_bytes gs)"
  using assms
proof (induction gs bsize n rule: bufchain_consume_loop.induct)
  case (1 gs bsize n)
  show ?case
  proof (cases "n = 0")
    case True
    with "1.prems" show ?thesis by (subst bufchain_consume_loop.simps) simp
  next
    case False
    then obtain h rest where gs: "gs = h # rest" using "1.prems" by (cases gs) auto
    let ?a = "bufend h - bufpos h"
    have h: "granule_ok h" "length (granule_bytes h) = ?a"
      using "1.prems"(1) length_granule_bytes by (auto simp: gs)
    show ?thesis
    proof (cases "n \<ge> ?a")
      case True
      have "bufchain_consume_loop gs bsize n = bufchain_consume_loop rest (bsize - ?a) (n - ?a)"
        using True False "1.prems"(4) by (subst bufchain_consume_loop.simps) (simp add: gs Let_def)
      moreover have "\<exists>gs'. bufchain_consume_loop rest (bsize - ?a) (n - ?a) = Inr (gs', bsize - ?a - (n - ?a)) \<and>
        list_all granule_ok gs' \<and> chain_bytes gs' = drop (n - ?a) (chain_bytes rest)"
        using False "1.prems" True h by (intro "1.IH"(1) [OF _ _ refl gs]) (auto simp: gs)
      ultimately show ?thesis using True h(2) by (auto simp: gs)
    next
      case less: False
      let ?h = "h\<lparr>bufpos := bufpos h + n\<rparr>"
      have "bufchain_consume_loop gs bsize n = bufchain_consume_loop (?h # rest) (bsize - n) (n - n)"
        using less False "1.prems"(4) by (subst bufchain_consume_loop.simps) (simp add: gs)
      also have "\<dots> = Inr (?h # rest, bsize - n)"
        by (subst bufchain_consume_loop.simps) simp
      finally show ?thesis
        using less h "1.prems"(1) granule_bytes_consume [OF h(1), of n] by (auto simp: gs)
    qed
  qed
qed

lemma bufchain_fetch_loop_spec:
  assumes "list_all granule_ok gs" "n \<le> length (chain_bytes gs)" "n \<le> INT_MAX"
  shows "bufchain_fetch_loop gs n = Inr (take n (chain_bytes gs))"
  using assms
proof (induction gs arbitrary: n)
  case Nil
  then show ?case by (subst bufchain_fetch_loop.simps) simp
next
  case (Cons h rest)
  let ?r = "min n (bufend h - bufpos h)"
  have h: "length (granule_bytes h) = bufend h - bufpos h"
    using Cons.prems length_granule_bytes by auto
  have "take ?r (drop (bufpos h) (g_mem h)) = take n (granule_bytes h)"
    by (simp add: granule_bytes_def)
  moreover have "bufchain_fetch_loop rest (n - ?r) = Inr (take (n - ?r) (chain_bytes rest))"
    using Cons.prems h by (intro Cons.IH) auto
  ultimately show ?case
    using Cons.prems h by (subst bufchain_fetch_loop.simps) (auto simp: Let_def min_def)
qed

lemma bufchain_fetch_consume_spec:
  assumes ok: "bufchain_ok ch" and n: "n \<le> length (bufchain_contents ch)" "n \<le> INT_MAX"
  shows "\<exists>ch'. bufchain_fetch_consume ch n = Inr (take n (bufchain_contents ch), ch') \<and>
    bufchain_ok ch' \<and> bufchain_contents ch' = drop n (bufchain_contents ch) \<and> bc_ic ch' = bc_ic ch"
proof -
  from ok n obtain gs' where "bufchain_consume_loop (bc_granules ch) (buffersize ch) n = Inr (gs', buffersize ch - n)"
    "list_all granule_ok gs'" "chain_bytes gs' = drop n (chain_bytes (bc_granules ch))"
    using bufchain_consume_loop_spec [of "bc_granules ch" "buffersize ch" n]
    by (auto simp: bufchain_ok_def bufchain_contents_def)
  then show ?thesis
    using ok n bufchain_fetch_loop_spec [of "bc_granules ch" n]
    by (auto simp: bufchain_fetch_consume_def bufchain_fetch_def bufchain_consume_def bufchain_ok_def
        bufchain_contents_def)
qed

subsection \<open>The contract of a byte queue\<close>

text \<open>
  What the network and proxy code relies on when it buffers data: bytes come out in the
  order they went in, whatever the sizes of the pieces.
\<close>

locale byte_queue =
  fixes put :: "'q \<Rightarrow> byte list \<Rightarrow> 'q res"
    and take_out :: "'q \<Rightarrow> nat \<Rightarrow> (byte option list \<times> 'q) res"
    and contents :: "'q \<Rightarrow> byte option list"
    and invar :: "'q \<Rightarrow> bool"
    and limit :: nat
  assumes put_ok: "invar q \<Longrightarrow> put q d = Inr q' \<Longrightarrow>
      invar q' \<and> contents q' = contents q @ map Some d"
    and take_ok: "invar q \<Longrightarrow> n \<le> length (contents q) \<Longrightarrow> n \<le> limit \<Longrightarrow>
      \<exists>q'. take_out q n = Inr (take n (contents q), q') \<and> invar q' \<and>
        contents q' = drop n (contents q)"
begin

primrec put_all :: "'q \<Rightarrow> byte list list \<Rightarrow> 'q res" where
  "put_all q [] = Inr q"
| "put_all q (d # ds) = res_bind (put q d) (\<lambda>q. put_all q ds)"

primrec take_all :: "'q \<Rightarrow> nat list \<Rightarrow> (byte option list \<times> 'q) res" where
  "take_all q [] = Inr ([], q)"
| "take_all q (n # ns) =
     res_bind (take_out q n) (\<lambda>(d, q). res_bind (take_all q ns) (\<lambda>(e, q). Inr (d @ e, q)))"

lemma put_all_contents:
  "invar q \<Longrightarrow> put_all q ds = Inr q' \<Longrightarrow>
   invar q' \<and> contents q' = contents q @ map Some (concat ds)"
  by (induction ds arbitrary: q) (auto simp: res_bind_eq_Inr dest: put_ok)

lemma take_all_prefix:
  assumes "invar q" and "sum_list ns \<le> length (contents q)" and "\<forall>n \<in> set ns. n \<le> limit"
  shows "\<exists>q'. take_all q ns = Inr (take (sum_list ns) (contents q), q') \<and> invar q' \<and>
    contents q' = drop (sum_list ns) (contents q)"
  using assms
proof (induction ns arbitrary: q)
  case Nil
  then show ?case by simp
next
  case (Cons n ns)
  then obtain q1 where q1: "take_out q n = Inr (take n (contents q), q1)" "invar q1"
    "contents q1 = drop n (contents q)"
    using take_ok [of q n] by auto
  from Cons.prems q1 obtain q2 where
    "take_all q1 ns = Inr (take (sum_list ns) (contents q1), q2)" "invar q2"
    "contents q2 = drop (sum_list ns) (contents q1)"
    using Cons.IH [of q1] by force
  with q1 show ?case by (simp add: take_add add.commute)
qed

lemma stream_order:
  assumes "invar q" and "contents q = []" and "put_all q ds = Inr q1"
    and "sum_list ns = length (concat ds)" and "\<forall>n \<in> set ns. n \<le> limit"
  shows "\<exists>q2. take_all q1 ns = Inr (map Some (concat ds), q2) \<and> invar q2 \<and> contents q2 = []"
proof -
  have "invar q1" "contents q1 = map Some (concat ds)"
    using put_all_contents [OF assms(1,3)] assms(2) by simp_all
  with take_all_prefix [of q1 ns] assms(4,5) show ?thesis by simp
qed

end

lemma bufchain_sink_write_spec:
  assumes "bufchain_ok ch"
  shows "case bufchain_sink_write alloc ch d of
      Inl e \<Rightarrow> e = OutOfMemory
    | Inr ch' \<Rightarrow> bufchain_ok ch' \<and> bufchain_contents ch' = bufchain_contents ch @ map Some d"
  using bufchain_add_spec [OF assms, where alloc = alloc and d = d]
  by (auto simp: bufchain_sink_write_def res_bind_def split: sum.splits prod.splits)

interpretation bcq: byte_queue "bufchain_sink_write alloc" bufchain_fetch_consume
  bufchain_contents bufchain_ok INT_MAX for alloc
proof (unfold_locales, goal_cases)
  case (1 q d q')
  then show ?case using bufchain_sink_write_spec [OF 1(1), where alloc = alloc and d = d] by simp
next
  case (2 q n)
  then show ?case using bufchain_fetch_consume_spec [OF 2] by blast
qed

interpretation bcs: binary_sink "bufchain_sink_write alloc" bufchain_contents bufchain_ok for alloc
proof (unfold_locales, goal_cases)
  case (1 s d s')
  then show ?case using bufchain_sink_write_spec [OF 1(1), where alloc = alloc and d = d] by simp
next
  case (2 s d s')
  then show ?case using bufchain_sink_write_spec [OF 2(1), where alloc = alloc and d = d] by simp
next
  case (3 s d e)
  then show ?case using bufchain_sink_write_spec [OF 3(1), where alloc = alloc and d = d] by simp
qed

subsection \<open>Properties\<close>

text \<open>
  C22. A buffer chain is a queue of bytes: adding data to a well-formed chain appends it
  (and queues the registered callback exactly when some data was added), never stores
  outside a granule, and can only fail for lack of memory.
\<close>

theorem bufchain_add_appends:
  assumes "bufchain_ok ch"
  shows "case bufchain_add alloc ch d of
      Inl e \<Rightarrow> e = OutOfMemory
    | Inr (ch', cb) \<Rightarrow> bufchain_ok ch' \<and>
        bufchain_contents ch' = bufchain_contents ch @ map Some d \<and>
        bufchain_size ch' = bufchain_size ch + length d \<and>
        cb = (if d = [] then None else bc_ic ch)"
  using bufchain_add_spec [OF assms, where alloc = alloc and d = d] assms
  by (auto simp: bufchain_size_def bufchain_ok_def split: sum.splits)

lemma bufchain_init_ok: "bufchain_ok bufchain_init" "bufchain_contents bufchain_init = []"
  by (simp_all add: bufchain_init_def bufchain_ok_def bufchain_contents_def)

theorem bufchain_add_appends_witness:
  "\<exists>ch'. bufchain_add (\<lambda>_. True) (bufchain_init :: nat bufchain) [1, 2, 3] = Inr (ch', None) \<and>
     bufchain_contents ch' = [Some 1, Some 2, Some 3]"
proof -
  obtain ch' cb where
    run: "bufchain_add (\<lambda>_. True) (bufchain_init :: nat bufchain) [1, 2, 3] = Inr (ch', cb)"
    by (auto simp: bufchain_add_def bufchain_init_def bufchain_add_loop.simps fill_tail_def
        tail_room_def new_granule_def safemalloc_def sizeof_granule_def
        BUFFER_MIN_GRANULE_def mem_write_def Let_def)
  show ?thesis
    using bufchain_add_appends [OF bufchain_init_ok(1), where 'a = nat and alloc = "\<lambda>_. True"
        and d = "[1, 2, 3]"] run
    by (simp add: bufchain_init_ok) (simp add: bufchain_init_def)
qed

text \<open>
  C21. Removing data: for any length within the buffered amount (and within \<^verbatim>\<open>int\<close>
  range), fetching and consuming succeeds, returns exactly the oldest bytes, leaves
  exactly the rest, and keeps the chain well-formed; asking for up to \<open>n\<close> bytes returns
  as many as there are.
\<close>

theorem bufchain_fetch_consume_correct:
  assumes "bufchain_ok ch" and "n \<le> bufchain_size ch" and "n \<le> INT_MAX"
  shows "\<exists>ch'. bufchain_fetch_consume ch n = Inr (take n (bufchain_contents ch), ch') \<and>
      bufchain_try_fetch_consume ch n = Inr (Some (take n (bufchain_contents ch)), ch') \<and>
      bufchain_ok ch' \<and> bufchain_contents ch' = drop n (bufchain_contents ch) \<and>
      bufchain_size ch' = bufchain_size ch - n"
proof -
  have n: "n \<le> length (bufchain_contents ch)"
    using assms(1,2) by (simp add: bufchain_size_def bufchain_ok_def)
  obtain ch' where ch': "bufchain_fetch_consume ch n = Inr (take n (bufchain_contents ch), ch')"
    "bufchain_ok ch'" "bufchain_contents ch' = drop n (bufchain_contents ch)"
    using bufchain_fetch_consume_spec [OF assms(1) n assms(3)] by blast
  then have "bufchain_size ch' = bufchain_size ch - n"
    using assms(1) by (simp add: bufchain_size_def bufchain_ok_def)
  with ch' assms(2) show ?thesis
    by (auto simp: bufchain_try_fetch_consume_def bufchain_size_def)
qed

definition chain_sample :: "nat bufchain" where
  "chain_sample = \<lparr>bc_granules = [\<lparr>g_mem = [None, Some 5, Some 6], bufpos = 1, bufend = 3\<rparr>,
     \<lparr>g_mem = [Some 7, None], bufpos = 0, bufend = 1\<rparr>], buffersize = 3, bc_ic = None\<rparr>"

theorem bufchain_fetch_consume_correct_witness:
  "\<exists>ch'. bufchain_fetch_consume chain_sample 2 = Inr ([Some 5, Some 6], ch') \<and>
     bufchain_contents ch' = [Some 7]"
proof -
  have "bufchain_ok chain_sample" "2 \<le> bufchain_size chain_sample"
    "bufchain_contents chain_sample = [Some 5, Some 6, Some 7]"
    by (simp_all add: chain_sample_def bufchain_ok_def granule_ok_def bufchain_contents_def
        granule_bytes_def bufchain_size_def)
  with bufchain_fetch_consume_correct [OF this(1,2)] show ?thesis by auto
qed

lemma bufchain_stream_order:
  assumes "bcq.put_all alloc (bufchain_init :: 'ic bufchain) ds = Inr ch"
    and "sum_list ns = length (concat ds)" and "list_all (\<lambda>n. n \<le> INT_MAX) ns"
  shows "\<exists>ch'. bcq.take_all ch ns = Inr (map Some (concat ds), ch') \<and>
    bufchain_ok ch' \<and> bufchain_contents ch' = []"
  using bcq.stream_order [OF bufchain_init_ok assms(1,2)] assms(3) by (simp add: list_all_iff)

end
