(* ===== verification/Utils.thy ===== *)
theory Utils
  imports Prelude
begin

text \<open>
  String and byte utilities of \<^verbatim>\<open>utils.c\<close>. A C string is the \<open>string\<close> of its characters
  before the terminator; a pointer into it is the remaining suffix or an index. Functions
  that return a freshly allocated copy return the copied string.
\<close>

subsection \<open>Numbers at the start of a string\<close>

definition c_isspace :: "char \<Rightarrow> bool" where
  "c_isspace c \<longleftrightarrow> (of_char c :: nat) = 32 \<or> 9 \<le> (of_char c :: nat) \<and> (of_char c :: nat) \<le> 13"

definition c_isdigit :: "char \<Rightarrow> bool" where
  "c_isdigit c \<longleftrightarrow> 48 \<le> (of_char c :: nat) \<and> (of_char c :: nat) \<le> 57"

definition c_isxdigit :: "char \<Rightarrow> bool" where
  "c_isxdigit c \<longleftrightarrow> c_isdigit c \<or>
     65 \<le> (of_char c :: nat) \<and> (of_char c :: nat) \<le> 70 \<or>
     97 \<le> (of_char c :: nat) \<and> (of_char c :: nat) \<le> 102"

definition digit_value :: "char \<Rightarrow> nat" where
  "digit_value c =
     (let n = (of_char c :: nat) in
      if 48 \<le> n \<and> n \<le> 57 then n - 48
      else if 97 \<le> n \<and> n \<le> 122 then n - 87
      else if 65 \<le> n \<and> n \<le> 90 then n - 55
      else 99)"

definition number_value :: "nat \<Rightarrow> string \<Rightarrow> nat" where
  "number_value base ds = foldl (\<lambda>n c. n * base + digit_value c) 0 ds"

text \<open>
  The C library's \<^verbatim>\<open>strtoul\<close> in base 10 and \<^verbatim>\<open>strtol\<close> in base 0, with the rest of the
  string they leave: white space, a sign, a base prefix, digits; saturation on overflow;
  the whole string when there are no digits.
\<close>

definition c_sign :: "string \<Rightarrow> bool \<times> string" where
  "c_sign s = (case s of c # t \<Rightarrow> if c = CHR ''-'' then (True, t)
     else if c = CHR ''+'' then (False, t) else (False, s) | [] \<Rightarrow> (False, s))"

definition strtoul10 :: "string \<Rightarrow> u64 \<times> string" where
  "strtoul10 s =
     (let (neg, t) = c_sign (dropWhile c_isspace s); ds = takeWhile c_isdigit t in
      if ds = [] then (0, s)
      else
        let n = number_value 10 ds in
        (if n > SIZE_MAX then -1 else if neg then - of_nat n else of_nat n,
         dropWhile c_isdigit t))"

definition strtol0 :: "string \<Rightarrow> int \<times> string" where
  "strtol0 s =
     (let (neg, t) = c_sign (dropWhile c_isspace s);
          hex = (case t of z # x # d # _ \<Rightarrow> z = CHR ''0'' \<and> (x = CHR ''x'' \<or> x = CHR ''X'') \<and>
                   c_isxdigit d | _ \<Rightarrow> False);
          base = (if hex then 16 else if t \<noteq> [] \<and> hd t = CHR ''0'' then 8 else 10);
          t = (if hex then drop 2 t else t);
          isdig = (\<lambda>c. digit_value c < base); ds = takeWhile isdig t in
      if ds = [] then (0, s)
      else
        let n = int (number_value base ds); v = (if neg then - n else n) in
        (if v > 9223372036854775807 then 9223372036854775807
         else if v < -9223372036854775808 then -9223372036854775808 else v,
         dropWhile isdig t))"

definition parse_blocksize :: "string \<Rightarrow> u64" where
  "parse_blocksize bs =
     (let (r, suf) = strtoul10 bs in
      if suf \<noteq> [] then
        (case dropWhile c_isspace suf of
           c # _ \<Rightarrow>
             if c = CHR ''k'' \<or> c = CHR ''K'' then r * 1024
             else if c = CHR ''m'' \<or> c = CHR ''M'' then r * (1024 * 1024)
             else if c = CHR ''g'' \<or> c = CHR ''G'' then r * (1024 * 1024 * 1024)
             else r
         | [] \<Rightarrow> r)
      else r)"

text \<open>
  \<^verbatim>\<open>ctrlparse\<close> stores the place to go on from through its second argument: a null
  pointer, a position (the rest of the string), or nothing at all on the path that assigns
  neither.
\<close>

datatype next_ptr = NextNull | NextAt string | NextUnset

definition ctrlparse :: "string \<Rightarrow> char \<times> next_ptr" where
  "ctrlparse s =
     (case s of
        c # s \<Rightarrow>
          if c \<noteq> CHR ''^'' then (CHR 0x00, NextNull)
          else
            (case s of
               [] \<Rightarrow> (CHR 0x00, NextNull)
             | x # s' \<Rightarrow>
                 let n = (of_char x :: nat) in
                 if x = CHR ''<'' then
                   let (v, nxt) = strtol0 s' in
                   if nxt = s' \<or> nxt = [] \<or> hd nxt \<noteq> CHR ''>'' then (CHR 0x00, NextNull)
                   else (char_of (v mod 256), NextAt (tl nxt))
                 else if 97 \<le> n \<and> n \<le> 122 then (char_of (n - 96), NextAt s')
                 else if 64 \<le> n \<and> n \<le> 95 \<or> x = CHR ''?'' \<or> n \<ge> 128
                 then (char_of ((64 :: nat) XOR n), NextAt s')
                 else if x = CHR ''~'' then (CHR ''^'', NextAt s')
                 else (CHR 0x00, NextUnset))
      | [] \<Rightarrow> (CHR 0x00, NextNull))"

subsection \<open>Host and port strings\<close>

fun host_strchr_loop ::
  "string \<Rightarrow> nat \<Rightarrow> string \<Rightarrow> bool \<Rightarrow> nat \<Rightarrow> nat option \<Rightarrow> nat option" where
  "host_strchr_loop [] i cset fst_only brackets ret = ret"
| "host_strchr_loop (c # s) i cset fst_only brackets ret =
     (if c = CHR ''['' then host_strchr_loop s (Suc i) cset fst_only (brackets + 1) ret
      else if c = CHR '']'' \<and> brackets > 0
      then host_strchr_loop s (Suc i) cset fst_only (brackets - 1) ret
      else if brackets \<noteq> 0 \<and> c = CHR '':''
      then host_strchr_loop s (Suc i) cset fst_only brackets ret
      else if c \<in> set cset then
        if fst_only then Some i
        else host_strchr_loop s (Suc i) cset fst_only brackets (Some i)
      else host_strchr_loop s (Suc i) cset fst_only brackets ret)"

definition host_strchr_internal :: "string \<Rightarrow> string \<Rightarrow> bool \<Rightarrow> nat option" where
  "host_strchr_internal s cset fst_only = host_strchr_loop s 0 cset fst_only 0 None"

definition host_strcspn :: "string \<Rightarrow> string \<Rightarrow> nat" where
  "host_strcspn s cset =
     (case host_strchr_internal s cset True of Some i \<Rightarrow> i | None \<Rightarrow> length s)"

definition host_strchr :: "string \<Rightarrow> char \<Rightarrow> nat option" where
  "host_strchr s c = host_strchr_internal s [c] True"

definition host_strrchr :: "string \<Rightarrow> char \<Rightarrow> nat option" where
  "host_strrchr s c = host_strchr_internal s [c] False"

fun trim_scan :: "string \<Rightarrow> nat \<Rightarrow> string \<times> nat" where
  "trim_scan [] colons = ([], colons)"
| "trim_scan (c # p) colons =
     (if c = CHR '']'' then (c # p, colons)
      else if c_isxdigit c then trim_scan p colons
      else if c = CHR '':'' then trim_scan p (colons + 1)
      else (c # p, colons))"

definition host_strduptrim :: "string \<Rightarrow> string" where
  "host_strduptrim s =
     (case s of
        b # body \<Rightarrow>
          if b = CHR ''['' then
            let (p, colons) = trim_scan body 0;
                p = (case p of c # _ \<Rightarrow> if c = CHR ''%'' then dropWhile (\<lambda>c. c \<noteq> CHR '']'') p else p
                     | [] \<Rightarrow> p) in
            if p = [CHR '']''] \<and> colons > 1 then take (length body - length p) body else s
          else s
      | [] \<Rightarrow> s)"

subsection \<open>Plain string helpers\<close>

definition dupstr :: "string option \<Rightarrow> string option" where
  "dupstr s = s"

fun dupcat_fn :: "string \<Rightarrow> string list \<Rightarrow> string" where
  "dupcat_fn s1 [] = s1"
| "dupcat_fn s1 (sn # rest) = dupcat_fn (s1 @ sn) rest"

definition string_length_for_printf :: "nat \<Rightarrow> nat" where
  "string_length_for_printf s = (if s > INT_MAX then INT_MAX else s)"

fun chomp_len :: "string \<Rightarrow> nat \<Rightarrow> nat" where
  "chomp_len str 0 = 0"
| "chomp_len str (Suc n) =
     (if str ! n = CHR 0x0D \<or> str ! n = CHR 0x0A then chomp_len str n else Suc n)"

definition chomp :: "string option \<Rightarrow> string option" where
  "chomp str = (case str of None \<Rightarrow> None | Some s \<Rightarrow> Some (take (chomp_len s (length s)) s))"

definition strstartswith :: "string \<Rightarrow> string \<Rightarrow> bool" where
  "strstartswith s t \<longleftrightarrow> take (length t) s = t"

definition strendswith :: "string \<Rightarrow> string \<Rightarrow> bool" where
  "strendswith s t \<longleftrightarrow>
     (let slen = length s; tlen = length t in slen \<ge> tlen \<and> drop (slen - tlen) s = t)"

subsection \<open>Base64 atoms\<close>

definition base64_chars :: string where
  "base64_chars = ''ABCDEFGHIJKLMNOPQRSTUVWXYZabcdefghijklmnopqrstuvwxyz0123456789+/''"

definition base64_encode_atom :: "byte list \<Rightarrow> nat \<Rightarrow> string" where
  "base64_encode_atom data n =
     (let word = push_bit 16 (ucast (data ! 0)) :: u32;
          word = (if n > 1 then word OR push_bit 8 (ucast (data ! 1)) else word);
          word = (if n > 2 then word OR ucast (data ! 2) else word) in
      [base64_chars ! unat (drop_bit 18 word AND 0x3F),
       base64_chars ! unat (drop_bit 12 word AND 0x3F),
       (if n > 1 then base64_chars ! unat (drop_bit 6 word AND 0x3F) else CHR ''=''),
       (if n > 2 then base64_chars ! unat (word AND 0x3F) else CHR ''='')])"

definition base64_value :: "char \<Rightarrow> int option" where
  \<comment> \<open>the classification chain of the decoding loop; \<open>None\<close> is the invalid-atom return\<close>
  "base64_value c =
     (let n = (of_char c :: int) in
      if 65 \<le> n \<and> n \<le> 90 then Some (n - 65)
      else if 97 \<le> n \<and> n \<le> 122 then Some (n - 97 + 26)
      else if 48 \<le> n \<and> n \<le> 57 then Some (n - 48 + 52)
      else if c = CHR ''+'' then Some 62
      else if c = CHR ''/'' then Some 63
      else if c = CHR ''='' then Some (-1)
      else None)"

definition base64_decode_atom :: "string \<Rightarrow> byte list" where
  \<comment> \<open>the decoded bytes; the empty list is the return value 0\<close>
  "base64_decode_atom atom =
     (case (base64_value (atom ! 0), base64_value (atom ! 1),
            base64_value (atom ! 2), base64_value (atom ! 3)) of
        (Some v0, Some v1, Some v2, Some v3) \<Rightarrow>
          if v0 = -1 \<or> v1 = -1 then []
          else if v2 = -1 \<and> v3 \<noteq> -1 then []
          else
            let len = (if v3 \<noteq> -1 then 3 else if v2 \<noteq> -1 then 2 else 1 :: nat);
                word = push_bit 18 (of_int v0) OR push_bit 12 (of_int v1) OR
                       push_bit 6 (of_int v2 AND 0x3F) OR (of_int v3 AND 0x3F) :: u32 in
            [ucast (drop_bit 16 word)] @
            (if len > 1 then [ucast (drop_bit 8 word)] else []) @
            (if len > 2 then [ucast word] else [])
      | _ \<Rightarrow> [])"

subsection \<open>Comparisons and slices\<close>

definition smemeq :: "byte list \<Rightarrow> byte list \<Rightarrow> bool" where
  \<comment> \<open>both blocks have the length the C function is given\<close>
  "smemeq a b =
     (let val = fold (\<lambda>(x, y) val. val OR (ucast (x XOR y) :: u32)) (zip a b) 0 in
      drop_bit 8 (0x100 - val) \<noteq> 0)"

fun memcmp :: "byte list \<Rightarrow> byte list \<Rightarrow> int" where
  \<comment> \<open>only the sign of the C result is specified\<close>
  "memcmp (x # a) (y # b) = (if x < y then -1 else if y < x then 1 else memcmp a b)"
| "memcmp _ _ = 0"

definition nullstrcmp :: "byte list option \<Rightarrow> byte list option \<Rightarrow> int" where
  "nullstrcmp a b =
     (case (a, b) of
        (None, None) \<Rightarrow> 0 | (None, Some _) \<Rightarrow> -1 | (Some _, None) \<Rightarrow> 1
      | (Some a, Some b) \<Rightarrow> memcmp (a @ [0]) (b @ [0]))"

definition ptrlen_eq_ptrlen :: "byte list \<Rightarrow> byte list \<Rightarrow> bool" where
  "ptrlen_eq_ptrlen pl1 pl2 \<longleftrightarrow> length pl1 = length pl2 \<and> memcmp pl1 pl2 = 0"

definition ptrlen_eq_string :: "byte list \<Rightarrow> byte list \<Rightarrow> bool" where
  "ptrlen_eq_string pl str \<longleftrightarrow> length pl = length str \<and> memcmp pl str = 0"

definition ptrlen_strcmp :: "byte list \<Rightarrow> byte list \<Rightarrow> int" where
  "ptrlen_strcmp pl1 pl2 =
     (let minlen = (if length pl1 < length pl2 then length pl1 else length pl2);
          cmp = (if minlen \<noteq> 0 then memcmp (take minlen pl1) (take minlen pl2) else 0) in
      if cmp \<noteq> 0 then cmp
      else if length pl1 < length pl2 then -1 else if length pl1 > length pl2 then 1 else 0)"

definition ptrlen_startswith :: "byte list \<Rightarrow> byte list \<Rightarrow> byte list option" where
  "ptrlen_startswith whole prefix =
     (if length whole \<ge> length prefix \<and> memcmp (take (length prefix) whole) prefix = 0
      then Some (drop (length prefix) whole) else None)"

definition ptrlen_endswith :: "byte list \<Rightarrow> byte list \<Rightarrow> byte list option" where
  "ptrlen_endswith whole suffix =
     (if length whole \<ge> length suffix \<and>
         memcmp (drop (length whole - length suffix) whole) suffix = 0
      then Some (take (length whole - length suffix) whole) else None)"

definition ptrlen_get_word :: "byte list \<Rightarrow> byte list \<Rightarrow> byte list \<times> byte list" where
  \<comment> \<open>the word and the input after it; a zero byte is found in every separator string\<close>
  "ptrlen_get_word input separators =
     (let sep = (\<lambda>c. c \<in> set separators \<or> c = 0); p = dropWhile sep input in
      (takeWhile (\<lambda>c. \<not> sep c) p, dropWhile (\<lambda>c. \<not> sep c) p))"

subsection \<open>Output encodings\<close>

definition encode_utf8 :: "u64 \<Rightarrow> byte list" where
  "encode_utf8 ch =
     (if ch < 0x80 then [ucast ch]
      else if ch < 0x800 then
        [ucast (0xC0 OR drop_bit 6 ch), ucast (0x80 OR (ch AND 0x3F))]
      else if ch < 0x10000 then
        [ucast (0xE0 OR drop_bit 12 ch), ucast (0x80 OR (drop_bit 6 ch AND 0x3F)),
         ucast (0x80 OR (ch AND 0x3F))]
      else
        [ucast (0xF0 OR drop_bit 18 ch), ucast (0x80 OR (drop_bit 12 ch AND 0x3F)),
         ucast (0x80 OR (drop_bit 6 ch AND 0x3F)), ucast (0x80 OR (ch AND 0x3F))])"

definition octal3 :: "nat \<Rightarrow> string" where
  "octal3 n = [char_of (48 + n div 64), char_of (48 + n div 8 mod 8), char_of (48 + n mod 8)]"

definition c_literal_char :: "char \<Rightarrow> string" where
  "c_literal_char c =
     (if c = CHR 0x0A then [CHR 0x5C, CHR ''n'']
      else if c = CHR 0x0D then [CHR 0x5C, CHR ''r'']
      else if c = CHR 0x09 then [CHR 0x5C, CHR ''t'']
      else if c = CHR 0x08 then [CHR 0x5C, CHR ''b'']
      else if c = CHR 0x5C then [CHR 0x5C, CHR 0x5C]
      else if c = CHR 0x22 then [CHR 0x5C, CHR 0x22]
      else if 32 \<le> (of_char c :: nat) \<and> (of_char c :: nat) \<le> 126 then [c]
      else CHR 0x5C # octal3 (of_char c))"

definition write_c_string_literal :: "string \<Rightarrow> string" where
  "write_c_string_literal str = concat (map c_literal_char str)"

subsection \<open>Searching host strings\<close>






declare host_strchr_loop.simps(2) [simp del]




lemma trim_scan_spec:
  "\<exists>pre. s = pre @ fst (trim_scan s n) \<and> (\<forall>c \<in> set pre. c_isxdigit c \<or> c = CHR '':'') \<and>
     snd (trim_scan s n) = n + count_list pre (CHR '':'') \<and>
     (fst (trim_scan s n) = [] \<or> (\<not> c_isxdigit (hd (fst (trim_scan s n))) \<and> hd (fst (trim_scan s n)) \<noteq> CHR '':''))"
proof (induction s n rule: trim_scan.induct)
  case (1 n)
  show ?case by simp
next
  case (2 c p n)
  have nx: "\<not> c_isxdigit CHR '']''" "\<not> c_isxdigit CHR '':''" by (simp_all add: c_isxdigit_def c_isdigit_def)
  consider (stop) "c = CHR '']'' \<or> \<not> c_isxdigit c \<and> c \<noteq> CHR '':''" | (hex) "c_isxdigit c" "c \<noteq> CHR '']''" "c \<noteq> CHR '':''"
    | (colon) "c = CHR '':''" by blast
  then show ?case
  proof cases
    case stop
    with nx show ?thesis by (intro exI [of _ "[]"]) auto
  next
    case hex
    then obtain pre where "p = pre @ fst (trim_scan p n)" "\<forall>c \<in> set pre. c_isxdigit c \<or> c = CHR '':''"
     "snd (trim_scan p n) = n + count_list pre (CHR '':'')"
     "fst (trim_scan p n) = [] \<or> (\<not> c_isxdigit (hd (fst (trim_scan p n))) \<and> hd (fst (trim_scan p n)) \<noteq> CHR '':'')"
      using "2.IH"(1) by blast
    with hex show ?thesis by (intro exI [of _ "c # pre"]) auto
  next
    case colon
    then obtain pre where "p = pre @ fst (trim_scan p (n+1))" "\<forall>c \<in> set pre. c_isxdigit c \<or> c = CHR '':''"
     "snd (trim_scan p (n+1)) = n + 1 + count_list pre (CHR '':'')"
     "fst (trim_scan p (n+1)) = [] \<or> (\<not> c_isxdigit (hd (fst (trim_scan p (n+1)))) \<and> hd (fst (trim_scan p (n+1))) \<noteq> CHR '':'')"
      using "2.IH"(2) nx by blast
    with colon nx show ?thesis by (intro exI [of _ "c # pre"]) auto
  qed
qed

definition ipv6_literal :: "string \<Rightarrow> string \<Rightarrow> string \<Rightarrow> bool" where
  "ipv6_literal s addr scope \<longleftrightarrow> s = CHR ''['' # addr @ scope @ [CHR '']''] \<and>
     (\<forall>c \<in> set addr. c_isxdigit c \<or> c = CHR '':'') \<and> count_list addr (CHR '':'') \<ge> 2 \<and>
     (scope = [] \<or> hd scope = CHR ''%'') \<and> CHR '']'' \<notin> set scope"

lemma not_xdigit: "\<not> c_isxdigit CHR '']''" "\<not> c_isxdigit CHR '':''" "\<not> c_isxdigit CHR ''%''"
  by (simp_all add: c_isxdigit_def c_isdigit_def)

lemma trim_scan_append:
  "\<forall>c \<in> set addr. c_isxdigit c \<or> c = CHR '':'' \<Longrightarrow>
   trim_scan (addr @ rest) n = trim_scan rest (n + count_list addr (CHR '':''))"
  by (induction addr arbitrary: n) (auto simp: not_xdigit)

lemma dropWhile_bracket:
  "CHR '']'' \<notin> set scope \<Longrightarrow> dropWhile (\<lambda>c. c \<noteq> CHR '']'') (scope @ CHR '']'' # r) = CHR '']'' # r"
  by (induction scope) auto

lemma host_strduptrim_literal:
  assumes "ipv6_literal s addr scope"
  shows "host_strduptrim s = addr @ scope"
proof -
  have s: "s = CHR ''['' # addr @ scope @ [CHR '']'']" and c: "count_list addr (CHR '':'') \<ge> 2"
    and sc: "scope = [] \<or> hd scope = CHR ''%''" "CHR '']'' \<notin> set scope"
    and "\<forall>c \<in> set addr. c_isxdigit c \<or> c = CHR '':''"
    using assms by (auto simp: ipv6_literal_def)
  then have t: "trim_scan (addr @ scope @ [CHR '']'']) 0 = trim_scan (scope @ [CHR '']'']) (count_list addr (CHR '':''))"
    using trim_scan_append [of addr "scope @ [CHR '']'']" 0] by simp
  show ?thesis
  proof (cases scope)
    case Nil
    then show ?thesis using c t by (simp add: s host_strduptrim_def)
  next
    case (Cons x xs)
    then have "x = CHR ''%''" using sc by simp
    then show ?thesis using c t sc dropWhile_bracket [of scope "[]"] Cons
      by (simp add: s host_strduptrim_def not_xdigit)
  qed
qed

lemma host_strduptrim_cases:
  "host_strduptrim s = s \<or> (\<exists>addr scope. ipv6_literal s addr scope)"
proof (cases "\<exists>body. s = CHR ''['' # body")
  case True
  then obtain body where s: "s = CHR ''['' # body" by blast
  obtain p n where t: "trim_scan body 0 = (p, n)" by (cases "trim_scan body 0")
  obtain pre where pre: "body = pre @ p" "\<forall>c \<in> set pre. c_isxdigit c \<or> c = CHR '':''" "n = count_list pre (CHR '':'')"
    using trim_scan_spec [of body 0] t by auto
  let ?q = "case p of c # _ \<Rightarrow> if c = CHR ''%'' then dropWhile (\<lambda>c. c \<noteq> CHR '']'') p else p | [] \<Rightarrow> p"
  show ?thesis
  proof (cases "?q = [CHR '']''] \<and> n > 1")
    case True
    have "\<exists>scope. p = scope @ [CHR '']''] \<and> (scope = [] \<or> hd scope = CHR ''%'') \<and> CHR '']'' \<notin> set scope"
    proof (cases p)
      case Nil
      with True show ?thesis by simp
    next
      case (Cons c cs)
      show ?thesis
      proof (cases "c = CHR ''%''")
        case pc: True
        let ?sc = "takeWhile (\<lambda>c. c \<noteq> CHR '']'') p"
        have "p = ?sc @ [CHR '']'']" using True pc Cons takeWhile_dropWhile_id [of "\<lambda>c. c \<noteq> CHR '']''" p] by simp
        moreover have "hd ?sc = CHR ''%''" using Cons pc by simp
        moreover have "CHR '']'' \<notin> set ?sc" by (auto dest: set_takeWhileD)
        ultimately show ?thesis by blast
      next
        case False
        with True Cons show ?thesis by (intro exI [of _ "[]"]) simp
      qed
    qed
    then obtain scope where "p = scope @ [CHR '']'']" "scope = [] \<or> hd scope = CHR ''%''"
      "CHR '']'' \<notin> set scope" by blast
    with pre True s have "ipv6_literal s pre scope" by (auto simp: ipv6_literal_def)
    then show ?thesis by blast
  next
    case False
    then have "host_strduptrim s = s" using t by (auto simp: s host_strduptrim_def Let_def)
    then show ?thesis by simp
  qed
next
  case False
  then show ?thesis by (cases s) (auto simp: host_strduptrim_def)
qed

subsection \<open>Comparisons\<close>

lemma xor_eq_0: "x XOR y = 0 \<longleftrightarrow> x = (y :: 'a::len word)"
  by (metis bit.xor_self xor.left_commute xor.right_neutral)
lemma unat_byte_less: "unat (x :: byte) < 256"
  using unsigned_less [of x, where 'a = nat] by simp

lemma unat_ucast_byte: "unat (ucast (x :: byte) :: u32) = unat x"
  using unat_byte_less [of x] by (simp add: unsigned_ucast_eq take_bit_nat_eq_self)
lemma ucast_byte_0: "(ucast (x :: byte) :: u32) = 0 \<longleftrightarrow> x = 0"
  by (metis unat_ucast_byte unsigned_0 unsigned_word_eqI)
lemma take_bit_ucast_byte: "take_bit 8 (ucast (x :: byte) :: u32) = ucast x"
  by (rule bit_word_eqI) (auto simp: bit_simps dest: bit_imp_le_length)
lemma smemeq_acc_0:
  "fold (\<lambda>(x, y) val. val OR ucast (x XOR y)) ps v = (0::u32) \<longleftrightarrow>
   v = 0 \<and> (\<forall>(x, y) \<in> set ps. x = (y :: byte))"
  by (induction ps arbitrary: v) (auto simp: xor_eq_0 ucast_byte_0 or_eq_0_iff)
lemma smemeq_acc_8:
  "take_bit 8 v = v \<Longrightarrow> take_bit 8 (fold (\<lambda>(x, y) val. val OR ucast (x XOR (y::byte))) ps v) = (fold (\<lambda>(x, y) val. val OR ucast (x XOR y)) ps v :: u32)"
proof (induction ps arbitrary: v)
  case (Cons p ps)
  obtain x y where p: "p = (x, y)" by (cases p)
  have "take_bit 8 (v OR ucast (x XOR y)) = v OR ucast (x XOR y)"
    unfolding take_bit_or Cons.prems take_bit_ucast_byte by (rule refl)
  from Cons.IH [OF this] show ?case by (simp add: p)
qed simp
lemma small_sub: "take_bit 8 v = (v::u32) \<Longrightarrow> drop_bit 8 (0x100 - v) \<noteq> 0 \<longleftrightarrow> v = 0"
proof -
  assume "take_bit 8 v = v"
  then have "unat (take_bit 8 v) = unat v" by simp
  then have v: "unat v < 256" by (simp add: unsigned_take_bit_eq take_bit_nat_eq_self_iff)
  then have "unat (0x100 - v) = 256 - unat v"
    by (subst unat_sub) (auto simp: word_le_nat_alt)
  then have "unat (drop_bit 8 (0x100 - v)) = (256 - unat v) div 256"
    by (simp add: drop_bit_eq_div unat_div)
  moreover have "(256 - unat v) div 256 = 0 \<longleftrightarrow> unat v \<noteq> 0" using v by auto
  ultimately show ?thesis by (metis unsigned_0 unsigned_word_eqI)
qed
lemma smemeq_iff: "length a = length b \<Longrightarrow> smemeq a b \<longleftrightarrow> a = b"
proof -
  assume len: "length a = length b"
  have "smemeq a b \<longleftrightarrow> (\<forall>(x, y) \<in> set (zip a b). x = y)"
    using small_sub [OF smemeq_acc_8, of 0 "zip a b"] smemeq_acc_0 [of "zip a b" 0]
    by (simp add: smemeq_def)
  also have "\<dots> \<longleftrightarrow> a = b"
    using len by (induction a b rule: list_induct2) auto
  finally show ?thesis .
qed

lemma memcmp_sign: "memcmp a b \<in> {-1, 0, 1}"
  by (induction a b rule: memcmp.induct) auto
lemma memcmp_refl: "memcmp a a = 0" by (induction a) auto
lemma memcmp_0: "length a = length b \<Longrightarrow> memcmp a b = 0 \<longleftrightarrow> a = b"
  by (induction a b rule: list_induct2) auto
lemma memcmp_lex: "length a = length b \<Longrightarrow> memcmp a b = -1 \<longleftrightarrow> (a, b) \<in> lexord {(x, y). x < y}"
  by (induction a b rule: list_induct2) auto

lemma lexord_take_left:
  "length a < length b \<Longrightarrow>
   (a, b) \<in> lexord r \<longleftrightarrow> a = take (length a) b \<or> (a, take (length a) b) \<in> lexord r"
proof (induction a arbitrary: b)
  case Nil
  then show ?case by (cases b) auto
next
  case (Cons x a)
  then show ?case by (cases b) auto
qed

lemma lexord_take_right:
  "length b < length a \<Longrightarrow> (a, b) \<in> lexord r \<longleftrightarrow> (take (length b) a, b) \<in> lexord r"
proof (induction b arbitrary: a)
  case Nil
  then show ?case by (cases a) auto
next
  case (Cons x b)
  then show ?case by (cases a) auto
qed

lemma memcmp_cases:
  "length a = length b \<Longrightarrow>
   memcmp a b = (if a = b then 0 else if (a, b) \<in> lexord {(x, y). x < y} then -1 else 1)"
  using memcmp_sign [of a b] memcmp_0 [of a b] memcmp_lex [of a b] by auto

lemma lexord_irrefl_byte: "(a, a) \<notin> lexord {(x, y). x < (y :: byte)}"
  by (rule lexord_irreflexive) auto

lemma cmp_if:
  "(if (if P then 0 else if Q then - 1 else 1) \<noteq> (0 :: int)
    then (if P then 0 else if Q then - 1 else 1) else - 1) = (if P \<or> Q then - 1 else 1)"
  by simp

lemma cmp_if_pos:
  "(P \<Longrightarrow> \<not> Q) \<Longrightarrow> (if (if P then 0 else if Q then - 1 else 1) \<noteq> (0 :: int)
    then (if P then 0 else if Q then - 1 else 1) else 1) = (if Q then - 1 else 1)"
  by simp

lemma ptrlen_strcmp_spec:
  "ptrlen_strcmp a b = (if a = b then 0 else if (a, b) \<in> lexord {(x, y). x < y} then -1 else 1)"
proof (cases rule: linorder_cases [of "length a" "length b"])
  case less
  let ?b = "take (length a) b"
  have m: "memcmp a ?b = (if a = ?b then 0
      else if (a, ?b) \<in> lexord {(x, y). x < y} then -1 else 1)"
    using less by (intro memcmp_cases) simp
  have "ptrlen_strcmp a b = (if memcmp a ?b \<noteq> 0 then memcmp a ?b else -1)"
    using less by (simp add: ptrlen_strcmp_def Let_def)
  also have "\<dots> = (if a = ?b \<or> (a, ?b) \<in> lexord {(x, y). x < y} then -1 else 1)"
    unfolding m by (rule cmp_if)
  finally have "ptrlen_strcmp a b = (if a = ?b \<or> (a, ?b) \<in> lexord {(x, y). x < y} then -1 else 1)" .
  moreover have "a \<noteq> b" using less by auto
  ultimately show ?thesis
    by (simp only: lexord_take_left [OF less] if_False)
next
  case equal
  then show ?thesis
    using memcmp_cases [OF equal] by (auto simp: ptrlen_strcmp_def Let_def)
next
  case greater
  let ?a = "take (length b) a"
  have m: "memcmp ?a b = (if ?a = b then 0
      else if (?a, b) \<in> lexord {(x, y). x < y} then -1 else 1)"
    using greater by (intro memcmp_cases) simp
  have "ptrlen_strcmp a b = (if memcmp ?a b \<noteq> 0 then memcmp ?a b else 1)"
    using greater by (simp add: ptrlen_strcmp_def Let_def)
  also have "\<dots> = (if (?a, b) \<in> lexord {(x, y). x < y} then -1 else 1)"
    unfolding m by (rule cmp_if_pos) (use lexord_irrefl_byte [of b] in auto)
  finally have "ptrlen_strcmp a b = (if (?a, b) \<in> lexord {(x, y). x < y} then -1 else 1)" .
  moreover have "a \<noteq> b" using greater by auto
  ultimately show ?thesis
    by (simp only: lexord_take_right [OF greater] if_False)
qed

subsection \<open>Base64\<close>

lemma base64_value_chars: "i < 64 \<Longrightarrow> base64_value (base64_chars ! i) = Some (int i)"
proof -
  have "\<forall>i \<in> set [0..<64]. base64_value (base64_chars ! i) = Some (int i)"
    by (simp add: upt_rec base64_value_def base64_chars_def Let_def)
  then show "i < 64 \<Longrightarrow> base64_value (base64_chars ! i) = Some (int i)" by simp
qed
lemma unat_and_3F: "unat ((w :: u32) AND 0x3F) < 64"
proof -
  have "unat (w AND 0x3F) \<le> unat (0x3F :: u32)"
    by (rule word_and_le1 [THEN word_le_nat_alt [THEN iffD1]])
  then show ?thesis by simp
qed
lemma of_int_unat: "(of_int (int (unat w)) :: u32) = w" by simp
lemma mask6: "(w::u32) AND 0x3F = take_bit 6 w"
  by (simp add: take_bit_eq_mask mask_eq_exp_minus_1)
lemmas sextet_join = take_bit_join [of 6 _ 6, simplified] take_bit_join [of 12 _ 6, simplified]
  take_bit_join [of 18 _ 6, simplified]
lemma sextets:
  "push_bit 18 (take_bit 6 (drop_bit 18 w)) OR push_bit 12 (take_bit 6 (drop_bit 12 w)) OR
   push_bit 6 (take_bit 6 (drop_bit 6 w)) OR take_bit 6 w = take_bit 24 (w :: u32)"
  (is "?a OR ?b OR ?c OR ?d = _")
proof -
  have "?a OR ?b OR ?c OR ?d = ((?d OR ?c) OR ?b) OR ?a"
    by (simp only: ac_simps)
  then show ?thesis by (simp only: sextet_join)
qed

lemma atom_bytes:
  fixes w :: u32
  assumes "w = push_bit 16 (ucast x) OR push_bit 8 (ucast y) OR ucast (z :: byte)"
  shows "take_bit 24 w = w" "(ucast (drop_bit 16 w) :: byte) = x" "(ucast (drop_bit 8 w) :: byte) = y" "(ucast w :: byte) = z"
  unfolding assms
  by (rule bit_word_eqI; auto simp: bit_simps dest: bit_imp_le_length)+

lemma base64_value_sextet:
  "base64_value (base64_chars ! unat (take_bit 6 (w :: u32))) = Some (int (unat (take_bit 6 w)))"
  using base64_value_chars [OF unat_and_3F, of w] by (simp add: mask6)

lemma nonneg: "int n \<noteq> -1" by simp

lemma neg1_and: "(of_int (-1) AND 0x3F :: u32) = 0x3F" by simp

lemma sextets_high:
  fixes w :: u32
  shows "drop_bit 8 (push_bit 18 (take_bit 6 (drop_bit 18 w)) OR push_bit 12 (take_bit 6 (drop_bit 12 w)) OR
      push_bit 6 (take_bit 6 (drop_bit 6 w)) OR mask 6) = drop_bit 8 (take_bit 24 w)"
    and "drop_bit 16 (push_bit 18 (take_bit 6 (drop_bit 18 w)) OR push_bit 12 (take_bit 6 (drop_bit 12 w)) OR
      push_bit 6 (take_bit 6 (drop_bit 6 w)) OR mask 6) = drop_bit 16 (take_bit 24 w)"
    and "drop_bit 16 (push_bit 18 (take_bit 6 (drop_bit 18 w)) OR push_bit 12 (take_bit 6 (drop_bit 12 w)) OR
      push_bit 6 (mask 6) OR mask 6) = drop_bit 16 (take_bit 24 w)"
proof -
  have z: "drop_bit 8 (take_bit 6 w) = 0" "drop_bit 16 (take_bit 6 w) = 0"
    "drop_bit 16 (push_bit 6 (take_bit 6 (drop_bit 6 w))) = 0"
    by (rule bit_word_eqI; simp add: bit_simps)+
  have c: "drop_bit 8 (mask 6 :: u32) = 0" "drop_bit 16 (mask 6 :: u32) = 0"
    "drop_bit 16 (push_bit 6 (mask 6) :: u32) = 0" by (simp_all add: mask_eq_exp_minus_1)
  show "drop_bit 8 (push_bit 18 (take_bit 6 (drop_bit 18 w)) OR push_bit 12 (take_bit 6 (drop_bit 12 w)) OR
      push_bit 6 (take_bit 6 (drop_bit 6 w)) OR mask 6) = drop_bit 8 (take_bit 24 w)"
    unfolding sextets [symmetric] drop_bit_or z c ..
  show "drop_bit 16 (push_bit 18 (take_bit 6 (drop_bit 18 w)) OR push_bit 12 (take_bit 6 (drop_bit 12 w)) OR
      push_bit 6 (take_bit 6 (drop_bit 6 w)) OR mask 6) = drop_bit 16 (take_bit 24 w)"
    unfolding sextets [symmetric] drop_bit_or z c ..
  show "drop_bit 16 (push_bit 18 (take_bit 6 (drop_bit 18 w)) OR push_bit 12 (take_bit 6 (drop_bit 12 w)) OR
      push_bit 6 (mask 6) OR mask 6) = drop_bit 16 (take_bit 24 w)"
    unfolding sextets [symmetric] drop_bit_or z c ..
qed

lemma uint_not_neg: "uint (w :: u32) \<noteq> -1"
  by (metis neg_0_le_iff_le not_one_le_zero unsigned_greater_eq)

lemma base64_value_pad: "base64_value (CHR ''='') = Some (-1)"
  by (simp add: base64_value_def)

lemmas base64_atom_simps = base64_decode_atom_def base64_value_sextet base64_value_pad Let_def mask6

lemma base64_decode_word:
  fixes w :: u32
  defines "c k \<equiv> base64_chars ! unat (drop_bit k w AND 0x3F)"
  shows "base64_decode_atom [c 18, c 12, c 6, base64_chars ! unat (w AND 0x3F)] =
      [ucast (drop_bit 16 (take_bit 24 w)), ucast (drop_bit 8 (take_bit 24 w)), ucast (take_bit 24 w)]"
    and "base64_decode_atom [c 18, c 12, c 6, CHR ''=''] =
      [ucast (drop_bit 16 (take_bit 24 w)), ucast (drop_bit 8 (take_bit 24 w))]"
    and "base64_decode_atom [c 18, c 12, CHR ''='', CHR ''=''] = [ucast (drop_bit 16 (take_bit 24 w))]"
  unfolding c_def
  by (simp_all add: base64_atom_simps sextets_high sextets uint_not_neg
      del: drop_bit_or push_bit_numeral)

lemma base64_atom_roundtrip:
  "base64_decode_atom (base64_encode_atom [x] 1) = [x]"
  "base64_decode_atom (base64_encode_atom [x, y] 2) = [x, y]"
  "base64_decode_atom (base64_encode_atom [x, y, z] 3) = [x, y, z]"
proof -
  let ?w1 = "push_bit 16 (ucast x) :: u32"
  let ?w2 = "push_bit 16 (ucast x) OR push_bit 8 (ucast y) :: u32"
  let ?w3 = "push_bit 16 (ucast x) OR push_bit 8 (ucast y) OR ucast z :: u32"
  have b: "take_bit 24 ?w1 = ?w1" "(ucast (drop_bit 16 ?w1) :: byte) = x"
    "take_bit 24 ?w2 = ?w2" "(ucast (drop_bit 16 ?w2) :: byte) = x" "(ucast (drop_bit 8 ?w2) :: byte) = y"
    using atom_bytes [OF refl, of x 0 0] atom_bytes [OF refl, of x y 0] by simp_all
  show "base64_decode_atom (base64_encode_atom [x] 1) = [x]"
    using base64_decode_word(3) [of ?w1] unfolding b by (simp only: base64_encode_atom_def Let_def) simp
  show "base64_decode_atom (base64_encode_atom [x, y] 2) = [x, y]"
    using base64_decode_word(2) [of ?w2] unfolding b by (simp add: base64_encode_atom_def Let_def)
  show "base64_decode_atom (base64_encode_atom [x, y, z] 3) = [x, y, z]"
    using base64_decode_word(1) [of ?w3] unfolding atom_bytes [OF refl, of x y z]
    by (simp add: base64_encode_atom_def Let_def or.assoc)
qed

subsection \<open>C literals\<close>

text \<open>
  The reader of the language: the bytes of a string literal up to its closing quote, and what follows it.  The hexadecimal
  and universal escapes are left out.
\<close>
definition is_octal :: "char \<Rightarrow> bool" where
  "is_octal c \<longleftrightarrow> 48 \<le> (of_char c :: nat) \<and> (of_char c :: nat) \<le> 55"

fun octal_escape :: "nat \<Rightarrow> nat \<Rightarrow> string \<Rightarrow> nat \<times> string" where
  "octal_escape (Suc k) n (c # s) = (if is_octal c then octal_escape k (n * 8 + (of_char c - 48)) s else (n, c # s))"
| "octal_escape k n s = (n, s)"

definition simple_escape :: "char \<Rightarrow> char option" where
  "simple_escape e = map_of [(CHR ''n'', CHR 0x0A), (CHR ''r'', CHR 0x0D), (CHR ''t'', CHR 0x09), (CHR ''b'', CHR 0x08), (CHR ''a'', CHR 0x07),
     (CHR ''f'', CHR 0x0C), (CHR ''v'', CHR 0x0B), (CHR 0x5C, CHR 0x5C), (CHR 0x22, CHR 0x22), (CHR 0x27, CHR 0x27), (CHR ''?'', CHR ''?'')] e"

lemma octal_escape_shorter: "octal_escape k n s = (m, r) \<Longrightarrow> length r \<le> length s"
  by (induction k n s rule: octal_escape.induct) (auto split: if_splits simp: le_SucI)

fun read_c_literal :: "string \<Rightarrow> (string \<times> string) option" where
  "read_c_literal [] = None"
| "read_c_literal (c # s) =
    (if c = CHR 0x22 then Some ([], s)
     else if c = CHR 0x0A then None
     else if c \<noteq> CHR 0x5C then map_option (apfst ((#) c)) (read_c_literal s)
     else case s of [] \<Rightarrow> None | e # s1 \<Rightarrow>
       if is_octal e then
         (case octal_escape 2 (of_char e - 48) s1 of (n, s2) \<Rightarrow>
            if length s2 \<le> length s1 \<and> n < 256 then map_option (apfst ((#) (char_of n))) (read_c_literal s2) else None)
       else case simple_escape e of None \<Rightarrow> None | Some d \<Rightarrow> map_option (apfst ((#) d)) (read_c_literal s1))"

lemma char_of_eq: "char_of n = c \<longleftrightarrow> n mod 256 = (of_char c :: nat)" for n :: nat
  by (metis char_of_mod_256 of_char_of char_of_char)

lemma of_char_less: "(of_char c :: nat) < 256" 
  by (metis char_of_char mod_less_divisor of_char_of zero_less_numeral)

lemma octal_top: "of_char c div 64 < (8 :: nat)"
proof -
  have "of_char c < 8 * (64 :: nat)" using of_char_less [of c] by linarith
  then show ?thesis by (rule less_mult_imp_div_less)
qed

lemma read_octal3:
  assumes "n < 256"
  shows "read_c_literal (CHR 0x5C # octal3 n @ s) = map_option (apfst ((#) (char_of n))) (read_c_literal s)"
proof -
  have d: "n div 64 < 4" "n div 8 mod 8 < 8" "n mod 8 < 8" using assms by auto
  have "n div 64 = n div 8 div 8" by (simp flip: div_mult2_eq)
  then have e: "(n div 64 * 8 + n div 8 mod 8) * 8 + n mod 8 = n"
    using div_mult_mod_eq [of n 8] div_mult_mod_eq [of "n div 8" 8] by simp
  have o: "(of_char (char_of (48 + k)) :: nat) = 48 + k" "is_octal (char_of (48 + k))" if "k < 8" for k :: nat
    using that by (simp_all add: is_octal_def)
  have "octal_escape 2 (n div 64) (char_of (48 + n div 8 mod 8) # char_of (48 + n mod 8) # s) = (n, s)"
    using d e o [of "n div 8 mod 8"] o [of "n mod 8"] by (simp add: numeral_2_eq_2)
  then show ?thesis using assms d o [of "n div 64"] by (simp add: octal3_def)
qed

lemma read_c_literal_char: "read_c_literal (c_literal_char c @ s) = map_option (apfst ((#) c)) (read_c_literal s)"
proof (cases "c \<in> {CHR 0x0A, CHR 0x0D, CHR 0x09, CHR 0x08, CHR 0x5C, CHR 0x22} \<or> 32 \<le> (of_char c :: nat) \<and> (of_char c :: nat) \<le> 126")
  case True
  then show ?thesis by (auto simp: c_literal_char_def simple_escape_def is_octal_def)
next
  case False
  then have "c_literal_char c = CHR 0x5C # octal3 (of_char c)" by (auto simp: c_literal_char_def)
  then show ?thesis using read_octal3 [of "of_char c" s] of_char_less [of c] by simp
qed

lemma write_c_literal_roundtrip: "read_c_literal (write_c_string_literal s @ CHR 0x22 # rest) = Some (s, rest)"
  by (induction s) (auto simp: write_c_string_literal_def read_c_literal_char simp del: read_c_literal.simps(2) intro: read_c_literal.simps(2) [THEN trans])

lemma c_literal_printable: "x \<in> set (c_literal_char c) \<Longrightarrow> 32 \<le> (of_char x :: nat) \<and> (of_char x :: nat) \<le> 126"
proof -
  assume x: "x \<in> set (c_literal_char c)"
  have "of_char c div 64 < (8 :: nat)"
    by (rule octal_top)
  then have "48 + of_char c div 64 < (256 :: nat)" "48 + of_char c div 64 \<le> (126 :: nat)" by simp_all
  with x show ?thesis
    by (auto simp: c_literal_char_def octal3_def of_char_of split: if_splits)
qed

lemma chomp_len_spec: "n \<le> length s \<Longrightarrow> take (chomp_len s n) s = rev (dropWhile (\<lambda>c. c = CHR 0x0D \<or> c = CHR 0x0A) (rev (take n s)))"
  by (induction n) (auto simp: take_Suc_conv_app_nth)

subsection \<open>Properties\<close>


text \<open>
  Trimming an IPv6 literal: square brackets are removed exactly from strings made of
  an opening bracket, hex digits and at least two colons, an optional scope suffix starting
  with a percent sign, and a final closing bracket; every other string is returned
  unchanged.
\<close>

theorem host_strduptrim_correct:
  "(\<forall>addr scope. ipv6_literal s addr scope \<longrightarrow> host_strduptrim s = addr @ scope) \<and>
   ((\<nexists>addr scope. ipv6_literal s addr scope) \<longrightarrow> host_strduptrim s = s)"
  using host_strduptrim_literal host_strduptrim_cases by blast

theorem host_strduptrim_correct_witness:
  "ipv6_literal ''[fe80::1%eth0]'' ''fe80::1'' ''%eth0'' \<and>
   host_strduptrim ''[fe80::1%eth0]'' = ''fe80::1%eth0''"
proof -
  have "ipv6_literal ''[fe80::1%eth0]'' ''fe80::1'' ''%eth0''"
    by (simp add: ipv6_literal_def c_isxdigit_def c_isdigit_def)
  with host_strduptrim_correct [of "''[fe80::1%eth0]''"] show ?thesis by auto
qed

text \<open>
  Base64 atoms decode to what they were encoded from, for one, two and three bytes of
  input; so a padded final atom gives back exactly the bytes that were there.
\<close>

theorem base64_atom_decode_encode:
  assumes "1 \<le> length data" and "length data \<le> 3"
  shows "base64_decode_atom (base64_encode_atom data (length data)) = data"
proof -
  consider x where "data = [x]" | x y where "data = [x, y]" | x y z where "data = [x, y, z]"
    using assms by (cases data; cases "tl data"; cases "tl (tl data)"; cases "tl (tl (tl data))") auto
  then show ?thesis
    using base64_atom_roundtrip by cases (metis list.size(3,4) One_nat_def add.right_neutral add_Suc_right numeral_2_eq_2 numeral_3_eq_3)+
qed

theorem base64_atom_decode_encode_witness:
  "base64_encode_atom [255, 1] 2 = ''/wE='' \<and> base64_decode_atom ''/wE='' = [255, 1]"
proof -
  have "base64_encode_atom [255, 1] 2 = ''/wE=''"
    by (simp add: base64_encode_atom_def base64_chars_def Let_def)
  with base64_atom_decode_encode [of "[255, 1]"] show ?thesis by (simp add: numeral_2_eq_2)
qed

text \<open>
  The timing-safe comparison is equality: for blocks of the same length the
  accumulate-and-shift computation returns true exactly when the blocks are equal.
\<close>

theorem smemeq_correct:
  assumes "length a = length b"
  shows "smemeq a b \<longleftrightarrow> a = b"
  using assms by (rule smemeq_iff)

theorem smemeq_correct_witness: "smemeq [1, 2, 3] [1, 2, 3] \<and> \<not> smemeq [1, 2, 3] [1, 2, 131]"
  using smemeq_correct [of "[1, 2, 3]" "[1, 2, 3]"] smemeq_correct [of "[1, 2, 3]" "[1, 2, 131]"]
  by simp

text \<open>
  Comparing counted strings: the comparison is the lexicographic order of the byte
  values with a proper prefix first, zero exactly on equal strings, and reverses sign when
  its arguments are exchanged.
\<close>

theorem ptrlen_strcmp_lexicographic:
  "ptrlen_strcmp a b = (if a = b then 0 else if (a, b) \<in> lexord {(x, y). x < y} then -1 else 1) \<and>
   ptrlen_strcmp b a = - ptrlen_strcmp a b"
proof -
  have "trans {(x, y). x < (y :: byte)}"
    by (auto simp: trans_def)
  have "(a, b) \<in> lexord {(x, y). x < y} \<or> a = b \<or> (b, a) \<in> lexord {(x, y). x < y}"
    by (rule lexord_linear) auto
  moreover have "\<not> ((a, b) \<in> lexord {(x, y). x < y} \<and> (b, a) \<in> lexord {(x, y). x < y})"
    using lexord_trans [of a b "{(x, y). x < y}" a] lexord_irrefl_byte [of a]
      \<open>trans {(x, y). x < (y :: byte)}\<close> by blast
  ultimately show ?thesis
    using lexord_irrefl_byte [of a] by (auto simp: ptrlen_strcmp_spec)
qed

text \<open>
  C33. Writing a C string literal is lossless and safe: the text, followed by a double quote and anything else, is read by
  the rules of the language (up to the first unescaped quote, simple escapes and octal escapes of at most three digits,
  no raw line end) as exactly the original bytes for every input, the reader stopping at that quote; and the text holds
  printable ASCII characters only.
\<close>

theorem write_c_string_literal_roundtrip:
  "read_c_literal (write_c_string_literal s @ CHR 0x22 # rest) = Some (s, rest) \<and>
   list_all (\<lambda>c. 32 \<le> (of_char c :: nat) \<and> (of_char c :: nat) \<le> 126) (write_c_string_literal s)"
  using write_c_literal_roundtrip c_literal_printable
  by (auto simp: list_all_iff write_c_string_literal_def)

text \<open>
  \<open>ctrlparse\<close> stores no continuation for a caret followed by a character outside its
  ranges: a space, most punctuation, or a digit, so the caller reads an unset pointer.
\<close>

theorem ctrlparse_unset:
  "(\<exists>c. ctrlparse s = (c, NextUnset)) \<longleftrightarrow>
   (\<exists>x s'. s = CHR ''^'' # x # s' \<and> (of_char x :: nat) < 128 \<and>
      x \<noteq> CHR ''<'' \<and> x \<noteq> CHR ''?'' \<and> x \<noteq> CHR ''~'' \<and>
      \<not> (64 \<le> (of_char x :: nat) \<and> (of_char x :: nat) \<le> 95) \<and>
      \<not> (97 \<le> (of_char x :: nat) \<and> (of_char x :: nat) \<le> 122))"
  by (auto simp: ctrlparse_def Let_def split: list.splits if_splits prod.splits)

end
