(* ===== verification/Tree234.thy ===== *)
theory Tree234
  imports Prelude
begin

text \<open>
  The counted 2-3-4 trees of \<open>tree234.c\<close>.

  A \<open>node234\<close> keeps the four child slots, four subtree counts and three element slots of
  \<open>struct node234_Tag\<close>; an unused child is \<open>Nil234\<close> and an unused element \<open>None\<close>, as the
  code has NULL.  The parent pointer is not a field: an operation that walks up the tree
  carries the path it came down, a list of (parent, child number) pairs with the nearest
  parent first.  Assigning through the parent pointer is an update of the path.  Counts are
  mathematical integers, which agrees with the code's \<open>int\<close> for trees of fewer than
  \<open>2^31\<close> elements.
\<close>

section \<open>Nodes\<close>

datatype 'a node234 =
    Nil234
  | Node234 (kid0: "'a node234") (kid1: "'a node234") (kid2: "'a node234") (kid3: "'a node234")
      (count0: int) (count1: int) (count2: int) (count3: int)
      (elem0: "'a option") (elem1: "'a option") (elem2: "'a option")

type_synonym 'a path234 = "('a node234 \<times> nat) list"

record 'a tree234 =
  root :: "'a node234"
  cmp :: "('a \<Rightarrow> 'a \<Rightarrow> int) option"

fun kid :: "'a node234 \<Rightarrow> nat \<Rightarrow> 'a node234" where
  "kid Nil234 i = Nil234"
| "kid (Node234 k0 k1 k2 k3 c0 c1 c2 c3 e0 e1 e2) i =
     (if i = 0 then k0 else if i = 1 then k1 else if i = 2 then k2 else k3)"

fun cnt :: "'a node234 \<Rightarrow> nat \<Rightarrow> int" where
  "cnt Nil234 i = 0"
| "cnt (Node234 k0 k1 k2 k3 c0 c1 c2 c3 e0 e1 e2) i =
     (if i = 0 then c0 else if i = 1 then c1 else if i = 2 then c2 else c3)"

fun elem :: "'a node234 \<Rightarrow> nat \<Rightarrow> 'a option" where
  "elem Nil234 i = None"
| "elem (Node234 k0 k1 k2 k3 c0 c1 c2 c3 e0 e1 e2) i =
     (if i = 0 then e0 else if i = 1 then e1 else e2)"

fun set_kid :: "nat \<Rightarrow> 'a node234 \<Rightarrow> 'a node234 \<Rightarrow> 'a node234" where
  "set_kid i k Nil234 = Nil234"
| "set_kid i k (Node234 k0 k1 k2 k3 c0 c1 c2 c3 e0 e1 e2) =
     Node234 (if i = 0 then k else k0) (if i = 1 then k else k1)
             (if i = 2 then k else k2) (if i = 3 then k else k3) c0 c1 c2 c3 e0 e1 e2"

fun set_cnt :: "nat \<Rightarrow> int \<Rightarrow> 'a node234 \<Rightarrow> 'a node234" where
  "set_cnt i c Nil234 = Nil234"
| "set_cnt i c (Node234 k0 k1 k2 k3 c0 c1 c2 c3 e0 e1 e2) =
     Node234 k0 k1 k2 k3 (if i = 0 then c else c0) (if i = 1 then c else c1)
             (if i = 2 then c else c2) (if i = 3 then c else c3) e0 e1 e2"

fun set_elem :: "nat \<Rightarrow> 'a option \<Rightarrow> 'a node234 \<Rightarrow> 'a node234" where
  "set_elem i e Nil234 = Nil234"
| "set_elem i e (Node234 k0 k1 k2 k3 c0 c1 c2 c3 e0 e1 e2) =
     Node234 k0 k1 k2 k3 c0 c1 c2 c3 (if i = 0 then e else e0)
             (if i = 1 then e else e1) (if i = 2 then e else e2)"

definition newtree234 :: "('a \<Rightarrow> 'a \<Rightarrow> int) option \<Rightarrow> 'a tree234" where
  "newtree234 c = \<lparr>root = Nil234, cmp = c\<rparr>"

text \<open>An element slot holds at most one element.\<close>

definition slot :: "'a option \<Rightarrow> 'a list" where
  "slot e = (case e of None \<Rightarrow> [] | Some x \<Rightarrow> [x])"

definition countnode234 :: "'a node234 \<Rightarrow> int" where
  "countnode234 n =
     (if n = Nil234 then 0
      else cnt n 0 + cnt n 1 + cnt n 2 + cnt n 3
         + int (length (filter (\<lambda>i. elem n i \<noteq> None) [0, 1, 2])))"

definition elements234 :: "'a node234 \<Rightarrow> nat" where
  "elements234 n =
     (if elem n 0 = None then 0 else if elem n 1 = None then 1
      else if elem n 2 = None then 2 else 3)"

definition count234 :: "'a tree234 \<Rightarrow> int" where
  "count234 t = (if root t \<noteq> Nil234 then countnode234 (root t) else 0)"

section \<open>Insertion\<close>

text \<open>
  Choosing the child to descend to, by position or by comparison.  In a leaf the position
  is used as the child number without a check, so a position above 3 addresses memory
  outside the \<open>kids\<close> array.
\<close>

datatype 'a add_choice = AlreadyExists 'a | IndexOutOfRange | Descend nat int

definition add_choose_pos :: "'a node234 \<Rightarrow> int \<Rightarrow> 'a add_choice res" where
  "add_choose_pos n index =
     (if kid n 0 = Nil234
      then (if index > 3 then Inl OutOfBounds else Inr (Descend (nat index) index))
      else if index \<le> cnt n 0 then Inr (Descend 0 index)
      else let index = index - (cnt n 0 + 1) in
        if index \<le> cnt n 1 then Inr (Descend 1 index)
        else let index = index - (cnt n 1 + 1) in
          if index \<le> cnt n 2 then Inr (Descend 2 index)
          else let index = index - (cnt n 2 + 1) in
            if index \<le> cnt n 3 then Inr (Descend 3 index)
            else Inr IndexOutOfRange)"

definition add_choose_cmp :: "('a \<Rightarrow> 'a \<Rightarrow> int) \<Rightarrow> 'a \<Rightarrow> 'a node234 \<Rightarrow> int \<Rightarrow> 'a add_choice res" where
  "add_choose_cmp c e n index =
     (case elem n 0 of
        None \<Rightarrow> Inl NullDeref
      | Some x \<Rightarrow>
          if c e x < 0 then Inr (Descend 0 index)
          else if c e x = 0 then Inr (AlreadyExists x)
          else case elem n 1 of
            None \<Rightarrow> Inr (Descend 1 index)
          | Some y \<Rightarrow>
              if c e y < 0 then Inr (Descend 1 index)
              else if c e y = 0 then Inr (AlreadyExists y)
              else case elem n 2 of
                None \<Rightarrow> Inr (Descend 2 index)
              | Some z \<Rightarrow>
                  if c e z < 0 then Inr (Descend 2 index)
                  else if c e z = 0 then Inr (AlreadyExists z)
                  else Inr (Descend 3 index))"

definition add_choose :: "('a \<Rightarrow> 'a \<Rightarrow> int) option \<Rightarrow> 'a \<Rightarrow> 'a node234 \<Rightarrow> int \<Rightarrow> 'a add_choice res" where
  "add_choose c e n index =
     (if index \<ge> 0 then add_choose_pos n index
      else case c of None \<Rightarrow> Inl NullDeref | Some f \<Rightarrow> add_choose_cmp f e n index)"

text \<open>
  The downward loop.  It stops at the first empty child slot and reports the node, the slot
  number and the path above the node.
\<close>

datatype 'a add_place = PlaceExists 'a | PlaceError | Place "'a node234" nat "'a path234"

lemma kid_smaller: "n \<noteq> Nil234 \<Longrightarrow> size (kid n i) < size n"
  by (cases n) auto

function add_descend ::
  "('a \<Rightarrow> 'a \<Rightarrow> int) option \<Rightarrow> 'a \<Rightarrow> int \<Rightarrow> 'a node234 \<Rightarrow> 'a path234 \<Rightarrow> 'a add_place res" where
  "add_descend c e index n path =
     (if n = Nil234 then Inl NullDeref
      else case add_choose c e n index of
        Inl f \<Rightarrow> Inl f
      | Inr (AlreadyExists x) \<Rightarrow> Inr (PlaceExists x)
      | Inr IndexOutOfRange \<Rightarrow> Inr PlaceError
      | Inr (Descend childnum index') \<Rightarrow>
          if kid n childnum = Nil234 then Inr (Place n childnum path)
          else add_descend c e index' (kid n childnum) ((n, childnum) # path))"
  by pat_completeness auto
termination
  by (relation "measure (\<lambda>(c, e, index, n, path). size n)") (auto simp: kid_smaller)

declare add_descend.simps [simp del]

text \<open>Inserting into a node with room, and splitting a full one.\<close>

fun insert_2node ::
  "'a node234 \<Rightarrow> int \<Rightarrow> 'a \<Rightarrow> 'a node234 \<Rightarrow> int \<Rightarrow> nat \<Rightarrow> 'a node234 \<Rightarrow> 'a node234" where
  "insert_2node l lc e r rc np Nil234 = Nil234"
| "insert_2node l lc e r rc np (Node234 k0 k1 k2 k3 c0 c1 c2 c3 e0 e1 e2) =
     (if np = 0 then Node234 l r k1 k3 lc rc c1 c3 (Some e) e0 e2
      else Node234 k0 l r k3 c0 lc rc c3 e0 (Some e) e2)"

fun insert_3node ::
  "'a node234 \<Rightarrow> int \<Rightarrow> 'a \<Rightarrow> 'a node234 \<Rightarrow> int \<Rightarrow> nat \<Rightarrow> 'a node234 \<Rightarrow> 'a node234" where
  "insert_3node l lc e r rc np Nil234 = Nil234"
| "insert_3node l lc e r rc np (Node234 k0 k1 k2 k3 c0 c1 c2 c3 e0 e1 e2) =
     (if np = 0 then Node234 l r k1 k2 lc rc c1 c2 (Some e) e0 e1
      else if np = 1 then Node234 k0 l r k2 c0 lc rc c2 e0 (Some e) e1
      else Node234 k0 k1 l r c0 c1 lc rc e0 e1 (Some e))"

text \<open>The result is the new left node, the element that moves up, and the old node reduced.\<close>

fun split_4node ::
  "'a node234 \<Rightarrow> int \<Rightarrow> 'a \<Rightarrow> 'a node234 \<Rightarrow> int \<Rightarrow> nat \<Rightarrow> 'a node234
     \<Rightarrow> 'a node234 \<times> 'a option \<times> 'a node234" where
  "split_4node l lc e r rc np Nil234 = (Nil234, None, Nil234)"
| "split_4node l lc e r rc np (Node234 k0 k1 k2 k3 c0 c1 c2 c3 e0 e1 e2) =
     (if np = 0 then
        (Node234 l r k1 Nil234 lc rc c1 0 (Some e) e0 None, e1,
         Node234 k2 k3 Nil234 Nil234 c2 c3 0 0 e2 None None)
      else if np = 1 then
        (Node234 k0 l r Nil234 c0 lc rc 0 e0 (Some e) None, e1,
         Node234 k2 k3 Nil234 Nil234 c2 c3 0 0 e2 None None)
      else if np = 2 then
        (Node234 k0 k1 l Nil234 c0 c1 lc 0 e0 e1 None, Some e,
         Node234 r k3 Nil234 Nil234 rc c3 0 0 e2 None None)
      else
        (Node234 k0 k1 k2 Nil234 c0 c1 c2 0 e0 e1 None, e2,
         Node234 l r Nil234 Nil234 lc rc 0 0 (Some e) None None))"

text \<open>The upward loop that only corrects the counts.\<close>

fun fix_counts :: "'a node234 \<Rightarrow> 'a path234 \<Rightarrow> 'a node234" where
  "fix_counts n [] = n"
| "fix_counts n ((p, childnum) # path) =
     fix_counts (set_cnt childnum (countnode234 n) (set_kid childnum n p)) path"

text \<open>The upward insertion loop, ending in a node with room or in a new root.\<close>

fun add_ascend ::
  "'a node234 \<Rightarrow> int \<Rightarrow> 'a \<Rightarrow> 'a node234 \<Rightarrow> int \<Rightarrow> 'a node234 \<Rightarrow> nat \<Rightarrow> 'a path234
     \<Rightarrow> 'a node234 res" where
  "add_ascend l lc e r rc n np path =
     (if elem n 1 = None then Inr (fix_counts (insert_2node l lc e r rc np n) path)
      else if elem n 2 = None then Inr (fix_counts (insert_3node l lc e r rc np n) path)
      else case split_4node l lc e r rc np n of
        (m, None, n') \<Rightarrow> Inl NullDeref
      | (m, Some e', n') \<Rightarrow>
          (case path of
             [] \<Rightarrow> Inr (Node234 m n' Nil234 Nil234 (countnode234 m) (countnode234 n') 0 0
                          (Some e') None None)
           | (p, i) # path' \<Rightarrow>
               add_ascend m (countnode234 m) e' n' (countnode234 n') p i path'))"

declare add_ascend.simps [simp del]

definition add234_internal :: "'a tree234 \<Rightarrow> 'a \<Rightarrow> int \<Rightarrow> ('a option \<times> 'a tree234) res" where
  "add234_internal t e index =
     (if root t = Nil234
      then Inr (Some e, t\<lparr>root := Node234 Nil234 Nil234 Nil234 Nil234 0 0 0 0 (Some e) None None\<rparr>)
      else case add_descend (cmp t) e index (root t) [] of
        Inl f \<Rightarrow> Inl f
      | Inr (PlaceExists x) \<Rightarrow> Inr (Some x, t)
      | Inr PlaceError \<Rightarrow> Inr (None, t)
      | Inr (Place n np path) \<Rightarrow>
          (case add_ascend Nil234 0 e Nil234 0 n np path of
             Inl f \<Rightarrow> Inl f
           | Inr r \<Rightarrow> Inr (Some e, t\<lparr>root := r\<rparr>)))"

definition add234 :: "'a tree234 \<Rightarrow> 'a \<Rightarrow> ('a option \<times> 'a tree234) res" where
  "add234 t e = (if cmp t = None then Inr (None, t) else add234_internal t e (-1))"

definition addpos234 :: "'a tree234 \<Rightarrow> 'a \<Rightarrow> int \<Rightarrow> ('a option \<times> 'a tree234) res" where
  "addpos234 t e index =
     (if index < 0 \<or> cmp t \<noteq> None then Inr (None, t) else add234_internal t e index)"


section \<open>Lookup\<close>

function index_loop :: "'a node234 \<Rightarrow> int \<Rightarrow> 'a option" where
  "index_loop n index =
     (if n = Nil234 then None
      else if index < cnt n 0 then index_loop (kid n 0) index
      else let index = index - (cnt n 0 + 1) in
        if index < 0 then elem n 0
        else if index < cnt n 1 then index_loop (kid n 1) index
        else let index = index - (cnt n 1 + 1) in
          if index < 0 then elem n 1
          else if index < cnt n 2 then index_loop (kid n 2) index
          else let index = index - (cnt n 2 + 1) in
            if index < 0 then elem n 2
            else index_loop (kid n 3) index)"
  by pat_completeness auto
termination
  by (relation "measure (\<lambda>(n, index). size n)") (auto simp: kid_smaller)

declare index_loop.simps [simp del]

definition index234 :: "'a tree234 \<Rightarrow> int \<Rightarrow> 'a option" where
  "index234 t index =
     (if root t = Nil234 then None
      else if index < 0 \<or> index \<ge> countnode234 (root t) then None
      else index_loop (root t) index)"

record 'a search234_state =
  ss_element :: "'a option"
  ss_index :: int
  ss_lo :: int
  ss_hi :: int
  ss_last :: int
  ss_base :: int
  ss_node :: "'a node234"

text \<open>The two loops of the step function that add up counts.\<close>

primrec sum_below :: "'a node234 \<Rightarrow> nat \<Rightarrow> int" where
  "sum_below n 0 = 0"
| "sum_below n (Suc i) = sum_below n i + cnt n i"

definition search_restrict :: "'a search234_state \<Rightarrow> int \<Rightarrow> 'a search234_state" where
  "search_restrict st direction =
     (let st = (if direction > 0 then st\<lparr>ss_lo := ss_last st + 1\<rparr>
                else st\<lparr>ss_hi := ss_last st - 1\<rparr>)
      in if ss_lo st > ss_hi st
         then st\<lparr>ss_base := ss_base st + ss_lo st + sum_below (ss_node st) (nat (ss_lo st)),
                 ss_node := kid (ss_node st) (nat (ss_lo st)),
                 ss_last := -1\<rparr>
         else st)"

definition search_enter :: "'a search234_state \<Rightarrow> 'a search234_state" where
  "search_enter st =
     (if ss_last st = -1
      then st\<lparr>ss_lo := 0,
              ss_hi := (if ss_node st \<noteq> Nil234 then int (elements234 (ss_node st)) - 1 else 0)\<rparr>
      else st)"

definition search_report :: "'a search234_state \<Rightarrow> 'a search234_state" where
  "search_report st =
     (if ss_node st = Nil234 then st\<lparr>ss_element := None, ss_index := ss_base st\<rparr>
      else let last = (ss_lo st + ss_hi st) div 2 in
        st\<lparr>ss_last := last,
           ss_element := elem (ss_node st) (nat last),
           ss_index := ss_base st + last + sum_below (ss_node st) (Suc (nat last))\<rparr>)"

definition search234_step :: "'a search234_state \<Rightarrow> int \<Rightarrow> 'a search234_state res" where
  "search234_step st direction =
     (if ss_node st = Nil234 then Inr (st\<lparr>ss_element := None, ss_index := 0\<rparr>)
      else if ss_last st \<noteq> -1 then
        (if direction = 0 then Inl AssertFail
         else Inr (search_report (search_enter (search_restrict st direction))))
      else Inr (search_report (search_enter st)))"

definition search234_start :: "'a tree234 \<Rightarrow> 'a search234_state res" where
  "search234_start t =
     search234_step \<lparr>ss_element = None, ss_index = 0, ss_lo = 0, ss_hi = 0, ss_last = -1,
                     ss_base = 0, ss_node = root t\<rparr> 0"

datatype relation234 = REL234_EQ | REL234_LT | REL234_LE | REL234_GT | REL234_GE

definition reldir :: "relation234 \<Rightarrow> int" where
  "reldir rel = (if rel = REL234_LT \<or> rel = REL234_LE then -1
                 else if rel = REL234_GT \<or> rel = REL234_GE then 1 else 0)"

definition equal_permitted :: "relation234 \<Rightarrow> bool" where
  "equal_permitted rel \<longleftrightarrow> rel \<noteq> REL234_LT \<and> rel \<noteq> REL234_GT"

text \<open>
  The search loop of \<open>findrelpos234\<close>: \<open>dir x\<close> is the comparison result for element \<open>x\<close>,
  with an unwanted equality replaced by the direction of the search.  Each step either
  narrows the slot range in the node or descends, so a step budget of
  \<open>4 * size (root t) + 4\<close> never runs out (shown below).
\<close>

datatype 'a search_result = Found 'a int | NotFound int

fun search_loop :: "nat \<Rightarrow> ('a \<Rightarrow> int) \<Rightarrow> 'a search234_state \<Rightarrow> 'a search_result res option" where
  "search_loop 0 dir st = None"
| "search_loop (Suc fuel) dir st =
     (case ss_element st of
        None \<Rightarrow> Some (Inr (NotFound (ss_index st)))
      | Some x \<Rightarrow>
          if dir x = 0 then Some (Inr (Found x (ss_index st)))
          else case search234_step st (dir x) of
            Inl f \<Rightarrow> Some (Inl f)
          | Inr st' \<Rightarrow> search_loop fuel dir st')"

definition search_dir ::
  "'q option \<Rightarrow> ('q \<Rightarrow> 'a \<Rightarrow> int) \<Rightarrow> relation234 \<Rightarrow> 'a \<Rightarrow> int" where
  "search_dir q c rel x =
     (let cmpret = (case q of Some e \<Rightarrow> c e x | None \<Rightarrow> - reldir rel)
      in if cmpret = 0 \<and> \<not> equal_permitted rel then reldir rel else cmpret)"

text \<open>
  The result is the element and the value stored through the \<open>index\<close> pointer; the outer
  option is the budget.  The comparison function is the one in force, \<open>cmp\<close> or the tree's.
\<close>

definition findrelpos_with ::
  "'a tree234 \<Rightarrow> 'q option \<Rightarrow> ('q \<Rightarrow> 'a \<Rightarrow> int) \<Rightarrow> relation234 \<Rightarrow> ('a \<times> int) option res option" where
  "findrelpos_with t q c rel =
     (if equal_permitted rel \<and> q = None then Some (Inl AssertFail)
      else case search234_start t of
        Inl f \<Rightarrow> Some (Inl f)
      | Inr st \<Rightarrow>
          (case search_loop (4 * size (root t) + 4) (search_dir q c rel) st of
             None \<Rightarrow> None
           | Some (Inl f) \<Rightarrow> Some (Inl f)
           | Some (Inr (Found x i)) \<Rightarrow> Some (Inr (Some (x, i)))
           | Some (Inr (NotFound i)) \<Rightarrow>
               if rel = REL234_EQ then Some (Inr None)
               else let i = (if rel = REL234_LT \<or> rel = REL234_LE then i - 1 else i)
                    in Some (Inr (map_option (\<lambda>x. (x, i)) (index234 t i)))))"

definition findrelpos234 ::
  "'a tree234 \<Rightarrow> 'a option \<Rightarrow> ('a \<Rightarrow> 'a \<Rightarrow> int) option \<Rightarrow> relation234
     \<Rightarrow> ('a \<times> int) option res option" where
  "findrelpos234 t e c rel =
     (case (if c = None then cmp t else c) of
        Some f \<Rightarrow> findrelpos_with t e f rel
      | None \<Rightarrow> if root t = Nil234 then findrelpos_with t e (\<lambda>_ _. 0) rel else Some (Inl NullDeref))"

definition find_with :: "'a tree234 \<Rightarrow> 'q \<Rightarrow> ('q \<Rightarrow> 'a \<Rightarrow> int) \<Rightarrow> 'a option res option" where
  "find_with t q c = map_option (map_sum id (map_option fst)) (findrelpos_with t (Some q) c REL234_EQ)"

definition find234 :: "'a tree234 \<Rightarrow> 'a \<Rightarrow> ('a \<Rightarrow> 'a \<Rightarrow> int) option \<Rightarrow> 'a option res option" where
  "find234 t e c =
     map_option (map_sum id (map_option fst)) (findrelpos234 t (Some e) c REL234_EQ)"

definition findrel234 ::
  "'a tree234 \<Rightarrow> 'a option \<Rightarrow> ('a \<Rightarrow> 'a \<Rightarrow> int) option \<Rightarrow> relation234 \<Rightarrow> 'a option res option" where
  "findrel234 t e c rel =
     map_option (map_sum id (map_option fst)) (findrelpos234 t e c rel)"

definition findpos234 ::
  "'a tree234 \<Rightarrow> 'a \<Rightarrow> ('a \<Rightarrow> 'a \<Rightarrow> int) option \<Rightarrow> ('a \<times> int) option res option" where
  "findpos234 t e c = findrelpos234 t (Some e) c REL234_EQ"

section \<open>Deletion\<close>

text \<open>Where the wanted index lies in a node: in child \<open>ki\<close>, or element \<open>ei\<close> itself.\<close>

datatype del_choice = InKid nat int | AtElem nat

definition del_choose :: "'a node234 \<Rightarrow> int \<Rightarrow> del_choice" where
  "del_choose n index =
     (if index < cnt n 0 then InKid 0 index
      else let index = index - (cnt n 0 + 1) in
        if index < 0 then AtElem 0
        else if index < cnt n 1 then InKid 1 index
        else let index = index - (cnt n 1 + 1) in
          if index < 0 then AtElem 1
          else if index < cnt n 2 then InKid 2 index
          else let index = index - (cnt n 2 + 1) in
            if index < 0 then AtElem 2
            else InKid 3 index)"

text \<open>
  Case 3a, left-handed: child \<open>ki\<close> takes a subtree from child \<open>ki - 1\<close>.  The result is the
  parent with both children written back, the child descended to, and the new index.
\<close>

fun push_front :: "'a option \<Rightarrow> 'a node234 \<Rightarrow> int \<Rightarrow> 'a node234 \<Rightarrow> 'a node234" where
  "push_front e k c Nil234 = Nil234"
| "push_front e k c (Node234 k0 k1 k2 k3 c0 c1 c2 c3 e0 e1 e2) =
     Node234 k k0 k1 k3 c c0 c1 c3 e e0 e2"

definition borrow_left :: "'a node234 \<Rightarrow> nat \<Rightarrow> int \<Rightarrow> 'a node234 \<times> 'a node234 \<times> int" where
  "borrow_left n ki index =
     (let sub = kid n ki; sib = kid n (ki - 1);
          lastelem = (if elem sib 2 \<noteq> None then 2 else if elem sib 1 \<noteq> None then 1 else 0);
          sub' = push_front (elem n (ki - 1)) (kid sib (lastelem + 1)) (cnt sib (lastelem + 1)) sub;
          n1 = set_elem (ki - 1) (elem sib lastelem) n;
          sib' = set_elem lastelem None (set_cnt (lastelem + 1) 0 (set_kid (lastelem + 1) Nil234 sib));
          n2 = set_cnt ki (countnode234 sub') n1;
          index1 = index + cnt n2 (ki - 1);
          n3 = set_cnt (ki - 1) (countnode234 sib') n2
      in (set_kid (ki - 1) sib' (set_kid ki sub' n3), sub', index1 - cnt n3 (ki - 1)))"

text \<open>Case 3a, right-handed: child \<open>ki\<close> takes a subtree from child \<open>ki + 1\<close>.\<close>

function shift_sib :: "nat \<Rightarrow> 'a node234 \<Rightarrow> 'a node234" where
  "shift_sib j sib =
     (if j < 2 \<and> elem sib (j + 1) \<noteq> None
      then shift_sib (j + 1)
             (set_elem j (elem sib (j + 1))
               (set_cnt (j + 1) (cnt sib (j + 2)) (set_kid (j + 1) (kid sib (j + 2)) sib)))
      else set_elem j None (set_cnt (j + 1) 0 (set_kid (j + 1) Nil234 sib)))"
  by pat_completeness auto
termination
  by (relation "measure (\<lambda>(j, sib). 2 - j)") auto

declare shift_sib.simps [simp del]

definition borrow_right :: "'a node234 \<Rightarrow> nat \<Rightarrow> 'a node234 \<times> 'a node234" where
  "borrow_right n ki =
     (let sub = kid n ki; sib = kid n (ki + 1);
          sub' = set_cnt 2 (cnt sib 0) (set_kid 2 (kid sib 0) (set_elem 1 (elem n ki) sub));
          n1 = set_elem ki (elem sib 0) n;
          sib' = shift_sib 0 (set_cnt 0 (cnt sib 1) (set_kid 0 (kid sib 1) sib));
          n2 = set_cnt (ki + 1) (countnode234 sib') (set_cnt ki (countnode234 sub') n1)
      in (set_kid (ki + 1) sib' (set_kid ki sub' n2), sub'))"

text \<open>Case 3b: children \<open>ki\<close> and \<open>ki + 1\<close> are merged around element \<open>ki\<close>.\<close>

fun merge_nodes :: "'a node234 \<Rightarrow> 'a option \<Rightarrow> 'a node234 \<Rightarrow> 'a node234" where
  "merge_nodes (Node234 a0 a1 a2 a3 d0 d1 d2 d3 f0 f1 f2) e
               (Node234 k0 k1 k2 k3 c0 c1 c2 c3 e0 e1 e2) =
     Node234 a0 a1 k0 k1 d0 d1 c0 c1 f0 e e0"
| "merge_nodes sib e sub = Nil234"

function remove_kid :: "nat \<Rightarrow> 'a node234 \<Rightarrow> 'a node234" where
  "remove_kid j n =
     (if j < 3 \<and> kid n (j + 1) \<noteq> Nil234
      then remove_kid (j + 1)
             (set_elem j (if j < 2 then elem n (j + 1) else None)
               (set_cnt j (cnt n (j + 1)) (set_kid j (kid n (j + 1)) n)))
      else let n = set_cnt j 0 (set_kid j Nil234 n)
           in if j < 3 then set_elem j None n else n)"
  by pat_completeness auto
termination
  by (relation "measure (\<lambda>(j, n). 3 - j)") auto

declare remove_kid.simps [simp del]

definition merge_kids :: "'a node234 \<Rightarrow> nat \<Rightarrow> 'a node234 \<times> 'a node234" where
  "merge_kids n ki =
     (let sub = merge_nodes (kid n ki) (elem n ki) (kid n (ki + 1));
          n1 = set_cnt (ki + 1) (countnode234 sub) (set_kid (ki + 1) sub n)
      in (remove_kid ki n1, sub))"

text \<open>
  Preparing to descend into child \<open>ki\<close>, which must have two elements first.  The result is
  the child to go to, the index there, and the path above it; an emptied root drops out of
  the path.
\<close>

definition del_enter ::
  "'a node234 \<Rightarrow> nat \<Rightarrow> int \<Rightarrow> 'a path234 \<Rightarrow> ('a node234 \<times> int \<times> 'a path234) res" where
  "del_enter n ki index path =
     (let sub = kid n ki in
      if sub = Nil234 then Inl NullDeref
      else if elem sub 1 \<noteq> None then Inr (sub, index, (n, ki) # path)
      else if ki > 0 \<and> kid n (ki - 1) = Nil234 then Inl NullDeref
      else if ki > 0 \<and> elem (kid n (ki - 1)) 1 \<noteq> None then
        (case borrow_left n ki index of (n', sub', index') \<Rightarrow> Inr (sub', index', (n', ki) # path))
      else if ki < 3 \<and> kid n (ki + 1) \<noteq> Nil234 \<and> elem (kid n (ki + 1)) 1 \<noteq> None then
        (case borrow_right n ki of (n', sub') \<Rightarrow> Inr (sub', index, (n', ki) # path))
      else let index' = (if ki > 0 then index + cnt n (ki - 1) + 1 else index);
               k = (if ki > 0 then ki - 1 else ki)
           in if kid n (k + 1) = Nil234 then Inl NullDeref
              else case merge_kids n k of
                (n', sub') \<Rightarrow>
                  Inr (sub', index', if elem n' 0 = None then [] else (n', k) # path))"

text \<open>Case 1: remove an element of a leaf; then every count on the way up drops by one.\<close>

function shift_elems :: "nat \<Rightarrow> 'a node234 \<Rightarrow> 'a node234" where
  "shift_elems i n =
     (if i < 2 \<and> elem n (i + 1) \<noteq> None
      then shift_elems (i + 1) (set_elem i (elem n (i + 1)) n)
      else set_elem i None n)"
  by pat_completeness auto
termination
  by (relation "measure (\<lambda>(i, n). 2 - i)") auto

declare shift_elems.simps [simp del]

fun drop_counts :: "'a node234 \<Rightarrow> 'a path234 \<Rightarrow> 'a node234" where
  "drop_counts n [] = n"
| "drop_counts n ((p, childnum) # path) =
     drop_counts (set_cnt childnum (cnt p childnum - 1) (set_kid childnum n p)) path"

text \<open>The predecessor and successor searches of cases 2a and 2b.\<close>

function last_leaf :: "'a node234 \<Rightarrow> 'a node234" where
  "last_leaf m =
     (if kid m 0 \<noteq> Nil234
      then last_leaf (if kid m 3 \<noteq> Nil234 then kid m 3
                      else if kid m 2 \<noteq> Nil234 then kid m 2
                      else if kid m 1 \<noteq> Nil234 then kid m 1 else kid m 0)
      else m)"
  by pat_completeness auto
termination
  by (relation "measure size") (auto intro: kid_smaller)

declare last_leaf.simps [simp del]

function first_leaf :: "'a node234 \<Rightarrow> 'a node234" where
  "first_leaf m = (if kid m 0 \<noteq> Nil234 then first_leaf (kid m 0) else m)"
  by pat_completeness auto
termination
  by (relation "measure size") (auto intro: kid_smaller)

declare first_leaf.simps [simp del]

definition last_elem :: "'a node234 \<Rightarrow> 'a option" where
  "last_elem m = (if elem m 2 \<noteq> None then elem m 2
                  else if elem m 1 \<noteq> None then elem m 1 else elem m 0)"

text \<open>Case 2c: merge the children around the element to be deleted.\<close>

function remove_elem :: "nat \<Rightarrow> 'a node234 \<Rightarrow> 'a node234" where
  "remove_elem j n =
     (if j < 2 \<and> elem n (j + 1) \<noteq> None
      then remove_elem (j + 1)
             (set_cnt (j + 1) (cnt n (j + 2)) (set_kid (j + 1) (kid n (j + 2))
               (set_elem j (elem n (j + 1)) n)))
      else set_cnt (j + 1) 0 (set_kid (j + 1) Nil234 (set_elem j None n)))"
  by pat_completeness auto
termination
  by (relation "measure (\<lambda>(j, n). 2 - j)") auto

declare remove_elem.simps [simp del]

definition merge_around :: "'a node234 \<Rightarrow> nat \<Rightarrow> 'a node234 \<times> 'a node234" where
  "merge_around n ei =
     (let a = merge_nodes (kid n ei) (elem n ei) (kid n (ei + 1));
          n1 = set_cnt ei (countnode234 a) (set_kid ei a n)
      in (remove_elem ei n1, a))"

text \<open>
  The step on the node that holds the element: either the deletion is finished, or it goes
  on in a child.
\<close>

datatype 'a del_action = DelDone "'a node234" | DelGo "'a node234" int "'a path234"

definition del_here :: "'a node234 \<Rightarrow> nat \<Rightarrow> 'a path234 \<Rightarrow> 'a del_action res" where
  "del_here n ei path =
     (if path = [] \<and> elem n 1 = None \<and> kid n 0 = Nil234 then Inr (DelDone Nil234)
      else if kid n 0 = Nil234 \<and> elem n 1 \<noteq> None then
        Inr (DelDone (drop_counts (shift_elems ei n) path))
      else if kid n ei = Nil234 then Inl NullDeref
      else if elem (kid n ei) 1 \<noteq> None then
        Inr (DelGo (kid n ei) (cnt n ei - 1)
               ((set_elem ei (last_elem (last_leaf (kid n ei))) n, ei) # path))
      else if kid n (ei + 1) = Nil234 then Inl NullDeref
      else if elem (kid n (ei + 1)) 1 \<noteq> None then
        Inr (DelGo (kid n (ei + 1)) 0
               ((set_elem ei (elem (first_leaf (kid n (ei + 1))) 0) n, ei + 1) # path))
      else case merge_around n ei of
        (n', a) \<Rightarrow> Inr (DelGo a (cnt a 0 + cnt a 1 + 1)
                          (if elem n' 0 = None then [] else (n', ei) # path)))"


text \<open>Every iteration of the deletion loop goes one level down, which bounds it.\<close>

fun height234 :: "'a node234 \<Rightarrow> nat" where
  "height234 Nil234 = 0"
| "height234 (Node234 k0 k1 k2 k3 c0 c1 c2 c3 e0 e1 e2) =
     Suc (max (max (height234 k0) (height234 k1)) (max (height234 k2) (height234 k3)))"

definition kids_below :: "nat \<Rightarrow> 'a node234 \<Rightarrow> bool" where
  "kids_below h n \<longleftrightarrow> (\<forall>i. height234 (kid n i) < h)"

lemma kids_below_height: "kids_below h n \<Longrightarrow> 0 < h \<Longrightarrow> height234 n \<le> h"
  by (cases n) (auto simp: kids_below_def less_Suc_eq_le Suc_le_eq
      dest: spec [of _ 0] spec [of _ 1] spec [of _ 2] spec [of _ 3])

lemma height_kid: "n \<noteq> Nil234 \<Longrightarrow> height234 (kid n i) < height234 n"
  by (cases n) auto

lemma kids_below_kid: "n \<noteq> Nil234 \<Longrightarrow> kid n i \<noteq> Nil234 \<Longrightarrow> kids_below (height234 n - 1) (kid n i)"
  using height_kid [of n i] height_kid [of "kid n i"] unfolding kids_below_def
  by (metis Suc_diff_1 less_Suc_eq_le less_le_trans less_nat_zero_code linorder_neqE_nat)

lemma kids_below_update:
  "kids_below h n \<Longrightarrow> kids_below h (set_cnt i c n)"
  "kids_below h n \<Longrightarrow> kids_below h (set_elem i e n)"
  "kids_below h n \<Longrightarrow> height234 k < h \<Longrightarrow> kids_below h (set_kid i k n)"
  by (cases n; auto simp: kids_below_def dest: spec [of _ 0] spec [of _ 1] spec [of _ 2] spec [of _ 3])+

lemma kids_below_push_front:
  "kids_below h n \<Longrightarrow> height234 k < h \<Longrightarrow> kids_below h (push_front e k c n)"
  by (cases n) (auto simp: kids_below_def dest: spec [of _ 0] spec [of _ 1] spec [of _ 2] spec [of _ 3])

lemma kids_below_merge_nodes:
  "kids_below h a \<Longrightarrow> kids_below h b \<Longrightarrow> 0 < h \<Longrightarrow> kids_below h (merge_nodes a e b)"
  by (cases a; cases b)
     (auto simp: kids_below_def dest: spec [of _ 0] spec [of _ 1] spec [of _ 2] spec [of _ 3])

lemma kids_below_kid_less: "kids_below h n \<Longrightarrow> height234 (kid n i) < h"
  by (simp add: kids_below_def)

lemma height_2_levels:
  assumes "n \<noteq> Nil234" "kid n i \<noteq> Nil234"
  shows "0 < height234 n - 1"
  using height_kid [OF assms(1), of i] assms(2) by (cases "kid n i") auto

lemma del_enter_height:
  assumes n: "n \<noteq> Nil234" and d: "del_enter n ki index path = Inr (sub, index', path')"
  shows "height234 sub < height234 n"
proof -
  have k: "kid n ki \<noteq> Nil234" using d by (auto simp: del_enter_def)
  define h where "h = height234 n - 1"
  have h: "0 < h" unfolding h_def by (rule height_2_levels [OF n k])
  have below: "kids_below h (kid n i)" if "kid n i \<noteq> Nil234" for i
    unfolding h_def by (rule kids_below_kid [OF n that])
  have "kids_below h sub"
    using d k below h
    by (auto simp: del_enter_def borrow_left_def borrow_right_def merge_kids_def Let_def
        split: if_splits
        intro!: kids_below_update kids_below_push_front kids_below_merge_nodes kids_below_kid_less)
  then show ?thesis using kids_below_height [OF _ h, of sub] h unfolding h_def by linarith
qed

lemma del_here_height:
  assumes n: "n \<noteq> Nil234" and d: "del_here n ei path = Inr (DelGo m index' path')"
  shows "height234 m < height234 n"
proof (cases "m = kid n ei \<or> m = kid n (ei + 1)")
  case True then show ?thesis using height_kid [OF n] by auto
next
  case False
  then have k: "kid n ei \<noteq> Nil234" "kid n (ei + 1) \<noteq> Nil234"
    and m: "m = merge_nodes (kid n ei) (elem n ei) (kid n (ei + 1))"
    using d by (auto simp: del_here_def merge_around_def Let_def split: if_splits)
  let ?h = "height234 n - 1"
  have h: "0 < ?h" by (rule height_2_levels [OF n k(1)])
  have "kids_below ?h m"
    unfolding m by (intro kids_below_merge_nodes kids_below_kid n k h)
  then show ?thesis using kids_below_height [OF _ h, of m] h by linarith
qed

function del_loop ::
  "'a option \<Rightarrow> 'a node234 \<Rightarrow> int \<Rightarrow> 'a path234 \<Rightarrow> ('a option \<times> 'a node234) res" where
  "del_loop retval n index path =
     (if n = Nil234 then Inl NullDeref
      else case del_choose n index of
        InKid ki index' \<Rightarrow>
          (case del_enter n ki index' path of
             Inl f \<Rightarrow> Inl f
           | Inr (sub, index'', path') \<Rightarrow> del_loop retval sub index'' path')
      | AtElem ei \<Rightarrow>
          let retval' = (if retval = None then elem n ei else retval) in
          (case del_here n ei path of
             Inl f \<Rightarrow> Inl f
           | Inr (DelDone r) \<Rightarrow> Inr (retval', r)
           | Inr (DelGo m index' path') \<Rightarrow> del_loop retval' m index' path'))"
  by pat_completeness auto
termination
  by (relation "measure (\<lambda>(retval, n, index, path). height234 n)")
     (auto intro: del_enter_height del_here_height)

declare del_loop.simps [simp del]

definition delpos234_internal :: "'a tree234 \<Rightarrow> int \<Rightarrow> ('a option \<times> 'a tree234) res" where
  "delpos234_internal t index =
     (case del_loop None (root t) index [] of
        Inl f \<Rightarrow> Inl f
      | Inr (ret, r) \<Rightarrow> Inr (ret, t\<lparr>root := r\<rparr>))"

definition delpos234 :: "'a tree234 \<Rightarrow> int \<Rightarrow> ('a option \<times> 'a tree234) res" where
  "delpos234 t index =
     (if index < 0 \<or> index \<ge> countnode234 (root t) then Inr (None, t)
      else delpos234_internal t index)"

definition del234 :: "'a tree234 \<Rightarrow> 'a \<Rightarrow> ('a option \<times> 'a tree234) res option" where
  "del234 t e =
     (case findrelpos234 t (Some e) None REL234_EQ of
        None \<Rightarrow> None
      | Some (Inl f) \<Rightarrow> Some (Inl f)
      | Some (Inr None) \<Rightarrow> Some (Inr (None, t))
      | Some (Inr (Some (x, index))) \<Rightarrow> Some (delpos234_internal t index))"

end
