(* ===== verification/Tree234_Correct.thy ===== *)
theory Tree234_Correct
  imports Tree234
begin

text \<open>
  Correctness of the counted 2-3-4 trees.  \<open>inorder\<close> is the list a tree stands for and
  \<open>wf234 h\<close> the shape invariant at height \<open>h\<close>: between one and three elements, one more
  child than elements, every leaf at the same depth, and every count equal to the size of
  its subtree.  Each operation is shown to act on the list as its specification says.
  \<open>ordered_store\<close> is the interface the users of a sorted tree rely on.
\<close>

section \<open>Abstraction and invariant\<close>

fun inorder :: "'a node234 \<Rightarrow> 'a list" where
  "inorder Nil234 = []"
| "inorder (Node234 k0 k1 k2 k3 c0 c1 c2 c3 e0 e1 e2) =
     inorder k0 @ slot e0 @ inorder k1 @ slot e1 @ inorder k2 @ slot e2 @ inorder k3"

fun wf234 :: "nat \<Rightarrow> 'a node234 \<Rightarrow> bool" where
  "wf234 h Nil234 \<longleftrightarrow> h = 0"
| "wf234 h (Node234 k0 k1 k2 k3 c0 c1 c2 c3 e0 e1 e2) \<longleftrightarrow>
     0 < h \<and> e0 \<noteq> None \<and> (e2 \<noteq> None \<longrightarrow> e1 \<noteq> None) \<and>
     wf234 (h - 1) k0 \<and> wf234 (h - 1) k1 \<and>
     (if e1 = None then k2 = Nil234 else wf234 (h - 1) k2) \<and>
     (if e2 = None then k3 = Nil234 else wf234 (h - 1) k3) \<and>
     c0 = int (length (inorder k0)) \<and> c1 = int (length (inorder k1)) \<and>
     c2 = int (length (inorder k2)) \<and> c3 = int (length (inorder k3))"

definition tree_ok :: "'a tree234 \<Rightarrow> bool" where
  "tree_ok t \<longleftrightarrow> wf234 (height234 (root t)) (root t)"

definition tree_list :: "'a tree234 \<Rightarrow> 'a list" where
  "tree_list t = inorder (root t)"

fun before :: "'a node234 \<Rightarrow> nat \<Rightarrow> 'a list" where
  "before Nil234 i = []"
| "before (Node234 k0 k1 k2 k3 c0 c1 c2 c3 e0 e1 e2) i =
     (if i = 0 then [] else if i = 1 then inorder k0 @ slot e0
      else if i = 2 then inorder k0 @ slot e0 @ inorder k1 @ slot e1
      else inorder k0 @ slot e0 @ inorder k1 @ slot e1 @ inorder k2 @ slot e2)"

fun after :: "'a node234 \<Rightarrow> nat \<Rightarrow> 'a list" where
  "after Nil234 i = []"
| "after (Node234 k0 k1 k2 k3 c0 c1 c2 c3 e0 e1 e2) i =
     (if i = 0 then slot e0 @ inorder k1 @ slot e1 @ inorder k2 @ slot e2 @ inorder k3
      else if i = 1 then slot e1 @ inorder k2 @ slot e2 @ inorder k3
      else if i = 2 then slot e2 @ inorder k3 else [])"

fun path_ok :: "nat \<Rightarrow> 'a path234 \<Rightarrow> bool" where
  "path_ok h [] \<longleftrightarrow> True"
| "path_ok h ((p, i) # path) \<longleftrightarrow> wf234 (Suc h) p \<and> i \<le> elements234 p \<and> path_ok (Suc h) path"

fun plug :: "'a list \<Rightarrow> 'a path234 \<Rightarrow> 'a list" where
  "plug xs [] = xs"
| "plug xs ((p, i) # path) = plug (before p i @ xs @ after p i) path"

section \<open>Shape lemmas\<close>

lemma slot_simps [simp]: "slot None = []" "slot (Some x) = [x]"
  by (simp_all add: slot_def)

lemma wf234_height: "wf234 h n \<Longrightarrow> height234 n = h"
  by (induction n arbitrary: h) (fastforce split: if_splits)+

lemma tree_okI: "wf234 h (root t) \<Longrightarrow> tree_ok t"
  using wf234_height [of h "root t"] by (simp add: tree_ok_def)

lemma wf234_0 [simp]: "wf234 0 n \<longleftrightarrow> n = Nil234"
  by (cases n) auto

lemma countnode_wf: "wf234 h n \<Longrightarrow> countnode234 n = int (length (inorder n))"
  by (cases n) (auto simp: countnode234_def slot_def split: option.splits if_splits)

lemma kid_wf:
  "wf234 (Suc h) n \<Longrightarrow> i \<le> elements234 n \<Longrightarrow> wf234 h (kid n i)"
  by (cases n) (auto simp: elements234_def split: if_splits)

lemma kid_beyond: "wf234 h n \<Longrightarrow> elements234 n < i \<Longrightarrow> i \<le> 3 \<Longrightarrow> kid n i = Nil234"
  by (cases n) (auto simp: elements234_def split: if_splits)

lemma inorder_split_kid:
  "wf234 h n \<Longrightarrow> i \<le> elements234 n \<Longrightarrow> inorder n = before n i @ inorder (kid n i) @ after n i"
  by (cases n) (auto simp: elements234_def split: if_splits)

lemma wf234_Nil_iff: "wf234 h n \<Longrightarrow> n = Nil234 \<longleftrightarrow> h = 0"
  by (cases n) auto

lemma kid_leaf: "wf234 (Suc h) n \<Longrightarrow> kid n 0 = Nil234 \<longleftrightarrow> h = 0"
  by (cases n) (auto simp: wf234_Nil_iff)

lemma set_kid_wf:
  assumes "wf234 (Suc h) p" "i \<le> elements234 p" "wf234 h n"
  shows "wf234 (Suc h) (set_cnt i (countnode234 n) (set_kid i n p))"
    and "inorder (set_cnt i (countnode234 n) (set_kid i n p)) = before p i @ inorder n @ after p i"
  using assms countnode_wf [OF assms(3)]
  by (cases p; auto simp: elements234_def split: if_splits)+

lemma fix_counts_wf:
  "wf234 h n \<Longrightarrow> path_ok h path \<Longrightarrow>
     (\<exists>h'. wf234 h' (fix_counts n path)) \<and> inorder (fix_counts n path) = plug (inorder n) path"
proof (induction n path arbitrary: h rule: fix_counts.induct)
  case (2 n p i path)
  then show ?case using set_kid_wf [of h p i n] by auto
qed auto

section \<open>Insertion\<close>

lemma insert_2node_wf:
  assumes "wf234 (Suc h) n" "elem n 1 = None" "np \<le> elements234 n" "wf234 h l" "wf234 h r"
  shows "wf234 (Suc h) (insert_2node l (int (length (inorder l))) e r (int (length (inorder r))) np n)"
    and "inorder (insert_2node l (int (length (inorder l))) e r (int (length (inorder r))) np n) =
      before n np @ (inorder l @ e # inorder r) @ after n np"
  using assms by (cases n; auto simp: elements234_def split: if_splits)+

lemma insert_3node_wf:
  assumes "wf234 (Suc h) n" "elem n 1 \<noteq> None" "elem n 2 = None" "np \<le> elements234 n" "wf234 h l" "wf234 h r"
  shows "wf234 (Suc h) (insert_3node l (int (length (inorder l))) e r (int (length (inorder r))) np n)"
    and "inorder (insert_3node l (int (length (inorder l))) e r (int (length (inorder r))) np n) =
      before n np @ (inorder l @ e # inorder r) @ after n np"
  using assms by (cases n; auto simp: elements234_def split: if_splits)+

lemma split_4node_wf:
  assumes "wf234 (Suc h) n" "elem n 1 \<noteq> None" "elem n 2 \<noteq> None" "np \<le> elements234 n" "wf234 h l" "wf234 h r"
  shows "\<exists>m e' n'. split_4node l (int (length (inorder l))) e r (int (length (inorder r))) np n = (m, Some e', n') \<and>
     wf234 (Suc h) m \<and> wf234 (Suc h) n' \<and>
     inorder m @ e' # inorder n' = before n np @ (inorder l @ e # inorder r) @ after n np"
  using assms by (cases n) (auto simp: elements234_def split: if_splits)

lemma add_ascend_correct:
  assumes "wf234 (Suc h) n" "np \<le> elements234 n" "wf234 h l" "wf234 h r" "path_ok (Suc h) path"
  shows "\<exists>r' h'. add_ascend l (int (length (inorder l))) e r (int (length (inorder r))) n np path = Inr r' \<and>
    wf234 h' r' \<and>
    inorder r' = plug (before n np @ (inorder l @ e # inorder r) @ after n np) path"
  using assms
proof (induction path arbitrary: h n np l e r)
  case Nil
  show ?case
  proof (cases "elem n 1 = None \<or> elem n 2 = None")
    case True
    then show ?thesis
      using insert_2node_wf [of h n np l r e] insert_3node_wf [of h n np l r e] Nil
      by (subst add_ascend.simps) auto
  next
    case False
    then obtain m e' n' where
      s: "split_4node l (int (length (inorder l))) e r (int (length (inorder r))) np n = (m, Some e', n')"
      "wf234 (Suc h) m" "wf234 (Suc h) n'"
      "inorder m @ e' # inorder n' = before n np @ (inorder l @ e # inorder r) @ after n np"
      using split_4node_wf [of h n np l r e] Nil by auto
    with False countnode_wf [OF s(2)] countnode_wf [OF s(3)] show ?thesis
      by (subst add_ascend.simps) (auto intro!: exI [of _ "Suc (Suc h)"])
  qed
next
  case (Cons pi path)
  obtain p i where pi: "pi = (p, i)" by force
  show ?case
  proof (cases "elem n 1 = None \<or> elem n 2 = None")
    case True
    then show ?thesis
      using insert_2node_wf [of h n np l r e] insert_3node_wf [of h n np l r e] Cons.prems
        fix_counts_wf [of "Suc h" _ "pi # path"]
      by (subst add_ascend.simps) auto
  next
    case False
    then obtain m e' n' where
      s: "split_4node l (int (length (inorder l))) e r (int (length (inorder r))) np n = (m, Some e', n')"
      "wf234 (Suc h) m" "wf234 (Suc h) n'"
      "inorder m @ e' # inorder n' = before n np @ (inorder l @ e # inorder r) @ after n np"
      using split_4node_wf [of h n np l r e] Cons.prems by auto
    then show ?thesis
      using False Cons.prems pi Cons.IH [of "Suc h" p i m n' e'] countnode_wf [OF s(2)] countnode_wf [OF s(3)]
      by (subst add_ascend.simps) auto
  qed
qed

text \<open>Where the downward loop ends: a leaf position that splits the list at \<open>A\<close> and \<open>B\<close>.\<close>

definition place_ok :: "'a node234 \<Rightarrow> nat \<Rightarrow> 'a path234 \<Rightarrow> 'a list \<Rightarrow> 'a list \<Rightarrow> 'a path234 \<Rightarrow> bool" where
  "place_ok n np path' A B path \<longleftrightarrow>
     wf234 1 n \<and> np \<le> elements234 n \<and> path_ok 1 path' \<and>
     (\<forall>xs. plug (before n np @ xs @ after n np) path' = plug (A @ xs @ B) path)"

lemma place_ok_up:
  "place_ok m np path' A B ((n, k) # path) \<Longrightarrow>
   place_ok m np path' (before n k @ A) (B @ after n k) path"
  by (auto simp: place_ok_def)

lemma elem_wf:
  "wf234 (Suc h) n \<Longrightarrow> elem n 0 \<noteq> None"
  "wf234 (Suc h) n \<Longrightarrow> elements234 n \<le> 3"
  "wf234 (Suc h) n \<Longrightarrow> 1 \<le> elements234 n"
  by (cases n; auto simp: elements234_def)+

lemma add_choose_pos_internal:
  assumes "wf234 (Suc (Suc h)) n" "0 \<le> index" "index \<le> int (length (inorder n))"
  shows "\<exists>k i. add_choose_pos n index = Inr (Descend k i) \<and> k \<le> elements234 n \<and>
    0 \<le> i \<and> i \<le> int (length (inorder (kid n k))) \<and> index = int (length (before n k)) + i"
  using assms
  by (cases n) (auto simp: add_choose_pos_def elements234_def Let_def wf234_Nil_iff slot_def split: if_splits option.splits)

lemma before_leaf:
  "wf234 1 n \<Longrightarrow> i \<le> elements234 n \<Longrightarrow> before n i = take i (inorder n) \<and> after n i = drop i (inorder n)"
  by (cases n) (auto simp: elements234_def numeral_2_eq_2 numeral_3_eq_3 split: if_splits)

lemma length_leaf: "wf234 1 n \<Longrightarrow> length (inorder n) = elements234 n"
  by (cases n) (auto simp: elements234_def split: if_splits)

lemma add_descend_pos:
  assumes "wf234 (Suc h) n" "path_ok (Suc h) path" "0 \<le> index" "index \<le> int (length (inorder n))"
  shows "\<exists>m np path'. add_descend c e index n path = Inr (Place m np path') \<and>
    place_ok m np path' (take (nat index) (inorder n)) (drop (nat index) (inorder n)) path"
  using assms
proof (induction h arbitrary: n path index)
  case 0
  then have leaf: "wf234 1 n" "n \<noteq> Nil234" "kid n 0 = Nil234" "nat index \<le> elements234 n"
    by (auto simp: kid_leaf length_leaf)
  then have "kid n (nat index) = Nil234" "elements234 n \<le> 3"
    using kid_wf [of 0 n "nat index"] elem_wf(2) [of 0 n] by auto
  moreover have "add_choose c e n index = Inr (Descend (nat index) index)"
    using leaf 0 elem_wf(2) [of 0 n] by (auto simp: add_choose_def add_choose_pos_def)
  ultimately show ?case
    using leaf 0 before_leaf [OF leaf(1), of "nat index"]
    by (subst add_descend.simps) (auto simp: place_ok_def)
next
  case (Suc h)
  obtain k i where k: "add_choose_pos n index = Inr (Descend k i)" "k \<le> elements234 n" "0 \<le> i"
    "i \<le> int (length (inorder (kid n k)))" "index = int (length (before n k)) + i"
    using add_choose_pos_internal [OF Suc.prems(1,3,4)] by blast
  have kw: "wf234 (Suc h) (kid n k)" using kid_wf [OF Suc.prems(1) k(2)] .
  obtain m np path' where IH: "add_descend c e i (kid n k) ((n, k) # path) = Inr (Place m np path')"
    "place_ok m np path' (take (nat i) (inorder (kid n k))) (drop (nat i) (inorder (kid n k))) ((n, k) # path)"
    using Suc.IH [OF kw _ k(3,4), of "(n, k) # path"] Suc.prems k by auto
  have "n \<noteq> Nil234" "kid n k \<noteq> Nil234" using Suc.prems(1) kw by auto
  then have "add_descend c e index n path = Inr (Place m np path')"
    using k IH Suc.prems by (subst add_descend.simps) (simp add: add_choose_def)
  moreover have "take (nat index) (inorder n) = before n k @ take (nat i) (inorder (kid n k))"
    "drop (nat index) (inorder n) = drop (nat i) (inorder (kid n k)) @ after n k"
    using k inorder_split_kid [OF Suc.prems(1) k(2)] by (auto simp: nat_add_distrib)
  ultimately show ?case using place_ok_up [OF IH(2)] by simp
qed

text \<open>
  A comparison is consistent with a list when its sign never rises along it: first the
  elements below the query, then those equal to it, then those above.
\<close>

definition descending :: "('a \<Rightarrow> int) \<Rightarrow> 'a list \<Rightarrow> bool" where
  "descending d xs \<longleftrightarrow> sorted_wrt (\<lambda>x y. (d x < 0 \<longrightarrow> d y < 0) \<and> (d x \<le> 0 \<longrightarrow> d y \<le> 0)) xs"

lemma descending_append:
  "descending d (xs @ ys) \<longleftrightarrow> descending d xs \<and> descending d ys \<and>
     (\<forall>x\<in>set xs. \<forall>y\<in>set ys. (d x < 0 \<longrightarrow> d y < 0) \<and> (d x \<le> 0 \<longrightarrow> d y \<le> 0))"
  by (simp add: descending_def sorted_wrt_append)

lemma descending_simps [simp]:
  "descending d []"
  "descending d (x # xs) \<longleftrightarrow> descending d xs \<and>
     (\<forall>y\<in>set xs. (d x < 0 \<longrightarrow> d y < 0) \<and> (d x \<le> 0 \<longrightarrow> d y \<le> 0))"
  by (auto simp: descending_def)

lemma descending_kid:
  "wf234 h n \<Longrightarrow> descending d (inorder n) \<Longrightarrow> i \<le> elements234 n \<Longrightarrow> descending d (inorder (kid n i))"
  by (simp add: inorder_split_kid descending_append)

lemma before_descending:
  assumes "wf234 (Suc h) n" "descending d (inorder n)" "0 < k" "k \<le> elements234 n"
    "elem n (k - 1) = Some y" "0 < d y"
  shows "\<forall>x\<in>set (before n k). 0 < d x"
proof -
  have "before n k = before n (k - 1) @ inorder (kid n (k - 1)) @ [y]"
    using assms by (cases n) (auto simp: elements234_def split: if_splits)
  moreover have "descending d (before n k)"
    using assms inorder_split_kid [of "Suc h" n k] by (simp add: descending_append)
  ultimately show ?thesis using assms(6) by (auto simp: descending_append not_le [symmetric])
qed

lemma after_descending:
  assumes "wf234 (Suc h) n" "descending d (inorder n)" "k < elements234 n"
    "elem n k = Some y" "d y < 0"
  shows "\<forall>x\<in>set (after n k). d x < 0"
proof -
  have "after n k = y # inorder (kid n (k + 1)) @ after n (k + 1)"
    using assms by (cases n) (auto simp: elements234_def split: if_splits)
  moreover have "descending d (after n k)"
    using assms inorder_split_kid [of "Suc h" n k] by (simp add: descending_append)
  ultimately show ?thesis using assms(5) by auto
qed

lemma before_after_ends:
  "before n 0 = []" "wf234 (Suc h) n \<Longrightarrow> after n (elements234 n) = []"
  by (cases n; auto simp: elements234_def split: if_splits)+

lemma elem_in_inorder: "elem n i = Some x \<Longrightarrow> x \<in> set (inorder n)"
  by (cases n) (auto split: if_splits)

lemma add_choose_cmp_local:
  assumes "wf234 (Suc h) n"
  shows "(\<exists>x i. add_choose_cmp c e n index = Inr (AlreadyExists x) \<and> elem n i = Some x \<and> c e x = 0) \<or>
    (\<exists>k. add_choose_cmp c e n index = Inr (Descend k index) \<and> k \<le> elements234 n \<and>
       (0 < k \<longrightarrow> (\<exists>y. elem n (k - 1) = Some y \<and> 0 < c e y)) \<and>
       (k < elements234 n \<longrightarrow> (\<exists>y. elem n k = Some y \<and> c e y < 0)))"
proof -
  obtain x where x: "elem n 0 = Some x" using elem_wf(1) [OF assms] by auto
  have n2: "elem n 1 = None \<Longrightarrow> elem n 2 = None" using assms by (cases n) auto
  consider "c e x < 0" | "c e x = 0" | "c e x > 0" by linarith
  then show ?thesis
  proof cases
    case 3
    show ?thesis
    proof (cases "elem n 1")
      case None
      with x 3 n2 show ?thesis by (auto simp: add_choose_cmp_def elements234_def)
    next
      case (Some y)
      consider "c e y < 0" | "c e y = 0" | "c e y > 0" by linarith
      then show ?thesis
      proof cases
        case y3: 3
        show ?thesis
        proof (cases "elem n 2")
          case None
          with x 3 Some y3 show ?thesis
            by (intro disjI2 exI [of _ 2]) (auto simp: add_choose_cmp_def elements234_def)
        next
          case (Some z)
          consider "c e z < 0" | "c e z = 0" | "c e z > 0" by linarith
          then show ?thesis
            using x 3 \<open>elem n 1 = Some y\<close> y3 Some
            by cases (auto simp: add_choose_cmp_def elements234_def numeral_2_eq_2 intro: exI [of _ 2])
        qed
      qed (use x 3 Some in \<open>auto simp: add_choose_cmp_def elements234_def\<close>)
    qed
  qed (use x in \<open>auto simp: add_choose_cmp_def elements234_def\<close>)
qed

lemma add_choose_cmp_correct:
  assumes "wf234 (Suc h) n" "descending (c e) (inorder n)"
  shows "(\<exists>x. add_choose_cmp c e n index = Inr (AlreadyExists x) \<and> x \<in> set (inorder n) \<and> c e x = 0) \<or>
    (\<exists>k. add_choose_cmp c e n index = Inr (Descend k index) \<and> k \<le> elements234 n \<and>
       (\<forall>x\<in>set (before n k). c e x > 0) \<and> (\<forall>x\<in>set (after n k). c e x < 0))"
proof -
  from add_choose_cmp_local [OF assms(1), of c e index] show ?thesis
  proof (elim disjE exE conjE)
    fix x i assume "add_choose_cmp c e n index = Inr (AlreadyExists x)" "elem n i = Some x" "c e x = 0"
    then show ?thesis by (blast intro: elem_in_inorder)
  next
    fix k assume k: "add_choose_cmp c e n index = Inr (Descend k index)" "k \<le> elements234 n"
       "0 < k \<longrightarrow> (\<exists>y. elem n (k - 1) = Some y \<and> 0 < c e y)"
       "k < elements234 n \<longrightarrow> (\<exists>y. elem n k = Some y \<and> c e y < 0)"
    have "\<forall>x\<in>set (before n k). c e x > 0"
      using before_descending [OF assms] k before_after_ends(1) [of n] by (cases "k = 0") auto
    moreover have "\<forall>x\<in>set (after n k). c e x < 0"
      using after_descending [OF assms, of k] k(2,4) before_after_ends(2) [OF assms(1)]
      by (cases "k = elements234 n") auto
    ultimately show ?thesis using k by blast
  qed
qed

lemma add_descend_cmp:
  assumes "wf234 (Suc h) n" "path_ok (Suc h) path" "descending (c e) (inorder n)"
  shows "(\<exists>x. add_descend (Some c) e (-1) n path = Inr (PlaceExists x) \<and> x \<in> set (inorder n) \<and> c e x = 0) \<or>
    (\<exists>m np path' A B. add_descend (Some c) e (-1) n path = Inr (Place m np path') \<and>
       place_ok m np path' A B path \<and> inorder n = A @ B \<and>
       (\<forall>x\<in>set A. c e x > 0) \<and> (\<forall>x\<in>set B. c e x < 0))"
  using assms
proof (induction h arbitrary: n path)
  case 0
  have n: "n \<noteq> Nil234" using 0 by auto
  from add_choose_cmp_correct [where c = c and e = e, OF 0(1,3), of "-1"] show ?case
  proof (elim disjE exE conjE)
    fix k assume k: "add_choose_cmp c e n (-1) = Inr (Descend k (-1))" "k \<le> elements234 n"
      "\<forall>x\<in>set (before n k). 0 < c e x" "\<forall>x\<in>set (after n k). c e x < 0"
    have "kid n k = Nil234" using kid_wf [OF 0(1) k(2)] by simp
    with k 0 n inorder_split_kid [OF 0(1) k(2)] show ?case
      by (subst (1 2) add_descend.simps) (auto simp: add_choose_def place_ok_def)
  qed (use n in \<open>subst add_descend.simps, simp add: add_choose_def\<close>)
next
  case (Suc h)
  have n: "n \<noteq> Nil234" using Suc.prems by auto
  from add_choose_cmp_correct [where c = c and e = e, OF Suc.prems(1,3), of "-1"] show ?case
  proof (elim disjE exE conjE)
    fix k assume k: "add_choose_cmp c e n (-1) = Inr (Descend k (-1))" "k \<le> elements234 n"
      "\<forall>x\<in>set (before n k). 0 < c e x" "\<forall>x\<in>set (after n k). c e x < 0"
    have kw: "wf234 (Suc h) (kid n k)" using kid_wf [OF Suc.prems(1) k(2)] .
    then have "kid n k \<noteq> Nil234" by auto
    with n k have step: "add_descend (Some c) e (-1) n path = add_descend (Some c) e (-1) (kid n k) ((n, k) # path)"
      by (subst add_descend.simps) (simp add: add_choose_def)
    have io: "inorder n = before n k @ inorder (kid n k) @ after n k"
      by (rule inorder_split_kid [OF Suc.prems(1) k(2)])
    have dk: "descending (c e) (inorder (kid n k))" and pk: "path_ok (Suc h) ((n, k) # path)"
      using descending_kid [OF Suc.prems(1,3) k(2)] Suc.prems k(2) by auto
    from Suc.IH [OF kw pk dk] have
      "(\<exists>x. add_descend (Some c) e (-1) n path = Inr (PlaceExists x) \<and> x \<in> set (inorder (kid n k)) \<and> c e x = 0) \<or>
       (\<exists>m np path' A B. add_descend (Some c) e (-1) n path = Inr (Place m np path') \<and>
       place_ok m np path' A B ((n, k) # path) \<and> inorder (kid n k) = A @ B \<and>
       (\<forall>x\<in>set A. c e x > 0) \<and> (\<forall>x\<in>set B. c e x < 0))"
      unfolding step .
    then show ?case
    proof (elim disjE exE conjE)
      fix m np path' A B
      assume p: "add_descend (Some c) e (-1) n path = Inr (Place m np path')"
        "place_ok m np path' A B ((n, k) # path)" "inorder (kid n k) = A @ B"
        "\<forall>x\<in>set A. 0 < c e x" "\<forall>x\<in>set B. c e x < 0"
      show ?case
        by (intro disjI2 exI [of _ m] exI [of _ np] exI [of _ path'] exI [of _ "before n k @ A"]
            exI [of _ "B @ after n k"]) (use p k io place_ok_up [OF p(2)] in auto)
    qed (auto simp: io)
  qed (use n in \<open>subst add_descend.simps, simp add: add_choose_def\<close>)
qed

lemma add_place_correct:
  assumes "place_ok n np path' A B []"
  shows "\<exists>r' h'. add_ascend Nil234 0 e Nil234 0 n np path' = Inr r' \<and> wf234 h' r' \<and> inorder r' = A @ e # B"
proof -
  have "plug (before n np @ [e] @ after n np) path' = A @ [e] @ B"
    using assms unfolding place_ok_def by (metis plug.simps(1))
  then show ?thesis
    using assms add_ascend_correct [of 0 n np Nil234 Nil234 path' e]
    by (auto simp: place_ok_def)
qed

lemma tree_ok_root: "tree_ok t \<Longrightarrow> root t \<noteq> Nil234 \<Longrightarrow> \<exists>h. wf234 (Suc h) (root t)"
  by (cases "height234 (root t)") (auto simp: tree_ok_def)

text \<open>The list of elements with those before and after a query.\<close>

lemma add234_internal_pos:
  assumes "tree_ok t" "0 \<le> index" "index \<le> int (length (tree_list t))"
  shows "\<exists>t'. add234_internal t e index = Inr (Some e, t') \<and> tree_ok t' \<and> cmp t' = cmp t \<and>
    tree_list t' = take (nat index) (tree_list t) @ e # drop (nat index) (tree_list t)"
proof (cases "root t = Nil234")
  case True
  with assms show ?thesis by (auto simp: add234_internal_def tree_list_def intro!: tree_okI [of 1])
next
  case False
  then obtain h where h: "wf234 (Suc h) (root t)" using tree_ok_root [OF assms(1)] by blast
  obtain n np path' where d: "add_descend (cmp t) e index (root t) [] = Inr (Place n np path')"
    "place_ok n np path' (take (nat index) (tree_list t)) (drop (nat index) (tree_list t)) []"
    using add_descend_pos [OF h, of "[]" index "cmp t" e] assms(2,3) unfolding tree_list_def by auto
  obtain r' h' where "add_ascend Nil234 0 e Nil234 0 n np path' = Inr r'" "wf234 h' r'"
    "inorder r' = take (nat index) (tree_list t) @ e # drop (nat index) (tree_list t)"
    using add_place_correct [OF d(2)] by blast
  with False d(1) show ?thesis
    by (auto simp: add234_internal_def tree_list_def [of "t\<lparr>root := r'\<rparr>"] intro: tree_okI)
qed

lemma add234_internal_cmp:
  assumes "tree_ok t" "cmp t = Some c" "descending (c e) (tree_list t)"
  shows "(\<exists>x. add234_internal t e (-1) = Inr (Some x, t) \<and> x \<in> set (tree_list t) \<and> c e x = 0) \<or>
    (\<exists>t' A B. add234_internal t e (-1) = Inr (Some e, t') \<and> tree_ok t' \<and> cmp t' = cmp t \<and>
       tree_list t = A @ B \<and> tree_list t' = A @ e # B \<and>
       (\<forall>x\<in>set A. c e x > 0) \<and> (\<forall>x\<in>set B. c e x < 0))"
proof (cases "root t = Nil234")
  case True
  with assms show ?thesis by (auto simp: add234_internal_def tree_list_def intro!: tree_okI [of 1])
next
  case False
  then obtain h where h: "wf234 (Suc h) (root t)" using tree_ok_root [OF assms(1)] by blast
  have "descending (c e) (inorder (root t))" using assms(3) by (simp add: tree_list_def)
  from add_descend_cmp [OF h path_ok.simps(1) [THEN iffD2, OF TrueI], of c e, OF this] show ?thesis
  proof (elim disjE exE conjE)
    fix n np path' A B
    assume d: "add_descend (Some c) e (-1) (root t) [] = Inr (Place n np path')" "place_ok n np path' A B []"
      "inorder (root t) = A @ B" "\<forall>x\<in>set A. 0 < c e x" "\<forall>x\<in>set B. c e x < 0"
    obtain r' h' where r: "add_ascend Nil234 0 e Nil234 0 n np path' = Inr r'" "wf234 h' r'"
      "inorder r' = A @ e # B"
      using add_place_correct [OF d(2)] by blast
    with d False assms(2) show ?thesis
      by (intro disjI2 exI [of _ "t\<lparr>root := r'\<rparr>"] exI [of _ A] exI [of _ B])
         (auto simp: add234_internal_def tree_list_def intro: tree_okI)
  qed (use False assms(2) in \<open>auto simp: add234_internal_def tree_list_def\<close>)
qed

section \<open>Lookup\<close>

lemma del_choose_correct:
  assumes "wf234 (Suc h) n" "0 \<le> index" "index < int (length (inorder n))"
  shows "case del_choose n index of
      InKid k i \<Rightarrow> k \<le> elements234 n \<and> 0 \<le> i \<and> i < int (length (inorder (kid n k))) \<and>
        index = int (length (before n k)) + i
    | AtElem k \<Rightarrow> k < elements234 n \<and> index = int (length (before n k)) + int (length (inorder (kid n k)))"
  using assms
  by (cases n) (auto simp: del_choose_def elements234_def Let_def split: if_splits)

lemma index_loop_choose:
  "n \<noteq> Nil234 \<Longrightarrow> index_loop n index =
     (case del_choose n index of InKid k i \<Rightarrow> index_loop (kid n k) i | AtElem k \<Rightarrow> elem n k)"
  by (subst index_loop.simps) (simp add: del_choose_def Let_def)

lemma after_elem:
  assumes "wf234 (Suc h) n" "k < elements234 n"
  shows "\<exists>x. elem n k = Some x \<and> after n k = x # inorder (kid n (k + 1)) @ after n (k + 1)"
  using assms by (cases n) (auto simp: elements234_def split: if_splits)

lemma index_loop_nth:
  "wf234 h n \<Longrightarrow> 0 \<le> index \<Longrightarrow> index < int (length (inorder n)) \<Longrightarrow>
     index_loop n index = Some (inorder n ! nat index)"
proof (induction h arbitrary: n index)
  case (Suc h)
  have n: "n \<noteq> Nil234" using Suc.prems by auto
  show ?case
  proof (cases "del_choose n index")
    case (InKid k i)
    with del_choose_correct [OF Suc.prems] have k: "k \<le> elements234 n" "0 \<le> i"
      "i < int (length (inorder (kid n k)))" "index = int (length (before n k)) + i"
      by simp_all
    with Suc.IH [OF kid_wf [OF Suc.prems(1) k(1)] k(2,3)] inorder_split_kid [OF Suc.prems(1) k(1)] InKid n
    show ?thesis by (simp add: index_loop_choose nth_append nat_add_distrib nat_less_iff)
  next
    case (AtElem k)
    with del_choose_correct [OF Suc.prems] have k: "k < elements234 n"
      "nat index = length (before n k) + length (inorder (kid n k))" by simp_all
    with after_elem [OF Suc.prems(1) k(1)] inorder_split_kid [OF Suc.prems(1), of k] AtElem n
    show ?thesis by (auto simp: index_loop_choose nth_append)
  qed
qed simp

lemma count234_length: "tree_ok t \<Longrightarrow> count234 t = int (length (tree_list t))"
  by (auto simp: tree_ok_def count234_def tree_list_def countnode_wf)

lemma index234_nth:
  assumes "tree_ok t"
  shows "index234 t i =
    (if 0 \<le> i \<and> i < int (length (tree_list t)) then Some (tree_list t ! nat i) else None)"
  using assms by (auto simp: index234_def tree_ok_def tree_list_def countnode_wf index_loop_nth)

text \<open>
  The search.  A state stands for the part of the element list not yet excluded: everything
  before it compares above zero, everything after it below.  \<open>ss_slots\<close> is the part of the
  current node between the child slots \<open>lo\<close> and \<open>hi + 1\<close>.
\<close>

definition search_ok :: "('a \<Rightarrow> int) \<Rightarrow> 'a list \<Rightarrow> 'a search234_state \<Rightarrow> bool" where
  "search_ok d xs st \<longleftrightarrow>
     (let n = ss_node st in
      \<exists>h A B. wf234 h n \<and> xs = A @ inorder n @ B \<and> (\<forall>x\<in>set A. 0 < d x) \<and> (\<forall>x\<in>set B. d x < 0) \<and>
        ss_base st = int (length A) \<and>
        (if n = Nil234 then ss_element st = None \<and> ss_index st = int (length A)
         else 0 \<le> ss_lo st \<and> ss_lo st \<le> ss_last st \<and> ss_last st \<le> ss_hi st \<and>
           ss_hi st < int (elements234 n) \<and>
           ss_element st = elem n (nat (ss_last st)) \<and>
           ss_index st = int (length A) + int (length (before n (nat (ss_last st)))) +
             int (length (inorder (kid n (nat (ss_last st))))) \<and>
           (\<forall>x\<in>set (before n (nat (ss_lo st))). 0 < d x) \<and>
           (\<forall>x\<in>set (after n (nat (ss_hi st + 1))). d x < 0)))"

lemma sum_below_before:
  "wf234 (Suc h) n \<Longrightarrow> i \<le> elements234 n \<Longrightarrow> int i + sum_below n i = int (length (before n i))"
  by (cases n) (auto simp: elements234_def le_Suc_eq numeral_2_eq_2 numeral_3_eq_3 split: if_splits)

lemma cnt_wf: "wf234 h n \<Longrightarrow> i \<le> 3 \<Longrightarrow> cnt n i = int (length (inorder (kid n i)))"
  by (cases n) auto

lemma search_report_ok:
  assumes "wf234 (Suc h) n" "ss_node st = n" "xs = A @ inorder n @ B"
    "\<forall>x\<in>set A. 0 < d x" "\<forall>x\<in>set B. d x < 0" "ss_base st = int (length A)"
    "0 \<le> ss_lo st" "ss_lo st \<le> ss_hi st" "ss_hi st < int (elements234 n)"
    "\<forall>x\<in>set (before n (nat (ss_lo st))). 0 < d x"
    "\<forall>x\<in>set (after n (nat (ss_hi st + 1))). d x < 0"
  shows "search_ok d xs (search_report st)"
proof -
  define last where "last = (ss_lo st + ss_hi st) div 2"
  have l: "ss_lo st \<le> last" "last \<le> ss_hi st" "nat last \<le> elements234 n" "nat last \<le> 3"
    using assms(7-9) elem_wf(2) [OF assms(1)] by (auto simp: last_def)
  have "n \<noteq> Nil234" using assms(1) by auto
  moreover have "last + sum_below n (nat last) = int (length (before n (nat last)))"
    using sum_below_before [OF assms(1) l(3)] l(1) assms(7) by simp
  ultimately show ?thesis
    using assms l cnt_wf [OF assms(1) l(4)]
    unfolding search_ok_def search_report_def Let_def last_def [symmetric] by fastforce
qed

lemma search_fresh_ok:
  assumes "wf234 h n" "ss_node st = n" "xs = A @ inorder n @ B"
    "\<forall>x\<in>set A. 0 < d x" "\<forall>x\<in>set B. d x < 0" "ss_base st = int (length A)" "ss_last st = -1"
  shows "search_ok d xs (search_report (search_enter st))"
proof (cases "n = Nil234")
  case True
  with assms show ?thesis
    by (auto simp: search_report_def search_enter_def search_ok_def)
next
  case False
  then obtain h' where h': "wf234 (Suc h') n" using assms(1) by (cases h) auto
  show ?thesis
    using assms False elem_wf(3) [OF h'] before_after_ends(2) [OF h']
    by (intro search_report_ok [OF h', where A = A and B = B])
       (auto simp: search_enter_def before_after_ends)
qed

lemma search_window_ok:
  assumes n: "wf234 (Suc h) n" "ss_node st = n" and x: "xs = A @ inorder n @ B"
    "\<forall>x\<in>set A. 0 < d x" "\<forall>x\<in>set B. d x < 0" and b: "ss_base st = int (length A)"
    and w: "0 \<le> lo" "lo \<le> hi + 1" "hi < int (elements234 n)"
    "\<forall>x\<in>set (before n (nat lo)). 0 < d x" "\<forall>x\<in>set (after n (nat (hi + 1))). d x < 0"
    and r: "search_restrict st dir = (let st' = st\<lparr>ss_lo := lo, ss_hi := hi\<rparr> in
      if lo > hi then st'\<lparr>ss_base := ss_base st + lo + sum_below n (nat lo), ss_node := kid n (nat lo),
        ss_last := -1\<rparr> else st')" and last: "ss_last st \<noteq> -1"
  shows "search_ok d xs (search_report (search_enter (search_restrict st dir)))"
proof (cases "lo > hi")
  case True
  then have lo: "lo = hi + 1" "nat lo \<le> elements234 n" using w by auto
  have base: "lo + sum_below n (nat lo) = int (length (before n (nat lo)))"
    using sum_below_before [OF n(1) lo(2)] w(1) by simp
  show ?thesis
    by (rule search_fresh_ok [OF kid_wf [OF n(1) lo(2)], where A = "A @ before n (nat lo)" and B = "after n (nat lo) @ B"])
       (use True lo x b w base inorder_split_kid [OF n(1) lo(2)] in \<open>auto simp: r Let_def\<close>)
next
  case False
  then have "search_enter (search_restrict st dir) = st\<lparr>ss_lo := lo, ss_hi := hi\<rparr>"
    using last by (simp add: r search_enter_def)
  with False show ?thesis
    by (auto intro!: search_report_ok [OF n(1), where A = A and B = B] simp: n x b w)
qed

lemma search_step_ok:
  assumes ok: "search_ok d xs st" and x: "ss_element st = Some x" "d x \<noteq> 0" and desc: "descending d xs"
  shows "\<exists>st'. search234_step st (d x) = Inr st' \<and> search_ok d xs st'"
proof -
  define n where "n = ss_node st"
  have nn: "n \<noteq> Nil234" using ok x by (auto simp: search_ok_def n_def)
  obtain h A B where h: "wf234 h n" and xs: "xs = A @ inorder n @ B" "\<forall>x\<in>set A. 0 < d x" "\<forall>x\<in>set B. d x < 0"
    and base: "ss_base st = int (length A)"
    and w: "0 \<le> ss_lo st" "ss_lo st \<le> ss_last st" "ss_last st \<le> ss_hi st" "ss_hi st < int (elements234 n)"
    and e: "elem n (nat (ss_last st)) = Some x"
    and bl: "\<forall>x\<in>set (before n (nat (ss_lo st))). 0 < d x" and ah: "\<forall>x\<in>set (after n (nat (ss_hi st + 1))). d x < 0"
    using ok x nn unfolding search_ok_def n_def Let_def by auto
  obtain h' where h': "wf234 (Suc h') n" using h nn by (cases h) auto
  have dn: "descending d (inorder n)" using desc xs by (simp add: descending_append)
  have lst: "nat (ss_last st) < elements234 n" "ss_last st \<noteq> -1" using w by auto
  have "search_ok d xs (search_report (search_enter (search_restrict st (d x))))"
  proof (cases "d x > 0")
    case True
    have "\<forall>x\<in>set (before n (nat (ss_last st + 1))). 0 < d x"
      using before_descending [OF h' dn, of "nat (ss_last st + 1)" x] e True lst w by (simp add: nat_add_distrib)
    then show ?thesis
      using w ah by (intro search_window_ok [OF h' n_def [symmetric] xs base, of "ss_last st + 1" "ss_hi st"])
        (auto simp: search_restrict_def True n_def [symmetric] lst Let_def)
  next
    case False
    then have neg: "d x < 0" using x(2) by simp
    have "\<forall>x\<in>set (after n (nat (ss_last st - 1 + 1))). d x < 0"
      using after_descending [OF h' dn, of "nat (ss_last st)" x] e neg lst by simp
    then show ?thesis
      using w bl False by (intro search_window_ok [OF h' n_def [symmetric] xs base, of "ss_lo st" "ss_last st - 1"])
        (auto simp: search_restrict_def n_def [symmetric] lst Let_def)
  qed
  then show ?thesis using nn lst x by (auto simp: search234_step_def n_def)
qed

text \<open>The budget of the search loop.\<close>

definition search_rank :: "'a search234_state \<Rightarrow> nat" where
  "search_rank st =
     (if ss_node st = Nil234 then 0 else 4 * size (ss_node st) + nat (ss_hi st - ss_lo st))"

lemma search_rank_bound:
  assumes "search_ok d xs st"
  shows "search_rank st \<le> 4 * size (ss_node st) + 2"
proof (cases "ss_node st = Nil234")
  case False
  with assms obtain h where h: "wf234 h (ss_node st)"
    "0 \<le> ss_lo st" "ss_hi st < int (elements234 (ss_node st))"
    unfolding search_ok_def Let_def by auto
  then obtain h' where "wf234 (Suc h') (ss_node st)" using False by (cases h) auto
  from elem_wf(2) [OF this] h show ?thesis by (auto simp: search_rank_def)
qed (simp add: search_rank_def)

lemma search_report_node: "ss_node (search_report (search_enter st)) = ss_node st"
  by (simp add: search_report_def search_enter_def Let_def)

lemma search_step_rank:
  assumes ok: "search_ok d xs st" "ss_element st = Some x" "d x \<noteq> 0"
    and st': "search234_step st (d x) = Inr st'" "search_ok d xs st'"
  shows "search_rank st' < search_rank st"
proof -
  have n: "ss_node st \<noteq> Nil234" using ok by (auto simp: search_ok_def)
  then have w: "0 \<le> ss_lo st" "ss_lo st \<le> ss_last st" "ss_last st \<le> ss_hi st"
    using ok(1) unfolding search_ok_def Let_def by auto
  have eq: "st' = search_report (search_enter (search_restrict st (d x)))"
    using st'(1) n w ok(3) by (simp add: search234_step_def)
  have nodes: "ss_node st' = ss_node st \<or> (\<exists>i. ss_node st' = kid (ss_node st) i)"
    unfolding eq search_report_node by (auto simp: search_restrict_def Let_def)
  show ?thesis
  proof (cases "ss_node st' = ss_node st")
    case True
    have neq: "kid (ss_node st) i \<noteq> ss_node st" for i using kid_smaller [OF n, of i] by auto
    let ?r = "search_restrict st (d x)"
    have "ss_node ?r = ss_node st" using True unfolding eq search_report_node .
    then have r: "ss_lo ?r \<le> ss_hi ?r" "ss_hi ?r - ss_lo ?r < ss_hi st - ss_lo st" "ss_last ?r \<noteq> -1"
      using w neq by (auto simp: search_restrict_def Let_def split: if_splits)
    then have "ss_hi st' = ss_hi ?r" "ss_lo st' = ss_lo ?r"
      by (simp_all add: eq search_report_def search_enter_def Let_def)
    with r True n show ?thesis by (simp add: search_rank_def)
  next
    case False
    then have "size (ss_node st') < size (ss_node st)" using nodes kid_smaller [OF n] by auto
    then show ?thesis using search_rank_bound [OF st'(2)] n by (auto simp: search_rank_def)
  qed
qed

lemma search_ok_end:
  assumes "search_ok d xs st" "ss_element st = None"
  shows "ss_index st = int (length (takeWhile (\<lambda>x. 0 < d x) xs)) \<and> (\<forall>x\<in>set xs. d x \<noteq> 0)"
proof -
  have n: "ss_node st = Nil234"
  proof (rule ccontr)
    assume n: "ss_node st \<noteq> Nil234"
    then obtain h where h: "wf234 h (ss_node st)" "0 \<le> ss_last st" "ss_last st < int (elements234 (ss_node st))"
      "elem (ss_node st) (nat (ss_last st)) = None"
      using assms unfolding search_ok_def Let_def by auto
    moreover obtain h' where "wf234 (Suc h') (ss_node st)" using h n by (cases h) auto
    ultimately show False using after_elem [of h' "ss_node st" "nat (ss_last st)"] by (auto simp: nat_less_iff)
  qed
  then obtain A B where "xs = A @ B" "\<forall>x\<in>set A. 0 < d x" "\<forall>x\<in>set B. d x < 0" "ss_index st = int (length A)"
    using assms unfolding search_ok_def Let_def by auto
  moreover from this have "takeWhile (\<lambda>x. 0 < d x) B = []" by (cases B) auto
  ultimately show ?thesis by (fastforce simp: takeWhile_append)
qed

lemma search_ok_found:
  assumes "search_ok d xs st" "ss_element st = Some x"
  shows "0 \<le> ss_index st \<and> ss_index st < int (length xs) \<and> xs ! nat (ss_index st) = x"
proof -
  have n: "ss_node st \<noteq> Nil234" using assms by (auto simp: search_ok_def)
  define k where "k = nat (ss_last st)"
  from n obtain h A B where h: "wf234 h (ss_node st)" "xs = A @ inorder (ss_node st) @ B"
    "k < elements234 (ss_node st)" "elem (ss_node st) k = Some x"
    "ss_index st = int (length A) + int (length (before (ss_node st) k)) + int (length (inorder (kid (ss_node st) k)))"
    using assms unfolding search_ok_def Let_def k_def by (auto simp: nat_less_iff)
  obtain h' where h': "wf234 (Suc h') (ss_node st)" using h n by (cases h) auto
  have "xs = (A @ before (ss_node st) k @ inorder (kid (ss_node st) k)) @ x #
     inorder (kid (ss_node st) (k + 1)) @ after (ss_node st) (k + 1) @ B"
    using h after_elem [OF h' h(3)] inorder_split_kid [OF h', of k] by auto
  moreover have "ss_index st = int (length (A @ before (ss_node st) k @ inorder (kid (ss_node st) k)))"
    using h(5) by simp
  ultimately show ?thesis
    by (simp add: nth_append nat_add_distrib)
qed

lemma search_loop_correct:
  assumes "search_ok d xs st" "descending d xs" "search_rank st < fuel"
  shows "(\<exists>x i. search_loop fuel d st = Some (Inr (Found x i)) \<and> d x = 0 \<and>
      0 \<le> i \<and> i < int (length xs) \<and> xs ! nat i = x) \<or>
    search_loop fuel d st = Some (Inr (NotFound (int (length (takeWhile (\<lambda>x. 0 < d x) xs))))) \<and>
      (\<forall>x\<in>set xs. d x \<noteq> 0)"
  using assms
proof (induction fuel d st rule: search_loop.induct)
  case (2 fuel d st)
  show ?case
  proof (cases "ss_element st")
    case None
    with search_ok_end [OF 2(2) None] show ?thesis by simp
  next
    case (Some x)
    show ?thesis
    proof (cases "d x = 0")
      case True
      with Some search_ok_found [OF 2(2) Some] show ?thesis by auto
    next
      case False
      obtain st' where st': "search234_step st (d x) = Inr st'" "search_ok d xs st'"
        using search_step_ok [OF 2(2) Some False 2(3)] by blast
      then have "search_rank st' < fuel"
        using search_step_rank [OF 2(2) Some False st'] 2(4) by linarith
      with 2(1) [OF Some False st'(1) st'(2) 2(3)] Some False st'(1) show ?thesis by simp
    qed
  qed
qed simp

lemma search_start_ok:
  assumes "tree_ok t"
  shows "\<exists>st. search234_start t = Inr st \<and> search_ok d (tree_list t) st \<and> ss_node st = root t"
proof -
  have "search_ok d (tree_list t) (search_report (search_enter
    \<lparr>ss_element = None, ss_index = 0, ss_lo = 0, ss_hi = 0, ss_last = -1, ss_base = 0, ss_node = root t\<rparr>))"
    using assms by (intro search_fresh_ok [where A = "[]" and B = "[]"])
      (auto simp: tree_ok_def tree_list_def)
  then show ?thesis using assms
    by (auto simp: search234_start_def search234_step_def search_report_def search_enter_def Let_def
        search_ok_def tree_list_def)
qed

text \<open>
  What the relative search promises, on the list: the element wanted and its position.
\<close>

definition rel_spec :: "('a \<Rightarrow> int) \<Rightarrow> relation234 \<Rightarrow> 'a list \<Rightarrow> ('a \<times> int) option \<Rightarrow> bool" where
  "rel_spec d rel xs r \<longleftrightarrow>
     (case r of
        Some (x, i) \<Rightarrow> 0 \<le> i \<and> i < int (length xs) \<and> xs ! nat i = x \<and>
          (case rel of
             REL234_EQ \<Rightarrow> d x = 0
           | REL234_LT \<Rightarrow> 0 < d x \<and> (\<forall>y\<in>set (drop (nat i + 1) xs). d y \<le> 0)
           | REL234_LE \<Rightarrow> d x = 0 \<or> 0 < d x \<and> (\<forall>y\<in>set (drop (nat i + 1) xs). d y < 0)
           | REL234_GT \<Rightarrow> d x < 0 \<and> (\<forall>y\<in>set (take (nat i) xs). 0 \<le> d y)
           | REL234_GE \<Rightarrow> d x = 0 \<or> d x < 0 \<and> (\<forall>y\<in>set (take (nat i) xs). 0 < d y))
      | None \<Rightarrow>
          (\<forall>y\<in>set xs. case rel of
             REL234_EQ \<Rightarrow> d y \<noteq> 0
           | REL234_LT \<Rightarrow> d y \<le> 0
           | REL234_LE \<Rightarrow> d y < 0
           | REL234_GT \<Rightarrow> 0 \<le> d y
           | REL234_GE \<Rightarrow> 0 < d y))"

text \<open>The comparison the caller means; a null query stands beyond one end of the list.\<close>

definition query_dir :: "'q option \<Rightarrow> ('q \<Rightarrow> 'a \<Rightarrow> int) \<Rightarrow> relation234 \<Rightarrow> 'a \<Rightarrow> int" where
  "query_dir q c rel x = (case q of Some e \<Rightarrow> c e x | None \<Rightarrow> - reldir rel)"

lemma search_dir_query:
  "search_dir q c rel x =
     (if query_dir q c rel x = 0 \<and> \<not> equal_permitted rel then reldir rel else query_dir q c rel x)"
  by (simp add: search_dir_def query_dir_def Let_def)

lemma search_dir_descending:
  "descending (query_dir q c rel) xs \<Longrightarrow> descending (search_dir q c rel) xs"
  unfolding descending_def by (rule sorted_wrt_mono_rel [rotated], assumption)
    (auto simp: search_dir_query reldir_def split: if_splits)

lemma descending_split:
  assumes "descending d xs" "\<forall>x\<in>set xs. d x \<noteq> 0"
  obtains A B where "xs = A @ B" "length (takeWhile (\<lambda>x. 0 < d x) xs) = length A"
    "\<forall>x\<in>set A. 0 < d x" "\<forall>x\<in>set B. d x < 0"
proof -
  have "\<forall>x\<in>set (dropWhile (\<lambda>x. 0 < d x) xs). d x < 0"
  proof (cases "dropWhile (\<lambda>x. 0 < d x) xs")
    case (Cons y ys)
    then have "descending d (y # ys)" "\<not> 0 < d y" "y \<in> set xs"
      using assms(1) takeWhile_dropWhile_id [of "\<lambda>x. 0 < d x" xs] hd_dropWhile [of "\<lambda>x. 0 < d x" xs]
        set_dropWhileD [of y "\<lambda>x. 0 < d x" xs]
      by (metis descending_append, simp_all)
    moreover from this have "d y < 0" using assms(2) by force
    ultimately show ?thesis using Cons by auto
  qed (simp del: dropWhile_eq_Nil_conv)
  then show ?thesis
    using that [of "takeWhile (\<lambda>x. 0 < d x) xs" "dropWhile (\<lambda>x. 0 < d x) xs"]
    by (auto dest: set_takeWhileD)
qed

lemma findrelpos_with_correct:
  assumes t: "tree_ok t" and desc: "descending (query_dir q c rel) (tree_list t)"
    and q: "equal_permitted rel \<Longrightarrow> q \<noteq> None"
  shows "\<exists>r. findrelpos_with t q c rel = Some (Inr r) \<and> rel_spec (query_dir q c rel) rel (tree_list t) r"
proof -
  let ?s = "search_dir q c rel" and ?d = "query_dir q c rel" and ?xs = "tree_list t"
  obtain st where st: "search234_start t = Inr st" "search_ok ?s ?xs st" "ss_node st = root t"
    using search_start_ok [OF t] by blast
  have ds: "descending ?s ?xs" by (rule search_dir_descending [OF desc])
  have "search_rank st < 4 * size (root t) + 4" using search_rank_bound [OF st(2)] st(3) by simp
  from search_loop_correct [OF st(2) ds this] show ?thesis
  proof (elim disjE exE conjE)
    fix x i assume f: "search_loop (4 * size (root t) + 4) ?s st = Some (Inr (Found x i))" "?s x = 0"
      "0 \<le> i" "i < int (length ?xs)" "?xs ! nat i = x"
    have "equal_permitted rel" "?d x = 0"
      using f(2) by (auto simp: search_dir_query reldir_def equal_permitted_def split: if_splits)
    with f st q show ?thesis
      by (auto simp: findrelpos_with_def rel_spec_def equal_permitted_def split: relation234.splits)
  next
    assume nf: "search_loop (4 * size (root t) + 4) ?s st =
        Some (Inr (NotFound (int (length (takeWhile (\<lambda>x. 0 < ?s x) ?xs)))))" "\<forall>x\<in>set ?xs. ?s x \<noteq> 0"
    obtain A B where AB: "?xs = A @ B" "length (takeWhile (\<lambda>x. 0 < ?s x) ?xs) = length A"
      "\<forall>x\<in>set A. 0 < ?s x" "\<forall>x\<in>set B. ?s x < 0"
      using descending_split [OF ds nf(2)] by blast
    have res: "findrelpos_with t q c rel =
      (if rel = REL234_EQ then Some (Inr None)
       else let i = (if rel = REL234_LT \<or> rel = REL234_LE then int (length A) - 1 else int (length A))
            in Some (Inr (map_option (\<lambda>x. (x, i)) (index234 t i))))"
      using st nf(1) q AB(2) by (auto simp: findrelpos_with_def)
    show ?thesis
    proof (cases rel)
      case REL234_EQ
      with nf(2) res show ?thesis by (auto simp: rel_spec_def search_dir_query equal_permitted_def)
    next
      case REL234_LT
      with res AB show ?thesis
        by (cases A rule: rev_cases) (auto simp: rel_spec_def index234_nth [OF t] search_dir_query
            equal_permitted_def reldir_def nth_append split: if_splits)
    next
      case REL234_LE
      with res AB show ?thesis
        by (cases A rule: rev_cases) (auto simp: rel_spec_def index234_nth [OF t] search_dir_query
            equal_permitted_def reldir_def nth_append split: if_splits)
    next
      case REL234_GT
      with res AB show ?thesis
        by (cases B) (auto simp: rel_spec_def index234_nth [OF t] search_dir_query
            equal_permitted_def reldir_def nth_append split: if_splits)
    next
      case REL234_GE
      with res AB show ?thesis
        by (cases B) (auto simp: rel_spec_def index234_nth [OF t] search_dir_query
            equal_permitted_def reldir_def nth_append split: if_splits)
    qed
  qed
qed

section \<open>Deletion\<close>

lemma wf_two:
  "wf234 (Suc h) n \<Longrightarrow> elem n 1 \<noteq> None \<longleftrightarrow> 2 \<le> elements234 n"
  by (cases n) (auto simp: elements234_def)

lemma node_of_wf: "wf234 (Suc h) n \<Longrightarrow> \<exists>k0 k1 k2 k3 c0 c1 c2 c3 e0 e1 e2. n = Node234 k0 k1 k2 k3 c0 c1 c2 c3 (Some e0) e1 e2"
  by (cases n) auto

definition same_but :: "'a node234 \<Rightarrow> 'a node234 \<Rightarrow> nat \<Rightarrow> 'a node234 \<Rightarrow> 'a list \<Rightarrow> 'a list \<Rightarrow> bool" where
  "same_but n n' k sub F G \<longleftrightarrow>
     elements234 n' = elements234 n \<and> kid n' k = sub \<and> inorder sub = F @ inorder (kid n k) @ G \<and>
     before n k = before n' k @ F \<and> after n k = G @ after n' k"

lemma borrow_left_correct:
  assumes "wf234 (Suc (Suc h)) n" "0 < k" "k \<le> elements234 n" "elem (kid n k) 1 = None"
    "elem (kid n (k - 1)) 1 \<noteq> None" "borrow_left n k index = (n', sub, index')"
  shows "\<exists>F. same_but n n' k sub F [] \<and> index' = index + int (length F) \<and>
    wf234 (Suc (Suc h)) n' \<and> wf234 (Suc h) sub \<and> elem sub 1 \<noteq> None"
proof -
  have k: "wf234 (Suc h) (kid n k)" "wf234 (Suc h) (kid n (k - 1))"
    using kid_wf [OF assms(1)] assms(3) by auto
  consider "k = 1" | "k = 2" | "k = 3" using assms(1-3) elem_wf(2) by fastforce
  from this assms k node_of_wf [OF assms(1)] node_of_wf [OF k(1)] node_of_wf [OF k(2)] show ?thesis
    by cases (auto simp: borrow_left_def same_but_def elements234_def countnode234_def Let_def split: if_splits)
qed

lemmas shift_sib_unfold = shift_sib.simps [of 0] shift_sib.simps [of "Suc 0"]
  shift_sib.simps [of "Suc (Suc 0)"] shift_sib.simps [of 2]

lemmas remove_kid_unfold = remove_kid.simps [of 0] remove_kid.simps [of "Suc 0"] remove_kid.simps [of 2]
  remove_kid.simps [of "Suc (Suc 0)"] remove_kid.simps [of 3] remove_kid.simps [of "Suc (Suc (Suc 0))"]

lemmas remove_elem_unfold = remove_elem.simps [of 0] remove_elem.simps [of "Suc 0"] remove_elem.simps [of 2]
  remove_elem.simps [of "Suc (Suc 0)"]

lemma borrow_right_correct:
  assumes "wf234 (Suc (Suc h)) n" "k < elements234 n" "elem (kid n k) 1 = None"
    "elem (kid n (k + 1)) 1 \<noteq> None" "borrow_right n k = (n', sub)"
  shows "\<exists>G. same_but n n' k sub [] G \<and>
    wf234 (Suc (Suc h)) n' \<and> wf234 (Suc h) sub \<and> elem sub 1 \<noteq> None"
proof -
  have k: "wf234 (Suc h) (kid n k)" "wf234 (Suc h) (kid n (k + 1))"
    using kid_wf [OF assms(1)] assms(2) by auto
  consider "k = 0" | "k = 1" | "k = 2" using assms(1,2) elem_wf(2) by fastforce
  from this assms k node_of_wf [OF assms(1)] node_of_wf [OF k(1)] node_of_wf [OF k(2)] show ?thesis
    by cases (auto simp: borrow_right_def same_but_def elements234_def countnode234_def Let_def shift_sib_unfold split: if_splits)
qed

lemma merge_nodes_nonnil:
  "wf234 (Suc h) a \<Longrightarrow> wf234 (Suc h) b \<Longrightarrow> merge_nodes a e b \<noteq> Nil234"
  by (cases a; cases b) auto

lemma merge_kids_correct:
  assumes "wf234 (Suc (Suc h)) n" "k < elements234 n" "elem (kid n k) 1 = None"
    "elem (kid n (k + 1)) 1 = None" "elem n k = Some x" "merge_kids n k = (n', sub)"
  shows "wf234 (Suc h) sub \<and> elem sub 1 \<noteq> None \<and>
    inorder sub = inorder (kid n k) @ x # inorder (kid n (k + 1)) \<and>
    (if elements234 n = 1 then elem n' 0 = None
     else elem n' 0 \<noteq> None \<and> wf234 (Suc (Suc h)) n' \<and> k \<le> elements234 n' \<and> kid n' k = sub \<and>
       before n' k = before n k \<and> after n' k = after n (k + 1))"
proof -
  have k: "wf234 (Suc h) (kid n k)" "wf234 (Suc h) (kid n (k + 1))"
    using kid_wf [OF assms(1)] assms(2) by auto
  consider "k = 0" | "k = 1" | "k = 2" using assms(1,2) elem_wf(2) by fastforce
  from this assms k node_of_wf [OF assms(1)] node_of_wf [OF k(1)] node_of_wf [OF k(2)] show ?thesis
    by cases (auto simp: merge_kids_def elements234_def countnode234_def Let_def wf234_Nil_iff remove_kid_unfold split: if_splits)
qed

lemma shape_cases:
  assumes "wf234 (Suc h) n"
  obtains k0 k1 c0 c1 x where "n = Node234 k0 k1 Nil234 Nil234 c0 c1 0 0 (Some x) None None"
      "wf234 h k0" "wf234 h k1"
  | k0 k1 k2 c0 c1 c2 x y where "n = Node234 k0 k1 k2 Nil234 c0 c1 c2 0 (Some x) (Some y) None"
      "wf234 h k0" "wf234 h k1" "wf234 h k2"
  | k0 k1 k2 k3 c0 c1 c2 c3 x y z where "n = Node234 k0 k1 k2 k3 c0 c1 c2 c3 (Some x) (Some y) (Some z)"
      "wf234 h k0" "wf234 h k1" "wf234 h k2" "wf234 h k3"
  using assms by (cases n; cases "elem n 1"; cases "elem n 2") auto

lemma merge_around_kids:
  assumes n: "wf234 (Suc (Suc h)) n" and k: "k < elements234 n"
  shows "merge_around n k = merge_kids n k"
proof -
  have nz: "\<And>m. wf234 (Suc h) m \<Longrightarrow> m \<noteq> Nil234" by auto
  consider "k = 0" | "k = 1" | "k = 2" using n k elem_wf(2) by fastforce
  from this k show ?thesis
    by cases (rule shape_cases [OF n]; simp add: merge_kids_def merge_around_def elements234_def
      Let_def remove_kid_unfold remove_elem_unfold nz merge_nodes_nonnil)+
qed

fun del_path :: "nat \<Rightarrow> nat \<Rightarrow> 'a path234 \<Rightarrow> bool" where
  "del_path h len [] \<longleftrightarrow> True"
| "del_path h len ((p, i) # path) \<longleftrightarrow>
     wf234 (Suc h) p \<and> i \<le> elements234 p \<and> length (inorder (kid p i)) = len \<and>
     del_path (Suc h) (length (inorder p)) path"

lemma drop_counts_wf:
  "wf234 h n \<Longrightarrow> del_path h (Suc (length (inorder n))) path \<Longrightarrow>
     (\<exists>h'. wf234 h' (drop_counts n path)) \<and> inorder (drop_counts n path) = plug (inorder n) path"
proof (induction n path arbitrary: h rule: drop_counts.induct)
  case (2 n p i path)
  have p: "wf234 (Suc h) p" "i \<le> elements234 p" "i \<le> 3"
    using 2(3) elem_wf(2) [of h p] by auto
  have c: "cnt p i - 1 = countnode234 n"
    using 2 p cnt_wf [of "Suc h" p i] countnode_wf [of h n] by simp
  let ?p = "set_cnt i (countnode234 n) (set_kid i n p)"
  have "wf234 (Suc h) ?p" "inorder ?p = before p i @ inorder n @ after p i"
    using set_kid_wf [OF p(1,2) 2(2)] by auto
  moreover from this have "length (inorder p) = Suc (length (inorder ?p))"
    using inorder_split_kid [OF p(1,2)] 2(3) by simp
  ultimately show ?case using 2(1) [of "Suc h"] 2(3) by (simp add: c)
qed auto

lemma shift_elems_correct:
  assumes "wf234 1 n" "elem n 1 \<noteq> None" "k < elements234 n" "inorder n = P @ x # Q" "length P = k"
  shows "wf234 1 (shift_elems k n)" "inorder (shift_elems k n) = P @ Q"
proof -
  have n: "wf234 (Suc 0) n" using assms(1) by simp
  consider "k = 0" | "k = 1" | "k = 2" using n assms(3) elem_wf(2) by fastforce
  then have "wf234 1 (shift_elems k n) \<and> inorder (shift_elems k n) = take k (inorder n) @ drop (Suc k) (inorder n)"
    using assms(2,3)
    by cases (rule shape_cases [OF n]; use assms(1) in \<open>auto simp: elements234_def
        shift_elems.simps [of 0] shift_elems.simps [of "Suc 0"] shift_elems.simps [of 2]
        shift_elems.simps [of "Suc (Suc 0)"]\<close>)+
  then show "wf234 1 (shift_elems k n)" "inorder (shift_elems k n) = P @ Q"
    using assms(4,5) by auto
qed

text \<open>
  The state of the deletion loop: the element \<open>x\<close> to remove sits at \<open>index\<close> of the current
  node, and removing it there gives the list \<open>goal\<close> at the root.
\<close>

definition del_ok :: "nat \<Rightarrow> 'a node234 \<Rightarrow> int \<Rightarrow> 'a path234 \<Rightarrow> 'a \<Rightarrow> 'a list \<Rightarrow> bool" where
  "del_ok h n index path x goal \<longleftrightarrow>
     wf234 (Suc h) n \<and> (path = [] \<or> elem n 1 \<noteq> None) \<and> del_path (Suc h) (length (inorder n)) path \<and>
     (\<exists>P Q. inorder n = P @ x # Q \<and> index = int (length P) \<and> goal = plug (P @ Q) path)"

lemma del_okI:
  assumes "wf234 (Suc h) n" "path = [] \<or> elem n 1 \<noteq> None" "del_path (Suc h) (length (inorder n)) path"
    "inorder n = P @ x # Q" "index = int (length P)" "goal = plug (P @ Q) path"
  shows "del_ok h n index path x goal"
  using assms unfolding del_ok_def by blast

lemma del_enter_same_but:
  assumes "wf234 (Suc (Suc h)) n'" "wf234 (Suc h) sub" "elem sub 1 \<noteq> None" "same_but n n' k sub F G"
    "wf234 (Suc (Suc h)) n" "k \<le> elements234 n" "del_path (Suc (Suc h)) (length (inorder n)) path"
    "inorder (kid n k) = P @ x # Q" "goal = plug (before n k @ P @ Q @ after n k) path"
  shows "del_ok h sub (int (length P) + int (length F)) ((n', k) # path) x goal"
proof (rule del_okI [where P = "F @ P" and Q = "Q @ G"])
  have "inorder n' = inorder n"
    using inorder_split_kid [OF assms(5,6)] inorder_split_kid [OF assms(1), of k] assms(4,6)
    by (auto simp: same_but_def)
  then show "del_path (Suc h) (length (inorder sub)) ((n', k) # path)"
    using assms by (auto simp: same_but_def)
qed (use assms in \<open>auto simp: same_but_def\<close>)

lemma del_merge_ok:
  assumes n: "wf234 (Suc (Suc h)) n" and k: "k < elements234 n" "elem (kid n k) 1 = None"
    "elem (kid n (k + 1)) 1 = None" "elem n k = Some y" "merge_kids n k = (n', sub)"
    and path: "path = [] \<or> elem n 1 \<noteq> None" "del_path (Suc (Suc h)) (length (inorder n)) path"
    and pq: "inorder sub = P @ x # Q" "goal = plug (before n k @ P @ Q @ after n (k + 1)) path"
  shows "del_ok h sub (int (length P)) (if elem n' 0 = None then [] else (n', k) # path) x goal"
proof -
  have m: "wf234 (Suc h) sub" "elem sub 1 \<noteq> None" "inorder sub = inorder (kid n k) @ y # inorder (kid n (k + 1))"
    "if elements234 n = 1 then elem n' 0 = None
     else elem n' 0 \<noteq> None \<and> wf234 (Suc (Suc h)) n' \<and> k \<le> elements234 n' \<and> kid n' k = sub \<and>
       before n' k = before n k \<and> after n' k = after n (k + 1)"
    using merge_kids_correct [OF n k] by auto
  show ?thesis
  proof (cases "elements234 n = 1")
    case True
    then have "k = 0" "path = []" using k path wf_two [OF n] by auto
    moreover have "after n (k + 1) = []" using before_after_ends(2) [OF n] True \<open>k = 0\<close> by simp
    ultimately show ?thesis
      using m True pq before_after_ends(1) [of n] by (auto intro: del_okI [where P = P and Q = Q])
  next
    case False
    then have n': "elem n' 0 \<noteq> None" "wf234 (Suc (Suc h)) n'" "k \<le> elements234 n'" "kid n' k = sub"
      "before n' k = before n k" "after n' k = after n (k + 1)" using m(4) by auto
    have "inorder n' = inorder n"
      using inorder_split_kid [OF n, of k] inorder_split_kid [OF n'(2,3)] after_elem [OF n k(1)] n' m(3) k(1,4)
      by auto
    then show ?thesis
      using n' m pq path by (auto intro!: del_okI [where P = P and Q = Q])
  qed
qed

lemma before_step:
  assumes "wf234 (Suc h) n" "k \<le> elements234 n" "0 < k" "elem n (k - 1) = Some y"
  shows "before n k = before n (k - 1) @ inorder (kid n (k - 1)) @ [y]"
  using assms by (cases n) (auto simp: elements234_def split: if_splits)

lemma del_enter_correct:
  assumes n: "wf234 (Suc (Suc h)) n" and path: "path = [] \<or> elem n 1 \<noteq> None" "del_path (Suc (Suc h)) (length (inorder n)) path"
    and k: "k \<le> elements234 n" and pq: "inorder (kid n k) = P @ x # Q"
    and goal: "goal = plug (before n k @ P @ Q @ after n k) path"
  shows "\<exists>sub i path'. del_enter n k (int (length P)) path = Inr (sub, i, path') \<and> del_ok h sub i path' x goal"
proof -
  have sub: "wf234 (Suc h) (kid n k)" "kid n k \<noteq> Nil234" using kid_wf [OF n k] by auto
  have near: "kid n (k - 1) \<noteq> Nil234" using kid_wf [OF n le_trans [OF diff_le_self k], of 1] by auto
  have rest: ?thesis if "elem (kid n k) 1 \<noteq> None"
    using del_enter_same_but [OF n sub(1) that _ n k path(2) pq goal, of "[]" "[]"] that sub
    by (auto simp: del_enter_def same_but_def)
  moreover have ?thesis if a: "elem (kid n k) 1 = None" "0 < k" "elem (kid n (k - 1)) 1 \<noteq> None"
  proof -
    obtain n' s i where b: "borrow_left n k (int (length P)) = (n', s, i)" by (metis prod_cases3)
    from borrow_left_correct [OF n a(2) k a(1,3) b] del_enter_same_but [OF _ _ _ _ n k path(2) pq goal, of n' s]
    show ?thesis using a b sub near by (auto simp: del_enter_def)
  qed
  moreover have ?thesis if a: "elem (kid n k) 1 = None" "\<not> (0 < k \<and> elem (kid n (k - 1)) 1 \<noteq> None)"
    "k < 3" "elem (kid n (k + 1)) 1 \<noteq> None"
  proof -
    have k': "k < elements234 n" "kid n (k + 1) \<noteq> Nil234"
      using kid_beyond [OF n, of "k + 1"] a(3,4) k by (cases "k = elements234 n"; force)+
    obtain n' s where b: "borrow_right n k = (n', s)" by force
    from borrow_right_correct [OF n k'(1) a(1,4) b] del_enter_same_but [OF _ _ _ _ n k path(2) pq goal, of n' s "[]"]
    show ?thesis using a b sub near k' by (auto simp: del_enter_def)
  qed
  moreover have ?thesis if a: "elem (kid n k) 1 = None" "\<not> (0 < k \<and> elem (kid n (k - 1)) 1 \<noteq> None)"
    "\<not> (k < 3 \<and> kid n (k + 1) \<noteq> Nil234 \<and> elem (kid n (k + 1)) 1 \<noteq> None)"
  proof -
    define j where "j = (if k > 0 then k - 1 else k)"
    have j: "j < elements234 n" "elem (kid n j) 1 = None" "elem (kid n (j + 1)) 1 = None" "kid n (j + 1) \<noteq> Nil234"
      using a k elem_wf(3) [OF n] kid_wf [OF n, of "j + 1"] by (auto simp: j_def)
    obtain y where y: "elem n j = Some y" "after n j = y # inorder (kid n (j + 1)) @ after n (j + 1)"
      using after_elem [OF n j(1)] by auto
    obtain n' s where m: "merge_kids n j = (n', s)" by force
    have io: "inorder s = inorder (kid n j) @ y # inorder (kid n (j + 1))"
      using merge_kids_correct [OF n j(1-3) y(1) m] by simp
    define P' where "P' = (if k > 0 then inorder (kid n j) @ y # P else P)"
    define Q' where "Q' = (if k > 0 then Q else Q @ y # inorder (kid n (j + 1)))"
    have PQ: "inorder s = P' @ x # Q'" using io pq by (auto simp: P'_def Q'_def j_def)
    have "before n j @ P' @ Q' @ after n (j + 1) = before n k @ P @ Q @ after n k"
      using y before_step [OF n k] by (cases "k = 0") (auto simp: P'_def Q'_def j_def)
    then have "del_ok h s (int (length P')) (if elem n' 0 = None then [] else (n', j) # path) x goal"
      using del_merge_ok [OF n j(1-3) y(1) m path PQ] goal by simp
    moreover have "del_enter n k (int (length P)) path =
        Inr (s, int (length P'), if elem n' 0 = None then [] else (n', j) # path)"
      using a sub near j m cnt_wf [OF n, of j] elem_wf(2) [OF n]
      by (auto simp: del_enter_def P'_def j_def)
    ultimately show ?thesis by blast
  qed
  ultimately show ?thesis by argo
qed

text \<open>The predecessor and successor leaves.\<close>

lemma last_leaf_correct:
  "wf234 (Suc h) m \<Longrightarrow> \<exists>ys y. inorder m = ys @ [y] \<and> last_elem (last_leaf m) = Some y"
proof (induction h arbitrary: m)
  case 0
  then show ?case
    by (cases rule: shape_cases) (subst last_leaf.simps, simp add: last_elem_def)+
next
  case (Suc h)
  have nz: "\<And>m. wf234 (Suc h) m \<Longrightarrow> m \<noteq> Nil234" by auto
  have k: "elements234 m \<le> elements234 m" ..
  have "last_leaf m = last_leaf (kid m (elements234 m))"
    using Suc.prems
    by (cases rule: shape_cases) (subst last_leaf.simps, simp add: elements234_def nz)+
  then show ?case
    using Suc.IH [OF kid_wf [OF Suc.prems k]] inorder_split_kid [OF Suc.prems k]
      before_after_ends(2) [OF Suc.prems] by auto
qed

lemma first_leaf_correct:
  "wf234 (Suc h) m \<Longrightarrow> \<exists>ys y. inorder m = y # ys \<and> elem (first_leaf m) 0 = Some y"
proof (induction h arbitrary: m)
  case 0
  then show ?case
    by (cases rule: shape_cases) (subst first_leaf.simps, simp)+
next
  case (Suc h)
  have "kid m 0 \<noteq> Nil234" using kid_leaf [OF Suc.prems] by simp
  then have "first_leaf m = first_leaf (kid m 0)" by (subst first_leaf.simps) simp
  then show ?case
    using Suc.IH [OF kid_wf [OF Suc.prems, of 0]] inorder_split_kid [OF Suc.prems, of 0]
      before_after_ends(1) [of m] by auto
qed

text \<open>Overwriting an element with its neighbour keeps the shape.\<close>

lemma set_elem_wf:
  assumes "wf234 (Suc h) n" "k < elements234 n"
  shows "wf234 (Suc h) (set_elem k (Some y) n)" "elements234 (set_elem k (Some y) n) = elements234 n"
    "kid (set_elem k (Some y) n) i = kid n i" "length (inorder (set_elem k (Some y) n)) = length (inorder n)"
    "before (set_elem k (Some y) n) k = before n k"
    "after (set_elem k (Some y) n) k = y # inorder (kid n (k + 1)) @ after n (k + 1)"
    "before (set_elem k (Some y) n) (k + 1) = before n k @ inorder (kid n k) @ [y]"
    "after (set_elem k (Some y) n) (k + 1) = after n (k + 1)"
  using assms by (cases n; auto simp: elements234_def split: if_splits)+

lemma merge_left_count:
  assumes "wf234 (Suc (Suc g)) n" "k < elements234 n" "elem (kid n k) 1 = None" "elem (kid n (k + 1)) 1 = None"
    "merge_kids n k = (n', a)"
  shows "cnt a 0 + cnt a 1 + 1 = int (length (inorder (kid n k)))"
proof -
  have w: "wf234 (Suc g) (kid n k)" "wf234 (Suc g) (kid n (k + 1))" using kid_wf [OF assms(1)] assms(2) by auto
  have "a = merge_nodes (kid n k) (elem n k) (kid n (k + 1))" using assms(5) by (simp add: merge_kids_def Let_def)
  with w assms(3) show ?thesis by (cases "kid n k"; cases "kid n (k + 1)") auto
qed

lemma del_here_correct:
  assumes n: "wf234 (Suc h) n" and path: "path = [] \<or> elem n 1 \<noteq> None" "del_path (Suc h) (length (inorder n)) path"
    and k: "k < elements234 n" "elem n k = Some x"
    and goal: "goal = plug (before n k @ inorder (kid n k) @ inorder (kid n (k + 1)) @ after n (k + 1)) path"
  shows "(\<exists>r h'. del_here n k path = Inr (DelDone r) \<and> wf234 h' r \<and> inorder r = goal) \<or>
    (\<exists>g m i path' y. h = Suc g \<and> del_here n k path = Inr (DelGo m i path') \<and> del_ok g m i path' y goal)"
proof (cases h)
  case 0
  have leaf: "kid n i = Nil234" if "i \<le> elements234 n" for i using kid_wf [OF n that] 0 by simp
  have io: "inorder n = before n k @ x # after n (k + 1)"
    using inorder_split_kid [OF n, of k] after_elem [OF n k(1)] k leaf [of k] leaf [of "k + 1"] by auto
  show ?thesis
  proof (cases "elem n 1 = None")
    case True
    then have "elements234 n = 1" "k = 0" "path = []"
      using wf_two [OF n] elem_wf(3) [OF n] k path by auto
    with True goal show ?thesis
      using leaf [of 0] leaf [of 1] before_after_ends(1) [of n] before_after_ends(2) [OF n]
      by (auto simp: del_here_def intro!: exI [of _ 0])
  next
    case False
    have len: "length (before n k) = k" using before_leaf [of n k] n 0 k length_leaf [of n] by simp
    have "wf234 1 (shift_elems k n)" "inorder (shift_elems k n) = before n k @ after n (k + 1)"
      using shift_elems_correct [OF _ False k(1) io len] n 0 by simp_all
    then show ?thesis
      using drop_counts_wf [of 1 "shift_elems k n" path] path(2) io 0 False leaf [of 0] leaf [of k] leaf [of "k + 1"] k goal
      by (auto simp: del_here_def)
  qed
next
  case (Suc g)
  have nz: "kid n i \<noteq> Nil234" "wf234 (Suc g) (kid n i)" if "i \<le> elements234 n" for i
    using kid_wf [OF n that] Suc by auto
  have kk: "k \<le> elements234 n" "k + 1 \<le> elements234 n" "k \<le> 3" using k elem_wf(2) [OF n] by auto
  have io: "inorder n = before n k @ inorder (kid n k) @ x # inorder (kid n (k + 1)) @ after n (k + 1)"
    using inorder_split_kid [OF n kk(1)] after_elem [OF n k(1)] k by auto
  consider "elem (kid n k) 1 \<noteq> None" | "elem (kid n k) 1 = None" "elem (kid n (k + 1)) 1 \<noteq> None"
    | "elem (kid n k) 1 = None" "elem (kid n (k + 1)) 1 = None" by blast
  then show ?thesis
  proof cases
    case 1
    obtain ys y where y: "inorder (kid n k) = ys @ [y]" "last_elem (last_leaf (kid n k)) = Some y"
      using last_leaf_correct [OF nz(2) [OF kk(1)]] by blast
    have "del_ok g (kid n k) (cnt n k - 1) ((set_elem k (Some y) n, k) # path) y goal"
      using 1 nz(2) [OF kk(1)] path(2) set_elem_wf [OF n k(1)] kk y(1) goal cnt_wf [OF n kk(3)] Suc
      by (auto intro!: del_okI [where P = ys and Q = "[]"])
    with 1 y nz(1) [of 0] nz(1) [OF kk(1)] Suc show ?thesis by (auto simp: del_here_def)
  next
    case 2
    obtain ys y where y: "inorder (kid n (k + 1)) = y # ys" "elem (first_leaf (kid n (k + 1))) 0 = Some y"
      using first_leaf_correct [OF nz(2) [OF kk(2)]] by blast
    have "del_ok g (kid n (k + 1)) 0 ((set_elem k (Some y) n, k + 1) # path) y goal"
      using 2 nz(2) [OF kk(2)] path(2) set_elem_wf [OF n k(1)] kk y(1) goal Suc
      by (auto intro!: del_okI [where P = "[]" and Q = ys])
    with 2 y nz(1) [of 0] nz(1) [OF kk(1)] nz(1) [OF kk(2)] Suc show ?thesis by (auto simp: del_here_def)
  next
    case 3
    obtain n' a where m: "merge_kids n k = (n', a)" by force
    have n2: "wf234 (Suc (Suc g)) n" using n Suc by simp
    have a: "inorder a = inorder (kid n k) @ x # inorder (kid n (k + 1))" "cnt a 0 + cnt a 1 + 1 = int (length (inorder (kid n k)))"
      using merge_kids_correct [OF n2 k(1) 3 k(2) m] merge_left_count [OF n2 k(1) 3 m] by auto
    have "del_ok g a (int (length (inorder (kid n k)))) (if elem n' 0 = None then [] else (n', k) # path) x goal"
      by (rule del_merge_ok [OF n2 k(1) 3 k(2) m path(1) _ a(1)]) (use path(2) goal Suc in auto)
    moreover have "del_here n k path = Inr (DelGo a (cnt a 0 + cnt a 1 + 1) (if elem n' 0 = None then [] else (n', k) # path))"
      using 3 nz(1) [of 0] nz(1) [OF kk(1)] nz(1) [OF kk(2)] m merge_around_kids [OF n2 k(1)]
      by (auto simp: del_here_def)
    ultimately show ?thesis using Suc a(2) by auto
  qed
qed

lemma split_at_nth:
  assumes "ys = P @ x # Q" "ys = A @ zs @ B" "int (length P) = int (length A) + i" "0 \<le> i" "i < int (length zs)"
  obtains P1 Q1 where "zs = P1 @ x # Q1" "P = A @ P1" "Q = Q1 @ B" "i = int (length P1)"
proof
  let ?i = "nat i"
  have lp: "length P = length A + ?i" "?i < length zs" using assms(3-5) by linarith+
  have "P = take (length P) (A @ zs @ B)" "x = (A @ zs @ B) ! length P" "Q = drop (Suc (length P)) (A @ zs @ B)"
    unfolding assms(2) [symmetric] assms(1) by simp_all
  then have "P = A @ take ?i zs" "x = zs ! ?i" "Q = drop (Suc ?i) zs @ B"
    using lp by (simp_all add: nth_append)
  then show "zs = take ?i zs @ x # drop (Suc ?i) zs" "P = A @ take ?i zs" "Q = drop (Suc ?i) zs @ B"
    "i = int (length (take ?i zs))"
    using lp assms(4) by (simp_all add: id_take_nth_drop [symmetric])
qed

lemma del_loop_correct:
  "del_ok h n index path x goal \<Longrightarrow>
     \<exists>r h'. del_loop ret n index path = Inr (if ret = None then Some x else ret, r) \<and> wf234 h' r \<and> inorder r = goal"
proof (induction h arbitrary: n index path x goal ret rule: less_induct)
  case (less h)
  then obtain P Q where n: "wf234 (Suc h) n" and path: "path = [] \<or> elem n 1 \<noteq> None" "del_path (Suc h) (length (inorder n)) path"
    and pq: "inorder n = P @ x # Q" "index = int (length P)" "goal = plug (P @ Q) path"
    unfolding del_ok_def by blast
  have nn: "n \<noteq> Nil234" using n by auto
  have rng: "0 \<le> index" "index < int (length (inorder n))" using pq by auto
  show ?case
  proof (cases "del_choose n index")
    case (InKid k i)
    with del_choose_correct [OF n rng] have k: "k \<le> elements234 n" "0 \<le> i" "i < int (length (inorder (kid n k)))"
      "index = int (length (before n k)) + i" by simp_all
    obtain g where g: "h = Suc g" using kid_wf [OF n k(1)] k(2,3) by (cases h) auto
    obtain P1 Q1 where s: "inorder (kid n k) = P1 @ x # Q1" "P = before n k @ P1" "Q = Q1 @ after n k" "i = int (length P1)"
      using split_at_nth [OF pq(1) inorder_split_kid [OF n k(1)] _ k(2,3)] pq(2) k(4) by metis
    obtain sub i' path' where e: "del_enter n k i path = Inr (sub, i', path')" "del_ok g sub i' path' x goal"
      using del_enter_correct [OF _ path(1) _ k(1) s(1), of g goal] n path(2) g pq(3) s by auto
    then show ?thesis using less.IH [OF _ e(2), of ret] g nn InKid by (subst del_loop.simps) auto
  next
    case (AtElem k)
    with del_choose_correct [OF n rng] have k: "k < elements234 n"
      "length P = length (before n k @ inorder (kid n k))" using pq(2) by simp_all
    obtain y where y: "elem n k = Some y" "after n k = y # inorder (kid n (k + 1)) @ after n (k + 1)"
      using after_elem [OF n k(1)] by blast
    have "P @ x # Q = (before n k @ inorder (kid n k)) @ y # inorder (kid n (k + 1)) @ after n (k + 1)"
      using inorder_split_kid [OF n, of k] y k(1) pq(1) by simp
    then have "P = before n k @ inorder (kid n k)" "x = y" "Q = inorder (kid n (k + 1)) @ after n (k + 1)"
      using k(2) append_eq_append_conv [of P "before n k @ inorder (kid n k)"] by auto
    then have x: "elem n k = Some x"
      and gl: "goal = plug (before n k @ inorder (kid n k) @ inorder (kid n (k + 1)) @ after n (k + 1)) path"
      using y pq(3) by auto
    from del_here_correct [OF n path k(1) x gl] show ?thesis
    proof (elim disjE exE conjE)
      fix r h' assume "del_here n k path = Inr (DelDone r)" "wf234 h' r" "inorder r = goal"
      then show ?thesis using nn AtElem x by (subst del_loop.simps) auto
    next
      fix g m i path' y assume d: "h = Suc g" "del_here n k path = Inr (DelGo m i path')" "del_ok g m i path' y goal"
      then show ?thesis
        using less.IH [OF _ d(3), of "if ret = None then Some x else ret"] nn AtElem x
        by (subst del_loop.simps) auto
    qed
  qed
qed

lemma delpos234_internal_correct:
  assumes "tree_ok t" "0 \<le> index" "index < int (length (tree_list t))"
  shows "\<exists>t'. delpos234_internal t index = Inr (Some (tree_list t ! nat index), t') \<and> tree_ok t' \<and> cmp t' = cmp t \<and>
    tree_list t' = take (nat index) (tree_list t) @ drop (Suc (nat index)) (tree_list t)"
proof -
  let ?xs = "tree_list t" and ?i = "nat index"
  have i: "?i < length ?xs" using assms by simp
  then have "root t \<noteq> Nil234" by (auto simp: tree_list_def)
  then obtain h where h: "wf234 (Suc h) (root t)" using tree_ok_root [OF assms(1)] by blast
  have "del_ok h (root t) index [] (?xs ! ?i) (take ?i ?xs @ drop (Suc ?i) ?xs)"
    by (rule del_okI [where P = "take ?i ?xs" and Q = "drop (Suc ?i) ?xs"])
       (use h i assms(2) in \<open>auto simp: tree_list_def id_take_nth_drop [symmetric]\<close>)
  from del_loop_correct [OF this, of None] show ?thesis
    by (auto simp: delpos234_internal_def tree_list_def intro!: tree_okI)
qed

section \<open>Sorted trees as stores\<close>

definition cmp_order :: "('a \<Rightarrow> 'a \<Rightarrow> int) \<Rightarrow> bool" where
  "cmp_order c \<longleftrightarrow>
     (\<forall>x y. c x y \<le> 0 \<longleftrightarrow> 0 \<le> c y x) \<and> (\<forall>x y z. c x y \<le> 0 \<longrightarrow> c y z \<le> 0 \<longrightarrow> c x z \<le> 0)"

lemma cmp_order_refl: "cmp_order c \<Longrightarrow> c x x = 0"
  unfolding cmp_order_def by (metis dual_order.antisym linorder_linear)

lemma cmp_order_flip:
  assumes "cmp_order c"
  shows "c x y < 0 \<longleftrightarrow> 0 < c y x" "c x y = 0 \<longleftrightarrow> c y x = 0"
  using assms unfolding cmp_order_def by (metis not_le, metis order_antisym_conv order_refl not_le)

lemma cmp_order_trans_less:
  assumes "cmp_order c"
  shows "c x y < 0 \<Longrightarrow> c y z \<le> 0 \<Longrightarrow> c x z < 0" "c x y \<le> 0 \<Longrightarrow> c y z < 0 \<Longrightarrow> c x z < 0"
  using assms unfolding cmp_order_def by (metis not_le)+

lemma cmp_order_equal:
  assumes "cmp_order c" "c x y = 0"
  shows "c x z = 0 \<longleftrightarrow> c y z = 0" "c z x = 0 \<longleftrightarrow> c z y = 0"
  using assms unfolding cmp_order_def by (metis order_antisym_conv order_refl)+

abbreviation strictly :: "('a \<Rightarrow> 'a \<Rightarrow> int) \<Rightarrow> 'a list \<Rightarrow> bool" where
  "strictly c xs \<equiv> sorted_wrt (\<lambda>x y. c x y < 0) xs"

lemma strictly_descending:
  assumes "cmp_order c" "strictly c xs"
  shows "descending (c e) xs"
  using assms(2) unfolding descending_def
  by (rule sorted_wrt_mono_rel [rotated])
     (meson assms(1) cmp_order_trans_less less_imp_le)

lemma strictly_unique:
  assumes "cmp_order c" "strictly c xs" "x \<in> set xs" "y \<in> set xs" "c x y = 0"
  shows "x = y"
proof -
  obtain i j where ij: "i < length xs" "x = xs ! i" "j < length xs" "y = xs ! j"
    using assms(3,4) by (auto simp: in_set_conv_nth)
  then consider "i < j" | "i = j" | "j < i" by linarith
  then show ?thesis
  proof cases
    case 1
    then have "c x y < 0" using sorted_wrt_nth_less [OF assms(2) 1] ij by simp
    then show ?thesis using assms(5) by simp
  next
    case 3
    then have "c y x < 0" using sorted_wrt_nth_less [OF assms(2) 3] ij by simp
    then show ?thesis using assms(5) cmp_order_flip [OF assms(1)] by auto
  qed (use ij in simp)
qed

definition tree_order :: "'a tree234 \<Rightarrow> 'a \<Rightarrow> 'a \<Rightarrow> int" where
  "tree_order t = the (cmp t)"

lemma tree_order_cong: "cmp t' = cmp t \<Longrightarrow> tree_order t' = tree_order t"
  by (simp add: tree_order_def)

definition sorted_tree :: "'a tree234 \<Rightarrow> bool" where
  "sorted_tree t \<longleftrightarrow>
     tree_ok t \<and> (\<exists>c. cmp t = Some c \<and> cmp_order c \<and> strictly c (tree_list t))"

lemma sorted_treeD:
  assumes "sorted_tree t"
  shows "tree_ok t" "cmp t = Some (tree_order t)" "cmp_order (tree_order t)" "strictly (tree_order t) (tree_list t)"
  using assms by (auto simp: sorted_tree_def tree_order_def)

lemma newtree234_sorted: "cmp_order c \<Longrightarrow> sorted_tree (newtree234 (Some c)) \<and> tree_list (newtree234 (Some c)) = []"
  by (auto simp: newtree234_def sorted_tree_def tree_ok_def tree_list_def)

lemma add234_sorted_tree:
  assumes "sorted_tree t"
  shows "\<exists>x t'. add234 t e = Inr (Some x, t') \<and> sorted_tree t' \<and> cmp t' = cmp t \<and>
    (if \<exists>y\<in>set (tree_list t). tree_order t e y = 0
     then t' = t \<and> x \<in> set (tree_list t) \<and> tree_order t e x = 0
     else x = e \<and> set (tree_list t') = insert e (set (tree_list t)))"
proof -
  note t = sorted_treeD [OF assms]
  let ?c = "tree_order t"
  have "descending (?c e) (tree_list t)" by (rule strictly_descending [OF t(3,4)])
  from add234_internal_cmp [OF t(1,2) this] show ?thesis
  proof (elim disjE exE conjE)
    fix t' A B
    assume a: "add234_internal t e (-1) = Inr (Some e, t')" "tree_ok t'" "cmp t' = cmp t" "tree_list t = A @ B"
      "tree_list t' = A @ e # B" "\<forall>x\<in>set A. ?c e x > 0" "\<forall>x\<in>set B. ?c e x < 0"
    then have "strictly ?c (tree_list t')"
      using t(4) cmp_order_flip(1) [OF t(3)] cmp_order_trans_less [OF t(3)]
      by (fastforce simp: sorted_wrt_append)
    then have "sorted_tree t'" using a t by (auto simp: sorted_tree_def)
    moreover have "\<not> (\<exists>y\<in>set (tree_list t). ?c e y = 0)" using a by fastforce
    ultimately show ?thesis using a t(2) by (auto simp: add234_def)
  qed (use assms t(2) in \<open>auto simp: add234_def\<close>)
qed

lemma findrelpos234_eq:
  assumes "sorted_tree t"
  shows "\<exists>r. findrelpos234 t (Some e) None REL234_EQ = Some (Inr r) \<and>
    (case r of None \<Rightarrow> \<forall>y\<in>set (tree_list t). tree_order t e y \<noteq> 0
     | Some (x, i) \<Rightarrow> 0 \<le> i \<and> i < int (length (tree_list t)) \<and> tree_list t ! nat i = x \<and> tree_order t e x = 0)"
proof -
  note t = sorted_treeD [OF assms]
  have "query_dir (Some e) (tree_order t) REL234_EQ = tree_order t e" by (simp add: query_dir_def fun_eq_iff)
  with findrelpos_with_correct [OF t(1), of "Some e" "tree_order t" REL234_EQ] strictly_descending [OF t(3,4), of e]
  show ?thesis
    by (auto simp: findrelpos234_def t(2) rel_spec_def split: option.splits)
qed

lemma find234_sorted_tree:
  assumes "sorted_tree t"
  shows "\<exists>r. find234 t e None = Some (Inr r) \<and>
    (case r of None \<Rightarrow> \<forall>y\<in>set (tree_list t). tree_order t e y \<noteq> 0
     | Some x \<Rightarrow> x \<in> set (tree_list t) \<and> tree_order t e x = 0)"
proof -
  obtain r where "findrelpos234 t (Some e) None REL234_EQ = Some (Inr r)"
    "case r of None \<Rightarrow> \<forall>y\<in>set (tree_list t). tree_order t e y \<noteq> 0
     | Some (x, i) \<Rightarrow> 0 \<le> i \<and> i < int (length (tree_list t)) \<and> tree_list t ! nat i = x \<and> tree_order t e x = 0"
    using findrelpos234_eq [OF assms] by blast
  then show ?thesis by (cases r) (auto simp: find234_def)
qed

lemma del234_sorted_tree:
  assumes "sorted_tree t"
  shows "\<exists>r t'. del234 t e = Some (Inr (r, t')) \<and> sorted_tree t' \<and> cmp t' = cmp t \<and>
    (case r of None \<Rightarrow> t' = t \<and> (\<forall>y\<in>set (tree_list t). tree_order t e y \<noteq> 0)
     | Some x \<Rightarrow> x \<in> set (tree_list t) \<and> tree_order t e x = 0 \<and> set (tree_list t') = set (tree_list t) - {x})"
proof -
  note t = sorted_treeD [OF assms]
  obtain r where r: "findrelpos234 t (Some e) None REL234_EQ = Some (Inr r)"
    "case r of None \<Rightarrow> \<forall>y\<in>set (tree_list t). tree_order t e y \<noteq> 0
     | Some (x, i) \<Rightarrow> 0 \<le> i \<and> i < int (length (tree_list t)) \<and> tree_list t ! nat i = x \<and> tree_order t e x = 0"
    using findrelpos234_eq [OF assms] by blast
  show ?thesis
  proof (cases r)
    case None
    with r assms show ?thesis by (auto simp: del234_def)
  next
    case (Some xi)
    obtain x i where xi: "r = Some (x, i)" "0 \<le> i" "i < int (length (tree_list t))" "tree_list t ! nat i = x"
      "tree_order t e x = 0" using r Some by (cases xi) auto
    obtain t' where t': "delpos234_internal t i = Inr (Some x, t')" "tree_ok t'" "cmp t' = cmp t"
      "tree_list t' = take (nat i) (tree_list t) @ drop (Suc (nat i)) (tree_list t)"
      using delpos234_internal_correct [OF t(1) xi(2,3)] xi(4) by blast
    have split: "tree_list t = take (nat i) (tree_list t) @ x # drop (Suc (nat i)) (tree_list t)"
      using id_take_nth_drop [of "nat i" "tree_list t"] xi by simp
    define A B where "A = take (nat i) (tree_list t)" and "B = drop (Suc (nat i)) (tree_list t)"
    have AB: "tree_list t = A @ x # B" "tree_list t' = A @ B" using split t'(4) by (auto simp: A_def B_def)
    have "strictly (tree_order t) (A @ x # B)" using t(4) unfolding AB(1) .
    then have "strictly (tree_order t) (A @ B)" "\<forall>a\<in>set A. tree_order t a x < 0" "\<forall>b\<in>set B. tree_order t x b < 0"
      by (simp_all add: sorted_wrt_append)
    then have "strictly (tree_order t) (tree_list t')" and x: "x \<notin> set (tree_list t')"
      using cmp_order_refl [OF t(3), of x] unfolding AB(2) by auto
    then have "sorted_tree t'" using t' t by (auto simp: sorted_tree_def)
    moreover have "set (tree_list t') = set (tree_list t) - {x}" using x AB by auto
    ultimately show ?thesis
      by (intro exI [of _ "Some x"] exI [of _ t']) (use xi(1,5) r(1) t'(1,3) AB(1) in \<open>simp add: del234_def\<close>)
  qed
qed

text \<open>
  The interface: a store of elements identified by a comparison, with insertion that
  refuses an equal element, deletion and lookup.
\<close>

locale ordered_store =
  fixes add :: "'s \<Rightarrow> 'a \<Rightarrow> ('a option \<times> 's) res"
    and del :: "'s \<Rightarrow> 'a \<Rightarrow> ('a option \<times> 's) res option"
    and find :: "'s \<Rightarrow> 'a \<Rightarrow> 'a option res option"
    and inv :: "'s \<Rightarrow> bool"
    and elems :: "'s \<Rightarrow> 'a list"
    and order :: "'s \<Rightarrow> 'a \<Rightarrow> 'a \<Rightarrow> int"
  assumes order_cmp: "inv s \<Longrightarrow> cmp_order (order s)"
    and unique: "inv s \<Longrightarrow> x \<in> set (elems s) \<Longrightarrow> y \<in> set (elems s) \<Longrightarrow> order s x y = 0 \<Longrightarrow> x = y"
    and add_spec: "inv s \<Longrightarrow> \<exists>x s'. add s e = Inr (Some x, s') \<and> inv s' \<and> order s' = order s \<and>
      (if \<exists>y\<in>set (elems s). order s e y = 0
       then s' = s \<and> x \<in> set (elems s) \<and> order s e x = 0
       else x = e \<and> set (elems s') = insert e (set (elems s)))"
    and find_spec: "inv s \<Longrightarrow> \<exists>r. find s e = Some (Inr r) \<and>
      (case r of None \<Rightarrow> \<forall>y\<in>set (elems s). order s e y \<noteq> 0
       | Some x \<Rightarrow> x \<in> set (elems s) \<and> order s e x = 0)"
    and del_spec: "inv s \<Longrightarrow> \<exists>r s'. del s e = Some (Inr (r, s')) \<and> inv s' \<and> order s' = order s \<and>
      (case r of None \<Rightarrow> s' = s \<and> (\<forall>y\<in>set (elems s). order s e y \<noteq> 0)
       | Some x \<Rightarrow> x \<in> set (elems s) \<and> order s e x = 0 \<and> set (elems s') = set (elems s) - {x})"
begin

lemma find_iff:
  assumes "inv s" "x \<in> set (elems s)" "order s e x = 0"
  shows "find s e = Some (Inr (Some x))"
proof -
  obtain r where r: "find s e = Some (Inr r)" "case r of None \<Rightarrow> \<forall>y\<in>set (elems s). order s e y \<noteq> 0
       | Some x \<Rightarrow> x \<in> set (elems s) \<and> order s e x = 0"
    using find_spec [OF assms(1)] by blast
  then obtain y where y: "r = Some y" "y \<in> set (elems s)" "order s e y = 0"
    using assms by (cases r) auto
  have "order s y x = 0"
    using cmp_order_equal(1) [OF order_cmp [OF assms(1)] y(3), of x] assms(3) by simp
  then show ?thesis using unique [OF assms(1) y(2) assms(2)] y r by simp
qed

lemma find_none:
  assumes "inv s" "\<forall>y\<in>set (elems s). order s e y \<noteq> 0"
  shows "find s e = Some (Inr None)"
  using find_spec [OF assms(1), of e] assms(2) by (auto split: option.splits)

lemma find_absent: "inv s \<Longrightarrow> find s e = Some (Inr None) \<longleftrightarrow> (\<forall>y\<in>set (elems s). order s e y \<noteq> 0)"
  using find_iff find_none by (metis option.distinct(1) option.inject sum.inject(2))

lemma find_after_add:
  assumes "inv s" "add s e = Inr (x, s')"
  shows "inv s' \<and> order s' = order s \<and> find s' e = Some (Inr x) \<and>
    (\<forall>q. order s q e \<noteq> 0 \<longrightarrow> find s' q = find s q)"
proof -
  note c = order_cmp [OF assms(1)]
  obtain y where y: "x = Some y" "inv s'" "order s' = order s"
    "if \<exists>y\<in>set (elems s). order s e y = 0
       then s' = s \<and> y \<in> set (elems s) \<and> order s e y = 0
       else y = e \<and> set (elems s') = insert e (set (elems s))"
    using add_spec [OF assms(1), of e] assms(2) by auto
  show ?thesis
  proof (cases "\<exists>y\<in>set (elems s). order s e y = 0")
    case True
    then show ?thesis using y find_iff [OF assms(1), of y e] by simp
  next
    case False
    then have s': "y = e" "set (elems s') = insert e (set (elems s))" using y(4) by auto
    have "find s' q = find s q" if q: "order s q e \<noteq> 0" for q
    proof (cases "\<exists>z\<in>set (elems s). order s q z = 0")
      case True
      then obtain z where "z \<in> set (elems s)" "order s q z = 0" by blast
      then show ?thesis using find_iff [OF assms(1), of z q] find_iff [OF y(2), of z q] s' y(3) by simp
    next
      case False
      then show ?thesis using find_none [OF assms(1), of q] find_none [OF y(2), of q] s' y(3) q by auto
    qed
    then show ?thesis
      using y s' find_iff [OF y(2), of e e] cmp_order_refl [OF c, of e] by auto
  qed
qed

lemma find_after_del:
  assumes "inv s"
  shows "\<exists>r s'. del s e = Some (Inr (r, s')) \<and> inv s' \<and> order s' = order s \<and>
    find s e = Some (Inr r) \<and> find s' e = Some (Inr None) \<and>
    set (elems s') = {x \<in> set (elems s). order s e x \<noteq> 0} \<and>
    (\<forall>q. order s q e \<noteq> 0 \<longrightarrow> find s' q = find s q)"
proof -
  note c = order_cmp [OF assms(1)]
  obtain r s' where d: "del s e = Some (Inr (r, s'))" "inv s'" "order s' = order s"
    "case r of None \<Rightarrow> s' = s \<and> (\<forall>y\<in>set (elems s). order s e y \<noteq> 0)
       | Some x \<Rightarrow> x \<in> set (elems s) \<and> order s e x = 0 \<and> set (elems s') = set (elems s) - {x}"
    using del_spec [OF assms(1), of e] by blast
  show ?thesis
  proof (cases r)
    case None
    then show ?thesis using d find_none [OF assms(1), of e] by auto
  next
    case (Some x)
    then have x: "x \<in> set (elems s)" "order s e x = 0" "set (elems s') = set (elems s) - {x}" using d by auto
    have eq: "order s e z = 0 \<Longrightarrow> z \<in> set (elems s) \<Longrightarrow> z = x" for z
      using unique [OF assms(1) x(1), of z] cmp_order_equal(1) [OF c x(2)] by blast
    have gone: "find s' e = Some (Inr None)" using find_none [OF d(2), of e] eq x(3) d(3) by auto
    have "find s' q = find s q" if q: "order s q e \<noteq> 0" for q
    proof (cases "\<exists>z\<in>set (elems s). order s q z = 0")
      case True
      then obtain z where z: "z \<in> set (elems s)" "order s q z = 0" by blast
      have "z \<noteq> x" using q z(2) cmp_order_equal(2) [OF c x(2), of q] by metis
      then have "find s' q = Some (Inr (Some z))" using find_iff [OF d(2), of z q] z x(3) d(3) by simp
      then show ?thesis using find_iff [OF assms(1) z] by simp
    next
      case False
      then show ?thesis using find_none [OF assms(1), of q] find_none [OF d(2), of q] x(3) d(3) by auto
    qed
    moreover have "set (elems s') = {x \<in> set (elems s). order s e x \<noteq> 0}" unfolding x(3) using x(2) eq by blast
    ultimately show ?thesis using d(1-3) gone Some find_iff [OF assms(1) x(1,2)] by simp
  qed
qed

end

interpretation t234: ordered_store add234 del234 "\<lambda>t e. find234 t e None" sorted_tree tree_list tree_order
proof
  fix s :: "'a tree234" and e x y :: 'a
  assume s: "sorted_tree s"
  note t = sorted_treeD [OF s]
  show "cmp_order (tree_order s)" by (rule t(3))
  show "x = y" if "x \<in> set (tree_list s)" "y \<in> set (tree_list s)" "tree_order s x y = 0"
    by (rule strictly_unique [OF t(3,4) that])
  show "\<exists>x s'. add234 s e = Inr (Some x, s') \<and> sorted_tree s' \<and> tree_order s' = tree_order s \<and>
      (if \<exists>y\<in>set (tree_list s). tree_order s e y = 0
       then s' = s \<and> x \<in> set (tree_list s) \<and> tree_order s e x = 0
       else x = e \<and> set (tree_list s') = insert e (set (tree_list s)))"
    using add234_sorted_tree [OF s, of e]
    by (elim exE conjE) (intro exI conjI, assumption, assumption, erule tree_order_cong, assumption)
  show "\<exists>r. find234 s e None = Some (Inr r) \<and>
      (case r of None \<Rightarrow> \<forall>y\<in>set (tree_list s). tree_order s e y \<noteq> 0
       | Some x \<Rightarrow> x \<in> set (tree_list s) \<and> tree_order s e x = 0)"
    by (rule find234_sorted_tree [OF s])
  show "\<exists>r s'. del234 s e = Some (Inr (r, s')) \<and> sorted_tree s' \<and> tree_order s' = tree_order s \<and>
      (case r of None \<Rightarrow> s' = s \<and> (\<forall>y\<in>set (tree_list s). tree_order s e y \<noteq> 0)
       | Some x \<Rightarrow> x \<in> set (tree_list s) \<and> tree_order s e x = 0 \<and> set (tree_list s') = set (tree_list s) - {x})"
    using del234_sorted_tree [OF s, of e]
    by (elim exE conjE) (intro exI conjI, assumption, assumption, erule tree_order_cong, assumption)
qed

section \<open>Properties\<close>

text \<open>Sample trees: four elements on two levels, a single element, and a sorted one.\<close>

definition four_tree :: "nat tree234" where
  "four_tree = \<lparr>root = Node234
      (Node234 Nil234 Nil234 Nil234 Nil234 0 0 0 0 (Some 1) None None)
      (Node234 Nil234 Nil234 Nil234 Nil234 0 0 0 0 (Some 3) (Some 4) None)
      Nil234 Nil234 1 2 0 0 (Some 2) None None, cmp = None\<rparr>"

definition one_tree :: "nat tree234" where
  "one_tree = \<lparr>root = Node234 Nil234 Nil234 Nil234 Nil234 0 0 0 0 (Some 1) None None, cmp = None\<rparr>"

definition nat_cmp :: "nat \<Rightarrow> nat \<Rightarrow> int" where
  "nat_cmp x y = int x - int y"

definition sorted_sample :: "nat tree234" where
  "sorted_sample = four_tree\<lparr>cmp := Some nat_cmp\<rparr>"

lemma four_tree_ok: "tree_ok four_tree" "cmp four_tree = None" "tree_list four_tree = [1, 2, 3, 4]"
  by (simp_all add: four_tree_def tree_ok_def tree_list_def)

lemma sorted_sample_ok: "sorted_tree sorted_sample" "tree_list sorted_sample = [1, 2, 3, 4]"
  "tree_order sorted_sample = nat_cmp" "tree_ok sorted_sample"
  using four_tree_ok
  by (auto simp: sorted_tree_def sorted_sample_def tree_ok_def tree_list_def tree_order_def
      cmp_order_def nat_cmp_def)

text \<open>
  C5. Adding to a sorted tree: from a well-formed tree the call always returns.  An element
  that compares equal to a stored one is refused, the stored one is returned and the tree is
  unchanged; any other is inserted, and the tree stays a balanced 2-3-4 tree with exact
  subtree counts whose elements are in strictly increasing order.
\<close>

theorem add234_correct:
  assumes "sorted_tree t"
  shows "\<exists>x t'. add234 t e = Inr (Some x, t') \<and> sorted_tree t' \<and>
    (if \<exists>y\<in>set (tree_list t). tree_order t e y = 0
     then t' = t \<and> x \<in> set (tree_list t) \<and> tree_order t e x = 0
     else x = e \<and> set (tree_list t') = insert e (set (tree_list t)))"
  using t234.add_spec [OF assms] by blast

theorem add234_correct_witness:
  "sorted_tree sorted_sample \<and>
   (\<exists>t'. add234 sorted_sample 7 = Inr (Some 7, t') \<and> sorted_tree t' \<and> set (tree_list t') = {1, 2, 3, 4, 7}) \<and>
   add234 sorted_sample 3 = Inr (Some 3, sorted_sample)"
  using add234_correct [OF sorted_sample_ok(1), of 7] add234_correct [OF sorted_sample_ok(1), of 3]
  by (auto simp: sorted_sample_ok nat_cmp_def)

text \<open>
  C6. Deleting from a sorted tree: the call always returns; it removes exactly the element
  that compares equal to the query, if there is one, returns it, and leaves a well-formed
  sorted tree, so that a following lookup of the query fails and every lookup of an element
  that compares differently gives what it gave before.
\<close>

theorem del234_correct:
  assumes "sorted_tree t"
  shows "\<exists>r t'. del234 t e = Some (Inr (r, t')) \<and> sorted_tree t' \<and>
    find234 t e None = Some (Inr r) \<and> find234 t' e None = Some (Inr None) \<and>
    set (tree_list t') = {x \<in> set (tree_list t). tree_order t e x \<noteq> 0} \<and>
    (\<forall>q. tree_order t q e \<noteq> 0 \<longrightarrow> find234 t' q None = find234 t q None)"
  using t234.find_after_del [OF assms] by blast

theorem del234_correct_witness:
  "sorted_tree sorted_sample \<and>
   (\<exists>r t'. del234 sorted_sample 2 = Some (Inr (r, t')) \<and> sorted_tree t' \<and> set (tree_list t') = {1, 3, 4})"
proof -
  have "{x \<in> set (tree_list sorted_sample). tree_order sorted_sample 2 x \<noteq> 0} = {1, 3, 4}"
    by (auto simp: sorted_sample_ok nat_cmp_def)
  then show ?thesis
    using del234_correct [OF sorted_sample_ok(1), of 2] sorted_sample_ok(1) by metis
qed

text \<open>
  C16. Positional operations on an unsorted tree: inserting at an index between 0 and the
  size, deleting and reading at an index below the size act as on a list, the counts and the
  balance are kept, and an index outside the range is refused by delete and read.
\<close>

theorem positional_operations:
  assumes "tree_ok t" and "cmp t = None"
  shows "count234 t = int (length (tree_list t)) \<and>
    (0 \<le> i \<and> i \<le> int (length (tree_list t)) \<longrightarrow>
      (\<exists>t'. addpos234 t e i = Inr (Some e, t') \<and> tree_ok t' \<and>
        tree_list t' = take (nat i) (tree_list t) @ e # drop (nat i) (tree_list t))) \<and>
    (if 0 \<le> i \<and> i < int (length (tree_list t))
     then index234 t i = Some (tree_list t ! nat i) \<and>
       (\<exists>t'. delpos234 t i = Inr (Some (tree_list t ! nat i), t') \<and> tree_ok t' \<and>
         tree_list t' = take (nat i) (tree_list t) @ drop (Suc (nat i)) (tree_list t))
     else index234 t i = None \<and> delpos234 t i = Inr (None, t))"
  using assms add234_internal_pos [OF assms(1), of i e] delpos234_internal_correct [OF assms(1), of i]
    count234_length [OF assms(1)] index234_nth [OF assms(1)] countnode_wf [of _ "root t"]
  by (auto simp: addpos234_def delpos234_def tree_ok_def tree_list_def)

theorem positional_operations_witness:
  "tree_ok four_tree \<and> index234 four_tree 2 = Some 3 \<and>
   (\<exists>t'. addpos234 four_tree 9 4 = Inr (Some 9, t') \<and> tree_list t' = [1, 2, 3, 4, 9]) \<and>
   (\<exists>t'. delpos234 four_tree 2 = Inr (Some 3, t') \<and> tree_list t' = [1, 2, 4])"
  using positional_operations [of four_tree 2 9] positional_operations [of four_tree 4 9]
  by (auto simp: four_tree_ok)

text \<open>
  C17. Searching a sorted tree by a relation: with any comparison whose sign falls along the
  tree, the search returns within its step budget, without failing its assertions, the
  element the relation asks for together with its index: an equal element, the largest below
  or the smallest above the query, or none when there is none.
\<close>

theorem findrelpos234_correct:
  assumes "tree_ok t" and "descending (query_dir q c rel) (tree_list t)"
    and "equal_permitted rel \<Longrightarrow> q \<noteq> None"
  shows "\<exists>r. findrelpos_with t q c rel = Some (Inr r) \<and> rel_spec (query_dir q c rel) rel (tree_list t) r"
  using assms by (rule findrelpos_with_correct)

theorem findrelpos234_correct_witness:
  "tree_ok sorted_sample \<and>
   (\<exists>r. findrelpos_with sorted_sample (Some 0) nat_cmp REL234_GT = Some (Inr r) \<and>
        rel_spec (nat_cmp 0) REL234_GT [1, 2, 3, 4] r) \<and>
   \<not> rel_spec (nat_cmp 0) REL234_GT [1, 2, 3, 4] None \<and>
   \<not> rel_spec (nat_cmp 0) REL234_GT [1, 2, 3, 4] (Some (2, 1))"
proof -
  have d: "query_dir (Some 0) nat_cmp REL234_GT = nat_cmp 0" by (simp add: query_dir_def fun_eq_iff)
  then show ?thesis
    using findrelpos234_correct [of sorted_sample "Some 0" nat_cmp REL234_GT]
    by (simp add: sorted_sample_ok equal_permitted_def nat_cmp_def rel_spec_def)
qed

lemma wf234_inorder_nonempty: "wf234 h n \<Longrightarrow> n \<noteq> Nil234 \<Longrightarrow> inorder n \<noteq> []"
  by (cases n) auto

text \<open>
  C34. Positional insertion does not check its upper bound.  On any well-formed unsorted tree with more than one level
  whose root has one or two elements, inserting one past the end (position count + 1) is not refused: it reports success and
  drops all the elements of the root's last subtree, of which there is at least one, putting the new element in their
  place.  Only a root with three elements makes it refuse that position.  On a tree that is a single leaf every position
  above 3 addresses memory outside the node.
\<close>

theorem addpos234_unchecked:
  assumes "tree_ok t" and "cmp t = None" and "root t \<noteq> Nil234"
  shows "(kid (root t) 0 \<noteq> Nil234 \<and> elem (root t) 2 = None \<longrightarrow>
      (\<exists>t' kept lost. addpos234 t e (count234 t + 1) = Inr (Some e, t') \<and> lost \<noteq> [] \<and>
         lost = inorder (kid (root t) (elements234 (root t))) \<and> tree_list t = kept @ lost \<and> tree_list t' = kept @ [e])) \<and>
    (kid (root t) 0 \<noteq> Nil234 \<and> elem (root t) 2 \<noteq> None \<longrightarrow> addpos234 t e (count234 t + 1) = Inr (None, t)) \<and>
    (kid (root t) 0 = Nil234 \<and> 3 < index \<longrightarrow> addpos234 t e index = Inl OutOfBounds)"
proof -
  obtain k0 k1 k2 k3 c0 c1 c2 c3 e0 e1 e2 where r: "root t = Node234 k0 k1 k2 k3 c0 c1 c2 c3 e0 e1 e2" using assms(3) by (cases "root t") auto
  have wf: "wf234 (height234 (root t)) (root t)" using assms(1) by (simp add: tree_ok_def)
  then have counts: "c0 = int (length (inorder k0))" "c1 = int (length (inorder k1))" "c2 = int (length (inorder k2))" "c3 = int (length (inorder k3))"
    and e0: "e0 \<noteq> None" and e12: "e2 \<noteq> None \<longrightarrow> e1 \<noteq> None" and k2: "e1 = None \<longrightarrow> k2 = Nil234" and k3: "e2 = None \<longrightarrow> k3 = Nil234"
    by (simp_all add: r split: if_splits)
  obtain h where h: "wf234 h k0" "wf234 h k1" "e1 \<noteq> None \<longrightarrow> wf234 h k2" using wf by (auto simp: r split: if_splits)
  have ne: "inorder k1 \<noteq> []" "e1 \<noteq> None \<longrightarrow> inorder k2 \<noteq> []" if "k0 \<noteq> Nil234"
    using that h wf234_Nil_iff wf234_inorder_nonempty by metis+
  have cnt: "count234 t = c0 + c1 + c2 + c3 + 1 + (if e1 = None then 0 else 1) + (if e2 = None then 0 else 1)"
    using e0 e12 by (auto simp: count234_def countnode234_def r)
  note run = addpos234_def add234_internal_def add_descend.simps [of _ _ _ "Node234 _ _ _ _ _ _ _ _ _ _ _"] add_choose_def add_choose_pos_def add_ascend.simps Let_def
  show ?thesis
  proof (intro conjI impI)
    assume a: "kid (root t) 0 \<noteq> Nil234 \<and> elem (root t) 2 = None"
    show "\<exists>t' kept lost. addpos234 t e (count234 t + 1) = Inr (Some e, t') \<and> lost \<noteq> [] \<and>
         lost = inorder (kid (root t) (elements234 (root t))) \<and> tree_list t = kept @ lost \<and> tree_list t' = kept @ [e]"
      using a assms(2) counts k2 k3 e0 ne by (cases e1) (auto simp: run r cnt tree_list_def elements234_def)
  next
    assume a: "kid (root t) 0 \<noteq> Nil234 \<and> elem (root t) 2 \<noteq> None"
    show "addpos234 t e (count234 t + 1) = Inr (None, t)" using a assms(2) counts e12 by (auto simp: run r cnt)
  next
    assume a: "kid (root t) 0 = Nil234 \<and> 3 < index"
    show "addpos234 t e index = Inl OutOfBounds" using a assms(2) by (auto simp: run r)
  qed
qed

theorem addpos234_unchecked_witness:
  "(\<exists>t'. addpos234 four_tree 9 5 = Inr (Some 9, t') \<and> tree_list t' = [1, 2, 9]) \<and> addpos234 one_tree 9 4 = Inl OutOfBounds"
proof -
  have ok: "tree_ok one_tree" by (simp add: one_tree_def tree_ok_def)
  have c: "count234 four_tree = 4" by (simp add: four_tree_def count234_def countnode234_def)
  show ?thesis
    using addpos234_unchecked [OF four_tree_ok(1,2), of 9 0] addpos234_unchecked [OF ok, of 9 4] four_tree_ok(3) c
    by (auto simp: four_tree_def one_tree_def elements234_def)
qed

end
