(* ===== verification/Conf.thy ===== *)
theory Conf
  imports Tree234_Correct Marshal
begin

text \<open>
  The session configuration store of \<open>conf.c\<close>: a sorted 2-3-4 tree of entries whose keys are
  an option number and, for some options, an integer or string subkey.  The option table is
  the macro \<open>CONFIG_OPTIONS\<close> of \<open>putty.h\<close>, in order.  A union is a datatype; reading a member
  that was not stored is the fault \<open>WrongMember\<close>.  File names and font names are the path and
  name strings of \<open>unix/uxmisc.c\<close>.
\<close>

section \<open>Option table\<close>

datatype Type = TYPE_NONE | TYPE_BOOL | TYPE_INT | TYPE_STR | TYPE_FILENAME | TYPE_FONT

text \<open>Each row is the value type, the subkey type and the keyword.\<close>

definition config_options_1 :: "(Type \<times> Type \<times> string) list" where
  "config_options_1 = [
     (TYPE_STR, TYPE_NONE, ''host''),
     (TYPE_INT, TYPE_NONE, ''port''),
     (TYPE_INT, TYPE_NONE, ''protocol''),
     (TYPE_INT, TYPE_NONE, ''addressfamily''),
     (TYPE_INT, TYPE_NONE, ''close_on_exit''),
     (TYPE_BOOL, TYPE_NONE, ''warn_on_close''),
     (TYPE_INT, TYPE_NONE, ''ping_interval''),
     (TYPE_BOOL, TYPE_NONE, ''tcp_nodelay''),
     (TYPE_BOOL, TYPE_NONE, ''tcp_keepalives''),
     (TYPE_STR, TYPE_NONE, ''loghost''),
     (TYPE_STR, TYPE_NONE, ''proxy_exclude_list''),
     (TYPE_INT, TYPE_NONE, ''proxy_dns''),
     (TYPE_BOOL, TYPE_NONE, ''even_proxy_localhost''),
     (TYPE_INT, TYPE_NONE, ''proxy_type''),
     (TYPE_STR, TYPE_NONE, ''proxy_host''),
     (TYPE_INT, TYPE_NONE, ''proxy_port''),
     (TYPE_STR, TYPE_NONE, ''proxy_username''),
     (TYPE_STR, TYPE_NONE, ''proxy_password''),
     (TYPE_STR, TYPE_NONE, ''proxy_telnet_command''),
     (TYPE_INT, TYPE_NONE, ''proxy_log_to_term''),
     (TYPE_STR, TYPE_NONE, ''remote_cmd''),
     (TYPE_STR, TYPE_NONE, ''remote_cmd2''),
     (TYPE_BOOL, TYPE_NONE, ''nopty''),
     (TYPE_BOOL, TYPE_NONE, ''compression''),
     (TYPE_INT, TYPE_INT, ''ssh_kexlist''),
     (TYPE_INT, TYPE_INT, ''ssh_hklist''),
     (TYPE_BOOL, TYPE_NONE, ''ssh_prefer_known_hostkeys''),
     (TYPE_INT, TYPE_NONE, ''ssh_rekey_time''),
     (TYPE_STR, TYPE_NONE, ''ssh_rekey_data''),
     (TYPE_BOOL, TYPE_NONE, ''tryagent''),
     (TYPE_BOOL, TYPE_NONE, ''agentfwd''),
     (TYPE_BOOL, TYPE_NONE, ''change_username''),
     (TYPE_INT, TYPE_INT, ''ssh_cipherlist''),
     (TYPE_FILENAME, TYPE_NONE, ''keyfile''),
     (TYPE_INT, TYPE_NONE, ''sshprot''),
     (TYPE_BOOL, TYPE_NONE, ''ssh2_des_cbc''),
     (TYPE_BOOL, TYPE_NONE, ''ssh_no_userauth''),
     (TYPE_BOOL, TYPE_NONE, ''ssh_show_banner''),
     (TYPE_BOOL, TYPE_NONE, ''try_tis_auth''),
     (TYPE_BOOL, TYPE_NONE, ''try_ki_auth''),
     (TYPE_BOOL, TYPE_NONE, ''try_gssapi_auth''),
     (TYPE_BOOL, TYPE_NONE, ''try_gssapi_kex''),
     (TYPE_BOOL, TYPE_NONE, ''gssapifwd''),
     (TYPE_INT, TYPE_NONE, ''gssapirekey''),
     (TYPE_INT, TYPE_INT, ''ssh_gsslist''),
     (TYPE_FILENAME, TYPE_NONE, ''ssh_gss_custom''),
     (TYPE_BOOL, TYPE_NONE, ''ssh_subsys''),
     (TYPE_BOOL, TYPE_NONE, ''ssh_subsys2''),
     (TYPE_BOOL, TYPE_NONE, ''ssh_no_shell''),
     (TYPE_STR, TYPE_NONE, ''ssh_nc_host''),
     (TYPE_INT, TYPE_NONE, ''ssh_nc_port''),
     (TYPE_STR, TYPE_NONE, ''termtype''),
     (TYPE_STR, TYPE_NONE, ''termspeed''),
     (TYPE_STR, TYPE_STR, ''ttymodes''),
     (TYPE_STR, TYPE_STR, ''environmt''),
     (TYPE_STR, TYPE_NONE, ''username''),
     (TYPE_BOOL, TYPE_NONE, ''username_from_env''),
     (TYPE_STR, TYPE_NONE, ''localusername''),
     (TYPE_BOOL, TYPE_NONE, ''rfc_environ''),
     (TYPE_BOOL, TYPE_NONE, ''passive_telnet''),
     (TYPE_STR, TYPE_NONE, ''serline''),
     (TYPE_INT, TYPE_NONE, ''serspeed''),
     (TYPE_INT, TYPE_NONE, ''serdatabits''),
     (TYPE_INT, TYPE_NONE, ''serstopbits''),
     (TYPE_INT, TYPE_NONE, ''serparity''),
     (TYPE_INT, TYPE_NONE, ''serflow''),
     (TYPE_STR, TYPE_NONE, ''supdup_location''),
     (TYPE_INT, TYPE_NONE, ''supdup_ascii_set''),
     (TYPE_BOOL, TYPE_NONE, ''supdup_more''),
     (TYPE_BOOL, TYPE_NONE, ''supdup_scroll''),
     (TYPE_BOOL, TYPE_NONE, ''bksp_is_delete''),
     (TYPE_BOOL, TYPE_NONE, ''rxvt_homeend''),
     (TYPE_INT, TYPE_NONE, ''funky_type''),
     (TYPE_BOOL, TYPE_NONE, ''no_applic_c''),
     (TYPE_BOOL, TYPE_NONE, ''no_applic_k''),
     (TYPE_BOOL, TYPE_NONE, ''no_mouse_rep''),
     (TYPE_BOOL, TYPE_NONE, ''no_remote_resize''),
     (TYPE_BOOL, TYPE_NONE, ''no_alt_screen''),
     (TYPE_BOOL, TYPE_NONE, ''no_remote_wintitle''),
     (TYPE_BOOL, TYPE_NONE, ''no_remote_clearscroll''),
     (TYPE_BOOL, TYPE_NONE, ''no_dbackspace''),
     (TYPE_BOOL, TYPE_NONE, ''no_remote_charset''),
     (TYPE_INT, TYPE_NONE, ''remote_qtitle_action''),
     (TYPE_BOOL, TYPE_NONE, ''app_cursor''),
     (TYPE_BOOL, TYPE_NONE, ''app_keypad''),
     (TYPE_BOOL, TYPE_NONE, ''nethack_keypad''),
     (TYPE_BOOL, TYPE_NONE, ''telnet_keyboard''),
     (TYPE_BOOL, TYPE_NONE, ''telnet_newline''),
     (TYPE_BOOL, TYPE_NONE, ''alt_f4''),
     (TYPE_BOOL, TYPE_NONE, ''alt_space''),
     (TYPE_BOOL, TYPE_NONE, ''alt_only''),
     (TYPE_INT, TYPE_NONE, ''localecho''),
     (TYPE_INT, TYPE_NONE, ''localedit''),
     (TYPE_BOOL, TYPE_NONE, ''alwaysontop''),
     (TYPE_BOOL, TYPE_NONE, ''fullscreenonaltenter''),
     (TYPE_BOOL, TYPE_NONE, ''scroll_on_key''),
     (TYPE_BOOL, TYPE_NONE, ''scroll_on_disp''),
     (TYPE_BOOL, TYPE_NONE, ''erase_to_scrollback''),
     (TYPE_BOOL, TYPE_NONE, ''compose_key''),
     (TYPE_BOOL, TYPE_NONE, ''ctrlaltkeys''),
     (TYPE_BOOL, TYPE_NONE, ''osx_option_meta'')]"

definition config_options_2 :: "(Type \<times> Type \<times> string) list" where
  "config_options_2 = [
     (TYPE_BOOL, TYPE_NONE, ''osx_command_meta''),
     (TYPE_STR, TYPE_NONE, ''wintitle''),
     (TYPE_INT, TYPE_NONE, ''savelines''),
     (TYPE_BOOL, TYPE_NONE, ''dec_om''),
     (TYPE_BOOL, TYPE_NONE, ''wrap_mode''),
     (TYPE_BOOL, TYPE_NONE, ''lfhascr''),
     (TYPE_INT, TYPE_NONE, ''cursor_type''),
     (TYPE_BOOL, TYPE_NONE, ''blink_cur''),
     (TYPE_INT, TYPE_NONE, ''beep''),
     (TYPE_INT, TYPE_NONE, ''beep_ind''),
     (TYPE_BOOL, TYPE_NONE, ''bellovl''),
     (TYPE_INT, TYPE_NONE, ''bellovl_n''),
     (TYPE_INT, TYPE_NONE, ''bellovl_t''),
     (TYPE_INT, TYPE_NONE, ''bellovl_s''),
     (TYPE_FILENAME, TYPE_NONE, ''bell_wavefile''),
     (TYPE_BOOL, TYPE_NONE, ''scrollbar''),
     (TYPE_BOOL, TYPE_NONE, ''scrollbar_in_fullscreen''),
     (TYPE_INT, TYPE_NONE, ''resize_action''),
     (TYPE_BOOL, TYPE_NONE, ''bce''),
     (TYPE_BOOL, TYPE_NONE, ''blinktext''),
     (TYPE_BOOL, TYPE_NONE, ''win_name_always''),
     (TYPE_INT, TYPE_NONE, ''width''),
     (TYPE_INT, TYPE_NONE, ''height''),
     (TYPE_FONT, TYPE_NONE, ''font''),
     (TYPE_INT, TYPE_NONE, ''font_quality''),
     (TYPE_FILENAME, TYPE_NONE, ''logfilename''),
     (TYPE_INT, TYPE_NONE, ''logtype''),
     (TYPE_INT, TYPE_NONE, ''logxfovr''),
     (TYPE_BOOL, TYPE_NONE, ''logflush''),
     (TYPE_BOOL, TYPE_NONE, ''logheader''),
     (TYPE_BOOL, TYPE_NONE, ''logomitpass''),
     (TYPE_BOOL, TYPE_NONE, ''logomitdata''),
     (TYPE_BOOL, TYPE_NONE, ''hide_mouseptr''),
     (TYPE_BOOL, TYPE_NONE, ''sunken_edge''),
     (TYPE_INT, TYPE_NONE, ''window_border''),
     (TYPE_STR, TYPE_NONE, ''answerback''),
     (TYPE_STR, TYPE_NONE, ''printer''),
     (TYPE_BOOL, TYPE_NONE, ''no_arabicshaping''),
     (TYPE_BOOL, TYPE_NONE, ''no_bidi''),
     (TYPE_BOOL, TYPE_NONE, ''ansi_colour''),
     (TYPE_BOOL, TYPE_NONE, ''xterm_256_colour''),
     (TYPE_BOOL, TYPE_NONE, ''true_colour''),
     (TYPE_BOOL, TYPE_NONE, ''system_colour''),
     (TYPE_BOOL, TYPE_NONE, ''try_palette''),
     (TYPE_INT, TYPE_NONE, ''bold_style''),
     (TYPE_INT, TYPE_INT, ''colours''),
     (TYPE_INT, TYPE_NONE, ''mouse_is_xterm''),
     (TYPE_BOOL, TYPE_NONE, ''rect_select''),
     (TYPE_BOOL, TYPE_NONE, ''paste_controls''),
     (TYPE_BOOL, TYPE_NONE, ''rawcnp''),
     (TYPE_BOOL, TYPE_NONE, ''utf8linedraw''),
     (TYPE_BOOL, TYPE_NONE, ''rtf_paste''),
     (TYPE_BOOL, TYPE_NONE, ''mouse_override''),
     (TYPE_INT, TYPE_INT, ''wordness''),
     (TYPE_BOOL, TYPE_NONE, ''mouseautocopy''),
     (TYPE_INT, TYPE_NONE, ''mousepaste''),
     (TYPE_INT, TYPE_NONE, ''ctrlshiftins''),
     (TYPE_INT, TYPE_NONE, ''ctrlshiftcv''),
     (TYPE_STR, TYPE_NONE, ''mousepaste_custom''),
     (TYPE_STR, TYPE_NONE, ''ctrlshiftins_custom''),
     (TYPE_STR, TYPE_NONE, ''ctrlshiftcv_custom''),
     (TYPE_INT, TYPE_NONE, ''vtmode''),
     (TYPE_STR, TYPE_NONE, ''line_codepage''),
     (TYPE_BOOL, TYPE_NONE, ''cjk_ambig_wide''),
     (TYPE_BOOL, TYPE_NONE, ''utf8_override''),
     (TYPE_BOOL, TYPE_NONE, ''xlat_capslockcyr''),
     (TYPE_BOOL, TYPE_NONE, ''x11_forward''),
     (TYPE_STR, TYPE_NONE, ''x11_display''),
     (TYPE_INT, TYPE_NONE, ''x11_auth''),
     (TYPE_FILENAME, TYPE_NONE, ''xauthfile''),
     (TYPE_BOOL, TYPE_NONE, ''lport_acceptall''),
     (TYPE_BOOL, TYPE_NONE, ''rport_acceptall''),
     (TYPE_STR, TYPE_STR, ''portfwd''),
     (TYPE_INT, TYPE_NONE, ''sshbug_ignore1''),
     (TYPE_INT, TYPE_NONE, ''sshbug_plainpw1''),
     (TYPE_INT, TYPE_NONE, ''sshbug_rsa1''),
     (TYPE_INT, TYPE_NONE, ''sshbug_hmac2''),
     (TYPE_INT, TYPE_NONE, ''sshbug_derivekey2''),
     (TYPE_INT, TYPE_NONE, ''sshbug_rsapad2''),
     (TYPE_INT, TYPE_NONE, ''sshbug_pksessid2''),
     (TYPE_INT, TYPE_NONE, ''sshbug_rekey2''),
     (TYPE_INT, TYPE_NONE, ''sshbug_maxpkt2''),
     (TYPE_INT, TYPE_NONE, ''sshbug_ignore2''),
     (TYPE_INT, TYPE_NONE, ''sshbug_oldgex2''),
     (TYPE_INT, TYPE_NONE, ''sshbug_winadj''),
     (TYPE_INT, TYPE_NONE, ''sshbug_chanreq''),
     (TYPE_BOOL, TYPE_NONE, ''ssh_simple''),
     (TYPE_BOOL, TYPE_NONE, ''ssh_connection_sharing''),
     (TYPE_BOOL, TYPE_NONE, ''ssh_connection_sharing_upstream''),
     (TYPE_BOOL, TYPE_NONE, ''ssh_connection_sharing_downstream''),
     (TYPE_STR, TYPE_STR, ''ssh_manual_hostkeys''),
     (TYPE_BOOL, TYPE_NONE, ''stamp_utmp''),
     (TYPE_BOOL, TYPE_NONE, ''login_shell''),
     (TYPE_BOOL, TYPE_NONE, ''scrollbar_on_left''),
     (TYPE_BOOL, TYPE_NONE, ''shadowbold''),
     (TYPE_FONT, TYPE_NONE, ''boldfont''),
     (TYPE_FONT, TYPE_NONE, ''widefont''),
     (TYPE_FONT, TYPE_NONE, ''wideboldfont''),
     (TYPE_INT, TYPE_NONE, ''shadowboldoffset''),
     (TYPE_BOOL, TYPE_NONE, ''crhaslf''),
     (TYPE_STR, TYPE_NONE, ''winclass'')]"

definition config_options :: "(Type \<times> Type \<times> string) list" where
  "config_options = config_options_1 @ config_options_2"

definition N_CONFIG_OPTIONS :: nat where
  "N_CONFIG_OPTIONS = length config_options"

definition subkeytypes :: "nat \<Rightarrow> Type" where
  "subkeytypes p = (if p < N_CONFIG_OPTIONS then fst (snd (config_options ! p)) else TYPE_NONE)"

definition valuetypes :: "nat \<Rightarrow> Type" where
  "valuetypes p = (if p < N_CONFIG_OPTIONS then fst (config_options ! p) else TYPE_NONE)"

section \<open>Entries\<close>

datatype subkey = NoSub | IntSub int | StrSub "byte list"

record key =
  primary :: nat
  secondary :: subkey

datatype conf_value = BoolVal bool | IntVal int | StringVal "byte list"
  | FileVal "byte list" | FontVal "byte list"

record conf_entry =
  ekey :: key
  evalue :: conf_value

record Conf =
  tree :: "conf_entry tree234"

fun sub_int :: "subkey \<Rightarrow> int" where
  "sub_int (IntSub i) = i"
| "sub_int _ = 0"

fun sub_str :: "subkey \<Rightarrow> byte list" where
  "sub_str (StrSub s) = s"
| "sub_str _ = []"

text \<open>The C library's string comparison, on strings without their terminator.\<close>

fun strcmp :: "byte list \<Rightarrow> byte list \<Rightarrow> int" where
  "strcmp [] [] = 0"
| "strcmp [] (y # ys) = -1"
| "strcmp (x # xs) [] = 1"
| "strcmp (x # xs) (y # ys) = (if x < y then -1 else if y < x then 1 else strcmp xs ys)"

definition conf_cmp_key :: "key \<Rightarrow> key \<Rightarrow> int" where
  "conf_cmp_key a b =
     (if primary a < primary b then -1
      else if primary a > primary b then 1
      else case subkeytypes (primary a) of
        TYPE_INT \<Rightarrow>
          if sub_int (secondary a) < sub_int (secondary b) then -1
          else if sub_int (secondary a) > sub_int (secondary b) then 1
          else 0
      | TYPE_STR \<Rightarrow> strcmp (sub_str (secondary a)) (sub_str (secondary b))
      | _ \<Rightarrow> 0)"

definition conf_cmp :: "conf_entry \<Rightarrow> conf_entry \<Rightarrow> int" where
  "conf_cmp a b = conf_cmp_key (ekey a) (ekey b)"

text \<open>A bare key cast to an entry pointer: the comparison reads the key only.\<close>

definition as_entry :: "key \<Rightarrow> conf_entry" where
  "as_entry k = \<lparr>ekey = k, evalue = BoolVal False\<rparr>"

definition within :: "'a res option \<Rightarrow> 'a res" where
  "within r = (case r of Some x \<Rightarrow> x | None \<Rightarrow> Inl StepLimit)"

section \<open>Construction, insertion and copying\<close>

definition conf_new :: Conf where
  "conf_new = \<lparr>tree = newtree234 (Some conf_cmp)\<rparr>"

text \<open>
  Emptying the tree, one deletion at index 0 per step; a budget of one more than the number
  of entries suffices.
\<close>

fun conf_clear_loop :: "nat \<Rightarrow> conf_entry tree234 \<Rightarrow> conf_entry tree234 res" where
  "conf_clear_loop 0 t = Inl StepLimit"
| "conf_clear_loop (Suc fuel) t =
     res_bind (delpos234 t 0) (\<lambda>(entry, t').
       case entry of None \<Rightarrow> Inr t' | Some _ \<Rightarrow> conf_clear_loop fuel t')"

definition conf_clear :: "Conf \<Rightarrow> Conf res" where
  "conf_clear conf =
     res_bind (conf_clear_loop (nat (count234 (tree conf)) + 1) (tree conf)) (\<lambda>t. Inr (conf\<lparr>tree := t\<rparr>))"

text \<open>
  Insertion replaces an entry with an equal key.  The new entry is a fresh block, so the
  pointer returned by \<open>add234\<close> differs from it exactly when the tree was left unchanged.
\<close>

definition conf_insert :: "Conf \<Rightarrow> conf_entry \<Rightarrow> Conf res" where
  "conf_insert conf entry =
     res_bind (add234 (tree conf) entry) (\<lambda>(oldentry, t).
       case oldentry of
         None \<Rightarrow> Inr (conf\<lparr>tree := t\<rparr>)
       | Some old \<Rightarrow>
           if root t \<noteq> root (tree conf) then Inr (conf\<lparr>tree := t\<rparr>)
           else
             res_bind (within (del234 t old)) (\<lambda>(_, t1).
             res_bind (add234 t1 entry) (\<lambda>(again, t2).
             res_bind (assert_res (again \<noteq> None \<and> root t2 \<noteq> root t1)) (\<lambda>_.
             Inr (conf\<lparr>tree := t2\<rparr>)))))"

definition copy_key :: "key \<Rightarrow> key" where
  "copy_key from =
     \<lparr>primary = primary from,
      secondary = (case subkeytypes (primary from) of
                     TYPE_INT \<Rightarrow> IntSub (sub_int (secondary from))
                   | TYPE_STR \<Rightarrow> StrSub (sub_str (secondary from))
                   | _ \<Rightarrow> NoSub)\<rparr>"

definition copy_value :: "conf_value \<Rightarrow> Type \<Rightarrow> conf_value res" where
  "copy_value from type =
     (case (type, from) of
        (TYPE_BOOL, BoolVal b) \<Rightarrow> Inr (BoolVal b)
      | (TYPE_INT, IntVal i) \<Rightarrow> Inr (IntVal i)
      | (TYPE_STR, StringVal s) \<Rightarrow> Inr (StringVal s)
      | (TYPE_FILENAME, FileVal f) \<Rightarrow> Inr (FileVal f)
      | (TYPE_FONT, FontVal f) \<Rightarrow> Inr (FontVal f)
      | _ \<Rightarrow> Inl WrongMember)"

fun conf_copy_loop ::
  "nat \<Rightarrow> conf_entry tree234 \<Rightarrow> int \<Rightarrow> conf_entry tree234 \<Rightarrow> conf_entry tree234 res" where
  "conf_copy_loop 0 old i new = Inl StepLimit"
| "conf_copy_loop (Suc fuel) old i new =
     (case index234 old i of
        None \<Rightarrow> Inr new
      | Some entry \<Rightarrow>
          res_bind (copy_value (evalue entry) (valuetypes (primary (ekey entry)))) (\<lambda>v.
          res_bind (add234 new \<lparr>ekey = copy_key (ekey entry), evalue = v\<rparr>) (\<lambda>(_, new').
          conf_copy_loop fuel old (i + 1) new')))"

definition conf_copy_into :: "Conf \<Rightarrow> Conf \<Rightarrow> Conf res" where
  "conf_copy_into newconf oldconf =
     res_bind (conf_clear newconf) (\<lambda>newconf.
     res_bind (conf_copy_loop (nat (count234 (tree oldconf)) + 1) (tree oldconf) 0 (tree newconf)) (\<lambda>t.
     Inr (newconf\<lparr>tree := t\<rparr>)))"

definition conf_copy :: "Conf \<Rightarrow> Conf res" where
  "conf_copy oldconf = conf_copy_into conf_new oldconf"


section \<open>Reading\<close>

text \<open>The two assertions that open every accessor, with the array index checked.\<close>

definition check_types :: "nat \<Rightarrow> Type \<Rightarrow> Type \<Rightarrow> unit res" where
  "check_types p subtype valtype =
     (if p < N_CONFIG_OPTIONS
      then assert_res (subkeytypes p = subtype \<and> valuetypes p = valtype)
      else Inl OutOfBounds)"

definition conf_find :: "Conf \<Rightarrow> key \<Rightarrow> conf_entry option res" where
  "conf_find conf k = within (find234 (tree conf) (as_entry k) None)"

text \<open>Looking an entry up and asserting that it exists.\<close>

definition conf_find_asserted :: "Conf \<Rightarrow> key \<Rightarrow> conf_entry res" where
  "conf_find_asserted conf k =
     res_bind (conf_find conf k) (\<lambda>entry.
       case entry of None \<Rightarrow> Inl AssertFail | Some e \<Rightarrow> Inr e)"

fun boolval :: "conf_value \<Rightarrow> bool res" where
  "boolval (BoolVal b) = Inr b" | "boolval _ = Inl WrongMember"

fun intval :: "conf_value \<Rightarrow> int res" where
  "intval (IntVal i) = Inr i" | "intval _ = Inl WrongMember"

fun stringval :: "conf_value \<Rightarrow> byte list res" where
  "stringval (StringVal s) = Inr s" | "stringval _ = Inl WrongMember"

fun fileval :: "conf_value \<Rightarrow> byte list res" where
  "fileval (FileVal s) = Inr s" | "fileval _ = Inl WrongMember"

fun fontval :: "conf_value \<Rightarrow> byte list res" where
  "fontval (FontVal s) = Inr s" | "fontval _ = Inl WrongMember"

definition conf_get_bool :: "Conf \<Rightarrow> nat \<Rightarrow> bool res" where
  "conf_get_bool conf p =
     res_bind (check_types p TYPE_NONE TYPE_BOOL) (\<lambda>_.
     res_bind (conf_find_asserted conf \<lparr>primary = p, secondary = NoSub\<rparr>) (\<lambda>e. boolval (evalue e)))"

definition conf_get_int :: "Conf \<Rightarrow> nat \<Rightarrow> int res" where
  "conf_get_int conf p =
     res_bind (check_types p TYPE_NONE TYPE_INT) (\<lambda>_.
     res_bind (conf_find_asserted conf \<lparr>primary = p, secondary = NoSub\<rparr>) (\<lambda>e. intval (evalue e)))"

definition conf_get_int_int :: "Conf \<Rightarrow> nat \<Rightarrow> int \<Rightarrow> int res" where
  "conf_get_int_int conf p i =
     res_bind (check_types p TYPE_INT TYPE_INT) (\<lambda>_.
     res_bind (conf_find_asserted conf \<lparr>primary = p, secondary = IntSub i\<rparr>) (\<lambda>e. intval (evalue e)))"

definition conf_get_str :: "Conf \<Rightarrow> nat \<Rightarrow> byte list res" where
  "conf_get_str conf p =
     res_bind (check_types p TYPE_NONE TYPE_STR) (\<lambda>_.
     res_bind (conf_find_asserted conf \<lparr>primary = p, secondary = NoSub\<rparr>) (\<lambda>e. stringval (evalue e)))"

definition conf_get_str_str_opt :: "Conf \<Rightarrow> nat \<Rightarrow> byte list \<Rightarrow> byte list option res" where
  "conf_get_str_str_opt conf p s =
     res_bind (check_types p TYPE_STR TYPE_STR) (\<lambda>_.
     res_bind (conf_find conf \<lparr>primary = p, secondary = StrSub s\<rparr>) (\<lambda>entry.
       case entry of None \<Rightarrow> Inr None
       | Some e \<Rightarrow> res_bind (stringval (evalue e)) (\<lambda>v. Inr (Some v))))"

definition conf_get_str_str :: "Conf \<Rightarrow> nat \<Rightarrow> byte list \<Rightarrow> byte list res" where
  "conf_get_str_str conf p s =
     res_bind (conf_get_str_str_opt conf p s) (\<lambda>ret.
       case ret of None \<Rightarrow> Inl AssertFail | Some v \<Rightarrow> Inr v)"

text \<open>
  Stepping through the string subkeys of an option: the first one when no subkey is given,
  the next one otherwise.  The result is the subkey found and its value.
\<close>

definition conf_get_str_strs ::
  "Conf \<Rightarrow> nat \<Rightarrow> byte list option \<Rightarrow> (byte list \<times> byte list) option res" where
  "conf_get_str_strs conf p subkeyin =
     res_bind (check_types p TYPE_STR TYPE_STR) (\<lambda>_.
     res_bind (within (case subkeyin of
         Some s \<Rightarrow> findrel234 (tree conf) (Some (as_entry \<lparr>primary = p, secondary = StrSub s\<rparr>)) None REL234_GT
       | None \<Rightarrow> findrel234 (tree conf) (Some (as_entry \<lparr>primary = p, secondary = StrSub []\<rparr>)) (Some conf_cmp) REL234_GE))
       (\<lambda>entry.
       case entry of
         None \<Rightarrow> Inr None
       | Some e \<Rightarrow>
           if primary (ekey e) \<noteq> p then Inr None
           else res_bind (stringval (evalue e)) (\<lambda>v. Inr (Some (sub_str (secondary (ekey e)), v)))))"

definition conf_get_str_nthstrkey :: "Conf \<Rightarrow> nat \<Rightarrow> int \<Rightarrow> byte list option res" where
  "conf_get_str_nthstrkey conf p n =
     res_bind (check_types p TYPE_STR TYPE_STR) (\<lambda>_.
     res_bind (within (findrelpos234 (tree conf) (Some (as_entry \<lparr>primary = p, secondary = StrSub []\<rparr>))
                         (Some conf_cmp) REL234_GE)) (\<lambda>found.
       case found of
         None \<Rightarrow> Inr None
       | Some (e, index) \<Rightarrow>
           if primary (ekey e) \<noteq> p then Inr None
           else case index234 (tree conf) (index + n) of
             None \<Rightarrow> Inr None
           | Some e' \<Rightarrow>
               if primary (ekey e') \<noteq> p then Inr None
               else Inr (Some (sub_str (secondary (ekey e'))))))"

definition conf_get_filename :: "Conf \<Rightarrow> nat \<Rightarrow> byte list res" where
  "conf_get_filename conf p =
     res_bind (check_types p TYPE_NONE TYPE_FILENAME) (\<lambda>_.
     res_bind (conf_find_asserted conf \<lparr>primary = p, secondary = NoSub\<rparr>) (\<lambda>e. fileval (evalue e)))"

definition conf_get_fontspec :: "Conf \<Rightarrow> nat \<Rightarrow> byte list res" where
  "conf_get_fontspec conf p =
     res_bind (check_types p TYPE_NONE TYPE_FONT) (\<lambda>_.
     res_bind (conf_find_asserted conf \<lparr>primary = p, secondary = NoSub\<rparr>) (\<lambda>e. fontval (evalue e)))"

section \<open>Writing\<close>

definition conf_set_bool :: "Conf \<Rightarrow> nat \<Rightarrow> bool \<Rightarrow> Conf res" where
  "conf_set_bool conf p v =
     res_bind (check_types p TYPE_NONE TYPE_BOOL) (\<lambda>_.
     conf_insert conf \<lparr>ekey = \<lparr>primary = p, secondary = NoSub\<rparr>, evalue = BoolVal v\<rparr>)"

definition conf_set_int :: "Conf \<Rightarrow> nat \<Rightarrow> int \<Rightarrow> Conf res" where
  "conf_set_int conf p v =
     res_bind (check_types p TYPE_NONE TYPE_INT) (\<lambda>_.
     conf_insert conf \<lparr>ekey = \<lparr>primary = p, secondary = NoSub\<rparr>, evalue = IntVal v\<rparr>)"

definition conf_set_int_int :: "Conf \<Rightarrow> nat \<Rightarrow> int \<Rightarrow> int \<Rightarrow> Conf res" where
  "conf_set_int_int conf p i v =
     res_bind (check_types p TYPE_INT TYPE_INT) (\<lambda>_.
     conf_insert conf \<lparr>ekey = \<lparr>primary = p, secondary = IntSub i\<rparr>, evalue = IntVal v\<rparr>)"

definition conf_set_str :: "Conf \<Rightarrow> nat \<Rightarrow> byte list \<Rightarrow> Conf res" where
  "conf_set_str conf p v =
     res_bind (check_types p TYPE_NONE TYPE_STR) (\<lambda>_.
     conf_insert conf \<lparr>ekey = \<lparr>primary = p, secondary = NoSub\<rparr>, evalue = StringVal v\<rparr>)"

definition conf_set_str_str :: "Conf \<Rightarrow> nat \<Rightarrow> byte list \<Rightarrow> byte list \<Rightarrow> Conf res" where
  "conf_set_str_str conf p s v =
     res_bind (check_types p TYPE_STR TYPE_STR) (\<lambda>_.
     conf_insert conf \<lparr>ekey = \<lparr>primary = p, secondary = StrSub s\<rparr>, evalue = StringVal v\<rparr>)"

definition conf_del_str_str :: "Conf \<Rightarrow> nat \<Rightarrow> byte list \<Rightarrow> Conf res" where
  "conf_del_str_str conf p s =
     res_bind (check_types p TYPE_STR TYPE_STR) (\<lambda>_.
     res_bind (conf_find conf \<lparr>primary = p, secondary = StrSub s\<rparr>) (\<lambda>entry.
       case entry of
         None \<Rightarrow> Inr conf
       | Some e \<Rightarrow> res_bind (within (del234 (tree conf) e)) (\<lambda>(_, t). Inr (conf\<lparr>tree := t\<rparr>))))"

definition conf_set_filename :: "Conf \<Rightarrow> nat \<Rightarrow> byte list \<Rightarrow> Conf res" where
  "conf_set_filename conf p v =
     res_bind (check_types p TYPE_NONE TYPE_FILENAME) (\<lambda>_.
     conf_insert conf \<lparr>ekey = \<lparr>primary = p, secondary = NoSub\<rparr>, evalue = FileVal v\<rparr>)"

definition conf_set_fontspec :: "Conf \<Rightarrow> nat \<Rightarrow> byte list \<Rightarrow> Conf res" where
  "conf_set_fontspec conf p v =
     res_bind (check_types p TYPE_NONE TYPE_FONT) (\<lambda>_.
     conf_insert conf \<lparr>ekey = \<lparr>primary = p, secondary = NoSub\<rparr>, evalue = FontVal v\<rparr>)"

section \<open>Serialisation\<close>

definition toint :: "u32 \<Rightarrow> int" where
  "toint u = (if u \<le> of_nat INT_MAX then uint u
              else if u \<ge> 0x80000000 then - 0x80000000 + uint (u - 0x80000000)
              else - 0x80000000)"

definition filename_serialise :: "('s \<Rightarrow> byte list \<Rightarrow> 's res) \<Rightarrow> 's \<Rightarrow> byte list \<Rightarrow> 's res" where
  "filename_serialise wr bs path = BinarySink_put_asciz wr bs path"

definition fontspec_serialise :: "('s \<Rightarrow> byte list \<Rightarrow> 's res) \<Rightarrow> 's \<Rightarrow> byte list \<Rightarrow> 's res" where
  "fontspec_serialise wr bs name = BinarySink_put_asciz wr bs name"

definition filename_deserialise :: "BinarySource \<Rightarrow> byte list \<times> BinarySource" where
  "filename_deserialise src = BinarySource_get_asciz src"

definition fontspec_deserialise :: "BinarySource \<Rightarrow> byte list \<times> BinarySource" where
  "fontspec_deserialise src = BinarySource_get_asciz src"

definition serialise_key :: "('s \<Rightarrow> byte list \<Rightarrow> 's res) \<Rightarrow> 's \<Rightarrow> key \<Rightarrow> 's res" where
  "serialise_key wr bs k =
     (case subkeytypes (primary k) of
        TYPE_INT \<Rightarrow> BinarySink_put_uint32 wr bs (word_of_int (sub_int (secondary k)))
      | TYPE_STR \<Rightarrow> BinarySink_put_asciz wr bs (sub_str (secondary k))
      | _ \<Rightarrow> Inr bs)"

definition serialise_value :: "('s \<Rightarrow> byte list \<Rightarrow> 's res) \<Rightarrow> 's \<Rightarrow> Type \<Rightarrow> conf_value \<Rightarrow> 's res" where
  "serialise_value wr bs type v =
     (case type of
        TYPE_BOOL \<Rightarrow> res_bind (boolval v) (BinarySink_put_bool wr bs)
      | TYPE_INT \<Rightarrow> res_bind (intval v) (\<lambda>i. BinarySink_put_uint32 wr bs (word_of_int i))
      | TYPE_STR \<Rightarrow> res_bind (stringval v) (BinarySink_put_asciz wr bs)
      | TYPE_FILENAME \<Rightarrow> res_bind (fileval v) (filename_serialise wr bs)
      | TYPE_FONT \<Rightarrow> res_bind (fontval v) (fontspec_serialise wr bs)
      | TYPE_NONE \<Rightarrow> Inr bs)"

fun serialise_loop ::
  "('s \<Rightarrow> byte list \<Rightarrow> 's res) \<Rightarrow> nat \<Rightarrow> 's \<Rightarrow> conf_entry tree234 \<Rightarrow> int \<Rightarrow> 's res" where
  "serialise_loop wr 0 bs t i = Inl StepLimit"
| "serialise_loop wr (Suc fuel) bs t i =
     (case index234 t i of
        None \<Rightarrow> Inr bs
      | Some entry \<Rightarrow>
          res_bind (BinarySink_put_uint32 wr bs (of_nat (primary (ekey entry)))) (\<lambda>bs.
          res_bind (serialise_key wr bs (ekey entry)) (\<lambda>bs.
          res_bind (serialise_value wr bs (valuetypes (primary (ekey entry))) (evalue entry)) (\<lambda>bs.
          serialise_loop wr fuel bs t (i + 1)))))"

definition conf_serialise :: "('s \<Rightarrow> byte list \<Rightarrow> 's res) \<Rightarrow> 's \<Rightarrow> Conf \<Rightarrow> 's res" where
  "conf_serialise wr bs conf =
     res_bind (serialise_loop wr (nat (count234 (tree conf)) + 1) bs (tree conf) 0) (\<lambda>bs.
     BinarySink_put_uint32 wr bs 0xFFFFFFFF)"

definition deserialise_key :: "nat \<Rightarrow> BinarySource \<Rightarrow> key \<times> BinarySource" where
  "deserialise_key p src =
     (case subkeytypes p of
        TYPE_INT \<Rightarrow> (let (v, src) = BinarySource_get_uint32 src
                     in (\<lparr>primary = p, secondary = IntSub (toint (ucast v))\<rparr>, src))
      | TYPE_STR \<Rightarrow> (let (s, src) = BinarySource_get_asciz src
                     in (\<lparr>primary = p, secondary = StrSub s\<rparr>, src))
      | _ \<Rightarrow> (\<lparr>primary = p, secondary = NoSub\<rparr>, src))"

definition deserialise_value :: "Type \<Rightarrow> BinarySource \<Rightarrow> conf_value \<times> BinarySource" where
  "deserialise_value type src =
     (case type of
        TYPE_BOOL \<Rightarrow> (let (b, src) = BinarySource_get_bool src in (BoolVal b, src))
      | TYPE_INT \<Rightarrow> (let (v, src) = BinarySource_get_uint32 src in (IntVal (toint (ucast v)), src))
      | TYPE_STR \<Rightarrow> (let (s, src) = BinarySource_get_asciz src in (StringVal s, src))
      | TYPE_FILENAME \<Rightarrow> (let (s, src) = filename_deserialise src in (FileVal s, src))
      | TYPE_FONT \<Rightarrow> (let (s, src) = fontspec_deserialise src in (FontVal s, src))
      | TYPE_NONE \<Rightarrow> (BoolVal False, src))"

text \<open>
  The reading loop consumes at least four bytes per entry, so a budget of one more than the
  length of the data suffices.
\<close>

fun deserialise_loop :: "nat \<Rightarrow> Conf \<Rightarrow> BinarySource \<Rightarrow> (bool \<times> Conf \<times> BinarySource) res" where
  "deserialise_loop 0 conf src = Inl StepLimit"
| "deserialise_loop (Suc fuel) conf src =
     (let (p, src) = BinarySource_get_uint32 src; prim = (ucast p :: u32) in
      if src_err src \<noteq> BSE_NO_ERROR then Inr (False, conf, src)
      else if prim = 0xFFFFFFFF then Inr (True, conf, src)
      else if unat prim \<ge> N_CONFIG_OPTIONS then Inr (False, conf, src)
      else let (k, src) = deserialise_key (unat prim) src;
               (v, src) = deserialise_value (valuetypes (unat prim)) src
           in if src_err src \<noteq> BSE_NO_ERROR then Inr (False, conf, src)
              else res_bind (conf_insert conf \<lparr>ekey = k, evalue = v\<rparr>) (\<lambda>conf.
                deserialise_loop fuel conf src))"

definition conf_deserialise :: "Conf \<Rightarrow> BinarySource \<Rightarrow> (bool \<times> Conf \<times> BinarySource) res" where
  "conf_deserialise conf src = deserialise_loop (src_len src + 1) conf src"

end
