(* ===== verification/Conf_Correct.thy ===== *)
theory Conf_Correct
  imports Conf
begin

text \<open>
  Correctness of the configuration store: a well-formed store is a map from keys to values,
  the setters update that map, the getters read it, and writing a store out and reading it
  back gives the same store.
\<close>

section \<open>The key order\<close>

lemma strcmp_refl [simp]: "strcmp xs xs = 0"
  by (induction xs) auto

lemma strcmp_0_iff: "strcmp xs ys = 0 \<longleftrightarrow> xs = ys"
  by (induction xs ys rule: strcmp.induct) auto

lemma strcmp_flip: "strcmp ys xs = - strcmp xs ys"
  by (induction xs ys rule: strcmp.induct) auto

lemma strcmp_range: "strcmp xs ys \<in> {-1, 0, 1}"
  by (induction xs ys rule: strcmp.induct) auto

lemma strcmp_trans: "strcmp xs ys \<le> 0 \<Longrightarrow> strcmp ys zs \<le> 0 \<Longrightarrow> strcmp xs zs \<le> 0"
proof (induction xs ys arbitrary: zs rule: strcmp.induct)
  case (2 y ys)
  then show ?case by (cases zs) auto
next
  case (4 x xs y ys)
  then show ?case by (cases zs) (auto split: if_splits)
qed auto

lemma conf_cmp_key_flip: "conf_cmp_key b a = - conf_cmp_key a b"
  by (auto simp: conf_cmp_key_def split: Type.splits intro: strcmp_flip)

lemma conf_cmp_key_trans:
  assumes "conf_cmp_key a b \<le> 0" "conf_cmp_key b c \<le> 0"
  shows "conf_cmp_key a c \<le> 0"
proof (cases "primary a = primary b \<and> primary b = primary c")
  case True
  with assms show ?thesis
    by (cases "subkeytypes (primary c)")
       (auto simp: conf_cmp_key_def split: if_splits intro: strcmp_trans)
next
  case False
  with assms show ?thesis by (auto simp: conf_cmp_key_def split: if_splits)
qed

lemma cmp_order_conf: "cmp_order conf_cmp"
proof -
  have "conf_cmp_key x y \<le> 0 \<longleftrightarrow> 0 \<le> conf_cmp_key y x" for x y
    using conf_cmp_key_flip [of y x] by simp
  then show ?thesis
    unfolding cmp_order_def conf_cmp_def using conf_cmp_key_trans by blast
qed

definition int_range :: "int \<Rightarrow> bool" where
  "int_range i \<longleftrightarrow> - (2 ^ 31) \<le> i \<and> i < 2 ^ 31"

definition c_string :: "byte list \<Rightarrow> bool" where
  "c_string s \<longleftrightarrow> 0 \<notin> set s"

definition key_ok :: "key \<Rightarrow> bool" where
  "key_ok k \<longleftrightarrow> primary k < N_CONFIG_OPTIONS \<and>
     (case subkeytypes (primary k) of
        TYPE_INT \<Rightarrow> (case secondary k of IntSub i \<Rightarrow> int_range i | _ \<Rightarrow> False)
      | TYPE_STR \<Rightarrow> (case secondary k of StrSub s \<Rightarrow> c_string s | _ \<Rightarrow> False)
      | _ \<Rightarrow> secondary k = NoSub)"

definition value_ok :: "Type \<Rightarrow> conf_value \<Rightarrow> bool" where
  "value_ok type v \<longleftrightarrow>
     (case v of
        BoolVal b \<Rightarrow> type = TYPE_BOOL
      | IntVal i \<Rightarrow> type = TYPE_INT \<and> int_range i
      | StringVal s \<Rightarrow> type = TYPE_STR \<and> c_string s
      | FileVal s \<Rightarrow> type = TYPE_FILENAME \<and> c_string s
      | FontVal s \<Rightarrow> type = TYPE_FONT \<and> c_string s)"

definition entry_ok :: "conf_entry \<Rightarrow> bool" where
  "entry_ok e \<longleftrightarrow> key_ok (ekey e) \<and> value_ok (valuetypes (primary (ekey e))) (evalue e)"

definition conf_entries :: "Conf \<Rightarrow> conf_entry list" where
  "conf_entries conf = tree_list (tree conf)"

definition conf_ok :: "Conf \<Rightarrow> bool" where
  "conf_ok conf \<longleftrightarrow> sorted_tree (tree conf) \<and> cmp (tree conf) = Some conf_cmp \<and>
     (\<forall>e\<in>set (conf_entries conf). entry_ok e)"

definition conf_map :: "Conf \<Rightarrow> key \<Rightarrow> conf_value option" where
  "conf_map conf = map_of (map (\<lambda>e. (ekey e, evalue e)) (conf_entries conf))"

lemma conf_cmp_key_eq: "key_ok a \<Longrightarrow> key_ok b \<Longrightarrow> conf_cmp_key a b = 0 \<longleftrightarrow> a = b"
  by (cases a; cases b)
     (auto simp: conf_cmp_key_def key_ok_def strcmp_0_iff split: Type.splits subkey.splits if_splits)

lemma conf_cmp_eq: "entry_ok a \<Longrightarrow> entry_ok b \<Longrightarrow> conf_cmp a b = 0 \<longleftrightarrow> ekey a = ekey b"
  by (simp add: conf_cmp_def entry_ok_def conf_cmp_key_eq)

lemma conf_okD:
  assumes "conf_ok conf"
  shows "sorted_tree (tree conf)" "tree_order (tree conf) = conf_cmp"
    "e \<in> set (conf_entries conf) \<Longrightarrow> entry_ok e" "strictly conf_cmp (conf_entries conf)"
    "tree_ok (tree conf)" "cmp (tree conf) = Some conf_cmp"
  using assms sorted_treeD [of "tree conf"]
  by (auto simp: conf_ok_def tree_order_def conf_entries_def)

lemma strictly_eqI:
  assumes c: "cmp_order c" and "strictly c xs" "strictly c ys" "set xs = set ys"
  shows "xs = ys"
  using assms(2-)
proof (induction xs arbitrary: ys)
  case (Cons x xs)
  then obtain y zs where ys: "ys = y # zs" by (cases ys) auto
  have "x = y"
  proof (rule ccontr)
    assume "x \<noteq> y"
    then have "c x y < 0" "c y x < 0" using Cons.prems ys by auto
    then show False using cmp_order_flip(1) [OF c, of x y] by simp
  qed
  moreover have "x \<notin> set xs" "x \<notin> set zs"
    using Cons.prems ys \<open>x = y\<close> cmp_order_refl [OF c, of x] by auto
  moreover from calculation have "set xs = set zs" using Cons.prems(3) ys by auto
  ultimately show ?case using Cons.IH [of zs] Cons.prems ys by simp
qed simp

lemma distinct_keys:
  assumes "conf_ok conf"
  shows "distinct (map ekey (conf_entries conf))"
proof -
  have "sorted_wrt (\<lambda>a b. a \<noteq> b) (map ekey (conf_entries conf))"
    using conf_okD(4) [OF assms] unfolding sorted_wrt_map
    by (rule sorted_wrt_mono_rel [rotated])
       (auto simp: conf_cmp_def conf_cmp_key_def split: if_splits Type.splits)
  then show ?thesis by (simp add: distinct_conv_nth sorted_wrt_iff_nth_less) (metis linorder_neqE_nat)
qed

lemma entry_eta: "\<lparr>ekey = ekey e, evalue = evalue e\<rparr> = (e :: conf_entry)"
  "\<lparr>ekey = k, evalue = v\<rparr> = e \<longleftrightarrow> ekey e = k \<and> evalue e = v"
  by (cases e; auto)+

lemma conf_map_iff:
  assumes "conf_ok conf"
  shows "conf_map conf k = Some v \<longleftrightarrow> \<lparr>ekey = k, evalue = v\<rparr> \<in> set (conf_entries conf)"
proof -
  have "(k, v) \<in> (\<lambda>e. (ekey e, evalue e)) ` set (conf_entries conf) \<longleftrightarrow>
      \<lparr>ekey = k, evalue = v\<rparr> \<in> set (conf_entries conf)"
  proof
    assume "\<lparr>ekey = k, evalue = v\<rparr> \<in> set (conf_entries conf)"
    then show "(k, v) \<in> (\<lambda>e. (ekey e, evalue e)) ` set (conf_entries conf)"
      by (rule rev_image_eqI) simp
  qed (auto simp: entry_eta)
  then show ?thesis
    using distinct_keys [OF assms] unfolding conf_map_def
    by (subst map_of_eq_Some_iff) (auto simp: comp_def)
qed


section \<open>Insertion and lookup\<close>

lemma within_Some [simp]: "within (Some r) = r"
  by (simp add: within_def)

lemma conf_okI:
  assumes "sorted_tree t" "cmp t = Some conf_cmp" "\<And>e. e \<in> set (tree_list t) \<Longrightarrow> entry_ok e"
  shows "conf_ok (conf\<lparr>tree := t\<rparr>)"
  using assms by (simp add: conf_ok_def conf_entries_def)

lemma add234_new_root:
  assumes "sorted_tree t" "add234 t e = Inr (Some x, t')" "\<forall>y\<in>set (tree_list t). tree_order t e y \<noteq> 0"
  shows "root t' \<noteq> root t"
proof -
  have "set (tree_list t') = insert e (set (tree_list t))"
    using add234_sorted_tree [OF assms(1), of e] assms(2,3) by auto
  moreover have "e \<notin> set (tree_list t)"
    using assms(3) cmp_order_refl [OF sorted_treeD(3) [OF assms(1)]] by blast
  ultimately show ?thesis unfolding tree_list_def by (metis insertI1)
qed

lemma conf_insert_correct:
  assumes c: "conf_ok conf" and e: "entry_ok e"
  shows "\<exists>conf'. conf_insert conf e = Inr conf' \<and> conf_ok conf' \<and>
    set (conf_entries conf') = insert e {x \<in> set (conf_entries conf). ekey x \<noteq> ekey e}"
proof -
  let ?t = "tree conf"
  note c' = conf_okD [OF c]
  have keys: "{x \<in> set (conf_entries conf). conf_cmp e x \<noteq> 0} = {x \<in> set (conf_entries conf). ekey x \<noteq> ekey e}"
    using conf_cmp_eq [OF e] c'(3) by auto
  obtain x t where a: "add234 ?t e = Inr (Some x, t)" "sorted_tree t" "cmp t = cmp ?t"
    "if \<exists>y\<in>set (tree_list ?t). conf_cmp e y = 0
     then t = ?t \<and> x \<in> set (tree_list ?t) \<and> conf_cmp e x = 0
     else x = e \<and> set (tree_list t) = insert e (set (tree_list ?t))"
    using add234_sorted_tree [OF c'(1), of e] unfolding c'(2) by blast
  show ?thesis
  proof (cases "\<exists>y\<in>set (tree_list ?t). conf_cmp e y = 0")
    case False
    then have "root t \<noteq> root ?t" using add234_new_root [OF c'(1) a(1)] c'(2) by simp
    moreover have "set (tree_list t) = insert e (set (tree_list ?t))" using a(4) False by simp
    moreover have "set (conf_entries conf) = {x \<in> set (conf_entries conf). ekey x \<noteq> ekey e}"
      using False keys by (auto simp: conf_entries_def)
    ultimately show ?thesis
      using a c' e by (auto simp: conf_insert_def conf_entries_def intro!: conf_okI)
  next
    case True
    then have x: "t = ?t" "x \<in> set (tree_list ?t)" "conf_cmp e x = 0" using a(4) by auto
    obtain r t1 where d: "del234 ?t x = Some (Inr (r, t1))" "sorted_tree t1" "tree_order t1 = conf_cmp"
      "set (tree_list t1) = {y \<in> set (tree_list ?t). conf_cmp x y \<noteq> 0}"
      using t234.find_after_del [OF c'(1), of x] unfolding c'(2) by blast
    have none: "\<forall>y\<in>set (tree_list t1). conf_cmp e y \<noteq> 0"
      using d(4) cmp_order_equal(1) [OF cmp_order_conf x(3)] by auto
    have cmp1: "cmp t1 = Some conf_cmp" using sorted_treeD(2) [OF d(2)] d(3) by simp
    obtain x2 t2 where b: "add234 t1 e = Inr (Some x2, t2)" "sorted_tree t2" "cmp t2 = cmp t1"
      "set (tree_list t2) = insert e (set (tree_list t1))"
      using add234_sorted_tree [OF d(2), of e] none unfolding d(3) by auto
    have new: "root t2 \<noteq> root t1" using add234_new_root [OF d(2) b(1)] none d(3) by simp
    have ins: "conf_insert conf e = Inr (conf\<lparr>tree := t2\<rparr>)"
      unfolding conf_insert_def a(1) x(1) using d(1) b(1) new by simp
    have "set (tree_list t1) = {x \<in> set (conf_entries conf). ekey x \<noteq> ekey e}"
      using keys unfolding d(4) conf_entries_def cmp_order_equal(1) [OF cmp_order_conf x(3)] .
    then have ents: "set (tree_list t2) = insert e {x \<in> set (conf_entries conf). ekey x \<noteq> ekey e}"
      unfolding b(4) by simp
    have "conf_ok (conf\<lparr>tree := t2\<rparr>)"
      by (rule conf_okI [OF b(2)]) (use b(3) cmp1 ents e c'(3) in auto)
    moreover have "conf_entries (conf\<lparr>tree := t2\<rparr>) = tree_list t2" by (simp add: conf_entries_def)
    ultimately show ?thesis using ins ents by (intro exI [of _ "conf\<lparr>tree := t2\<rparr>"]) simp
  qed
qed

lemma conf_insert_map:
  assumes "conf_ok conf" "entry_ok e"
  shows "\<exists>conf'. conf_insert conf e = Inr conf' \<and> conf_ok conf' \<and>
    conf_map conf' = (conf_map conf)(ekey e \<mapsto> evalue e)"
proof -
  obtain conf' where c: "conf_insert conf e = Inr conf'" "conf_ok conf'"
    "set (conf_entries conf') = insert e {x \<in> set (conf_entries conf). ekey x \<noteq> ekey e}"
    using conf_insert_correct [OF assms] by blast
  have "conf_map conf' k = Some v \<longleftrightarrow> ((conf_map conf)(ekey e \<mapsto> evalue e)) k = Some v" for k v
    using c(3) by (auto simp: conf_map_iff [OF c(2)] conf_map_iff [OF assms(1)] entry_eta)
  then have "conf_map conf' = (conf_map conf)(ekey e \<mapsto> evalue e)"
    by (intro ext option.expand) (metis option.exhaust_sel option.sel)+
  with c show ?thesis by blast
qed


lemma as_entry_cmp:
  "conf_ok conf \<Longrightarrow> key_ok k \<Longrightarrow> x \<in> set (conf_entries conf) \<Longrightarrow> conf_cmp (as_entry k) x = 0 \<longleftrightarrow> ekey x = k"
  using conf_okD(3) [of conf x] conf_cmp_key_eq [of k "ekey x"]
  by (auto simp: conf_cmp_def as_entry_def entry_ok_def)

lemma conf_find_map:
  assumes c: "conf_ok conf" and k: "key_ok k"
  shows "conf_find conf k = Inr (map_option (\<lambda>v. \<lparr>ekey = k, evalue = v\<rparr>) (conf_map conf k))"
proof (cases "conf_map conf k")
  case None
  have "conf_cmp (as_entry k) y \<noteq> 0" if "y \<in> set (conf_entries conf)" for y
    using as_entry_cmp [OF c k that] conf_map_iff [OF c, of k "evalue y"] None that by (auto simp: entry_eta)
  with None show ?thesis
    using t234.find_none [OF conf_okD(1) [OF c], of "as_entry k"] conf_okD(2) [OF c]
    by (simp add: conf_find_def conf_entries_def)
next
  case (Some v)
  then have m: "\<lparr>ekey = k, evalue = v\<rparr> \<in> set (conf_entries conf)" using conf_map_iff [OF c] by simp
  then have "conf_cmp (as_entry k) \<lparr>ekey = k, evalue = v\<rparr> = 0" using as_entry_cmp [OF c k m] by simp
  with Some m show ?thesis
    using t234.find_iff [OF conf_okD(1) [OF c], of _ "as_entry k"] conf_okD(2) [OF c]
    by (simp add: conf_find_def conf_entries_def)
qed

lemma conf_value_ok:
  assumes "conf_ok conf" "conf_map conf k = Some v"
  shows "key_ok k \<and> value_ok (valuetypes (primary k)) v"
  using conf_okD(3) [OF assms(1), of "\<lparr>ekey = k, evalue = v\<rparr>"] conf_map_iff [OF assms(1), of k v] assms(2)
  by (auto simp: entry_ok_def)

lemma conf_del_map:
  assumes c: "conf_ok conf" and e: "e \<in> set (conf_entries conf)"
  shows "\<exists>r t. del234 (tree conf) e = Some (Inr (r, t)) \<and> conf_ok (conf\<lparr>tree := t\<rparr>) \<and>
    conf_map (conf\<lparr>tree := t\<rparr>) = (conf_map conf)(ekey e := None)"
proof -
  note c' = conf_okD [OF c]
  obtain r t where d: "del234 (tree conf) e = Some (Inr (r, t))" "sorted_tree t" "tree_order t = conf_cmp"
      "set (tree_list t) = {y \<in> set (tree_list (tree conf)). conf_cmp e y \<noteq> 0}"
    using t234.find_after_del [OF c'(1), of e] unfolding c'(2) by blast
  let ?c = "conf\<lparr>tree := t\<rparr>"
  have ents: "set (conf_entries ?c) = {y \<in> set (conf_entries conf). ekey y \<noteq> ekey e}"
    using d(4) conf_cmp_eq [OF c'(3) [OF e]] c'(3) by (auto simp: conf_entries_def)
  have "cmp t = Some conf_cmp" using sorted_treeD(2) [OF d(2)] d(3) by simp
  then have ok: "conf_ok ?c"
    using d(2) ents c'(3) by (auto simp: conf_ok_def)
  have "conf_map ?c k = Some v \<longleftrightarrow> ((conf_map conf)(ekey e := None)) k = Some v" for k v
    using ents by (auto simp: conf_map_iff [OF ok] conf_map_iff [OF c])
  then have "conf_map ?c = (conf_map conf)(ekey e := None)"
    by (intro ext option.expand) (metis option.exhaust_sel option.sel)+
  with d ok show ?thesis by blast
qed

text \<open>The keys an accessor may use.\<close>

lemma check_types_ok: "check_types p st vt = Inr () \<longleftrightarrow> p < N_CONFIG_OPTIONS \<and> subkeytypes p = st \<and> valuetypes p = vt"
  by (auto simp: check_types_def assert_res_def)

lemma conf_new_ok: "conf_ok conf_new" "conf_map conf_new = Map.empty" "conf_entries conf_new = []"
  using newtree234_sorted [OF cmp_order_conf]
  by (auto simp: conf_ok_def conf_new_def conf_entries_def conf_map_def newtree234_def)

section \<open>Copying\<close>

lemma copy_ok:
  assumes "entry_ok e"
  shows "copy_key (ekey e) = ekey e" "copy_value (evalue e) (valuetypes (primary (ekey e))) = Inr (evalue e)"
  using assms
  by (cases "ekey e"; auto simp: entry_ok_def key_ok_def value_ok_def copy_key_def copy_value_def
      split: Type.splits subkey.splits conf_value.splits)+

lemma conf_clear_loop_ok:
  assumes "sorted_tree t" "length (tree_list t) < fuel"
  shows "\<exists>t'. conf_clear_loop fuel t = Inr t' \<and> tree_ok t' \<and> cmp t' = cmp t \<and> tree_list t' = []"
  using sorted_treeD(1) [OF assms(1)] assms(2)
proof (induction fuel arbitrary: t)
  case (Suc fuel)
  have cnt: "countnode234 (root t) = int (length (tree_list t))"
    using countnode_wf Suc.prems(1) by (auto simp: tree_ok_def tree_list_def)
  show ?case
  proof (cases "tree_list t")
    case Nil
    with cnt Suc.prems show ?thesis by (auto simp: delpos234_def)
  next
    case (Cons x xs)
    obtain t' where t': "delpos234_internal t 0 = Inr (Some x, t')" "tree_ok t'" "cmp t' = cmp t" "tree_list t' = xs"
      using delpos234_internal_correct [OF Suc.prems(1), of 0] Cons by auto
    moreover have "delpos234 t 0 = delpos234_internal t 0" using cnt Cons by (simp add: delpos234_def)
    ultimately show ?thesis using Suc.IH [of t'] Suc.prems Cons by auto
  qed
qed simp

lemma conf_clear_ok:
  assumes "conf_ok conf"
  shows "\<exists>conf'. conf_clear conf = Inr conf' \<and> conf_ok conf' \<and> conf_entries conf' = []"
proof -
  note c' = conf_okD [OF assms]
  have "length (tree_list (tree conf)) < nat (count234 (tree conf)) + 1"
    using count234_length [OF c'(5)] by simp
  from conf_clear_loop_ok [OF c'(1) this] obtain t where
    "conf_clear_loop (nat (count234 (tree conf)) + 1) (tree conf) = Inr t" "tree_ok t"
    "cmp t = cmp (tree conf)" "tree_list t = []" by blast
  then show ?thesis using c'(6) cmp_order_conf
    by (auto simp: conf_clear_def conf_ok_def conf_entries_def sorted_tree_def)
qed

lemma conf_copy_loop_ok:
  assumes old: "conf_ok old" and "sorted_tree new" "cmp new = Some conf_cmp"
    "set (tree_list new) = set (take i (conf_entries old))" "i \<le> length (conf_entries old)"
    "length (conf_entries old) - i < fuel"
  shows "\<exists>t. conf_copy_loop fuel (tree old) (int i) new = Inr t \<and> sorted_tree t \<and> cmp t = Some conf_cmp \<and>
    set (tree_list t) = set (conf_entries old)"
  using assms(2-)
proof (induction fuel arbitrary: i new)
  case (Suc fuel)
  note o' = conf_okD [OF old]
  have idx: "index234 (tree old) (int i) = (if i < length (conf_entries old) then Some (conf_entries old ! i) else None)"
    using index234_nth [OF o'(5), of "int i"] by (simp add: conf_entries_def)
  show ?case
  proof (cases "i < length (conf_entries old)")
    case False
    with Suc.prems idx show ?thesis by simp
  next
    case True
    let ?e = "conf_entries old ! i"
    have e: "entry_ok ?e" using o'(3) True by simp
    have ord: "tree_order new = conf_cmp" using Suc.prems(2) by (simp add: tree_order_def)
    have fresh: "\<forall>y\<in>set (tree_list new). conf_cmp ?e y \<noteq> 0"
    proof
      fix y assume "y \<in> set (tree_list new)"
      then obtain j where j: "j < i" "y = conf_entries old ! j"
        using Suc.prems(3,4) by (auto simp: in_set_conv_nth)
      then have "conf_cmp y ?e < 0" using sorted_wrt_nth_less [OF o'(4) j(1) True] by simp
      then show "conf_cmp ?e y \<noteq> 0" using cmp_order_flip(1) [OF cmp_order_conf] by force
    qed
    obtain x t' where a: "add234 new ?e = Inr (Some x, t')" "sorted_tree t'" "cmp t' = cmp new"
      "set (tree_list t') = insert ?e (set (tree_list new))"
      using add234_sorted_tree [OF Suc.prems(1), of ?e] fresh unfolding ord by auto
    have "set (tree_list t') = set (take (Suc i) (conf_entries old))"
      using a(4) Suc.prems(3) True by (simp add: take_Suc_conv_app_nth)
    then obtain t where "conf_copy_loop fuel (tree old) (int (Suc i)) t' = Inr t" "sorted_tree t" "cmp t = Some conf_cmp"
      "set (tree_list t) = set (conf_entries old)"
      using Suc.IH [OF a(2), of "Suc i"] a(3) Suc.prems(2,5) True diff_less_mono by fastforce
    then show ?thesis
      using idx True a(1) copy_ok [OF e] by (simp add: add.commute entry_eta)
  qed
qed simp

lemma conf_copy_into_ok:
  assumes "conf_ok new" "conf_ok old"
  shows "\<exists>conf. conf_copy_into new old = Inr conf \<and> conf_ok conf \<and> conf_entries conf = conf_entries old"
proof -
  note o' = conf_okD [OF assms(2)]
  obtain n where n: "conf_clear new = Inr n" "conf_ok n" "conf_entries n = []"
    using conf_clear_ok [OF assms(1)] by blast
  have "nat (count234 (tree old)) = length (conf_entries old)"
    using count234_length [OF o'(5)] by (simp add: conf_entries_def)
  then obtain t where t: "conf_copy_loop (nat (count234 (tree old)) + 1) (tree old) 0 (tree n) = Inr t"
    "sorted_tree t" "cmp t = Some conf_cmp" "set (tree_list t) = set (conf_entries old)"
    using conf_copy_loop_ok [OF assms(2) conf_okD(1,6) [OF n(2)], of 0 "nat (count234 (tree old)) + 1"] n(3)
    by (auto simp: conf_entries_def)
  have ok: "conf_ok (n\<lparr>tree := t\<rparr>)"
    by (rule conf_okI [OF t(2,3)]) (use t(4) o'(3) in auto)
  have "conf_entries (n\<lparr>tree := t\<rparr>) = conf_entries old"
    by (rule strictly_eqI [OF cmp_order_conf conf_okD(4) [OF ok] o'(4)]) (use t(4) in \<open>simp add: conf_entries_def\<close>)
  then show ?thesis using n t ok by (simp add: conf_copy_into_def)
qed


section \<open>Serialisation\<close>

definition key_bytes :: "key \<Rightarrow> byte list" where
  "key_bytes k =
     (case subkeytypes (primary k) of
        TYPE_INT \<Rightarrow> PUT_32BIT_MSB_FIRST (word_of_int (sub_int (secondary k)))
      | TYPE_STR \<Rightarrow> sub_str (secondary k) @ [0]
      | _ \<Rightarrow> [])"

fun value_bytes :: "conf_value \<Rightarrow> byte list" where
  "value_bytes (BoolVal b) = [of_bool b]"
| "value_bytes (IntVal i) = PUT_32BIT_MSB_FIRST (word_of_int i)"
| "value_bytes (StringVal s) = s @ [0]"
| "value_bytes (FileVal s) = s @ [0]"
| "value_bytes (FontVal s) = s @ [0]"

definition entry_bytes :: "conf_entry \<Rightarrow> byte list" where
  "entry_bytes e = PUT_32BIT_MSB_FIRST (of_nat (primary (ekey e))) @ key_bytes (ekey e) @ value_bytes (evalue e)"

definition conf_bytes :: "Conf \<Rightarrow> byte list" where
  "conf_bytes conf = concat (map entry_bytes (conf_entries conf)) @ PUT_32BIT_MSB_FIRST 0xFFFFFFFF"

lemma ucast_word_of_int_u64: "(ucast (word_of_int i :: u64) :: u32) = word_of_int i"
  by (rule bit_word_eqI) (auto simp: bit_simps)

text \<open>
  The serialiser asks more of its sink than the \<open>put\<close> functions: writes succeed while there is room, and use up no more of it
  than their length.
\<close>

locale roomy_sink = binary_sink wr contents invar
  for wr :: "'s \<Rightarrow> byte list \<Rightarrow> 's res" and contents :: "'s \<Rightarrow> byte option list" and invar :: "'s \<Rightarrow> bool" +
  fixes room :: "'s \<Rightarrow> nat"
  assumes write_room: "invar s \<Longrightarrow> length d < room s \<Longrightarrow> \<exists>s'. wr s d = Inr s' \<and> room s \<le> room s' + length d"
begin

definition fills :: "'s \<Rightarrow> 's res \<Rightarrow> byte list \<Rightarrow> bool" where
  "fills s r d \<longleftrightarrow> appends s r d \<and> (length d < room s \<longrightarrow> (\<exists>s'. r = Inr s' \<and> room s \<le> room s' + length d))"

lemma fills_write: "invar s \<Longrightarrow> fills s (wr s d) d"
  using appends_write write_room by (auto simp: fills_def)

lemma fills_none: "invar s \<Longrightarrow> fills s (Inr s) []"
  by (simp add: fills_def appends_def)

lemma fills_bind:
  assumes "fills s r d" and "\<And>s'. invar s' \<Longrightarrow> fills s' (f s') d'"
  shows "fills s (res_bind r f) (d @ d')"
proof -
  have "\<exists>s''. res_bind r f = Inr s'' \<and> room s \<le> room s'' + length (d @ d')" if "length (d @ d') < room s"
  proof -
    have "length d < room s" using that by simp
    then obtain s' where s': "r = Inr s'" "room s \<le> room s' + length d" using assms(1) by (auto simp: fills_def)
    then have "invar s'" using assms(1) by (simp add: fills_def appends_def)
    from assms(2) [OF this] s' that show ?thesis by (force simp: fills_def)
  qed
  moreover have "appends s (res_bind r f) (d @ d')" using assms by (intro appends_bind) (simp_all add: fills_def)
  ultimately show ?thesis by (simp add: fills_def)
qed

lemma fills_fixed:
  assumes "invar s"
  shows "fills s (BinarySink_put_bool wr s t) [of_bool t]"
    and "fills s (BinarySink_put_uint32 wr s v) (PUT_32BIT_MSB_FIRST (ucast v))"
    and "fills s (BinarySink_put_asciz wr s d) (d @ [0])"
  using fills_write [OF assms]
  by (simp_all add: BinarySink_put_bool_def BinarySink_put_uint32_def BinarySink_put_asciz_def Let_def of_bool_def)

lemma put_u32_int: "invar s \<Longrightarrow> fills s (BinarySink_put_uint32 wr s (word_of_int i)) (PUT_32BIT_MSB_FIRST (word_of_int i))"
  using fills_fixed(2) [of s "word_of_int i"] by (simp add: ucast_word_of_int_u64)

lemma serialise_key_fills:
  "invar s \<Longrightarrow> fills s (serialise_key wr s k) (key_bytes k)"
  by (auto simp: serialise_key_def key_bytes_def split: Type.splits
      intro: put_u32_int fills_fixed(3) fills_none)

lemma serialise_value_fills:
  "invar s \<Longrightarrow> value_ok ty v \<Longrightarrow> fills s (serialise_value wr s ty v) (value_bytes v)"
  using fills_fixed(1,3) put_u32_int
  by (cases v) (auto simp: serialise_value_def value_ok_def filename_serialise_def fontspec_serialise_def
      simp del: of_bool_eq split del: split_of_bool)

lemma serialise_loop_fills:
  assumes c: "conf_ok conf" and "invar s" "i \<le> length (conf_entries conf)"
    "length (conf_entries conf) - i < fuel"
  shows "fills s (serialise_loop wr fuel s (tree conf) (int i))
    (concat (map entry_bytes (drop i (conf_entries conf))))"
  using assms(2-)
proof (induction fuel arbitrary: i s)
  case (Suc fuel)
  note c' = conf_okD [OF c]
  have idx: "index234 (tree conf) (int i) = (if i < length (conf_entries conf) then Some (conf_entries conf ! i) else None)"
    using index234_nth [OF c'(5), of "int i"] by (simp add: conf_entries_def)
  show ?case
  proof (cases "i < length (conf_entries conf)")
    case False
    with Suc.prems idx show ?thesis by (simp add: fills_none)
  next
    case True
    let ?e = "conf_entries conf ! i"
    have e: "value_ok (valuetypes (primary (ekey ?e))) (evalue ?e)"
      using c'(3) [of ?e] True by (simp add: entry_ok_def)
    have rest: "fills s' (serialise_loop wr fuel s' (tree conf) (int i + 1))
        (concat (map entry_bytes (drop (Suc i) (conf_entries conf))))" if "invar s'" for s'
      using Suc.IH [OF that, of "Suc i"] Suc.prems True by (simp add: add.commute less_diff_conv2 Suc_le_eq)
    have "fills s (serialise_loop wr (Suc fuel) s (tree conf) (int i))
       (PUT_32BIT_MSB_FIRST (of_nat (primary (ekey ?e))) @ key_bytes (ekey ?e) @ value_bytes (evalue ?e) @
        concat (map entry_bytes (drop (Suc i) (conf_entries conf))))"
      using idx True put_u32_int [of s "int (primary (ekey ?e))"] Suc.prems(1)
      by (auto intro!: fills_bind serialise_key_fills serialise_value_fills e rest)
    moreover have "drop i (conf_entries conf) = ?e # drop (Suc i) (conf_entries conf)"
      using True by (simp add: Cons_nth_drop_Suc)
    moreover have "concat (map entry_bytes (?e # drop (Suc i) (conf_entries conf))) =
        PUT_32BIT_MSB_FIRST (of_nat (primary (ekey ?e))) @ key_bytes (ekey ?e) @ value_bytes (evalue ?e) @
        concat (map entry_bytes (drop (Suc i) (conf_entries conf)))"
      by (simp add: entry_bytes_def [of ?e])
    ultimately show ?thesis by metis
  qed
qed simp

lemma conf_serialise_fills:
  assumes c: "conf_ok conf" and s: "invar s"
  shows "fills s (conf_serialise wr s conf) (conf_bytes conf)"
proof -
  have "nat (count234 (tree conf)) = length (conf_entries conf)"
    using count234_length [OF conf_okD(5) [OF c]] by (simp add: conf_entries_def)
  then show ?thesis
    unfolding conf_serialise_def conf_bytes_def
    using serialise_loop_fills [OF c s, of 0 "nat (count234 (tree conf)) + 1"] fills_fixed(2) [of _ "0xFFFFFFFF"]
    by (auto intro!: fills_bind)
qed

end

text \<open>A string buffer has room up to half a gigabyte when the allocator never refuses.\<close>

definition strbuf_room :: "(nat \<Rightarrow> bool) \<Rightarrow> strbuf \<Rightarrow> nat" where
  "strbuf_room alloc b = (if (\<forall>n. alloc n) \<and> sb_size b \<le> 2 ^ 30 then 2 ^ 29 - sb_len b else 0)"

lemma strbuf_write_room:
  assumes "strbuf_ok b" "length d < strbuf_room alloc b"
  shows "\<exists>b'. strbuf_BinarySink_write alloc b d = Inr b' \<and> strbuf_room alloc b \<le> strbuf_room alloc b' + length d"
proof -
  have al: "\<forall>n. alloc n" and sz: "sb_size b \<le> 2 ^ 30" and len: "sb_len b + length d < 2 ^ 29"
    using assms(2) by (auto simp: strbuf_room_def split: if_splits)
  obtain b' where b': "strbuf_BinarySink_write alloc b d = Inr b'" using strbuf_write_succeeds [OF assms(1) al sz] len by fastforce
  then obtain s n rel where g: "safegrowarray alloc (sb_s b) (sb_size b) 1 (sb_len b + 1) (length d) (sb_nm b) = Inr (s, n, rel)"
    "sb_size b' = n" "sb_len b' = sb_len b + length d"
    by (auto simp: strbuf_BinarySink_write_def strbuf_append_def res_bind_eq_Inr Let_def)
  from g(1) have "n \<le> 2 ^ 30"
  proof (cases rule: safegrowarray_cases)
    case enough
    then show ?thesis using sz by simp
  next
    case grown
    then have "n \<le> sb_len b + 1 + length d + 256 + sb_size b div 16" using grow_size_le [OF grown(1)] by simp
    then show ?thesis using grown(1) len by simp
  qed
  then show ?thesis using b' g al by (auto simp: strbuf_room_def)
qed

interpretation rs: roomy_sink "strbuf_BinarySink_write alloc" strbuf_contents strbuf_ok "strbuf_room alloc" for alloc
  by unfold_locales (rule strbuf_write_room)

text \<open>Reading back.\<close>

abbreviation advance :: "nat \<Rightarrow> BinarySource \<Rightarrow> BinarySource" where
  "advance n src \<equiv> src\<lparr>src_pos := src_pos src + n\<rparr>"

lemma here_after:
  assumes "src_here src = xs @ ys"
  shows "src_here (advance (length xs) src) = ys"
  using assms by simp

lemma get_u32_enc:
  assumes "src_err src = BSE_NO_ERROR" "src_here src = PUT_32BIT_MSB_FIRST w @ rest"
  shows "BinarySource_get_uint32 src = (ucast w, advance 4 src)"
proof -
  have "unat w < 2 ^ LENGTH(32)" by (rule unsigned_less)
  then have "unat (ucast w :: u64) < 2 ^ 32" by (simp add: unsigned_ucast_eq take_bit_nat_eq_self)
  moreover have "(ucast (ucast w :: u64) :: u32) = w" by (rule bit_word_eqI) (auto simp: bit_simps)
  ultimately show ?thesis
    using uint32_codec.get_enc [of "ucast w" src rest] assms by (simp add: PUT_32BIT_MSB_FIRST_def)
qed

lemma toint_word_of_int: "int_range i \<Longrightarrow> toint (word_of_int i) = i"
proof -
  assume i: "int_range i"
  show ?thesis
  proof (cases "0 \<le> i")
    case True
    then have "uint (word_of_int i :: u32) = i" using i by (simp add: int_range_def uint_word_of_int)
    then show ?thesis using i True by (simp add: toint_def word_le_def int_range_def)
  next
    case False
    have "i mod 4294967296 = (i + 4294967296) mod 4294967296" by simp
    also have "\<dots> = i + 4294967296"
      using i False by (intro mod_pos_pos_trivial) (simp_all add: int_range_def)
    finally have m: "i mod 4294967296 = i + 4294967296" .
    then have u: "uint (word_of_int i :: u32) = i + 4294967296" by (simp add: uint_word_of_int)
    have "(i - 2147483648) mod 4294967296 = (i + 2147483648) mod 4294967296"
      using mod_add_self2 [of "i - 2147483648" 4294967296] by (simp add: add.commute)
    also have "\<dots> = i + 2147483648"
      using i False by (intro mod_pos_pos_trivial) (simp_all add: int_range_def)
    finally have "uint (word_of_int (i - 2147483648) :: u32) = i + 2147483648"
      by (simp add: uint_word_of_int del: of_int_diff)
    then have "uint (word_of_int i - 0x80000000 :: u32) = i + 2147483648" by simp
    moreover have "\<not> (word_of_int i :: u32) \<le> 2147483647" "2147483648 \<le> (word_of_int i :: u32)"
      unfolding word_le_def u using i False by (simp_all add: int_range_def)
    ultimately show ?thesis by (simp add: toint_def)
  qed
qed


lemma get_asciz_enc:
  "src_err src = BSE_NO_ERROR \<Longrightarrow> c_string d \<Longrightarrow> src_here src = d @ 0 # rest \<Longrightarrow>
     BinarySource_get_asciz src = (d, advance (length d + 1) src)"
  using asciz_codec.get_enc [of d src rest] by (simp add: c_string_def)

lemma get_bool_enc:
  "src_err src = BSE_NO_ERROR \<Longrightarrow> src_here src = of_bool b # rest \<Longrightarrow>
     BinarySource_get_bool src = (b, advance 1 src)"
  using bool_codec.get_enc [where x = b and src = src and rest = rest] by simp

lemma length_PUT_32 [simp]: "length (PUT_32BIT_MSB_FIRST w) = 4"
  by (simp add: PUT_32BIT_MSB_FIRST_def)

lemma ucast_u32_u64_u32: "(ucast (ucast (w :: u32) :: u64) :: u32) = w"
  by (rule bit_word_eqI) (auto simp: bit_simps)

lemma deserialise_key_enc:
  assumes "key_ok k" "src_err src = BSE_NO_ERROR" "src_here src = key_bytes k @ rest"
  shows "deserialise_key (primary k) src = (k, advance (length (key_bytes k)) src)"
proof (cases "subkeytypes (primary k)")
  case TYPE_INT
  with assms show ?thesis
    using get_u32_enc [OF assms(2), of "word_of_int (sub_int (secondary k))" rest]
    by (cases k) (auto simp: deserialise_key_def key_bytes_def key_ok_def ucast_u32_u64_u32 toint_word_of_int
        split: subkey.splits)
next
  case TYPE_STR
  with assms show ?thesis
    using get_asciz_enc [OF assms(2), of "sub_str (secondary k)" rest]
    by (cases k) (auto simp: deserialise_key_def key_bytes_def key_ok_def split: subkey.splits)
qed (use assms in \<open>cases k; simp add: deserialise_key_def key_bytes_def key_ok_def\<close>)+

lemma deserialise_value_enc:
  assumes "value_ok ty v" "src_err src = BSE_NO_ERROR" "src_here src = value_bytes v @ rest"
  shows "deserialise_value ty src = (v, advance (length (value_bytes v)) src)"
proof (cases v)
  case (BoolVal b)
  with assms show ?thesis using get_bool_enc [OF assms(2), of b rest]
    by (simp add: deserialise_value_def value_ok_def)
next
  case (IntVal i)
  with assms show ?thesis using get_u32_enc [OF assms(2), of "word_of_int i" rest]
    by (simp add: deserialise_value_def value_ok_def ucast_u32_u64_u32 toint_word_of_int)
next
  case (StringVal d)
  with assms show ?thesis using get_asciz_enc [OF assms(2), of d rest]
    by (simp add: deserialise_value_def value_ok_def)
next
  case (FileVal d)
  with assms show ?thesis using get_asciz_enc [OF assms(2), of d rest]
    by (simp add: deserialise_value_def value_ok_def filename_deserialise_def)
next
  case (FontVal d)
  with assms show ?thesis using get_asciz_enc [OF assms(2), of d rest]
    by (simp add: deserialise_value_def value_ok_def fontspec_deserialise_def)
qed

lemma primary_small: "key_ok k \<Longrightarrow> unat (of_nat (primary k) :: u32) = primary k \<and> (of_nat (primary k) :: u32) \<noteq> 0xFFFFFFFF"
proof -
  assume "key_ok k"
  moreover have "N_CONFIG_OPTIONS = 202"
    by (simp add: N_CONFIG_OPTIONS_def config_options_def config_options_1_def config_options_2_def)
  ultimately have p: "primary k < 202" by (simp add: key_ok_def)
  then have "unat (of_nat (primary k) :: u32) = primary k" by (simp add: unat_of_nat)
  with p show ?thesis by (auto dest: arg_cong [where f = unat])
qed

lemma deserialise_loop_enc:
  assumes "\<forall>e\<in>set es. entry_ok e" "conf_ok conf" "src_err src = BSE_NO_ERROR"
    "src_here src = concat (map entry_bytes es) @ PUT_32BIT_MSB_FIRST 0xFFFFFFFF @ rest" "length es < fuel"
  shows "\<exists>conf' src'. deserialise_loop fuel conf src = Inr (True, conf', src') \<and> conf_ok conf' \<and>
    src_here src' = rest \<and> src_err src' = BSE_NO_ERROR \<and>
    conf_map conf' = foldl (\<lambda>m e. m(ekey e \<mapsto> evalue e)) (conf_map conf) es"
  using assms
proof (induction es arbitrary: conf src fuel)
  case Nil
  then obtain f where "fuel = Suc f" by (cases fuel) auto
  with Nil get_u32_enc [of src "0xFFFFFFFF" rest] show ?case
    by (simp add: ucast_u32_u64_u32)
next
  case (Cons e es)
  obtain f where f: "fuel = Suc f" using Cons.prems by (cases fuel) auto
  let ?k = "ekey e" and ?v = "evalue e"
  let ?tail = "concat (map entry_bytes es) @ PUT_32BIT_MSB_FIRST 0xFFFFFFFF @ rest"
  have e: "key_ok ?k" "value_ok (valuetypes (primary ?k)) ?v" "entry_ok e"
    using Cons.prems(1) by (auto simp: entry_ok_def)
  let ?s1 = "advance 4 src"
  let ?s2 = "advance (length (key_bytes ?k)) ?s1"
  let ?s3 = "advance (length (value_bytes ?v)) ?s2"
  have h0: "src_here src = PUT_32BIT_MSB_FIRST (of_nat (primary ?k)) @ key_bytes ?k @ value_bytes ?v @ ?tail"
    using Cons.prems(4) by (simp add: entry_bytes_def [of e])
  have h1: "src_here ?s1 = key_bytes ?k @ value_bytes ?v @ ?tail" using here_after [OF h0] by simp
  have h2: "src_here ?s2 = value_bytes ?v @ ?tail" by (rule here_after [OF h1])
  have h3: "src_here ?s3 = ?tail" by (rule here_after [OF h2])
  have g0: "BinarySource_get_uint32 src = (ucast (of_nat (primary ?k) :: u32), ?s1)"
    by (rule get_u32_enc [OF Cons.prems(3) h0])
  have g1: "deserialise_key (primary ?k) ?s1 = (?k, ?s2)"
    by (rule deserialise_key_enc [OF e(1) _ h1]) (simp add: Cons.prems)
  have g2: "deserialise_value (valuetypes (primary ?k)) ?s2 = (?v, ?s3)"
    by (rule deserialise_value_enc [OF e(2) _ h2]) (simp add: Cons.prems)
  obtain c1 where c1: "conf_insert conf e = Inr c1" "conf_ok c1" "conf_map c1 = (conf_map conf)(?k \<mapsto> ?v)"
    using conf_insert_map [OF Cons.prems(2) e(3)] by blast
  have "deserialise_loop fuel conf src = deserialise_loop f c1 ?s3"
    using f g0 g1 g2 c1(1) primary_small [OF e(1)] e(1) Cons.prems(3)
    by (simp add: ucast_u32_u64_u32 entry_eta key_ok_def)
  then show ?case
    using Cons.IH [OF _ c1(2) _ h3, of f] Cons.prems f c1(3) by simp
qed


lemma foldl_map_add:
  "foldl (\<lambda>m e. m(f e \<mapsto> g e)) m es = m ++ map_of (rev (map (\<lambda>e. (f e, g e)) es))"
  by (induction es arbitrary: m) (auto simp: map_add_def fun_eq_iff split: option.split)

lemma map_of_rev_entries:
  "conf_ok conf \<Longrightarrow> map_of (rev (map (\<lambda>e. (ekey e, evalue e)) (conf_entries conf))) = conf_map conf"
  using distinct_keys [of conf] unfolding conf_map_def
  by (intro map_of_inject_set [THEN iffD2]) (auto simp: comp_def rev_map [symmetric])

lemma conf_entries_eqI:
  assumes "conf_ok a" "conf_ok b" "conf_map a = conf_map b"
  shows "conf_entries a = conf_entries b"
proof -
  have "e \<in> set (conf_entries a) \<longleftrightarrow> e \<in> set (conf_entries b)" for e
    using conf_map_iff [OF assms(1), of "ekey e" "evalue e"] conf_map_iff [OF assms(2), of "ekey e" "evalue e"] assms(3)
    by (simp add: entry_eta)
  then show ?thesis
    using strictly_eqI [OF cmp_order_conf conf_okD(4) [OF assms(1)] conf_okD(4) [OF assms(2)]] by blast
qed

lemma concat_entry_length: "length es \<le> length (concat (map entry_bytes es))"
  by (induction es) (auto simp: entry_bytes_def)


section \<open>Enumeration of subkeys\<close>

lemma rel_spec_least:
  assumes c: "cmp_order c" and s: "strictly c xs" and r: "rel_spec (c e) rel xs (Some (x, i))"
    and rel: "rel = REL234_GT \<or> rel = REL234_GE"
  shows "x \<in> set xs" "if rel = REL234_GT then c e x < 0 else c e x \<le> 0"
    "\<And>y. y \<in> set xs \<Longrightarrow> (if rel = REL234_GT then c e y < 0 else c e y \<le> 0) \<Longrightarrow> c x y \<le> 0"
proof -
  have i: "0 \<le> i" "nat i < length xs" "xs ! nat i = x" using r by (auto simp: rel_spec_def)
  then show "x \<in> set xs" by auto
  show "if rel = REL234_GT then c e x < 0 else c e x \<le> 0" using r rel by (auto simp: rel_spec_def)
  fix y assume y: "y \<in> set xs" "if rel = REL234_GT then c e y < 0 else c e y \<le> 0"
  show "c x y \<le> 0"
  proof (cases "c e x = 0")
    case True
    then have "c e y \<le> 0" using y(2) by (auto split: if_splits)
    then show ?thesis using True cmp_order_flip(2) [OF c, of e x] c unfolding cmp_order_def by (metis order_refl)
  next
    case False
    then have before: "\<And>z. z \<in> set (take (nat i) xs) \<Longrightarrow> (if rel = REL234_GT then 0 \<le> c e z else 0 < c e z)"
      using r rel by (auto simp: rel_spec_def)
    obtain j where j: "j < length xs" "y = xs ! j" using y(1) by (auto simp: in_set_conv_nth)
    have "\<not> j < nat i"
    proof
      assume "j < nat i"
      then have "y \<in> set (take (nat i) xs)" using j i by (auto simp: in_set_conv_nth intro!: exI [of _ j])
      from before [OF this] y(2) show False by (auto split: if_splits)
    qed
    then consider "j = nat i" | "nat i < j" by linarith
    then show ?thesis
      using sorted_wrt_nth_less [OF s, of "nat i" j] j i cmp_order_refl [OF c, of x] by cases auto
  qed
qed

lemma findrel_conf:
  assumes c: "conf_ok conf" and f: "f = None \<or> f = Some conf_cmp"
  shows "\<exists>r. findrelpos234 (tree conf) (Some e) f rel = Some (Inr r) \<and>
    rel_spec (conf_cmp e) rel (conf_entries conf) r"
proof -
  note c' = conf_okD [OF c]
  have "query_dir (Some e) conf_cmp rel = conf_cmp e" by (simp add: query_dir_def fun_eq_iff)
  moreover have "findrelpos234 (tree conf) (Some e) f rel = findrelpos_with (tree conf) (Some e) conf_cmp rel"
    using f c'(6) by (auto simp: findrelpos234_def)
  ultimately show ?thesis
    using findrelpos_with_correct [OF c'(5), of "Some e" conf_cmp rel]
      strictly_descending [OF cmp_order_conf c'(4), of e]
    by (simp add: conf_entries_def)
qed

definition str_key :: "nat \<Rightarrow> byte list \<Rightarrow> key" where
  "str_key p s = \<lparr>primary = p, secondary = StrSub s\<rparr>"

definition after_subkey :: "byte list option \<Rightarrow> byte list \<Rightarrow> bool" where
  "after_subkey sk s \<longleftrightarrow> (case sk of None \<Rightarrow> True | Some s0 \<Rightarrow> strcmp s0 s < 0)"

definition next_subkey :: "Conf \<Rightarrow> nat \<Rightarrow> byte list option \<Rightarrow> (byte list \<times> byte list) option \<Rightarrow> bool" where
  "next_subkey conf p sk r \<longleftrightarrow>
     (case r of
        None \<Rightarrow> \<forall>s. after_subkey sk s \<longrightarrow> conf_map conf (str_key p s) = None
      | Some (s, v) \<Rightarrow> after_subkey sk s \<and> conf_map conf (str_key p s) = Some (StringVal v) \<and>
          (\<forall>s'. after_subkey sk s' \<longrightarrow> conf_map conf (str_key p s') \<noteq> None \<longrightarrow> strcmp s s' \<le> 0))"

lemma strcmp_empty: "strcmp [] s \<le> 0"
  by (cases s) auto

lemma next_subkey_correct:
  assumes c: "conf_ok conf" and p: "p < N_CONFIG_OPTIONS" "subkeytypes p = TYPE_STR" "valuetypes p = TYPE_STR"
    and rel: "rel = (if sk = None then REL234_GE else REL234_GT)"
    and e: "e = as_entry (str_key p (case sk of None \<Rightarrow> [] | Some s \<Rightarrow> s))"
    and r: "rel_spec (conf_cmp e) rel (conf_entries conf) r"
  shows "\<exists>res. next_subkey conf p sk res \<and>
    (case r of None \<Rightarrow> res = None
     | Some (x, i) \<Rightarrow> if primary (ekey x) \<noteq> p then res = None
         else \<exists>v. evalue x = StringVal v \<and> res = Some (sub_str (secondary (ekey x)), v))"
proof -
  let ?beyond = "\<lambda>y. if rel = REL234_GT then conf_cmp e y < 0 else conf_cmp e y \<le> 0"
  note c' = conf_okD [OF c]
  have relc: "rel = REL234_GT \<or> rel = REL234_GE" using rel by simp
  have beyond: "?beyond y \<longleftrightarrow> after_subkey sk s" if "ekey y = str_key p s" for y s
    using that p rel e strcmp_empty [of s]
    by (auto simp: conf_cmp_def conf_cmp_key_def as_entry_def str_key_def after_subkey_def split: option.splits)
  have in_map: "conf_map conf (str_key p s) = Some v \<longleftrightarrow> \<lparr>ekey = str_key p s, evalue = v\<rparr> \<in> set (conf_entries conf)" for s v
    by (rule conf_map_iff [OF c])
  show ?thesis
  proof (cases r)
    case None
    have "conf_map conf (str_key p s) = None" if a: "after_subkey sk s" for s
    proof (rule ccontr)
      assume "conf_map conf (str_key p s) \<noteq> None"
      then obtain v where v: "\<lparr>ekey = str_key p s, evalue = v\<rparr> \<in> set (conf_entries conf)" using in_map by auto
      with a beyond [of "\<lparr>ekey = str_key p s, evalue = v\<rparr>" s] r None relc show False
        by (auto simp: rel_spec_def split: if_splits)
    qed
    with None show ?thesis by (auto simp: next_subkey_def)
  next
    case (Some xi)
    obtain x i where xi: "r = Some (x, i)" using Some by (cases xi) auto
    note least = rel_spec_least [OF cmp_order_conf c'(4) r [unfolded xi] relc]
    have x_ok: "entry_ok x" using c'(3) least(1) by blast
    show ?thesis
    proof (cases "primary (ekey x) = p")
      case True
      then obtain s v where sv: "ekey x = str_key p s" "evalue x = StringVal v"
        using x_ok p by (cases "ekey x") (auto simp: entry_ok_def key_ok_def value_ok_def str_key_def
            split: subkey.splits conf_value.splits)
      have "conf_map conf (str_key p s) = Some (StringVal v)" using in_map least(1) sv entry_eta(1) [of x] by metis
      moreover have "after_subkey sk s" using beyond [OF sv(1)] least(2) by simp
      moreover have "strcmp s s' \<le> 0" if a: "after_subkey sk s'" "conf_map conf (str_key p s') \<noteq> None" for s'
      proof -
        obtain w where w: "\<lparr>ekey = str_key p s', evalue = w\<rparr> \<in> set (conf_entries conf)" using a(2) in_map by auto
        from least(3) [OF w] beyond [of "\<lparr>ekey = str_key p s', evalue = w\<rparr>" s'] a(1)
        have "conf_cmp x \<lparr>ekey = str_key p s', evalue = w\<rparr> \<le> 0" by simp
        then show ?thesis using sv(1) p by (simp add: conf_cmp_def conf_cmp_key_def str_key_def)
      qed
      ultimately show ?thesis using xi True sv by (auto simp: next_subkey_def str_key_def)
    next
      case False
      have "conf_map conf (str_key p s) = None" if a: "after_subkey sk s" for s
      proof (rule ccontr)
        assume "conf_map conf (str_key p s) \<noteq> None"
        then obtain v where v: "\<lparr>ekey = str_key p s, evalue = v\<rparr> \<in> set (conf_entries conf)" using in_map by auto
        from least(3) [OF v] beyond [of "\<lparr>ekey = str_key p s, evalue = v\<rparr>" s] a
        have "conf_cmp x \<lparr>ekey = str_key p s, evalue = v\<rparr> \<le> 0" by simp
        then have "primary (ekey x) \<le> p" by (auto simp: conf_cmp_def conf_cmp_key_def str_key_def split: if_splits)
        moreover have "p \<le> primary (ekey x)" using least(2) e
          by (auto simp: conf_cmp_def conf_cmp_key_def str_key_def as_entry_def split: if_splits)
        ultimately show False using False by simp
      qed
      with xi False show ?thesis by (auto simp: next_subkey_def)
    qed
  qed
qed


section \<open>Properties\<close>

definition plain_key :: "nat \<Rightarrow> key" where
  "plain_key p = \<lparr>primary = p, secondary = NoSub\<rparr>"

definition int_key :: "nat \<Rightarrow> int \<Rightarrow> key" where
  "int_key p i = \<lparr>primary = p, secondary = IntSub i\<rparr>"

lemmas key_defs = plain_key_def int_key_def str_key_def

lemma conf_insert_typed:
  assumes "conf_ok conf" "key_ok k" "value_ok (valuetypes (primary k)) v"
  shows "\<exists>conf'. conf_insert conf \<lparr>ekey = k, evalue = v\<rparr> = Inr conf' \<and> conf_ok conf' \<and>
    conf_map conf' = (conf_map conf)(k \<mapsto> v)"
  using conf_insert_map [OF assms(1), of "\<lparr>ekey = k, evalue = v\<rparr>"] assms(2,3) by (simp add: entry_ok_def)

lemma plain_key_ok: "check_types p TYPE_NONE vt = Inr () \<Longrightarrow> key_ok (plain_key p)"
  by (simp add: check_types_ok key_ok_def plain_key_def)

lemma int_key_ok: "check_types p TYPE_INT vt = Inr () \<Longrightarrow> int_range j \<Longrightarrow> key_ok (int_key p j)"
  by (simp add: check_types_ok key_ok_def int_key_def)

lemma str_key_ok: "check_types p TYPE_STR vt = Inr () \<Longrightarrow> c_string s \<Longrightarrow> key_ok (str_key p s)"
  by (simp add: check_types_ok key_ok_def str_key_def)

lemma primary_keys [simp]: "primary (plain_key p) = p" "primary (int_key p j) = p" "primary (str_key p s) = p"
  by (simp_all add: key_defs)

lemma conf_set_typed:
  assumes "conf_ok conf" "check_types (primary k) st vt = Inr ()" "key_ok k" "value_ok vt v"
  shows "\<exists>conf'. res_bind (check_types (primary k) st vt) (\<lambda>_. conf_insert conf \<lparr>ekey = k, evalue = v\<rparr>) = Inr conf' \<and>
    conf_ok conf' \<and> conf_map conf' = (conf_map conf)(k \<mapsto> v)"
  using conf_insert_typed [OF assms(1,3), of v] assms(2,4) check_types_ok [of "primary k" st vt] by simp

lemma conf_value_typed:
  assumes "conf_ok conf" "check_types (primary k) st vt = Inr ()" "conf_map conf k = Some v"
  shows "value_ok vt v"
  using conf_value_ok [OF assms(1,3)] assms(2) by (simp add: check_types_ok)

lemma conf_get_typed:
  assumes "conf_ok conf" "key_ok k"
  shows "conf_find_asserted conf k =
    (case conf_map conf k of None \<Rightarrow> Inl AssertFail | Some v \<Rightarrow> Inr \<lparr>ekey = k, evalue = v\<rparr>)"
  using conf_find_map [OF assms] by (simp add: conf_find_asserted_def split: option.splits)

text \<open>The option numbers used in the witnesses: \<open>host\<close>, \<open>ping_interval\<close> and \<open>environmt\<close>.\<close>

lemma option_numbers:
  "check_types 0 TYPE_NONE TYPE_STR = Inr ()" "check_types 6 TYPE_NONE TYPE_INT = Inr ()"
  "check_types 54 TYPE_STR TYPE_STR = Inr ()" "config_options ! 54 = (TYPE_STR, TYPE_STR, ''environmt'')"
  by (simp_all add: check_types_def N_CONFIG_OPTIONS_def subkeytypes_def valuetypes_def
      config_options_def config_options_1_def config_options_2_def)

text \<open>A store with two entries.\<close>

lemma sample_store:
  "\<exists>c. conf_ok c \<and> conf_map c = [plain_key 0 \<mapsto> StringVal [104, 105], str_key 54 [97] \<mapsto> StringVal [98]] \<and>
     length (conf_bytes c) < 2 ^ 29"
proof -
  let ?e1 = "\<lparr>ekey = plain_key 0, evalue = StringVal [104, 105]\<rparr>" and ?e2 = "\<lparr>ekey = str_key 54 [97], evalue = StringVal [98]\<rparr>"
  have ok: "entry_ok ?e1" "entry_ok ?e2"
    using plain_key_ok [OF option_numbers(1)] str_key_ok [OF option_numbers(3), of "[97]"] option_numbers(1,3)
    by (simp_all add: entry_ok_def value_ok_def c_string_def check_types_ok)
  obtain c1 where c1: "conf_ok c1" "set (conf_entries c1) = {?e1}" "conf_map c1 = [plain_key 0 \<mapsto> StringVal [104, 105]]"
    using conf_insert_correct [OF conf_new_ok(1) ok(1)] conf_insert_map [OF conf_new_ok(1) ok(1)] conf_new_ok by auto
  have ne: "plain_key 0 \<noteq> str_key 54 [97]" by (simp add: key_defs)
  then have "insert ?e2 {x \<in> {?e1}. ekey x \<noteq> ekey ?e2} = {?e1, ?e2}" by auto
  then obtain c2 where c2: "conf_ok c2" "set (conf_entries c2) = {?e1, ?e2}" "conf_map c2 = (conf_map c1)(str_key 54 [97] \<mapsto> StringVal [98])"
    using conf_insert_correct [OF c1(1) ok(2)] conf_insert_map [OF c1(1) ok(2)] unfolding c1(2)
    by (metis (no_types, lifting) conf_entry.select_convs sum.inject(2))
  have "distinct (conf_entries c2)" using conf_okD(4) [OF c2(1)] cmp_order_refl [OF cmp_order_conf]
    by (auto simp: distinct_conv_nth sorted_wrt_iff_nth_less) (metis less_irrefl linorder_neqE_nat)
  then have "sum_list (map (length \<circ> entry_bytes) (conf_entries c2)) = (\<Sum>e \<in> {?e1, ?e2}. length (entry_bytes e))"
    unfolding c2(2) [symmetric] by (simp add: sum_list_distinct_conv_sum_set)
  also have "\<dots> = length (entry_bytes ?e1) + length (entry_bytes ?e2)" using ne by simp
  also have "\<dots> < 2 ^ 20" using option_numbers(1,3) by (simp add: entry_bytes_def key_bytes_def key_defs check_types_ok)
  finally have "length (conf_bytes c2) < 2 ^ 29" by (simp add: conf_bytes_def length_concat)
  then show ?thesis using c2(1,3) c1(3) by auto
qed

text \<open>
  C8. The setters refine map update: on a well-formed store every typed setter succeeds
  for an option of its type, keeps the store well-formed, and changes the key-to-value map at
  its own key only, replacing an older value; deleting a string subkey removes that key only.
\<close>

theorem conf_setters_update:
  assumes "conf_ok conf"
  shows "(check_types p TYPE_NONE TYPE_BOOL = Inr () \<longrightarrow>
      (\<exists>c'. conf_set_bool conf p b = Inr c' \<and> conf_ok c' \<and> conf_map c' = (conf_map conf)(plain_key p \<mapsto> BoolVal b))) \<and>
    (check_types p TYPE_NONE TYPE_INT = Inr () \<and> int_range i \<longrightarrow>
      (\<exists>c'. conf_set_int conf p i = Inr c' \<and> conf_ok c' \<and> conf_map c' = (conf_map conf)(plain_key p \<mapsto> IntVal i))) \<and>
    (check_types p TYPE_INT TYPE_INT = Inr () \<and> int_range i \<and> int_range j \<longrightarrow>
      (\<exists>c'. conf_set_int_int conf p j i = Inr c' \<and> conf_ok c' \<and> conf_map c' = (conf_map conf)(int_key p j \<mapsto> IntVal i))) \<and>
    (check_types p TYPE_NONE TYPE_STR = Inr () \<and> c_string v \<longrightarrow>
      (\<exists>c'. conf_set_str conf p v = Inr c' \<and> conf_ok c' \<and> conf_map c' = (conf_map conf)(plain_key p \<mapsto> StringVal v))) \<and>
    (check_types p TYPE_STR TYPE_STR = Inr () \<and> c_string s \<and> c_string v \<longrightarrow>
      (\<exists>c'. conf_set_str_str conf p s v = Inr c' \<and> conf_ok c' \<and> conf_map c' = (conf_map conf)(str_key p s \<mapsto> StringVal v))) \<and>
    (check_types p TYPE_NONE TYPE_FILENAME = Inr () \<and> c_string v \<longrightarrow>
      (\<exists>c'. conf_set_filename conf p v = Inr c' \<and> conf_ok c' \<and> conf_map c' = (conf_map conf)(plain_key p \<mapsto> FileVal v))) \<and>
    (check_types p TYPE_NONE TYPE_FONT = Inr () \<and> c_string v \<longrightarrow>
      (\<exists>c'. conf_set_fontspec conf p v = Inr c' \<and> conf_ok c' \<and> conf_map c' = (conf_map conf)(plain_key p \<mapsto> FontVal v))) \<and>
    (check_types p TYPE_STR TYPE_STR = Inr () \<and> c_string s \<longrightarrow>
      (\<exists>c'. conf_del_str_str conf p s = Inr c' \<and> conf_ok c' \<and> conf_map c' = (conf_map conf)(str_key p s := None)))"
proof (intro conjI impI, goal_cases)
  case 8
  then have k: "key_ok (str_key p s)" by (simp add: check_types_ok key_ok_def str_key_def)
  show ?case
  proof (cases "conf_map conf (str_key p s)")
    case None
    with 8 conf_find_map [OF assms k] assms show ?thesis
      by (auto simp: conf_del_str_str_def str_key_def fun_upd_idem)
  next
    case (Some v)
    then have "\<lparr>ekey = str_key p s, evalue = v\<rparr> \<in> set (conf_entries conf)" using conf_map_iff [OF assms] by simp
    from conf_del_map [OF assms this] Some 8 conf_find_map [OF assms k] show ?thesis
      by (auto simp: conf_del_str_str_def str_key_def)
  qed
next
  case 1 then show ?case
    using conf_set_typed [OF assms _ plain_key_ok [of p TYPE_BOOL], of TYPE_NONE TYPE_BOOL "BoolVal b"]
    by (simp add: conf_set_bool_def value_ok_def plain_key_def)
next
  case 2 then show ?case
    using conf_set_typed [OF assms _ plain_key_ok [of p TYPE_INT], of TYPE_NONE TYPE_INT "IntVal i"]
    by (simp add: conf_set_int_def value_ok_def plain_key_def)
next
  case 3 then show ?case
    using conf_set_typed [OF assms _ int_key_ok [of p TYPE_INT j], of TYPE_INT TYPE_INT "IntVal i"]
    by (simp add: conf_set_int_int_def value_ok_def int_key_def)
next
  case 4 then show ?case
    using conf_set_typed [OF assms _ plain_key_ok [of p TYPE_STR], of TYPE_NONE TYPE_STR "StringVal v"]
    by (simp add: conf_set_str_def value_ok_def plain_key_def)
next
  case 5 then show ?case
    using conf_set_typed [OF assms _ str_key_ok [of p TYPE_STR s], of TYPE_STR TYPE_STR "StringVal v"]
    by (simp add: conf_set_str_str_def value_ok_def str_key_def)
next
  case 6 then show ?case
    using conf_set_typed [OF assms _ plain_key_ok [of p TYPE_FILENAME], of TYPE_NONE TYPE_FILENAME "FileVal v"]
    by (simp add: conf_set_filename_def value_ok_def plain_key_def)
next
  case 7 then show ?case
    using conf_set_typed [OF assms _ plain_key_ok [of p TYPE_FONT], of TYPE_NONE TYPE_FONT "FontVal v"]
    by (simp add: conf_set_fontspec_def value_ok_def plain_key_def)
qed

theorem conf_setters_update_witness:
  "\<exists>c'. conf_set_str conf_new 0 [104, 105] = Inr c' \<and> conf_map c' = [plain_key 0 \<mapsto> StringVal [104, 105]]"
  using conf_setters_update [OF conf_new_ok(1), of 0 True 0 0 "[104, 105]" "[]"]
  by (auto simp: option_numbers conf_new_ok c_string_def)

text \<open>
  C18. The getters read that map: for an option of its type a getter returns the value stored
  under its key, fails its assertion when there is none (or answers none, for the optional
  form), and never reads a union member other than the one stored.
\<close>

theorem conf_getters_read:
  assumes "conf_ok conf"
  shows "(check_types p TYPE_NONE TYPE_BOOL = Inr () \<longrightarrow>
      (case conf_map conf (plain_key p) of None \<Rightarrow> conf_get_bool conf p = Inl AssertFail
       | Some v \<Rightarrow> \<exists>b. v = BoolVal b \<and> conf_get_bool conf p = Inr b)) \<and>
    (check_types p TYPE_NONE TYPE_INT = Inr () \<longrightarrow>
      (case conf_map conf (plain_key p) of None \<Rightarrow> conf_get_int conf p = Inl AssertFail
       | Some v \<Rightarrow> \<exists>i. v = IntVal i \<and> conf_get_int conf p = Inr i)) \<and>
    (check_types p TYPE_INT TYPE_INT = Inr () \<and> int_range j \<longrightarrow>
      (case conf_map conf (int_key p j) of None \<Rightarrow> conf_get_int_int conf p j = Inl AssertFail
       | Some v \<Rightarrow> \<exists>i. v = IntVal i \<and> conf_get_int_int conf p j = Inr i)) \<and>
    (check_types p TYPE_NONE TYPE_STR = Inr () \<longrightarrow>
      (case conf_map conf (plain_key p) of None \<Rightarrow> conf_get_str conf p = Inl AssertFail
       | Some v \<Rightarrow> \<exists>s. v = StringVal s \<and> conf_get_str conf p = Inr s)) \<and>
    (check_types p TYPE_STR TYPE_STR = Inr () \<and> c_string t \<longrightarrow>
      (case conf_map conf (str_key p t) of None \<Rightarrow> conf_get_str_str_opt conf p t = Inr None
       | Some v \<Rightarrow> \<exists>s. v = StringVal s \<and> conf_get_str_str_opt conf p t = Inr (Some s))) \<and>
    (check_types p TYPE_NONE TYPE_FILENAME = Inr () \<longrightarrow>
      (case conf_map conf (plain_key p) of None \<Rightarrow> conf_get_filename conf p = Inl AssertFail
       | Some v \<Rightarrow> \<exists>s. v = FileVal s \<and> conf_get_filename conf p = Inr s)) \<and>
    (check_types p TYPE_NONE TYPE_FONT = Inr () \<longrightarrow>
      (case conf_map conf (plain_key p) of None \<Rightarrow> conf_get_fontspec conf p = Inl AssertFail
       | Some v \<Rightarrow> \<exists>s. v = FontVal s \<and> conf_get_fontspec conf p = Inr s))"
proof (intro conjI impI, goal_cases)
  case 1 then show ?case
    using conf_get_typed [OF assms plain_key_ok [of p TYPE_BOOL]] conf_value_typed [OF assms, of "plain_key p" TYPE_NONE TYPE_BOOL]
    by (auto simp: conf_get_bool_def value_ok_def plain_key_def split: option.splits conf_value.splits)
next
  case 2 then show ?case
    using conf_get_typed [OF assms plain_key_ok [of p TYPE_INT]] conf_value_typed [OF assms, of "plain_key p" TYPE_NONE TYPE_INT]
    by (auto simp: conf_get_int_def value_ok_def plain_key_def split: option.splits conf_value.splits)
next
  case 3 then show ?case
    using conf_get_typed [OF assms int_key_ok [of p TYPE_INT j]] conf_value_typed [OF assms, of "int_key p j" TYPE_INT TYPE_INT]
    by (auto simp: conf_get_int_int_def value_ok_def int_key_def split: option.splits conf_value.splits)
next
  case 4 then show ?case
    using conf_get_typed [OF assms plain_key_ok [of p TYPE_STR]] conf_value_typed [OF assms, of "plain_key p" TYPE_NONE TYPE_STR]
    by (auto simp: conf_get_str_def value_ok_def plain_key_def split: option.splits conf_value.splits)
next
  case 5 then show ?case
    using conf_find_map [OF assms str_key_ok [of p TYPE_STR t]] conf_value_typed [OF assms, of "str_key p t" TYPE_STR TYPE_STR]
    by (auto simp: conf_get_str_str_opt_def value_ok_def str_key_def split: option.splits conf_value.splits)
next
  case 6 then show ?case
    using conf_get_typed [OF assms plain_key_ok [of p TYPE_FILENAME]] conf_value_typed [OF assms, of "plain_key p" TYPE_NONE TYPE_FILENAME]
    by (auto simp: conf_get_filename_def value_ok_def plain_key_def split: option.splits conf_value.splits)
next
  case 7 then show ?case
    using conf_get_typed [OF assms plain_key_ok [of p TYPE_FONT]] conf_value_typed [OF assms, of "plain_key p" TYPE_NONE TYPE_FONT]
    by (auto simp: conf_get_fontspec_def value_ok_def plain_key_def split: option.splits conf_value.splits)
qed

theorem conf_getters_read_witness:
  "\<exists>c. conf_ok c \<and> conf_get_str c 0 = Inr [104, 105] \<and> conf_get_str_str_opt c 54 [97] = Inr (Some [98]) \<and>
     conf_get_str_str_opt c 54 [98] = Inr None \<and> conf_get_int c 6 = Inl AssertFail"
proof -
  obtain c where c: "conf_ok c" "conf_map c = [plain_key 0 \<mapsto> StringVal [104, 105], str_key 54 [97] \<mapsto> StringVal [98]]"
    using sample_store by blast
  show ?thesis
    using conf_getters_read [OF c(1), of 0 0 "[]"] conf_getters_read [OF c(1), of 54 0 "[97]"]
      conf_getters_read [OF c(1), of 54 0 "[98]"] conf_getters_read [OF c(1), of 6 0 "[]"] c
    by (intro exI [of _ c]) (simp add: option_numbers key_defs c_string_def)
qed

lemma deserialise_conf_bytes:
  assumes "conf_ok conf" "conf_ok target"
  shows "\<exists>conf' src'. conf_deserialise target (BinarySource_INIT (conf_bytes conf @ rest)) =
      Inr (True, conf', src') \<and> conf_ok conf' \<and> src_here src' = rest \<and>
      conf_map conf' = conf_map target ++ conf_map conf \<and>
      (conf_entries target = [] \<longrightarrow> conf_entries conf' = conf_entries conf)"
proof -
  let ?src = "BinarySource_INIT (conf_bytes conf @ rest)"
  have h: "src_here ?src = concat (map entry_bytes (conf_entries conf)) @ PUT_32BIT_MSB_FIRST 0xFFFFFFFF @ rest"
    by (simp add: BinarySource_INIT_def src_here_def conf_bytes_def)
  have "length (conf_entries conf) < src_len ?src + 1"
    using concat_entry_length [of "conf_entries conf"] by (simp add: BinarySource_INIT_def conf_bytes_def)
  then obtain conf' src' where c: "conf_deserialise target ?src = Inr (True, conf', src')" "conf_ok conf'"
    "src_here src' = rest" "conf_map conf' = foldl (\<lambda>m e. m(ekey e \<mapsto> evalue e)) (conf_map target) (conf_entries conf)"
    using deserialise_loop_enc [OF _ assms(2) _ h, of "src_len ?src + 1"] conf_okD(3) [OF assms(1)]
    unfolding conf_deserialise_def by (auto simp: BinarySource_INIT_def)
  have m: "conf_map conf' = conf_map target ++ conf_map conf"
    unfolding c(4) foldl_map_add map_of_rev_entries [OF assms(1)] ..
  have "conf_entries target = [] \<longrightarrow> conf_entries conf' = conf_entries conf"
    using conf_entries_eqI [OF c(2) assms(1)] m by (simp add: conf_map_def)
  with c m show ?thesis by blast
qed

text \<open>
  C7. Serialising and reading back: writing a well-formed store to an empty string buffer succeeds when the allocator
  refuses nothing, the buffer has at most a gigabyte and the written form is shorter than half a gigabyte; in any case the
  only faults are those of the allocation code.  Reading what was written into any store gives that store overridden by
  exactly the entries written; read into an empty store, the two hold the same entries in the same order.  The reader
  stops where the writer stopped, whatever follows.
\<close>

theorem conf_serialise_roundtrip:
  assumes "conf_ok conf" and "conf_ok target" and "strbuf_ok b" and "strbuf_contents b = []"
  shows "((\<forall>n. alloc n) \<and> sb_size b \<le> 2 ^ 30 \<and> length (conf_bytes conf) < 2 ^ 29 \<longrightarrow>
      (\<exists>b'. conf_serialise (strbuf_BinarySink_write alloc) b conf = Inr b')) \<and>
    (case conf_serialise (strbuf_BinarySink_write alloc) b conf of
       Inl e \<Rightarrow> e = AssertFail \<or> e = OutOfMemory
     | Inr b' \<Rightarrow> \<exists>conf' src'. conf_deserialise target (BinarySource_INIT (map the (strbuf_contents b') @ rest)) =
         Inr (True, conf', src') \<and> conf_ok conf' \<and> src_here src' = rest \<and>
         conf_map conf' = conf_map target ++ conf_map conf \<and>
         (conf_entries target = [] \<longrightarrow> conf_entries conf' = conf_entries conf))"
proof -
  note f = rs.conf_serialise_fills [OF assms(1,3), where alloc = alloc]
  have "sb_len b = 0" using assms(3,4) by (auto simp: strbuf_contents_def strbuf_ok_def)
  then have "(\<forall>n. alloc n) \<and> sb_size b \<le> 2 ^ 30 \<and> length (conf_bytes conf) < 2 ^ 29 \<longrightarrow>
      (\<exists>b'. conf_serialise (strbuf_BinarySink_write alloc) b conf = Inr b')"
    using f by (auto simp: rs.fills_def strbuf_room_def)
  moreover have "map the (strbuf_contents b') = conf_bytes conf" if "conf_serialise (strbuf_BinarySink_write alloc) b conf = Inr b'" for b'
    using f that assms(4) by (simp add: rs.fills_def sb.appends_def comp_def)
  moreover have "e = AssertFail \<or> e = OutOfMemory" if "conf_serialise (strbuf_BinarySink_write alloc) b conf = Inl e" for e
    using f that by (simp add: rs.fills_def sb.appends_def)
  ultimately show ?thesis using deserialise_conf_bytes [OF assms(1,2)] by (auto split: sum.splits)
qed

theorem conf_serialise_roundtrip_witness:
  "\<exists>c b' conf' src'. conf_map c = [plain_key 0 \<mapsto> StringVal [104, 105], str_key 54 [97] \<mapsto> StringVal [98]] \<and>
     conf_serialise (strbuf_BinarySink_write (\<lambda>_. True)) sb_sample c = Inr b' \<and>
     conf_deserialise conf_new (BinarySource_INIT (map the (strbuf_contents b') @ [7])) = Inr (True, conf', src') \<and>
     src_here src' = [7] \<and> conf_map conf' = conf_map c \<and> conf_entries conf' = conf_entries c"
proof -
  obtain c where c: "conf_ok c" "conf_map c = [plain_key 0 \<mapsto> StringVal [104, 105], str_key 54 [97] \<mapsto> StringVal [98]]"
    "length (conf_bytes c) < 2 ^ 29" using sample_store by blast
  have "conf_map conf_new = Map.empty" "conf_entries conf_new = []" using conf_new_ok by simp_all
  with conf_serialise_roundtrip [OF c(1) conf_new_ok(1) sb_sample_ok(1,2), of "\<lambda>_. True" "[7]"] c sb_sample_ok(4)
  show ?thesis by (fastforce split: sum.splits)
qed

text \<open>
  C19. Copying a store: whatever the destination held, afterwards it holds exactly the entries
  of the source in the same order, and both loops end within their budgets.
\<close>

theorem conf_copy_equal:
  assumes "conf_ok newconf" and "conf_ok oldconf"
  shows "\<exists>conf. conf_copy_into newconf oldconf = Inr conf \<and> conf_ok conf \<and>
    conf_entries conf = conf_entries oldconf \<and> conf_map conf = conf_map oldconf"
  using conf_copy_into_ok [OF assms] by (auto simp: conf_map_def)

theorem conf_copy_equal_witness:
  "\<exists>old new conf. conf_set_int conf_new 6 22 = Inr new \<and> conf_copy_into new old = Inr conf \<and>
     conf_map conf = [plain_key 0 \<mapsto> StringVal [104, 105], str_key 54 [97] \<mapsto> StringVal [98]]"
proof -
  obtain c where "conf_set_int conf_new 6 22 = Inr c" "conf_ok c"
    using conf_set_typed [OF conf_new_ok(1) _ plain_key_ok [OF option_numbers(2)], of TYPE_NONE TYPE_INT "IntVal 22"]
      option_numbers(2)
    by (auto simp: conf_set_int_def value_ok_def key_defs int_range_def)
  moreover obtain old where "conf_ok old" "conf_map old = [plain_key 0 \<mapsto> StringVal [104, 105], str_key 54 [97] \<mapsto> StringVal [98]]"
    using sample_store by blast
  ultimately show ?thesis using conf_copy_equal [of c old] by auto
qed

lemma get_str_strs_next:
  assumes "conf_ok conf" and "check_types p TYPE_STR TYPE_STR = Inr ()"
  shows "\<exists>r. conf_get_str_strs conf p sk = Inr r \<and> next_subkey conf p sk r"
proof -
  have p: "p < N_CONFIG_OPTIONS" "subkeytypes p = TYPE_STR" "valuetypes p = TYPE_STR"
    using assms(2) by (simp_all add: check_types_ok)
  define rel where "rel = (if sk = None then REL234_GE else REL234_GT)"
  define f where "f = (if sk = None then Some conf_cmp else None)"
  define e where "e = as_entry (str_key p (case sk of None \<Rightarrow> [] | Some s \<Rightarrow> s))"
  obtain r where r: "findrelpos234 (tree conf) (Some e) f rel = Some (Inr r)"
    "rel_spec (conf_cmp e) rel (conf_entries conf) r"
    using findrel_conf [OF assms(1), of f e rel] unfolding f_def by (cases sk) auto
  have "conf_get_str_strs conf p sk =
      (case map_option fst r of None \<Rightarrow> Inr None
       | Some e \<Rightarrow> if primary (ekey e) \<noteq> p then Inr None
           else res_bind (stringval (evalue e)) (\<lambda>v. Inr (Some (sub_str (secondary (ekey e)), v))))"
    using r(1) assms(2)
    by (simp add: conf_get_str_strs_def findrel234_def f_def rel_def e_def str_key_def split: option.splits)
  moreover obtain res where nx: "next_subkey conf p sk res" and rs:
    "case r of None \<Rightarrow> res = None
     | Some (x, i) \<Rightarrow> if primary (ekey x) \<noteq> p then res = None
         else \<exists>v. evalue x = StringVal v \<and> res = Some (sub_str (secondary (ekey x)), v)"
    using next_subkey_correct [OF assms(1) p rel_def e_def r(2)] by blast
  ultimately have "conf_get_str_strs conf p sk = Inr res"
    by (cases r) (auto split: if_splits)
  with nx show ?thesis by blast
qed

text \<open>
  C35. Enumerating string subkeys: called without a subkey the enumeration returns the first
  subkey of the option in string order, called with one the next after it, together with its
  value, and none when there is no such subkey; it never strays into another option.
\<close>

theorem conf_get_str_strs_next:
  assumes "conf_ok conf" and "check_types p TYPE_STR TYPE_STR = Inr ()"
  shows "\<exists>r. conf_get_str_strs conf p sk = Inr r \<and> next_subkey conf p sk r"
  by (rule get_str_strs_next [OF assms])

theorem conf_get_str_strs_next_witness:
  "\<exists>c. conf_set_str_str conf_new 54 [97] [98] = Inr c \<and>
     (\<exists>r. conf_get_str_strs c 54 None = Inr r \<and> next_subkey c 54 None r)"
proof -
  obtain c where "conf_set_str_str conf_new 54 [97] [98] = Inr c" "conf_ok c"
    using conf_set_typed [OF conf_new_ok(1) _ str_key_ok [OF option_numbers(3), of "[97]"], of TYPE_STR TYPE_STR "StringVal [98]"]
      option_numbers(3)
    by (auto simp: conf_set_str_str_def value_ok_def key_defs c_string_def)
  with conf_get_str_strs_next [OF this(2) option_numbers(3), of None] show ?thesis by blast
qed

end
