(* ===== verification/Telnet.thy ===== *)
theory Telnet
  imports Conf_Correct Utils
begin

text \<open>
  The Telnet backend of \<open>telnet.c\<close>: option negotiation, the byte-by-byte reader, the escaping
  writer, window size reports, special codes and connection set-up.

  Calls on the socket and the terminal are recorded, in order, in \<open>events\<close>.  The socket is
  present while connected and is represented by what it answers to a write, the amount of
  data it has queued, as a function of everything written so far; the terminal likewise.  The
  string buffers \<open>sb_buf\<close> and \<open>outbuf\<close> are their contents (theory \<open>Strbuf\<close> treats the
  buffers themselves).  Log messages are not modelled.
\<close>

section \<open>Protocol constants\<close>

abbreviation IAC :: byte where "IAC \<equiv> 255"
abbreviation DONT :: byte where "DONT \<equiv> 254"
abbreviation DO :: byte where "DO \<equiv> 253"
abbreviation WONT :: byte where "WONT \<equiv> 252"
abbreviation WILL :: byte where "WILL \<equiv> 251"
abbreviation SB :: byte where "SB \<equiv> 250"
abbreviation SE :: byte where "SE \<equiv> 240"
abbreviation DM :: byte where "DM \<equiv> 242"
abbreviation CR :: byte where "CR \<equiv> 13"
abbreviation NUL :: byte where "NUL \<equiv> 0"

abbreviation TELOPT_BINARY :: byte where "TELOPT_BINARY \<equiv> 0"
abbreviation TELOPT_ECHO :: byte where "TELOPT_ECHO \<equiv> 1"
abbreviation TELOPT_SGA :: byte where "TELOPT_SGA \<equiv> 3"
abbreviation TELOPT_TTYPE :: byte where "TELOPT_TTYPE \<equiv> 24"
abbreviation TELOPT_NAWS :: byte where "TELOPT_NAWS \<equiv> 31"
abbreviation TELOPT_TSPEED :: byte where "TELOPT_TSPEED \<equiv> 32"
abbreviation TELOPT_OLD_ENVIRON :: byte where "TELOPT_OLD_ENVIRON \<equiv> 36"
abbreviation TELOPT_NEW_ENVIRON :: byte where "TELOPT_NEW_ENVIRON \<equiv> 39"

abbreviation TELQUAL_IS :: byte where "TELQUAL_IS \<equiv> 0"
abbreviation TELQUAL_SEND :: byte where "TELQUAL_SEND \<equiv> 1"

datatype opt_state = REQUESTED | ACTIVE | INACTIVE | REALLY_INACTIVE

record Opt =
  send :: byte
  nsend :: byte
  ack :: byte
  nak :: byte
  option :: byte
  index :: nat
  initial_state :: opt_state

definition o_naws :: Opt where
  "o_naws = \<lparr>send = WILL, nsend = WONT, ack = DO, nak = DONT, option = TELOPT_NAWS, index = 0, initial_state = REQUESTED\<rparr>"
definition o_tspeed :: Opt where
  "o_tspeed = \<lparr>send = WILL, nsend = WONT, ack = DO, nak = DONT, option = TELOPT_TSPEED, index = 1, initial_state = REQUESTED\<rparr>"
definition o_ttype :: Opt where
  "o_ttype = \<lparr>send = WILL, nsend = WONT, ack = DO, nak = DONT, option = TELOPT_TTYPE, index = 2, initial_state = REQUESTED\<rparr>"
definition o_oenv :: Opt where
  "o_oenv = \<lparr>send = WILL, nsend = WONT, ack = DO, nak = DONT, option = TELOPT_OLD_ENVIRON, index = 3, initial_state = INACTIVE\<rparr>"
definition o_nenv :: Opt where
  "o_nenv = \<lparr>send = WILL, nsend = WONT, ack = DO, nak = DONT, option = TELOPT_NEW_ENVIRON, index = 4, initial_state = REQUESTED\<rparr>"
definition o_echo :: Opt where
  "o_echo = \<lparr>send = DO, nsend = DONT, ack = WILL, nak = WONT, option = TELOPT_ECHO, index = 5, initial_state = REQUESTED\<rparr>"
definition o_we_sga :: Opt where
  "o_we_sga = \<lparr>send = WILL, nsend = WONT, ack = DO, nak = DONT, option = TELOPT_SGA, index = 6, initial_state = REQUESTED\<rparr>"
definition o_they_sga :: Opt where
  "o_they_sga = \<lparr>send = DO, nsend = DONT, ack = WILL, nak = WONT, option = TELOPT_SGA, index = 7, initial_state = REQUESTED\<rparr>"
definition o_we_bin :: Opt where
  "o_we_bin = \<lparr>send = WILL, nsend = WONT, ack = DO, nak = DONT, option = TELOPT_BINARY, index = 8, initial_state = INACTIVE\<rparr>"
definition o_they_bin :: Opt where
  "o_they_bin = \<lparr>send = DO, nsend = DONT, ack = WILL, nak = WONT, option = TELOPT_BINARY, index = 9, initial_state = INACTIVE\<rparr>"

definition opts :: "Opt list" where
  "opts = [o_naws, o_tspeed, o_ttype, o_oenv, o_nenv, o_echo, o_we_sga, o_they_sga, o_we_bin, o_they_bin]"

lemmas opt_defs = o_naws_def o_tspeed_def o_ttype_def o_oenv_def o_nenv_def o_echo_def
  o_we_sga_def o_they_sga_def o_we_bin_def o_they_bin_def

section \<open>State\<close>

datatype tel_state = TOP_LEVEL | SEENIAC | SEENWILL | SEENWONT | SEENDO | SEENDONT
  | SEENSB | SUBNEGOT | SUBNEG_IAC | SEENCR

datatype event = Sent "byte list" | SentOOB "byte list" | Stdout "byte list" | SetFrozen bool
  | LdiscUpdate | SocketClosed | RemoteExit | ConnectionFatal

record telnet =
  sock :: "(event list \<Rightarrow> nat) option"
  closed_on_socket_error :: bool
  seat_backlog :: "event list \<Rightarrow> nat"
  local_user :: "byte list option"
  has_ldisc :: bool
  term_width :: int
  term_height :: int
  opt_states :: "nat \<Rightarrow> opt_state"
  echoing :: bool
  editing :: bool
  activated :: bool
  bufsize :: nat
  in_synch :: bool
  sb_opt :: byte
  sb_buf :: "byte list"
  session_started :: bool
  state :: tel_state
  conf :: Conf
  events :: "event list"

definition log_event :: "event \<Rightarrow> telnet \<Rightarrow> telnet" where
  "log_event e t = t\<lparr>events := events t @ [e]\<rparr>"

definition sk_write :: "telnet \<Rightarrow> byte list \<Rightarrow> telnet res" where
  "sk_write t b =
     (case sock t of
        None \<Rightarrow> Inl NullDeref
      | Some answer \<Rightarrow> let t = log_event (Sent b) t in Inr (t\<lparr>bufsize := answer (events t)\<rparr>))"

definition sk_write_oob :: "telnet \<Rightarrow> byte list \<Rightarrow> telnet res" where
  "sk_write_oob t b =
     (case sock t of
        None \<Rightarrow> Inl NullDeref
      | Some answer \<Rightarrow> let t = log_event (SentOOB b) t in Inr (t\<lparr>bufsize := answer (events t)\<rparr>))"

definition TELNET_MAX_BACKLOG :: nat where
  "TELNET_MAX_BACKLOG = 4096"

definition c_write :: "telnet \<Rightarrow> byte list \<Rightarrow> telnet res" where
  "c_write t buf =
     (let t = log_event (Stdout buf) t; backlog = seat_backlog t (events t) in
      if sock t = None then Inl NullDeref
      else Inr (log_event (SetFrozen (backlog > TELNET_MAX_BACKLOG)) t))"

section \<open>Option negotiation\<close>

definition send_opt :: "telnet \<Rightarrow> byte \<Rightarrow> byte \<Rightarrow> telnet res" where
  "send_opt t cmd opt = sk_write t [IAC, cmd, opt]"

definition set_opt :: "Opt \<Rightarrow> opt_state \<Rightarrow> telnet \<Rightarrow> telnet" where
  "set_opt o' st t = t\<lparr>opt_states := (opt_states t)(index o' := st)\<rparr>"

definition get_opt :: "telnet \<Rightarrow> Opt \<Rightarrow> opt_state" where
  "get_opt t o' = opt_states t (index o')"

definition deactivate_option :: "telnet \<Rightarrow> Opt \<Rightarrow> telnet res" where
  "deactivate_option t o' =
     res_bind (if get_opt t o' = REQUESTED \<or> get_opt t o' = ACTIVE
               then send_opt t (nsend o') (option o') else Inr t) (\<lambda>t.
     Inr (set_opt o' REALLY_INACTIVE t))"

text \<open>Request an option that is merely inactive.\<close>

definition request_if_inactive :: "Opt \<Rightarrow> telnet \<Rightarrow> telnet res" where
  "request_if_inactive o' t =
     (if get_opt t o' = INACTIVE
      then send_opt (set_opt o' REQUESTED t) (send o') (option o')
      else Inr t)"

definition option_side_effects :: "telnet \<Rightarrow> Opt \<Rightarrow> bool \<Rightarrow> telnet res" where
  "option_side_effects t o' enabled =
     (let t = (if option o' = TELOPT_ECHO \<and> send o' = DO then t\<lparr>echoing := \<not> enabled\<rparr>
               else if option o' = TELOPT_SGA \<and> send o' = DO then t\<lparr>editing := \<not> enabled\<rparr>
               else t);
          t = (if has_ldisc t then log_event LdiscUpdate t else t)
      in if activated t then Inr t
         else res_bind (request_if_inactive o_echo t) (\<lambda>t.
              res_bind (request_if_inactive o_we_sga t) (\<lambda>t.
              res_bind (request_if_inactive o_they_sga t) (\<lambda>t.
              Inr (t\<lparr>activated := True\<rparr>)))))"

text \<open>The window size report, in a buffer of 24 bytes.\<close>

definition int_byte :: "int \<Rightarrow> byte" where
  "int_byte i = word_of_int i"

definition iac_dup :: "byte \<Rightarrow> byte list" where
  "iac_dup b = (if b = IAC then [b, IAC] else [b])"

definition buffer_of :: "nat \<Rightarrow> byte list \<Rightarrow> byte list res" where
  "buffer_of n b = (if length b \<le> n then Inr b else Inl OutOfBounds)"

definition telnet_size :: "telnet \<Rightarrow> int \<Rightarrow> int \<Rightarrow> telnet res" where
  "telnet_size t width height =
     (let t = t\<lparr>term_width := width, term_height := height\<rparr> in
      if sock t = None \<or> get_opt t o_naws \<noteq> ACTIVE then Inr t
      else res_bind (buffer_of 24
             ([IAC, SB, TELOPT_NAWS] @
              iac_dup (int_byte (drop_bit 8 (term_width t))) @
              iac_dup (int_byte (term_width t AND 0xFF)) @
              iac_dup (int_byte (drop_bit 8 (term_height t))) @
              iac_dup (int_byte (term_height t AND 0xFF)) @
              [IAC, SE])) (\<lambda>b. sk_write t b))"

definition activate_option :: "telnet \<Rightarrow> Opt \<Rightarrow> telnet res" where
  "activate_option t o' =
     res_bind (if send o' = WILL \<and> option o' = TELOPT_NAWS
               then telnet_size t (term_width t) (term_height t) else Inr t) (\<lambda>t.
     res_bind (if send o' = WILL \<and> (option o' = TELOPT_NEW_ENVIRON \<or> option o' = TELOPT_OLD_ENVIRON)
               then deactivate_option t (if option o' = TELOPT_NEW_ENVIRON then o_oenv else o_nenv)
               else Inr t) (\<lambda>t.
     option_side_effects t o' True))"

definition refused_option :: "telnet \<Rightarrow> Opt \<Rightarrow> telnet res" where
  "refused_option t o' =
     res_bind (if send o' = WILL \<and> option o' = TELOPT_NEW_ENVIRON \<and> get_opt t o_oenv = INACTIVE
               then res_bind (send_opt t WILL TELOPT_OLD_ENVIRON) (\<lambda>t. Inr (set_opt o_oenv REQUESTED t))
               else Inr t) (\<lambda>t.
     option_side_effects t o' False)"

definition on_ack :: "telnet \<Rightarrow> Opt \<Rightarrow> telnet res" where
  "on_ack t o' =
     (case get_opt t o' of
        REQUESTED \<Rightarrow> activate_option (set_opt o' ACTIVE t) o'
      | ACTIVE \<Rightarrow> Inr t
      | INACTIVE \<Rightarrow> res_bind (send_opt (set_opt o' ACTIVE t) (send o') (option o')) (\<lambda>t. activate_option t o')
      | REALLY_INACTIVE \<Rightarrow> send_opt t (nsend o') (option o'))"

definition on_nak :: "telnet \<Rightarrow> Opt \<Rightarrow> telnet res" where
  "on_nak t o' =
     (case get_opt t o' of
        REQUESTED \<Rightarrow> refused_option (set_opt o' INACTIVE t) o'
      | ACTIVE \<Rightarrow> res_bind (send_opt (set_opt o' INACTIVE t) (nsend o') (option o')) (\<lambda>t. option_side_effects t o' False)
      | INACTIVE \<Rightarrow> Inr t
      | REALLY_INACTIVE \<Rightarrow> Inr t)"

fun proc_rec_loop :: "telnet \<Rightarrow> byte \<Rightarrow> byte \<Rightarrow> Opt list \<Rightarrow> telnet res" where
  "proc_rec_loop t cmd opt [] =
     (if cmd = WILL \<or> cmd = DO then send_opt t (if cmd = WILL then DONT else WONT) opt else Inr t)"
| "proc_rec_loop t cmd opt (o' # os) =
     (if option o' = opt \<and> ack o' = cmd then on_ack t o'
      else if option o' = opt \<and> nak o' = cmd then on_nak t o'
      else proc_rec_loop t cmd opt os)"

definition proc_rec_opt :: "telnet \<Rightarrow> byte \<Rightarrow> byte \<Rightarrow> telnet res" where
  "proc_rec_opt t cmd opt = proc_rec_loop t cmd opt opts"

section \<open>Subnegotiation\<close>

text \<open>The option number of a configuration keyword, its place in the option table.\<close>

definition CONF :: "string \<Rightarrow> nat" where
  "CONF kw = length (takeWhile (\<lambda>(_, _, k). k \<noteq> kw) config_options)"

definition get_remote_username :: "Conf \<Rightarrow> byte list option \<Rightarrow> byte list option res" where
  "get_remote_username cf local =
     res_bind (conf_get_str cf (CONF ''username'')) (\<lambda>username.
       if username \<noteq> [] then Inr (Some username)
       else res_bind (conf_get_bool cf (CONF ''username_from_env'')) (\<lambda>env.
         Inr (if env then local else None)))"

definition telnet_toupper :: "byte \<Rightarrow> byte" where
  "telnet_toupper c = (if 97 \<le> c \<and> c \<le> 122 then c + 65 - 97 else c)"

text \<open>Walking through the environment variables; one more step than entries suffices.\<close>

fun env_walk :: "nat \<Rightarrow> Conf \<Rightarrow> byte list option \<Rightarrow> (byte list \<times> byte list) list res" where
  "env_walk 0 cf ek = Inl StepLimit"
| "env_walk (Suc fuel) cf ek =
     res_bind (conf_get_str_strs cf (CONF ''environmt'') ek) (\<lambda>r.
       case r of
         None \<Rightarrow> Inr []
       | Some (k, v) \<Rightarrow> res_bind (env_walk fuel cf (Some k)) (\<lambda>rest. Inr ((k, v) # rest)))"

definition env_list :: "Conf \<Rightarrow> (byte list \<times> byte list) list res" where
  "env_list cf = env_walk (nat (count234 (tree cf)) + 1) cf None"

text \<open>The guess of the VAR and VALUE codes of the old environment option.\<close>

fun guess_sense :: "byte \<times> byte \<Rightarrow> byte list \<Rightarrow> byte \<times> byte" where
  "guess_sense vv [] = vv"
| "guess_sense vv (p # ps) =
     guess_sense (if p = 0 then (0, 1) else if p = 1 then (1, 0) else vv) ps"

definition env_bytes :: "byte \<Rightarrow> byte \<Rightarrow> (byte list \<times> byte list) list \<Rightarrow> byte list" where
  "env_bytes var val env = concat (map (\<lambda>(k, v). var # k @ val # v) env)"

definition env_size :: "(byte list \<times> byte list) list \<Rightarrow> nat" where
  "env_size env = sum_list (map (\<lambda>(k, v). length k + length v + 2) env)"

definition send_environ :: "telnet \<Rightarrow> byte \<Rightarrow> byte \<Rightarrow> telnet res" where
  "send_environ t var val =
     res_bind (env_list (conf t)) (\<lambda>env1.
     res_bind (get_remote_username (conf t) (local_user t)) (\<lambda>user.
     res_bind (env_list (conf t)) (\<lambda>env2.
     res_bind (buffer_of (20 + env_size env1 + (case user of None \<Rightarrow> 0 | Some u \<Rightarrow> 6 + length u))
        ([IAC, SB, sb_opt t, TELQUAL_IS] @ env_bytes var val env2 @
         (case user of None \<Rightarrow> [] | Some u \<Rightarrow> [var, 85, 83, 69, 82, val] @ u) @ [IAC, SE])) (\<lambda>b.
     sk_write t b))))"

definition process_subneg :: "telnet \<Rightarrow> telnet res" where
  "process_subneg t =
     (if sb_opt t = TELOPT_TSPEED then
        (if sb_buf t = [TELQUAL_SEND] then
           res_bind (conf_get_str (conf t) (CONF ''termspeed'')) (\<lambda>termspeed.
           res_bind (buffer_of (20 + length termspeed)
             ([IAC, SB, TELOPT_TSPEED, TELQUAL_IS] @ termspeed @ [IAC, SE])) (\<lambda>b. sk_write t b))
         else Inr t)
      else if sb_opt t = TELOPT_TTYPE then
        (if sb_buf t = [TELQUAL_SEND] then
           res_bind (conf_get_str (conf t) (CONF ''termtype'')) (\<lambda>termtype.
           res_bind (buffer_of (20 + length termtype)
             ([IAC, SB, TELOPT_TTYPE, TELQUAL_IS] @ map telnet_toupper termtype @ [IAC, SE])) (\<lambda>b. sk_write t b))
         else Inr t)
      else if sb_opt t = TELOPT_OLD_ENVIRON \<or> sb_opt t = TELOPT_NEW_ENVIRON then
        (case sb_buf t of
           [] \<Rightarrow> Inr t
         | p # ps \<Rightarrow>
             if p \<noteq> TELQUAL_SEND then Inr t
             else if sb_opt t = TELOPT_OLD_ENVIRON then
               res_bind (conf_get_bool (conf t) (CONF ''rfc_environ'')) (\<lambda>rfc.
                 case guess_sense (if rfc then (0, 1) else (1, 0)) ps of (var, val) \<Rightarrow> send_environ t var val)
             else send_environ t 0 1)
      else Inr t)"

section \<open>Reading\<close>

text \<open>The states \<open>TOP_LEVEL\<close> and \<open>SEENCR\<close>.\<close>

definition read_toplevel :: "telnet \<Rightarrow> byte list \<Rightarrow> byte \<Rightarrow> telnet \<times> byte list" where
  "read_toplevel t outbuf c =
     (if c = NUL \<and> state t = SEENCR then (t\<lparr>state := TOP_LEVEL\<rparr>, outbuf)
      else if c = IAC then (t\<lparr>state := SEENIAC\<rparr>, outbuf)
      else let outbuf' = (if \<not> in_synch t then outbuf @ [c] else outbuf);
               t' = (if \<not> in_synch t then t else if c = DM then t\<lparr>in_synch := False\<rparr> else t)
           in (t'\<lparr>state := (if c = CR \<and> get_opt t' o_they_bin \<noteq> ACTIVE then SEENCR else TOP_LEVEL)\<rparr>, outbuf'))"

definition read_command :: "telnet \<Rightarrow> byte list \<Rightarrow> byte \<Rightarrow> telnet \<times> byte list" where
  "read_command t outbuf c =
     (if c = DO then (t\<lparr>state := SEENDO\<rparr>, outbuf)
      else if c = DONT then (t\<lparr>state := SEENDONT\<rparr>, outbuf)
      else if c = WILL then (t\<lparr>state := SEENWILL\<rparr>, outbuf)
      else if c = WONT then (t\<lparr>state := SEENWONT\<rparr>, outbuf)
      else if c = SB then (t\<lparr>state := SEENSB\<rparr>, outbuf)
      else if c = DM then (t\<lparr>in_synch := False, state := TOP_LEVEL\<rparr>, outbuf)
      else (t\<lparr>state := TOP_LEVEL\<rparr>, if c = IAC then outbuf @ [c] else outbuf))"

definition to_toplevel :: "byte list \<Rightarrow> telnet \<Rightarrow> (telnet \<times> byte list) res" where
  "to_toplevel outbuf t = Inr (t\<lparr>state := TOP_LEVEL\<rparr>, outbuf)"

definition read_byte :: "telnet \<Rightarrow> byte list \<Rightarrow> byte \<Rightarrow> (telnet \<times> byte list) res" where
  "read_byte t outbuf c =
     (case state t of
        TOP_LEVEL \<Rightarrow> Inr (read_toplevel t outbuf c)
      | SEENCR \<Rightarrow> Inr (read_toplevel t outbuf c)
      | SEENIAC \<Rightarrow> Inr (read_command t outbuf c)
      | SEENWILL \<Rightarrow> res_bind (proc_rec_opt t WILL c) (to_toplevel outbuf)
      | SEENWONT \<Rightarrow> res_bind (proc_rec_opt t WONT c) (to_toplevel outbuf)
      | SEENDO \<Rightarrow> res_bind (proc_rec_opt t DO c) (to_toplevel outbuf)
      | SEENDONT \<Rightarrow> res_bind (proc_rec_opt t DONT c) (to_toplevel outbuf)
      | SEENSB \<Rightarrow> Inr (t\<lparr>sb_opt := c, sb_buf := [], state := SUBNEGOT\<rparr>, outbuf)
      | SUBNEGOT \<Rightarrow>
          (if c = IAC then Inr (t\<lparr>state := SUBNEG_IAC\<rparr>, outbuf)
           else Inr (t\<lparr>sb_buf := sb_buf t @ [c], state := SUBNEGOT\<rparr>, outbuf))
      | SUBNEG_IAC \<Rightarrow>
          (if c \<noteq> SE then Inr (t\<lparr>sb_buf := sb_buf t @ [c], state := SUBNEGOT\<rparr>, outbuf)
           else res_bind (process_subneg t) (to_toplevel outbuf)))"

fun read_loop :: "telnet \<Rightarrow> byte list \<Rightarrow> byte list \<Rightarrow> (telnet \<times> byte list) res" where
  "read_loop t outbuf [] = Inr (t, outbuf)"
| "read_loop t outbuf (c # buf) =
     res_bind (read_byte t outbuf c) (\<lambda>(t, outbuf).
     if length outbuf \<ge> 4096
     then res_bind (c_write t outbuf) (\<lambda>t. read_loop t [] buf)
     else read_loop t outbuf buf)"

definition do_telnet_read :: "telnet \<Rightarrow> byte list \<Rightarrow> telnet res" where
  "do_telnet_read t buf =
     res_bind (read_loop t [] buf) (\<lambda>(t, outbuf).
     if outbuf \<noteq> [] then c_write t outbuf else Inr t)"

definition telnet_receive :: "telnet \<Rightarrow> bool \<Rightarrow> byte list \<Rightarrow> telnet res" where
  "telnet_receive t urgent data =
     (let t = (if urgent then t\<lparr>in_synch := True\<rparr> else t)
      in do_telnet_read (t\<lparr>session_started := True\<rparr>) data)"

definition telnet_closing :: "telnet \<Rightarrow> bool \<Rightarrow> telnet" where
  "telnet_closing t error_msg =
     (let t = (if sock t \<noteq> None
               then let t1 = (log_event SocketClosed t)\<lparr>sock := None\<rparr>;
                        t2 = (if error_msg then t1\<lparr>closed_on_socket_error := True\<rparr> else t1)
                    in log_event RemoteExit t2
               else t)
      in if error_msg then log_event ConnectionFatal t else t)"

definition telnet_sent :: "telnet \<Rightarrow> nat \<Rightarrow> telnet" where
  "telnet_sent t n = t\<lparr>bufsize := n\<rparr>"

section \<open>Writing\<close>

definition iswritable :: "telnet \<Rightarrow> byte \<Rightarrow> bool" where
  "iswritable t x \<longleftrightarrow> x \<noteq> IAC \<and> (get_opt t o_we_bin = ACTIVE \<or> x \<noteq> CR)"

text \<open>The inner loop over characters that need escaping.\<close>

fun send_escaped :: "telnet \<Rightarrow> byte list \<Rightarrow> (telnet \<times> byte list) res" where
  "send_escaped t [] = Inr (t, [])"
| "send_escaped t (x # xs) =
     (if iswritable t x then Inr (t, x # xs)
      else res_bind (sk_write t (if x = IAC then [IAC, IAC] else [CR, NUL])) (\<lambda>t. send_escaped t xs))"

lemma send_escaped_shorter:
  "send_escaped t xs = Inr (t', ys) \<Longrightarrow> length ys \<le> length xs \<and>
     (xs \<noteq> [] \<longrightarrow> \<not> iswritable t (hd xs) \<longrightarrow> length ys < length xs)"
  by (induction t xs rule: send_escaped.induct) (fastforce simp: res_bind_eq_Inr split: if_splits)+

lemma dropWhile_progress:
  assumes "buf \<noteq> []" "send_escaped t (dropWhile P buf) = Inr (t', ys)" "\<And>x. iswritable t x \<longleftrightarrow> P x"
  shows "length ys < length buf"
proof (cases "dropWhile P buf")
  case Nil
  with assms(1) assms(2) [unfolded Nil] show ?thesis by simp
next
  case (Cons x xs)
  then have "\<not> P x" using hd_dropWhile [of P buf] by simp
  then have "length ys < length (dropWhile P buf)"
    using send_escaped_shorter [OF assms(2)] Cons assms(3) by auto
  also have "\<dots> \<le> length buf" by (rule length_dropWhile_le)
  finally show ?thesis .
qed

lemma sk_write_opt_states: "sk_write t b = Inr t' \<Longrightarrow> opt_states t' = opt_states t"
  by (auto simp: sk_write_def log_event_def Let_def split: option.splits)

function send_loop :: "telnet \<Rightarrow> byte list \<Rightarrow> telnet res" where
  "send_loop t buf =
     (if buf = [] then Inr t
      else case sk_write t (takeWhile (iswritable t) buf) of
        Inl f \<Rightarrow> Inl f
      | Inr t1 \<Rightarrow>
          (case send_escaped t1 (dropWhile (iswritable t) buf) of
             Inl f \<Rightarrow> Inl f
           | Inr (t2, rest) \<Rightarrow> send_loop t2 rest))"
  by pat_completeness auto
termination
proof (relation "measure (\<lambda>(t, buf). length buf)", simp, clarify)
  fix t buf t1 t2 rest
  assume "buf \<noteq> []" "sk_write t (takeWhile (iswritable t) buf) = Inr t1"
    "send_escaped t1 (dropWhile (iswritable t) buf) = Inr (t2, rest)"
  then show "((t2, rest), (t, buf)) \<in> measure (\<lambda>(t, buf). length buf)"
    using dropWhile_progress [of buf t1 "iswritable t" t2 rest] sk_write_opt_states
    by (auto simp: iswritable_def get_opt_def)
qed

declare send_loop.simps [simp del]

definition telnet_send :: "telnet \<Rightarrow> byte list \<Rightarrow> (telnet \<times> nat) res" where
  "telnet_send t buf =
     (if sock t = None then Inr (t, 0)
      else res_bind (send_loop t buf) (\<lambda>t. Inr (t, bufsize t)))"

definition telnet_sendbuffer :: "telnet \<Rightarrow> nat" where
  "telnet_sendbuffer t = bufsize t"

datatype special = SS_BRK | SS_EOF | SS_NOP | SS_PING | SS_AYT | SS_SYNCH | SS_EC | SS_EL | SS_GA
  | SS_ABORT | SS_AO | SS_IP | SS_SUSP | SS_EOR | SS_EOL | SS_OTHER

definition telnet_special :: "telnet \<Rightarrow> special \<Rightarrow> telnet res" where
  "telnet_special t code =
     (if sock t = None then Inr t
      else case code of
        SS_AYT \<Rightarrow> sk_write t [IAC, 246]
      | SS_BRK \<Rightarrow> sk_write t [IAC, 243]
      | SS_EC \<Rightarrow> sk_write t [IAC, 247]
      | SS_EL \<Rightarrow> sk_write t [IAC, 248]
      | SS_GA \<Rightarrow> sk_write t [IAC, 249]
      | SS_NOP \<Rightarrow> sk_write t [IAC, 241]
      | SS_ABORT \<Rightarrow> sk_write t [IAC, 238]
      | SS_AO \<Rightarrow> sk_write t [IAC, 245]
      | SS_IP \<Rightarrow> sk_write t [IAC, 244]
      | SS_SUSP \<Rightarrow> sk_write t [IAC, 237]
      | SS_EOR \<Rightarrow> sk_write t [IAC, 239]
      | SS_EOF \<Rightarrow> sk_write t [IAC, 236]
      | SS_EOL \<Rightarrow> sk_write t (if get_opt t o_we_bin = ACTIVE then [13] else [13, 10])
      | SS_SYNCH \<Rightarrow> res_bind (sk_write t [IAC]) (\<lambda>t. sk_write_oob t [DM])
      | SS_PING \<Rightarrow> (if get_opt t o_they_sga = ACTIVE then sk_write t [IAC, 241] else Inr t)
      | SS_OTHER \<Rightarrow> Inr t)"

section \<open>Set-up and queries\<close>

text \<open>
  Connection set-up.  Name lookup (a function of the address family), the new connection (a
  function of the host name it is for) and what the socket answers to writes come from outside
  this file; the keepalive timer has no effect on this state.
\<close>

fun init_opts :: "telnet \<Rightarrow> Opt list \<Rightarrow> telnet res" where
  "init_opts t [] = Inr t"
| "init_opts t (o' # os) =
     (let t = set_opt o' (initial_state o') t in
      res_bind (if get_opt t o' = REQUESTED then send_opt t (send o') (option o') else Inr t) (\<lambda>t.
      init_opts t os))"

text \<open>
  The fields that \<open>telnet_init\<close> leaves as the allocation gives them (some are set later).
\<close>

record uninit =
  opt_states0 :: "nat \<Rightarrow> opt_state"
  bufsize0 :: nat
  in_synch0 :: bool
  sb_opt0 :: byte

definition telnet_new :: "uninit \<Rightarrow> Conf \<Rightarrow> (event list \<Rightarrow> nat) \<Rightarrow> byte list option \<Rightarrow> telnet res" where
  "telnet_new junk cf seat user =
     res_bind (conf_get_int cf (CONF ''width'')) (\<lambda>w.
     res_bind (conf_get_int cf (CONF ''height'')) (\<lambda>h.
     Inr \<lparr>sock = None, closed_on_socket_error = False, seat_backlog = seat, local_user = user,
          has_ldisc = False, term_width = w, term_height = h, opt_states = opt_states0 junk,
          echoing = True, editing = True, activated = False, bufsize = bufsize0 junk,
          in_synch = in_synch0 junk, sb_opt = sb_opt0 junk,
          sb_buf = [], session_started = True, state = TOP_LEVEL, conf = cf, events = []\<rparr>))"

text \<open>The option states, once the socket is open.\<close>

definition telnet_start :: "telnet \<Rightarrow> telnet res" where
  "telnet_start t =
     res_bind (conf_get_bool (conf t) (CONF ''passive_telnet'')) (\<lambda>passive.
     res_bind (if passive then Inr (fold (\<lambda>o'. set_opt o' INACTIVE) opts t)
               else res_bind (init_opts t opts) (\<lambda>t. Inr (t\<lparr>activated := True\<rparr>))) (\<lambda>t.
     Inr (t\<lparr>in_synch := False\<rparr>)))"

definition log_host :: "byte list \<Rightarrow> byte list \<Rightarrow> byte list" where
  "log_host loghost realhost =
     (if loghost \<noteq> []
      then case host_strrchr (map (\<lambda>b. char_of (unat b)) loghost) (CHR '':'') of
          None \<Rightarrow> loghost
        | Some i \<Rightarrow> take i loghost
      else realhost)"

datatype init_result = InitError "byte list" | InitOk telnet "byte list"

definition telnet_init ::
  "uninit \<Rightarrow> Conf \<Rightarrow> (event list \<Rightarrow> nat) \<Rightarrow> byte list option \<Rightarrow> (int \<Rightarrow> byte list + byte list) \<Rightarrow>
   (byte list \<Rightarrow> byte list + (event list \<Rightarrow> nat)) \<Rightarrow> init_result res" where
  "telnet_init junk cf seat user name_lookup new_connection =
     res_bind (conf_copy cf) (\<lambda>cf.
     res_bind (telnet_new junk cf seat user) (\<lambda>t.
     res_bind (conf_get_int cf (CONF ''addressfamily'')) (\<lambda>addressfamily.
     case name_lookup addressfamily of
       Inl err \<Rightarrow> Inr (InitError err)
     | Inr realhost \<Rightarrow>
         (case new_connection realhost of
            Inl err \<Rightarrow> Inr (InitError err)
          | Inr socket \<Rightarrow>
              res_bind (telnet_start (t\<lparr>sock := Some socket\<rparr>)) (\<lambda>t.
              res_bind (conf_get_str cf (CONF ''loghost'')) (\<lambda>loghost.
              Inr (InitOk t (log_host loghost realhost))))))))"

definition telnet_reconfig :: "telnet \<Rightarrow> Conf \<Rightarrow> telnet res" where
  "telnet_reconfig t cf = res_bind (conf_copy cf) (\<lambda>cf. Inr (t\<lparr>conf := cf\<rparr>))"

definition telnet_connected :: "telnet \<Rightarrow> bool" where
  "telnet_connected t \<longleftrightarrow> sock t \<noteq> None"

definition telnet_unthrottle :: "telnet \<Rightarrow> nat \<Rightarrow> telnet res" where
  "telnet_unthrottle t backlog =
     (if sock t = None then Inl NullDeref
      else Inr (log_event (SetFrozen (backlog > TELNET_MAX_BACKLOG)) t))"

datatype ld_option = LD_EDIT | LD_ECHO

definition telnet_ldisc :: "telnet \<Rightarrow> ld_option \<Rightarrow> bool" where
  "telnet_ldisc t opt = (case opt of LD_ECHO \<Rightarrow> echoing t | LD_EDIT \<Rightarrow> editing t)"

definition telnet_provide_ldisc :: "telnet \<Rightarrow> bool \<Rightarrow> telnet" where
  "telnet_provide_ldisc t ld = t\<lparr>has_ldisc := ld\<rparr>"

definition telnet_exitcode :: "telnet \<Rightarrow> int" where
  "telnet_exitcode t =
     (if sock t \<noteq> None then -1
      else if closed_on_socket_error t then int INT_MAX
      else 0)"

end
