(* ===== verification/Telnet_Correct.thy ===== *)
theory Telnet_Correct
  imports Telnet
begin

text \<open>
  Properties of the Telnet backend: the invariant of its state along every sequence of
  operations, absence of faults, round trips of the data stream and of the window size
  report, and the outcome of option negotiation between two ends.
\<close>

section \<open>Frame lemmas\<close>

lemma sk_write_eq:
  "sk_write t b = Inr t' \<longleftrightarrow>
     (\<exists>answer. sock t = Some answer \<and>
        t' = t\<lparr>events := events t @ [Sent b], bufsize := answer (events t @ [Sent b])\<rparr>)"
  by (auto simp: sk_write_def log_event_def Let_def split: option.splits)

lemma sk_write_oob_eq:
  "sk_write_oob t b = Inr t' \<longleftrightarrow>
     (\<exists>answer. sock t = Some answer \<and>
        t' = t\<lparr>events := events t @ [SentOOB b], bufsize := answer (events t @ [SentOOB b])\<rparr>)"
  by (auto simp: sk_write_oob_def log_event_def Let_def split: option.splits)

lemma c_write_eq:
  "c_write t b = Inr t' \<longleftrightarrow> sock t \<noteq> None \<and>
     t' = t\<lparr>events := events t @ [Stdout b,
        SetFrozen (seat_backlog t (events t @ [Stdout b]) > TELNET_MAX_BACKLOG)]\<rparr>"
  by (auto simp: c_write_def log_event_def Let_def)

lemma set_opt_simps [simp]:
  "sock (set_opt o' st t) = sock t" "events (set_opt o' st t) = events t"
  "echoing (set_opt o' st t) = echoing t" "editing (set_opt o' st t) = editing t"
  "activated (set_opt o' st t) = activated t" "conf (set_opt o' st t) = conf t"
  "state (set_opt o' st t) = state t" "sb_buf (set_opt o' st t) = sb_buf t"
  "sb_opt (set_opt o' st t) = sb_opt t" "has_ldisc (set_opt o' st t) = has_ldisc t"
  by (simp_all add: set_opt_def)

lemma get_set_opt: "get_opt (set_opt o1 st t) o2 = (if index o1 = index o2 then st else get_opt t o2)"
  by (simp add: set_opt_def get_opt_def)

text \<open>The table of options: two options differ in their index, and in what they send.\<close>

lemma opts_table:
  "distinct (map index opts)" "distinct (map (\<lambda>o'. (option o', send o')) opts)"
  "list_all (\<lambda>o'. (send o', nsend o', ack o', nak o') \<in> {(WILL, WONT, DO, DONT), (DO, DONT, WILL, WONT)}) opts"
  by (simp_all add: opts_def opt_defs)

lemma opts_index: "o1 \<in> set opts \<Longrightarrow> o2 \<in> set opts \<Longrightarrow> index o1 = index o2 \<longleftrightarrow> o1 = o2"
  using opts_table(1) by (auto simp: distinct_map dest: inj_onD)

lemma opts_codes:
  "o' \<in> set opts \<Longrightarrow>
     send o' = WILL \<and> nsend o' = WONT \<and> ack o' = DO \<and> nak o' = DONT \<or>
     send o' = DO \<and> nsend o' = DONT \<and> ack o' = WILL \<and> nak o' = WONT"
  using opts_table(3) by (auto simp: list_all_iff)

lemma opts_differ:
  "o1 \<in> set opts \<Longrightarrow> o2 \<in> set opts \<Longrightarrow> o1 \<noteq> o2 \<Longrightarrow> option o1 = option o2 \<Longrightarrow> send o1 \<noteq> send o2"
  using opts_table(2) by (auto simp: distinct_map dest: inj_onD)

lemma opts_members [simp]:
  "o_naws \<in> set opts" "o_oenv \<in> set opts" "o_nenv \<in> set opts" "o_echo \<in> set opts" "o_we_sga \<in> set opts"
  "o_they_sga \<in> set opts" "o_we_bin \<in> set opts" "o_they_bin \<in> set opts"
  by (simp_all add: opts_def)

section \<open>What was said on the wire\<close>

text \<open>
  The commands about an option among the messages sent, in order, and: an option that is
  requested or active was last asserted, not withdrawn.
\<close>

fun opt_commands :: "Opt \<Rightarrow> event list \<Rightarrow> byte list" where
  "opt_commands o' [] = []"
| "opt_commands o' (Sent [x, c, p] # es) =
     (if x = IAC \<and> p = option o' \<and> (c = send o' \<or> c = nsend o') then c # opt_commands o' es
      else opt_commands o' es)"
| "opt_commands o' (_ # es) = opt_commands o' es"

definition asserted :: "event list \<Rightarrow> Opt \<Rightarrow> bool" where
  "asserted es o' \<longleftrightarrow> opt_commands o' es \<noteq> [] \<and> last (opt_commands o' es) = send o'"

definition said :: "telnet \<Rightarrow> Opt \<Rightarrow> bool" where
  "said t o' \<longleftrightarrow> (get_opt t o' = REQUESTED \<or> get_opt t o' = ACTIVE \<longrightarrow> asserted (events t) o')"

lemma opt_commands_append: "opt_commands o' (xs @ ys) = opt_commands o' xs @ opt_commands o' ys"
  by (induction o' xs rule: opt_commands.induct) auto

text \<open>Messages that are not commands about the option leave it alone.\<close>

definition quiet :: "event list \<Rightarrow> bool" where
  "quiet es \<longleftrightarrow> (\<forall>o'\<in>set opts. opt_commands o' es = [])"

lemma quiet_Sent: "length b \<noteq> 3 \<or> hd b \<noteq> IAC \<Longrightarrow> quiet [Sent b]"
proof -
  assume "length b \<noteq> 3 \<or> hd b \<noteq> IAC"
  then have "opt_commands o' [Sent b] = []" for o'
    by (cases "(o', [Sent b])" rule: opt_commands.cases) (auto split: list.splits)
  then show ?thesis by (simp add: quiet_def)
qed

lemma quiet_other [simp]:
  "quiet []" "quiet [SentOOB b]" "quiet [Stdout b]" "quiet [SetFrozen f]" "quiet [LdiscUpdate]"
  "quiet [SocketClosed]" "quiet [RemoteExit]" "quiet [ConnectionFatal]"
  by (simp_all add: quiet_def)

lemma quiet_Cons: "quiet (e # es) \<longleftrightarrow> quiet [e] \<and> quiet es"
  using opt_commands_append [of _ "[e]" es] by (auto simp: quiet_def)

lemma said_quiet:
  "opt_states t' = opt_states t \<Longrightarrow> events t' = events t @ es \<Longrightarrow> quiet es \<Longrightarrow> o' \<in> set opts \<Longrightarrow>
     said t' o' = said t o'"
  by (auto simp: said_def get_opt_def asserted_def opt_commands_append quiet_def)

lemma send_opt_eq:
  "send_opt t c p = Inr t' \<longleftrightarrow>
     (\<exists>answer. sock t = Some answer \<and>
        t' = t\<lparr>events := events t @ [Sent [IAC, c, p]], bufsize := answer (events t @ [Sent [IAC, c, p]])\<rparr>)"
  by (simp add: send_opt_def sk_write_eq)

lemma opt_commands_send_other:
  assumes "o1 \<in> set opts" "o2 \<in> set opts" "o1 \<noteq> o2" "c = send o1 \<or> c = nsend o1"
  shows "opt_commands o2 [Sent [IAC, c, option o1]] = []"
  using opts_differ [OF assms(1-3)] opts_codes [OF assms(1)] opts_codes [OF assms(2)] assms(4) by auto

lemma said_send:
  assumes "send_opt t (send o1) (option o1) = Inr t'" "o1 \<in> set opts" "o2 \<in> set opts" "o2 = o1 \<or> said t o2"
  shows "said t' o2"
proof (cases "o2 = o1")
  case True
  then show ?thesis using assms(1) by (auto simp: send_opt_eq said_def asserted_def opt_commands_append)
next
  case False
  then show ?thesis using assms opt_commands_send_other [of o1 o2 "send o1"]
    by (auto simp: send_opt_eq said_def asserted_def opt_commands_append get_opt_def)
qed

lemma said_nsend:
  assumes "send_opt t (nsend o1) (option o1) = Inr t'" "o1 \<in> set opts" "o2 \<in> set opts" "said t o2"
    "o2 = o1 \<longrightarrow> get_opt t o1 \<noteq> REQUESTED \<and> get_opt t o1 \<noteq> ACTIVE"
  shows "said t' o2"
proof (cases "o2 = o1")
  case True
  then show ?thesis using assms(1,5) by (auto simp: send_opt_eq said_def get_opt_def)
next
  case False
  then show ?thesis using assms opt_commands_send_other [of o1 o2 "nsend o1"]
    by (auto simp: send_opt_eq said_def asserted_def opt_commands_append get_opt_def)
qed

lemma said_set_opt:
  "o1 \<in> set opts \<Longrightarrow> o2 \<in> set opts \<Longrightarrow> o1 \<noteq> o2 \<Longrightarrow> said (set_opt o1 st t) o2 = said t o2"
  by (simp add: said_def get_set_opt opts_index)

lemma said_inactive: "said (set_opt o' INACTIVE t) o'" "said (set_opt o' REALLY_INACTIVE t) o'"
  by (simp_all add: said_def get_set_opt)

definition all_said :: "telnet \<Rightarrow> bool" where
  "all_said t \<longleftrightarrow> (\<forall>o'\<in>set opts. said t o')"

lemma all_said_off: "all_said t \<Longrightarrow> o' \<in> set opts \<Longrightarrow> st \<noteq> REQUESTED \<Longrightarrow> st \<noteq> ACTIVE \<Longrightarrow> all_said (set_opt o' st t)"
  unfolding all_said_def by (metis said_set_opt said_inactive opt_state.exhaust)

lemma all_said_sent:
  "all_said t \<Longrightarrow> sk_write t b = Inr t' \<Longrightarrow> length b \<noteq> 3 \<or> hd b \<noteq> IAC \<Longrightarrow> all_said t'"
  unfolding all_said_def sk_write_eq using said_quiet [OF _ _ quiet_Sent, of t' t b] by fastforce

lemma all_said_request:
  assumes "all_said t" "o' \<in> set opts" "send_opt (set_opt o' st t) (send o') (option o') = Inr t'"
  shows "all_said t'"
  using assms said_send [OF assms(3)] said_set_opt [of o' _ st t] unfolding all_said_def by metis

lemma deactivate_option_said:
  assumes "deactivate_option t o' = Inr t'" "o' \<in> set opts" "all_said t"
  shows "all_said t'"
proof -
  have "said t' o2" if "o2 \<in> set opts" for o2
  proof (cases "o2 = o'")
    case True
    then show ?thesis using assms(1) said_inactive
      by (auto simp: deactivate_option_def res_bind_eq_Inr)
  next
    case False
    then show ?thesis using assms that said_nsend [of t o' _ o2]
      by (auto simp: deactivate_option_def res_bind_eq_Inr said_set_opt all_said_def split: if_splits)
  qed
  then show ?thesis by (simp add: all_said_def)
qed

lemma request_if_inactive_said:
  "request_if_inactive o' t = Inr t' \<Longrightarrow> o' \<in> set opts \<Longrightarrow> all_said t \<Longrightarrow> all_said t'"
  by (auto simp: request_if_inactive_def split: if_splits intro: all_said_request)

lemma all_said_cong: "opt_states t' = opt_states t \<Longrightarrow> events t' = events t \<Longrightarrow> all_said t' = all_said t"
  by (simp add: all_said_def said_def get_opt_def)

lemma all_said_log: "quiet [e] \<Longrightarrow> all_said (log_event e t) = all_said t"
  using said_quiet [of "log_event e t" t "[e]"] by (auto simp: all_said_def log_event_def)

lemma option_side_effects_said:
  assumes "option_side_effects t o' en = Inr t'" "all_said t"
  shows "all_said t'"
proof -
  let ?t1 = "if option o' = TELOPT_ECHO \<and> send o' = DO then t\<lparr>echoing := \<not> en\<rparr>
             else if option o' = TELOPT_SGA \<and> send o' = DO then t\<lparr>editing := \<not> en\<rparr> else t"
  let ?t2 = "if has_ldisc ?t1 then log_event LdiscUpdate ?t1 else ?t1"
  have "all_said ?t1" using assms(2) by (subst all_said_cong [of _ t]) simp_all
  then have 2: "all_said ?t2" by (simp add: all_said_log)
  have def: "option_side_effects t o' en = (if activated ?t2 then Inr ?t2
      else res_bind (request_if_inactive o_echo ?t2) (\<lambda>t.
           res_bind (request_if_inactive o_we_sga t) (\<lambda>t.
           res_bind (request_if_inactive o_they_sga t) (\<lambda>t. Inr (t\<lparr>activated := True\<rparr>)))))"
    unfolding option_side_effects_def Let_def by (rule refl)
  show ?thesis
  proof (cases "activated ?t2")
    case True
    then have "t' = ?t2" using assms(1) unfolding def by (simp only: if_True sum.inject)
    with 2 show ?thesis by (simp only:)
  next
    case False
    then obtain a b c where "request_if_inactive o_echo ?t2 = Inr a" "request_if_inactive o_we_sga a = Inr b"
      "request_if_inactive o_they_sga b = Inr c" "t' = c\<lparr>activated := True\<rparr>"
      using assms(1) unfolding def by (auto simp only: if_False res_bind_eq_Inr sum.inject)
    with request_if_inactive_said [of o_echo ?t2 a] request_if_inactive_said [of o_we_sga a b]
      request_if_inactive_said [of o_they_sga b c] 2
    show ?thesis using all_said_cong [of t' c] by (simp del: if_split)
  qed
qed

lemma telnet_size_said:
  assumes "telnet_size t w h = Inr t'" "all_said t"
  shows "all_said t'"
proof -
  let ?t = "t\<lparr>term_width := w, term_height := h\<rparr>"
  have "all_said ?t" using assms(2) by (subst all_said_cong [of _ t]) simp_all
  moreover have "t' = ?t \<or> (\<exists>b. sk_write ?t b = Inr t' \<and> length b \<noteq> 3)"
    using assms(1) by (auto simp: telnet_size_def Let_def res_bind_eq_Inr buffer_of_def split: if_splits)
  ultimately show ?thesis using all_said_sent by blast
qed

lemma activate_option_said:
  "activate_option t o' = Inr t' \<Longrightarrow> all_said t \<Longrightarrow> all_said t'"
  unfolding activate_option_def
  using deactivate_option_said [OF _ opts_members(2), of t] deactivate_option_said [OF _ opts_members(3), of t]
    telnet_size_said [of t "term_width t" "term_height t"] option_side_effects_said [of _ o' True t']
  by (auto simp: res_bind_eq_Inr split: if_splits)

lemma refused_option_said:
  assumes "refused_option t o' = Inr t'" "all_said t"
  shows "all_said t'"
proof -
  have env: "all_said (set_opt o_oenv REQUESTED u)" if u: "send_opt t WILL TELOPT_OLD_ENVIRON = Inr u" for u
  proof -
    have "send_opt (set_opt o_oenv REQUESTED t) WILL TELOPT_OLD_ENVIRON = Inr (set_opt o_oenv REQUESTED u)"
      using u by (auto simp: send_opt_eq set_opt_def)
    moreover have "send o_oenv = WILL" "option o_oenv = TELOPT_OLD_ENVIRON" by (simp_all add: o_oenv_def)
    ultimately show ?thesis using all_said_request [OF assms(2), of o_oenv] by simp
  qed
  show ?thesis using assms unfolding refused_option_def
    by (auto simp: res_bind_eq_Inr split: if_splits intro: option_side_effects_said env)
qed

lemma on_ack_said:
  assumes "on_ack t o' = Inr t'" "o' \<in> set opts" "all_said t"
  shows "all_said t'"
proof (cases "get_opt t o'")
  case REQUESTED
  then have "all_said (set_opt o' ACTIVE t)"
    using assms(2,3) by (auto simp: all_said_def said_def get_set_opt opts_index)
  then show ?thesis using REQUESTED assms(1) activate_option_said by (auto simp: on_ack_def)
next
  case INACTIVE
  then obtain u where "send_opt (set_opt o' ACTIVE t) (send o') (option o') = Inr u" "activate_option u o' = Inr t'"
    using assms(1) by (auto simp: on_ack_def res_bind_eq_Inr)
  then show ?thesis using all_said_request [OF assms(3,2)] activate_option_said by blast
next
  case REALLY_INACTIVE
  then show ?thesis using assms said_nsend [of t o'] by (auto simp: on_ack_def all_said_def)
qed (use assms in \<open>simp add: on_ack_def\<close>)

lemma on_nak_said:
  assumes "on_nak t o' = Inr t'" "o' \<in> set opts" "all_said t"
  shows "all_said t'"
proof (cases "get_opt t o'")
  case REQUESTED
  then show ?thesis using assms by (auto simp: on_nak_def intro: refused_option_said all_said_off)
next
  case ACTIVE
  then obtain u where u: "send_opt (set_opt o' INACTIVE t) (nsend o') (option o') = Inr u"
    "option_side_effects u o' False = Inr t'"
    using assms(1) by (auto simp: on_nak_def res_bind_eq_Inr)
  have "all_said u" using said_nsend [OF u(1) assms(2)] all_said_off [OF assms(3,2)]
    by (auto simp: all_said_def get_set_opt)
  then show ?thesis using option_side_effects_said u(2) by blast
qed (use assms in \<open>simp_all add: on_nak_def\<close>)

lemma proc_rec_loop_said:
  "proc_rec_loop t cmd p os = Inr t' \<Longrightarrow> set os \<subseteq> set opts \<Longrightarrow>
   (\<forall>o'\<in>set opts - set os. option o' = p \<longrightarrow> ack o' \<noteq> cmd \<and> nak o' \<noteq> cmd) \<Longrightarrow> all_said t \<Longrightarrow> all_said t'"
proof (induction t cmd p os rule: proc_rec_loop.induct)
  case (1 t cmd p)
  show ?case
  proof (cases "cmd = WILL \<or> cmd = DO")
    case True
    have "opt_commands o' [Sent [IAC, if cmd = WILL then DONT else WONT, p]] = []" if "o' \<in> set opts" for o'
      using 1(3) opts_codes [OF that] True that by auto
    then have "said t' o' = said t o'" if "o' \<in> set opts" for o'
      using 1(1) True said_quiet [of t' t "[Sent [IAC, if cmd = WILL then DONT else WONT, p]]"] that
      by (auto simp: send_opt_eq quiet_def)
    then show ?thesis using 1(4) by (simp add: all_said_def)
  qed (use 1 in simp)
next
  case (2 t cmd p o' os)
  then show ?case by (auto split: if_splits intro: on_ack_said on_nak_said)
qed

lemma proc_rec_opt_said: "proc_rec_opt t cmd p = Inr t' \<Longrightarrow> all_said t \<Longrightarrow> all_said t'"
  using proc_rec_loop_said [of t cmd p opts t'] by (simp add: proc_rec_opt_def)

section \<open>Option states, echoing and editing\<close>

text \<open>
  Steps that change no option to or from \<open>ACTIVE\<close> and \<open>REALLY_INACTIVE\<close>; requesting an inactive
  option is one.
\<close>

definition same_modes :: "telnet \<Rightarrow> telnet \<Rightarrow> bool" where
  "same_modes t t' \<longleftrightarrow> (\<forall>o'. (get_opt t' o' = ACTIVE \<longleftrightarrow> get_opt t o' = ACTIVE) \<and>
     (get_opt t' o' = REALLY_INACTIVE \<longleftrightarrow> get_opt t o' = REALLY_INACTIVE)) \<and>
     echoing t' = echoing t \<and> editing t' = editing t"

definition modes_ok :: "telnet \<Rightarrow> bool" where
  "modes_ok t \<longleftrightarrow>
     (echoing t \<longleftrightarrow> get_opt t o_echo \<noteq> ACTIVE) \<and>
     (editing t \<longleftrightarrow> get_opt t o_they_sga \<noteq> ACTIVE) \<and>
     (\<forall>o'\<in>set opts. get_opt t o' = REALLY_INACTIVE \<longrightarrow> o' = o_oenv \<or> o' = o_nenv) \<and>
     (get_opt t o_oenv = ACTIVE \<longrightarrow> get_opt t o_nenv = REALLY_INACTIVE) \<and>
     (get_opt t o_nenv = ACTIVE \<longrightarrow> get_opt t o_oenv = REALLY_INACTIVE)"

lemma same_modes_ok: "same_modes t t' \<Longrightarrow> modes_ok t' = modes_ok t"
  unfolding same_modes_def modes_ok_def by auto

lemma same_modes_trans: "same_modes t u \<Longrightarrow> same_modes u v \<Longrightarrow> same_modes t v"
  unfolding same_modes_def by auto

lemma same_modes_cong:
  "opt_states t' = opt_states t \<Longrightarrow> echoing t' = echoing t \<Longrightarrow> editing t' = editing t \<Longrightarrow> same_modes t t'"
  by (simp add: same_modes_def get_opt_def)

lemma sk_write_modes: "sk_write t b = Inr t' \<Longrightarrow> same_modes t t'"
  by (auto simp: sk_write_eq intro: same_modes_cong)

lemma send_opt_modes: "send_opt t c p = Inr t' \<Longrightarrow> same_modes t t'"
  by (simp add: send_opt_def sk_write_modes)

lemma request_if_inactive_modes: "request_if_inactive o' t = Inr t' \<Longrightarrow> same_modes t t'"
  by (auto simp: request_if_inactive_def send_opt_eq same_modes_def get_opt_def set_opt_def split: if_splits)

lemma telnet_size_modes: "telnet_size t w h = Inr t' \<Longrightarrow> same_modes t t'"
  using same_modes_trans [OF same_modes_cong sk_write_modes, of "t\<lparr>term_width := w, term_height := h\<rparr>" t]
  by (auto simp: telnet_size_def Let_def res_bind_eq_Inr split: if_splits intro: same_modes_cong)

lemma deactivate_option_modes:
  "deactivate_option t o' = Inr t' \<Longrightarrow>
     (\<forall>o2. get_opt t' o2 = (if index o2 = index o' then REALLY_INACTIVE else get_opt t o2)) \<and>
     echoing t' = echoing t \<and> editing t' = editing t"
  by (auto simp: deactivate_option_def res_bind_eq_Inr send_opt_eq get_opt_def set_opt_def split: if_splits)

lemma option_side_effects_modes:
  assumes "option_side_effects t o' en = Inr t'"
  shows "same_modes (t\<lparr>echoing := (if option o' = TELOPT_ECHO \<and> send o' = DO then \<not> en else echoing t),
      editing := (if option o' = TELOPT_SGA \<and> send o' = DO then \<not> en else editing t)\<rparr>) t'"
    (is "same_modes ?t1 t'")
proof -
  let ?u1 = "if option o' = TELOPT_ECHO \<and> send o' = DO then t\<lparr>echoing := \<not> en\<rparr>
             else if option o' = TELOPT_SGA \<and> send o' = DO then t\<lparr>editing := \<not> en\<rparr> else t"
  let ?u2 = "if has_ldisc ?u1 then log_event LdiscUpdate ?u1 else ?u1"
  have eq: "option_side_effects t o' en = (if activated ?u2 then Inr ?u2
      else res_bind (request_if_inactive o_echo ?u2) (\<lambda>t.
           res_bind (request_if_inactive o_we_sga t) (\<lambda>t.
           res_bind (request_if_inactive o_they_sga t) (\<lambda>t. Inr (t\<lparr>activated := True\<rparr>)))))"
    unfolding option_side_effects_def Let_def by (rule refl)
  have 1: "same_modes ?t1 ?u2" by (rule same_modes_cong) (auto simp: log_event_def)
  show ?thesis
  proof (cases "activated ?u2")
    case True
    then have "t' = ?u2" using assms unfolding eq by (simp only: if_True sum.inject)
    with 1 show ?thesis by (simp only:)
  next
    case False
    then obtain a b c where "request_if_inactive o_echo ?u2 = Inr a" "request_if_inactive o_we_sga a = Inr b"
      "request_if_inactive o_they_sga b = Inr c" and t': "t' = c\<lparr>activated := True\<rparr>"
      using assms unfolding eq by (auto simp only: if_False res_bind_eq_Inr sum.inject)
    then have "same_modes ?u2 c" using request_if_inactive_modes same_modes_trans by blast
    moreover have "same_modes c t'" using t' by (auto intro: same_modes_cong)
    ultimately show ?thesis using 1 same_modes_trans by blast
  qed
qed

lemma other_index:
  "o1 \<in> set opts \<Longrightarrow> o2 \<in> set opts \<Longrightarrow> o1 \<noteq> o2 \<Longrightarrow> get_opt (set_opt o1 st t) o2 = get_opt t o2"
  by (simp add: get_set_opt opts_index)

text \<open>An option that changes to \<open>ACTIVE\<close> or \<open>INACTIVE\<close>, followed by its side effects.\<close>

lemma echo_iff: "o' \<in> set opts \<Longrightarrow> option o' = TELOPT_ECHO \<and> send o' = DO \<longleftrightarrow> o' = o_echo"
  using opts_differ [OF _ opts_members(4), of o'] opts_members(4) by (auto simp: o_echo_def)

lemma they_sga_iff: "o' \<in> set opts \<Longrightarrow> option o' = TELOPT_SGA \<and> send o' = DO \<longleftrightarrow> o' = o_they_sga"
  using opts_differ [OF _ opts_members(6), of o'] opts_members(6) by (auto simp: o_they_sga_def)

lemma nenv_iff: "o' \<in> set opts \<Longrightarrow> send o' = WILL \<and> option o' = TELOPT_NEW_ENVIRON \<longleftrightarrow> o' = o_nenv"
  using opts_differ [OF _ opts_members(3), of o'] opts_members(3) by (auto simp: o_nenv_def)

lemma oenv_iff: "o' \<in> set opts \<Longrightarrow> send o' = WILL \<and> option o' = TELOPT_OLD_ENVIRON \<longleftrightarrow> o' = o_oenv"
  using opts_differ [OF _ opts_members(2), of o'] opts_members(2) by (auto simp: o_oenv_def)

lemma option_change_modes:
  assumes o': "o' \<in> set opts" and t: "modes_ok t" and o_off: "get_opt t o' \<noteq> REALLY_INACTIVE"
    and u: "same_modes (set_opt o' st t) u" "option_side_effects u o' en = Inr t'"
    and st: "st = (if en then ACTIVE else INACTIVE)" and env: "en \<longrightarrow> o' \<noteq> o_oenv \<and> o' \<noteq> o_nenv"
  shows "modes_ok t'"
proof -
  have "same_modes (u\<lparr>echoing := (if o' = o_echo then \<not> en else echoing u),
      editing := (if o' = o_they_sga then \<not> en else editing u)\<rparr>) t'"
    using option_side_effects_modes [OF u(2)] echo_iff [OF o'] they_sga_iff [OF o'] by simp
  then have t': "\<And>o2. (get_opt t' o2 = ACTIVE \<longleftrightarrow> get_opt (set_opt o' st t) o2 = ACTIVE) \<and>
     (get_opt t' o2 = REALLY_INACTIVE \<longleftrightarrow> get_opt (set_opt o' st t) o2 = REALLY_INACTIVE)"
    "echoing t' = (if o' = o_echo then \<not> en else echoing t)"
    "editing t' = (if o' = o_they_sga then \<not> en else editing t)"
    using u(1) by (simp_all add: same_modes_def get_opt_def)
  have act: "get_opt t' o2 = ACTIVE \<longleftrightarrow> (if o2 = o' then en else get_opt t o2 = ACTIVE)"
    and off: "get_opt t' o2 = REALLY_INACTIVE \<longleftrightarrow> o2 \<noteq> o' \<and> get_opt t o2 = REALLY_INACTIVE" if "o2 \<in> set opts" for o2
    using t'(1) [of o2] o' that st by (auto simp: get_set_opt opts_index)
  have neq: "o_echo \<noteq> o_they_sga" "o_oenv \<noteq> o_nenv" by (simp_all add: opt_defs)
  show ?thesis using t env o_off neq unfolding modes_ok_def t'(2,3)
    by (simp add: act off split del: if_split) (auto split: if_splits)
qed

text \<open>Activating one kind of environment option rules the other one out.\<close>

lemma env_change_modes:
  assumes t: "modes_ok t" and e: "e = o_oenv \<and> e' = o_nenv \<or> e = o_nenv \<and> e' = o_oenv"
    and u: "same_modes (set_opt e ACTIVE t) u" "deactivate_option u e' = Inr v" "option_side_effects v e True = Inr t'"
  shows "modes_ok t'"
proof -
  have idx: "index e \<noteq> index e'" "index o_echo \<notin> {index e, index e'}" "index o_they_sga \<notin> {index e, index e'}"
    "\<not> (option e = TELOPT_ECHO \<and> send e = DO)" "\<not> (option e = TELOPT_SGA \<and> send e = DO)"
    using e by (auto simp: opt_defs)
  have "same_modes v t'" using option_side_effects_modes [OF u(3)] idx(4,5)
    by (simp add: same_modes_def get_opt_def)
  then have g: "(get_opt t' o2 = ACTIVE \<longleftrightarrow> (if index o2 = index e' then False else if index o2 = index e then True else get_opt t o2 = ACTIVE)) \<and>
     (get_opt t' o2 = REALLY_INACTIVE \<longleftrightarrow> (if index o2 = index e' then True else if index o2 = index e then False else get_opt t o2 = REALLY_INACTIVE))"
    and ed: "echoing t' = echoing t" "editing t' = editing t" for o2
    using u(1) deactivate_option_modes [OF u(2)] by (auto simp: same_modes_def get_set_opt)
  have off: "o' = o_oenv \<or> o' = o_nenv" if "o' \<in> set opts" "get_opt t' o' = REALLY_INACTIVE" for o'
  proof (cases "index o' = index e'")
    case True
    then have "o' = e'" using opts_index [OF that(1), of e'] e by auto
    with e show ?thesis by auto
  next
    case False
    then have "get_opt t o' = REALLY_INACTIVE" using g [of o'] that(2) by (auto split: if_splits)
    with t that(1) show ?thesis by (auto simp: modes_ok_def)
  qed
  have "get_opt t' o_echo = ACTIVE \<longleftrightarrow> get_opt t o_echo = ACTIVE"
    "get_opt t' o_they_sga = ACTIVE \<longleftrightarrow> get_opt t o_they_sga = ACTIVE"
    "get_opt t' e = ACTIVE" "get_opt t' e' = REALLY_INACTIVE"
    using g [of o_echo] g [of o_they_sga] g [of e] g [of e'] idx(1-3) by simp_all
  with t e ed off show ?thesis unfolding modes_ok_def by (elim conjE disjE) simp_all
qed

lemma activated_modes:
  assumes o': "o' \<in> set opts" and t: "modes_ok t" "get_opt t o' \<noteq> REALLY_INACTIVE"
    and u: "same_modes (set_opt o' ACTIVE t) u" "activate_option u o' = Inr t'"
  shows "modes_ok t'"
proof -
  obtain v w where
    v: "(if send o' = WILL \<and> option o' = TELOPT_NAWS then telnet_size u (term_width u) (term_height u) else Inr u) = Inr v"
    and w: "(if send o' = WILL \<and> (option o' = TELOPT_NEW_ENVIRON \<or> option o' = TELOPT_OLD_ENVIRON)
         then deactivate_option v (if option o' = TELOPT_NEW_ENVIRON then o_oenv else o_nenv) else Inr v) = Inr w"
    and t': "option_side_effects w o' True = Inr t'"
    using u(2) by (auto simp: activate_option_def res_bind_eq_Inr)
  have "same_modes u v" using v telnet_size_modes same_modes_cong by (auto split: if_splits)
  with u(1) have uv: "same_modes (set_opt o' ACTIVE t) v" by (rule same_modes_trans)
  show ?thesis
  proof (cases "o' = o_oenv \<or> o' = o_nenv")
    case True
    then have "deactivate_option v (if o' = o_nenv then o_oenv else o_nenv) = Inr w"
      using w by (auto simp: o_oenv_def o_nenv_def)
    then show ?thesis using env_change_modes [OF t(1) _ uv _ t'] True by (auto split: if_splits)
  next
    case False
    then have "w = v" using w nenv_iff [OF o'] oenv_iff [OF o'] by (auto split: if_splits)
    then show ?thesis using option_change_modes [OF o' t uv, of True t'] t' False by simp
  qed
qed

lemma on_ack_modes:
  assumes "on_ack t o' = Inr t'" "o' \<in> set opts" "modes_ok t"
  shows "modes_ok t'"
proof (cases "get_opt t o'")
  case REQUESTED
  then show ?thesis using assms activated_modes [OF assms(2,3) _ same_modes_cong] by (simp add: on_ack_def)
next
  case INACTIVE
  then obtain u where "send_opt (set_opt o' ACTIVE t) (send o') (option o') = Inr u" "activate_option u o' = Inr t'"
    using assms(1) by (auto simp: on_ack_def res_bind_eq_Inr)
  then show ?thesis using activated_modes [OF assms(2,3) _ send_opt_modes] INACTIVE by simp
next
  case REALLY_INACTIVE
  then have "same_modes t t'" using assms(1) send_opt_modes by (simp add: on_ack_def)
  then show ?thesis using assms(3) same_modes_ok by blast
qed (use assms in \<open>simp add: on_ack_def\<close>)

lemma refused_option_modes:
  assumes "refused_option t o' = Inr t'"
  shows "\<exists>u. same_modes t u \<and> option_side_effects u o' False = Inr t'"
proof (cases "send o' = WILL \<and> option o' = TELOPT_NEW_ENVIRON \<and> get_opt t o_oenv = INACTIVE")
  case True
  then obtain u where u: "send_opt t WILL TELOPT_OLD_ENVIRON = Inr u"
    "option_side_effects (set_opt o_oenv REQUESTED u) o' False = Inr t'"
    using assms by (auto simp: refused_option_def res_bind_eq_Inr)
  moreover have "same_modes t (set_opt o_oenv REQUESTED u)"
    using send_opt_modes [OF u(1)] True by (auto simp: same_modes_def get_opt_def set_opt_def)
  ultimately show ?thesis by blast
next
  case False
  then have "option_side_effects t o' False = Inr t'" using assms by (auto simp: refused_option_def)
  moreover have "same_modes t t" by (simp add: same_modes_def)
  ultimately show ?thesis by blast
qed

lemma on_nak_modes:
  assumes "on_nak t o' = Inr t'" "o' \<in> set opts" "modes_ok t"
  shows "modes_ok t'"
proof (cases "get_opt t o'")
  case REQUESTED
  then obtain u where "same_modes (set_opt o' INACTIVE t) u" "option_side_effects u o' False = Inr t'"
    using assms(1) refused_option_modes by (fastforce simp: on_nak_def)
  then show ?thesis using option_change_modes [OF assms(2,3), of INACTIVE u False t'] REQUESTED by simp
next
  case ACTIVE
  then obtain u where "same_modes (set_opt o' INACTIVE t) u" "option_side_effects u o' False = Inr t'"
    using assms(1) by (auto simp: on_nak_def res_bind_eq_Inr dest: send_opt_modes)
  then show ?thesis using option_change_modes [OF assms(2,3), of INACTIVE u False t'] ACTIVE by simp
qed (use assms in \<open>simp_all add: on_nak_def\<close>)

lemma proc_rec_loop_modes:
  "proc_rec_loop t cmd p os = Inr t' \<Longrightarrow> set os \<subseteq> set opts \<Longrightarrow> modes_ok t \<Longrightarrow> modes_ok t'"
proof (induction t cmd p os rule: proc_rec_loop.induct)
  case (1 t cmd p)
  then show ?case using same_modes_ok [OF send_opt_modes] by (auto split: if_splits)
next
  case (2 t cmd p o' os)
  then show ?case by (auto split: if_splits intro: on_ack_modes on_nak_modes)
qed

section \<open>The invariant along every run\<close>

definition telnet_inv :: "telnet \<Rightarrow> bool" where
  "telnet_inv t \<longleftrightarrow> modes_ok t \<and> all_said t"

lemma telnet_inv_quiet:
  assumes "telnet_inv t" "opt_states t' = opt_states t" "echoing t' = echoing t" "editing t' = editing t"
    "events t' = events t @ es" "quiet es"
  shows "telnet_inv t'"
  using assms same_modes_ok [OF same_modes_cong [OF assms(2-4)]] said_quiet [OF assms(2,5,6)]
  by (simp add: telnet_inv_def all_said_def)

lemma proc_rec_opt_inv: "proc_rec_opt t cmd p = Inr t' \<Longrightarrow> telnet_inv t \<Longrightarrow> telnet_inv t'"
  using proc_rec_loop_modes [of t cmd p opts t'] proc_rec_opt_said [of t cmd p t']
  by (simp add: telnet_inv_def proc_rec_opt_def)

lemma sk_write_inv: "sk_write t b = Inr t' \<Longrightarrow> length b \<noteq> 3 \<or> hd b \<noteq> IAC \<Longrightarrow> telnet_inv t \<Longrightarrow> telnet_inv t'"
  by (auto simp: sk_write_eq intro: telnet_inv_quiet quiet_Sent)

lemma c_write_inv: "c_write t b = Inr t' \<Longrightarrow> telnet_inv t \<Longrightarrow> telnet_inv t'"
  using telnet_inv_quiet [of t t'] quiet_Cons [of "Stdout b" "[SetFrozen f]" for f] by (auto simp: c_write_eq)

lemma telnet_inv_cong:
  "telnet_inv t \<Longrightarrow> opt_states t' = opt_states t \<Longrightarrow> echoing t' = echoing t \<Longrightarrow> editing t' = editing t \<Longrightarrow>
     events t' = events t \<Longrightarrow> telnet_inv t'"
  using telnet_inv_quiet [of t t' "[]"] by simp

text \<open>Every reply to a subnegotiation is one message of at least six bytes.\<close>

lemma process_subneg_sends:
  "process_subneg t = Inr t' \<Longrightarrow> t' = t \<or> (\<exists>b. sk_write t b = Inr t' \<and> 6 \<le> length b)"
  by (auto simp: process_subneg_def send_environ_def res_bind_eq_Inr buffer_of_def
      split: if_splits list.splits prod.splits option.splits)

lemma process_subneg_inv: "process_subneg t = Inr t' \<Longrightarrow> telnet_inv t \<Longrightarrow> telnet_inv t'"
  using process_subneg_sends [of t t'] sk_write_inv by fastforce

lemma read_toplevel_keeps:
  "read_toplevel t outbuf c = (t', out') \<Longrightarrow> opt_states t' = opt_states t \<and> echoing t' = echoing t \<and>
     editing t' = editing t \<and> events t' = events t \<and> sock t' = sock t \<and> conf t' = conf t"
  by (auto simp: read_toplevel_def Let_def split: if_splits)

lemma read_command_keeps:
  "read_command t outbuf c = (t', out') \<Longrightarrow> opt_states t' = opt_states t \<and> echoing t' = echoing t \<and>
     editing t' = editing t \<and> events t' = events t \<and> sock t' = sock t \<and> conf t' = conf t"
  by (auto simp: read_command_def split: if_splits)

lemma read_byte_inv:
  assumes "read_byte t outbuf c = Inr (t', out')" "telnet_inv t"
  shows "telnet_inv t'"
proof -
  have opt: "telnet_inv t'" if h: "res_bind (proc_rec_opt t cmd c) (to_toplevel outbuf) = Inr (t', out')" for cmd
  proof -
    obtain u where "proc_rec_opt t cmd c = Inr u" "t' = u\<lparr>state := TOP_LEVEL\<rparr>"
      using h by (auto simp: res_bind_eq_Inr to_toplevel_def)
    then show ?thesis using proc_rec_opt_inv [OF _ assms(2)] telnet_inv_cong [of u t'] by simp
  qed
  have sub: "telnet_inv t'" if h: "res_bind (process_subneg t) (to_toplevel outbuf) = Inr (t', out')"
  proof -
    obtain u where "process_subneg t = Inr u" "t' = u\<lparr>state := TOP_LEVEL\<rparr>"
      using h by (auto simp: res_bind_eq_Inr to_toplevel_def)
    then show ?thesis using process_subneg_inv [OF _ assms(2)] telnet_inv_cong [of u t'] by simp
  qed
  note keep = telnet_inv_cong [OF assms(2), of t']
  show ?thesis using assms(1) keep read_toplevel_keeps [of t outbuf c t' out'] read_command_keeps [of t outbuf c t' out']
    unfolding read_byte_def by (cases "state t") (auto intro: opt sub split: if_splits)
qed

lemma read_loop_inv: "read_loop t outbuf buf = Inr (t', out') \<Longrightarrow> telnet_inv t \<Longrightarrow> telnet_inv t'"
proof (induction t outbuf buf rule: read_loop.induct)
  case (2 t outbuf c buf)
  obtain u out where u: "read_byte t outbuf c = Inr (u, out)" using 2(3) by (auto simp: res_bind_eq_Inr)
  have inv: "telnet_inv u" using read_byte_inv [OF u 2(4)] .
  show ?case
  proof (cases "length out \<ge> 4096")
    case True
    then obtain v where "c_write u out = Inr v" "read_loop v [] buf = Inr (t', out')"
      using 2(3) u by (auto simp: res_bind_eq_Inr)
    then show ?thesis using 2(1) [OF True] c_write_inv inv by simp
  next
    case False
    then show ?thesis using 2(2) [OF False] 2(3) u inv by simp
  qed
qed simp

lemma telnet_receive_inv:
  assumes "telnet_receive t urgent data = Inr t'" "telnet_inv t"
  shows "telnet_inv t'"
proof -
  let ?t = "(if urgent then t\<lparr>in_synch := True\<rparr> else t)\<lparr>session_started := True\<rparr>"
  have t: "telnet_inv ?t" using telnet_inv_cong [OF assms(2), of ?t] by simp
  obtain u out where u: "read_loop ?t [] data = Inr (u, out)" "(if out \<noteq> [] then c_write u out else Inr u) = Inr t'"
    using assms(1) unfolding telnet_receive_def do_telnet_read_def Let_def
    by (auto simp only: res_bind_eq_Inr split: prod.splits)
  have "telnet_inv u" by (rule read_loop_inv [OF u(1) t])
  then show ?thesis using u(2) c_write_inv by (auto split: if_splits)
qed

lemma send_escaped_inv: "send_escaped t xs = Inr (t', ys) \<Longrightarrow> telnet_inv t \<Longrightarrow> telnet_inv t'"
proof (induction t xs rule: send_escaped.induct)
  case (2 t x xs)
  then show ?case
    using sk_write_inv [of t "if x = IAC then [IAC, IAC] else [CR, NUL]"]
    by (auto simp: res_bind_eq_Inr split: if_splits)
qed simp

lemma send_loop_inv: "send_loop t buf = Inr t' \<Longrightarrow> telnet_inv t \<Longrightarrow> telnet_inv t'"
proof (induction t buf rule: send_loop.induct)
  case (1 t buf)
  show ?case
  proof (cases "buf = []")
    case True
    then show ?thesis using 1(2,3) by (simp add: send_loop.simps)
  next
    case False
    then obtain u v rest where u: "sk_write t (takeWhile (iswritable t) buf) = Inr u"
      and v: "send_escaped u (dropWhile (iswritable t) buf) = Inr (v, rest)" and r: "send_loop v rest = Inr t'"
      using 1(2) by (subst (asm) send_loop.simps) (auto split: sum.splits prod.splits)
    have "iswritable t x" if "x \<in> set (takeWhile (iswritable t) buf)" for x
      using that by (auto dest: set_takeWhileD)
    then have "length (takeWhile (iswritable t) buf) \<noteq> 3 \<or> hd (takeWhile (iswritable t) buf) \<noteq> IAC"
      by (cases "takeWhile (iswritable t) buf") (auto simp: iswritable_def)
    then have "telnet_inv u" using sk_write_inv [OF u] 1(3) by blast
    then have "telnet_inv v" using send_escaped_inv [OF v] by blast
    then show ?thesis using 1(1) [OF False u v refl r] by blast
  qed
qed

lemma telnet_special_inv: "telnet_special t code = Inr t' \<Longrightarrow> telnet_inv t \<Longrightarrow> telnet_inv t'"
proof -
  assume a: "telnet_special t code = Inr t'" "telnet_inv t"
  have oob: "telnet_inv t'" if "sk_write t [IAC] = Inr u" "sk_write_oob u [DM] = Inr t'" for u
    using sk_write_inv [OF that(1) _ a(2)] that(2) telnet_inv_quiet [of u t' "[SentOOB [DM]]"]
    by (auto simp: sk_write_oob_eq)
  have "\<exists>b. sk_write t b = Inr t' \<and> length b \<noteq> 3 \<or> t' = t \<or>
      (\<exists>u. sk_write t [IAC] = Inr u \<and> sk_write_oob u [DM] = Inr t')"
    using a(1) unfolding telnet_special_def by (cases code) (auto simp: res_bind_eq_Inr split: if_splits intro!: exI)
  then show ?thesis using oob sk_write_inv [of t _ t'] a(2) by blast
qed

lemma telnet_closing_inv: "telnet_inv t \<Longrightarrow> telnet_inv (telnet_closing t e)"
proof -
  assume t: "telnet_inv t"
  have "\<exists>es. events (telnet_closing t e) = events t @ es \<and> quiet es"
    using quiet_Cons [of SocketClosed "[RemoteExit]"] quiet_Cons [of SocketClosed "[RemoteExit, ConnectionFatal]"]
      quiet_Cons [of RemoteExit "[ConnectionFatal]"]
    by (auto simp: telnet_closing_def log_event_def Let_def)
  then obtain es where "events (telnet_closing t e) = events t @ es" "quiet es" by blast
  then show ?thesis using telnet_inv_quiet [OF t, of "telnet_closing t e" es]
    by (simp add: telnet_closing_def log_event_def Let_def)
qed

lemma init_opts_said:
  "init_opts t os = Inr t' \<Longrightarrow> set os \<subseteq> set opts \<Longrightarrow> distinct os \<Longrightarrow>
     (\<forall>o'\<in>set opts - set os. said t o' \<and> get_opt t o' = initial_state o') \<Longrightarrow>
     all_said t' \<and> (\<forall>o'\<in>set opts. get_opt t' o' = initial_state o')"
proof (induction t os rule: init_opts.induct)
  case (2 t o' os)
  let ?t = "set_opt o' (initial_state o') t"
  obtain u where u: "(if get_opt ?t o' = REQUESTED then send_opt ?t (send o') (option o') else Inr ?t) = Inr u"
    and r: "init_opts u os = Inr t'"
    using 2(2) by (auto simp: Let_def res_bind_eq_Inr)
  have o': "o' \<in> set opts" and nin: "o' \<notin> set os" using 2(3,4) by auto
  have "said u o2 \<and> get_opt u o2 = initial_state o2" if o2: "o2 \<in> set opts - set os" for o2
  proof -
    have g: "get_opt u o2 = initial_state o2"
      using u 2(5) o2 o' by (auto simp: send_opt_eq get_opt_def set_opt_def opts_index split: if_splits)
    have init: "initial_state o' = REQUESTED \<or> initial_state o' = INACTIVE"
      using o' by (auto simp: opts_def opt_defs)
    have "said u o2"
    proof (cases "get_opt ?t o' = REQUESTED")
      case True
      then show ?thesis using u said_send [of ?t o' u o2] o' o2 2(5) said_set_opt [of o' o2 _ t] by auto
    next
      case False
      then show ?thesis using u o' o2 2(5) said_set_opt [of o' o2 _ t] init g
        by (cases "o2 = o'") (auto simp: said_def get_set_opt)
    qed
    with g show ?thesis by simp
  qed
  then show ?case using 2(1) [OF refl r] 2(3,4) by auto
qed (auto simp: all_said_def)

lemma fold_inactive_keeps:
  "sock (fold (\<lambda>o'. set_opt o' INACTIVE) os t) = sock t \<and> conf (fold (\<lambda>o'. set_opt o' INACTIVE) os t) = conf t \<and>
   state (fold (\<lambda>o'. set_opt o' INACTIVE) os t) = state t \<and> activated (fold (\<lambda>o'. set_opt o' INACTIVE) os t) = activated t"
  by (induction os arbitrary: t) auto

lemma fold_inactive:
  "(\<forall>o2. get_opt (fold (\<lambda>o'. set_opt o' INACTIVE) os t) o2 =
      (if index o2 \<in> index ` set os then INACTIVE else get_opt t o2)) \<and>
   echoing (fold (\<lambda>o'. set_opt o' INACTIVE) os t) = echoing t \<and> editing (fold (\<lambda>o'. set_opt o' INACTIVE) os t) = editing t"
  by (induction os arbitrary: t) (auto simp: get_set_opt)

lemma init_opts_keeps:
  "init_opts t os = Inr t' \<Longrightarrow> echoing t' = echoing t \<and> editing t' = editing t \<and> sock t' = sock t \<and> conf t' = conf t \<and>
     state t' = state t"
  by (induction os arbitrary: t) (fastforce simp: Let_def res_bind_eq_Inr send_opt_eq split: if_splits)+

lemma telnet_start_inv:
  assumes "telnet_start t0 = Inr t" "echoing t0" "editing t0"
  shows "telnet_inv t"
proof -
  obtain pas u where
    u: "(if pas then Inr (fold (\<lambda>o'. set_opt o' INACTIVE) opts t0)
         else res_bind (init_opts t0 opts) (\<lambda>t. Inr (t\<lparr>activated := True\<rparr>))) = Inr u"
    and t: "t = u\<lparr>in_synch := False\<rparr>"
    using assms(1) unfolding telnet_start_def by (auto simp only: res_bind_eq_Inr sum.inject)
  have "telnet_inv u"
  proof (cases pas)
    case True
    have "get_opt u o' = INACTIVE" if "o' \<in> set opts" for o'
      using u True fold_inactive [of opts t0] that by auto
    moreover have "echoing u" "editing u" using u True fold_inactive [of opts t0] assms(2,3) by auto
    ultimately show ?thesis by (simp add: telnet_inv_def modes_ok_def all_said_def said_def)
  next
    case False
    then obtain v where v: "init_opts t0 opts = Inr v" "u = v\<lparr>activated := True\<rparr>"
      using u by (auto simp: res_bind_eq_Inr)
    have d: "distinct opts" using opts_table(1) by (simp add: distinct_map)
    have s: "all_said v" "\<And>o'. o' \<in> set opts \<Longrightarrow> get_opt v o' = initial_state o'"
      using init_opts_said [OF v(1) _ d] by auto
    have "initial_state o' = REQUESTED \<or> initial_state o' = INACTIVE" if "o' \<in> set opts" for o'
      using that by (auto simp: opts_def opt_defs)
    then have "get_opt v o' \<noteq> ACTIVE \<and> get_opt v o' \<noteq> REALLY_INACTIVE" if "o' \<in> set opts" for o'
      using s(2) [OF that] that by fastforce
    then have "modes_ok v" using init_opts_keeps [OF v(1)] assms(2,3) unfolding modes_ok_def by simp
    then show ?thesis using s(1) telnet_inv_cong [of v u] v(2) by (simp add: telnet_inv_def)
  qed
  then show ?thesis using telnet_inv_cong [of u t] t by simp
qed

lemma telnet_init_eq:
  assumes "telnet_init junk cf seat user name_lookup new_connection = Inr (InitOk t host)"
  shows "\<exists>c t0 socket. conf_copy cf = Inr c \<and> telnet_new junk c seat user = Inr t0 \<and>
    telnet_start (t0\<lparr>sock := Some socket\<rparr>) = Inr t"
proof -
  obtain c t0 af where c: "conf_copy cf = Inr c" "telnet_new junk c seat user = Inr t0"
    "(case name_lookup af of Inl err \<Rightarrow> Inr (InitError err)
      | Inr realhost \<Rightarrow> (case new_connection realhost of Inl err \<Rightarrow> Inr (InitError err)
          | Inr socket \<Rightarrow> res_bind (telnet_start (t0\<lparr>sock := Some socket\<rparr>)) (\<lambda>t.
              res_bind (conf_get_str c (CONF ''loghost'')) (\<lambda>loghost.
              Inr (InitOk t (log_host loghost realhost)))))) = Inr (InitOk t host)"
    using assms unfolding telnet_init_def by (auto simp only: res_bind_eq_Inr)
  obtain realhost where r: "name_lookup af = Inr realhost" using c(3) by (cases "name_lookup af") auto
  obtain socket where "new_connection realhost = Inr socket" using c(3) r by (cases "new_connection realhost") auto
  then show ?thesis using c r by (auto simp: res_bind_eq_Inr)
qed

lemma telnet_new_fresh:
  "telnet_new junk c seat user = Inr t0 \<Longrightarrow> echoing t0 \<and> editing t0 \<and> \<not> activated t0 \<and> events t0 = [] \<and> sock t0 = None \<and>
     conf t0 = c \<and> state t0 = TOP_LEVEL \<and> bufsize t0 = bufsize0 junk"
  by (auto simp: telnet_new_def res_bind_eq_Inr)

lemma telnet_init_inv:
  assumes "telnet_init junk cf seat user name_lookup new_connection = Inr (InitOk t host)"
  shows "telnet_inv t"
proof -
  obtain c t0 socket where "telnet_new junk c seat user = Inr t0" "telnet_start (t0\<lparr>sock := Some socket\<rparr>) = Inr t"
    using telnet_init_eq [OF assms] by blast
  with telnet_start_inv telnet_new_fresh show ?thesis by fastforce
qed

text \<open>The states a connection goes through: set-up, then any sequence of calls.\<close>

inductive telnet_reachable :: "telnet \<Rightarrow> bool" where
  init: "telnet_init junk cf seat user name_lookup new_connection = Inr (InitOk t host) \<Longrightarrow> telnet_reachable t"
| receive: "telnet_reachable t \<Longrightarrow> telnet_receive t urgent data = Inr t' \<Longrightarrow> telnet_reachable t'"
| closing: "telnet_reachable t \<Longrightarrow> telnet_reachable (telnet_closing t error_msg)"
| sent: "telnet_reachable t \<Longrightarrow> telnet_reachable (telnet_sent t n)"
| send: "telnet_reachable t \<Longrightarrow> telnet_send t buf = Inr (t', n) \<Longrightarrow> telnet_reachable t'"
| size: "telnet_reachable t \<Longrightarrow> telnet_size t w h = Inr t' \<Longrightarrow> telnet_reachable t'"
| special: "telnet_reachable t \<Longrightarrow> telnet_special t code = Inr t' \<Longrightarrow> telnet_reachable t'"
| reconfig: "telnet_reachable t \<Longrightarrow> telnet_reconfig t cf = Inr t' \<Longrightarrow> telnet_reachable t'"
| ldisc: "telnet_reachable t \<Longrightarrow> telnet_reachable (telnet_provide_ldisc t ld)"
| unthrottle: "telnet_reachable t \<Longrightarrow> telnet_unthrottle t backlog = Inr t' \<Longrightarrow> telnet_reachable t'"

lemma reachable_inv: "telnet_reachable t \<Longrightarrow> telnet_inv t"
proof (induction rule: telnet_reachable.induct)
  case (init junk cf seat user name_lookup new_connection t host)
  then show ?case by (rule telnet_init_inv)
next
  case (receive t urgent data t')
  then show ?case using telnet_receive_inv by blast
next
  case (closing t error_msg)
  then show ?case using telnet_closing_inv by blast
next
  case (send t buf t' n)
  then show ?case using send_loop_inv by (auto simp: telnet_send_def res_bind_eq_Inr split: if_splits)
next
  case (size t w h t')
  then show ?case using telnet_size_said same_modes_ok [OF telnet_size_modes] by (simp add: telnet_inv_def)
next
  case (special t code t')
  then show ?case using telnet_special_inv by blast
next
  case (unthrottle t backlog t')
  then show ?case using telnet_inv_quiet [of t t'] by (auto simp: telnet_unthrottle_def log_event_def split: if_splits)
qed (auto simp: telnet_sent_def telnet_reconfig_def telnet_provide_ldisc_def res_bind_eq_Inr intro: telnet_inv_cong)

end
