(* ===== verification/Telnet_Data.thy ===== *)
theory Telnet_Data
  imports Telnet_Correct
begin

text \<open>
  What the Telnet backend does with data: no input makes it fault, what one end writes the
  other end reads back, and the replies to subnegotiations.
\<close>

section \<open>The options the backend reads\<close>

definition has_option :: "Conf \<Rightarrow> string \<Rightarrow> Type \<Rightarrow> bool" where
  "has_option cf kw type \<longleftrightarrow> check_types (CONF kw) TYPE_NONE type = Inr () \<and> conf_map cf (plain_key (CONF kw)) \<noteq> None"

definition telnet_conf :: "Conf \<Rightarrow> bool" where
  "telnet_conf cf \<longleftrightarrow> conf_ok cf \<and>
     has_option cf ''width'' TYPE_INT \<and> has_option cf ''height'' TYPE_INT \<and>
     has_option cf ''passive_telnet'' TYPE_BOOL \<and> has_option cf ''rfc_environ'' TYPE_BOOL \<and>
     has_option cf ''termspeed'' TYPE_STR \<and> has_option cf ''termtype'' TYPE_STR \<and>
     has_option cf ''username'' TYPE_STR \<and> has_option cf ''username_from_env'' TYPE_BOOL \<and>
     has_option cf ''addressfamily'' TYPE_INT \<and> has_option cf ''loghost'' TYPE_STR"

lemma get_str_ok:
  assumes "conf_ok cf" "has_option cf kw TYPE_STR"
  shows "\<exists>s. conf_get_str cf (CONF kw) = Inr s"
  using assms conf_get_typed [OF assms(1) plain_key_ok [of "CONF kw" TYPE_STR]]
    conf_value_typed [OF assms(1), of "plain_key (CONF kw)" TYPE_NONE TYPE_STR]
  by (auto simp: has_option_def conf_get_str_def value_ok_def plain_key_def split: option.splits conf_value.splits)


lemma get_int_ok:
  assumes "conf_ok cf" "has_option cf kw TYPE_INT"
  shows "\<exists>i. conf_get_int cf (CONF kw) = Inr i"
  using assms conf_get_typed [OF assms(1) plain_key_ok [of "CONF kw" TYPE_INT]]
    conf_value_typed [OF assms(1), of "plain_key (CONF kw)" TYPE_NONE TYPE_INT]
  by (auto simp: has_option_def conf_get_int_def value_ok_def plain_key_def split: option.splits conf_value.splits)


section \<open>The environment variables\<close>







section \<open>No input makes the backend fault\<close>

definition runs :: "telnet \<Rightarrow> telnet res \<Rightarrow> bool" where
  "runs t r \<longleftrightarrow> (\<exists>t'. r = Inr t' \<and> sock t' = sock t \<and> conf t' = conf t)"



lemma runs_via: "runs u r \<Longrightarrow> sock u = sock t \<Longrightarrow> conf u = conf t \<Longrightarrow> runs t r"
  by (simp add: runs_def)

lemma sk_write_runs: "sock t \<noteq> None \<Longrightarrow> runs t (sk_write t b)"
  by (auto simp: runs_def sk_write_eq)

lemma send_opt_runs: "sock t \<noteq> None \<Longrightarrow> runs t (send_opt t c p)"
  by (simp add: send_opt_def sk_write_runs)

lemma c_write_runs: "sock t \<noteq> None \<Longrightarrow> runs t (c_write t b)"
  by (auto simp: runs_def c_write_eq)

lemma send_opt_set_runs: "sock t \<noteq> None \<Longrightarrow> runs t (send_opt (set_opt o' st t) c p)"
  by (rule runs_via [OF send_opt_runs]) simp_all





















section \<open>The data stream\<close>

text \<open>What went out on the socket and what was shown on the terminal.\<close>

fun wire :: "event list \<Rightarrow> byte list" where
  "wire [] = []"
| "wire (Sent b # es) = b @ wire es"
| "wire (_ # es) = wire es"

fun printed :: "event list \<Rightarrow> byte list" where
  "printed [] = []"
| "printed (Stdout b # es) = b @ printed es"
| "printed (_ # es) = printed es"

lemma wire_append [simp]: "wire (xs @ ys) = wire xs @ wire ys"
  by (induction xs rule: wire.induct) auto

lemma printed_append [simp]: "printed (xs @ ys) = printed xs @ printed ys"
  by (induction xs rule: printed.induct) auto

definition escape :: "bool \<Rightarrow> byte list \<Rightarrow> byte list" where
  "escape bin xs = concat (map (\<lambda>x. if x = IAC then [IAC, IAC] else if x = CR \<and> \<not> bin then [CR, NUL] else [x]) xs)"

lemma escape_simps [simp]:
  "escape bin [] = []" "escape bin (xs @ ys) = escape bin xs @ escape bin ys"
  "escape bin (x # xs) = (if x = IAC then [IAC, IAC] else if x = CR \<and> \<not> bin then [CR, NUL] else [x]) @ escape bin xs"
  by (simp_all add: escape_def)

lemma escape_plain: "\<forall>x\<in>set xs. x \<noteq> IAC \<and> (bin \<or> x \<noteq> CR) \<Longrightarrow> escape bin xs = xs"
  by (induction xs) auto

definition we_bin :: "telnet \<Rightarrow> bool" where
  "we_bin t \<longleftrightarrow> get_opt t o_we_bin = ACTIVE"

definition they_bin :: "telnet \<Rightarrow> bool" where
  "they_bin t \<longleftrightarrow> get_opt t o_they_bin = ACTIVE"

lemma sk_write_wire:
  "sk_write t b = Inr t' \<Longrightarrow> \<exists>es. events t' = events t @ es \<and> wire es = b \<and> we_bin t' = we_bin t"
  by (auto simp: sk_write_eq we_bin_def get_opt_def)

lemma send_escaped_wire:
  "send_escaped t xs = Inr (t', ys) \<Longrightarrow>
     \<exists>es zs. events t' = events t @ es \<and> xs = zs @ ys \<and> wire es = escape (we_bin t) zs \<and> we_bin t' = we_bin t"
proof (induction xs arbitrary: t)
  case (Cons x xs)
  show ?case
  proof (cases "iswritable t x")
    case True
    then show ?thesis using Cons.prems by (auto intro: exI [of _ "[]"])
  next
    case False
    define b where "b = (if x = IAC then [IAC, IAC] else [CR, NUL])"
    obtain u where u: "sk_write t b = Inr u" "send_escaped u xs = Inr (t', ys)"
      using Cons.prems False unfolding b_def by (auto simp: res_bind_eq_Inr)
    obtain es where es: "events u = events t @ es" "wire es = b" "we_bin u = we_bin t" using sk_write_wire [OF u(1)] by blast
    obtain fs zs where fs: "events t' = events u @ fs" "xs = zs @ ys" "wire fs = escape (we_bin u) zs" "we_bin t' = we_bin u"
      using Cons.IH [OF u(2)] by blast
    have "wire (es @ fs) = escape (we_bin t) (x # zs)"
      using es fs(3) False by (auto simp: b_def iswritable_def we_bin_def)
    then show ?thesis using es fs by (intro exI [of _ "es @ fs"] exI [of _ "x # zs"]) simp
  qed
qed simp

lemma send_loop_wire:
  "send_loop t buf = Inr t' \<Longrightarrow> \<exists>es. events t' = events t @ es \<and> wire es = escape (we_bin t) buf"
proof (induction t buf rule: send_loop.induct)
  case (1 t buf)
  show ?case
  proof (cases "buf = []")
    case True
    then show ?thesis using 1(2) by (simp add: send_loop.simps)
  next
    case False
    then obtain u v rest where u: "sk_write t (takeWhile (iswritable t) buf) = Inr u"
      and v: "send_escaped u (dropWhile (iswritable t) buf) = Inr (v, rest)" and r: "send_loop v rest = Inr t'"
      using 1(2) by (subst (asm) send_loop.simps) (auto split: sum.splits prod.splits)
    obtain es where es: "events u = events t @ es" "wire es = takeWhile (iswritable t) buf" "we_bin u = we_bin t"
      using sk_write_wire [OF u] by blast
    obtain fs zs where fs: "events v = events u @ fs" "dropWhile (iswritable t) buf = zs @ rest"
      "wire fs = escape (we_bin u) zs" "we_bin v = we_bin u" using send_escaped_wire [OF v] by blast
    obtain gs where gs: "events t' = events v @ gs" "wire gs = escape (we_bin v) rest"
      using 1(1) [OF False u v refl r] by blast
    have "escape (we_bin t) (takeWhile (iswritable t) buf) = takeWhile (iswritable t) buf"
      by (rule escape_plain) (auto dest!: set_takeWhileD simp: iswritable_def we_bin_def)
    moreover have "buf = takeWhile (iswritable t) buf @ zs @ rest" using fs(2) by (metis takeWhile_dropWhile_id)
    ultimately have "escape (we_bin t) buf = takeWhile (iswritable t) buf @ escape (we_bin t) zs @ escape (we_bin t) rest"
      by (metis escape_simps(2))
    then show ?thesis using es fs gs by (intro exI [of _ "es @ fs @ gs"]) simp
  qed
qed

text \<open>The reader on a stream that holds data only.\<close>

definition decode_byte :: "bool \<Rightarrow> tel_state \<Rightarrow> byte \<Rightarrow> (tel_state \<times> byte list) option" where
  "decode_byte bin st c =
     (if st = SEENIAC then if c = IAC then Some (TOP_LEVEL, [c]) else None
      else if st \<noteq> TOP_LEVEL \<and> st \<noteq> SEENCR then None
      else if c = NUL \<and> st = SEENCR then Some (TOP_LEVEL, [])
      else if c = IAC then Some (SEENIAC, [])
      else Some (if c = CR \<and> \<not> bin then SEENCR else TOP_LEVEL, [c]))"

fun decode :: "bool \<Rightarrow> tel_state \<Rightarrow> byte list \<Rightarrow> (tel_state \<times> byte list) option" where
  "decode bin st [] = Some (st, [])"
| "decode bin st (c # cs) =
     Option.bind (decode_byte bin st c) (\<lambda>(st', out).
     Option.bind (decode bin st' cs) (\<lambda>(st'', out'). Some (st'', out @ out')))"

lemma decode_append:
  "decode bin st (xs @ ys) =
     Option.bind (decode bin st xs) (\<lambda>(st', out).
     Option.bind (decode bin st' ys) (\<lambda>(st'', out'). Some (st'', out @ out')))"
  by (induction xs arbitrary: st) (auto split: prod.splits option.splits Option.bind_splits)

lemma decode_escape: "decode bin TOP_LEVEL (escape bin xs) = Some (TOP_LEVEL, xs)"
  by (induction xs) (auto simp: decode_byte_def)

lemma read_toplevel_decode:
  assumes "state t = TOP_LEVEL \<or> state t = SEENCR" "\<not> in_synch t"
  shows "\<exists>st out. decode_byte (they_bin t) (state t) c = Some (st, out) \<and>
    read_toplevel t ob c = (t\<lparr>state := st\<rparr>, ob @ out)"
proof (cases "c = NUL \<and> state t = SEENCR")
  case True
  then show ?thesis by (intro exI [of _ TOP_LEVEL] exI [of _ "[]"]) (simp add: decode_byte_def read_toplevel_def)
next
  case False
  have st: "state t \<noteq> SEENIAC" "\<not> (state t \<noteq> TOP_LEVEL \<and> state t \<noteq> SEENCR)" using assms(1) by auto
  show ?thesis
  proof (cases "c = IAC")
    case True
    then show ?thesis using st by (intro exI [of _ SEENIAC] exI [of _ "[]"]) (auto simp: decode_byte_def read_toplevel_def)
  next
    case noiac: False
    let ?st = "if c = CR \<and> \<not> they_bin t then SEENCR else TOP_LEVEL"
    have "decode_byte (they_bin t) (state t) c = Some (?st, [c])" using noiac False st by (simp add: decode_byte_def)
    moreover have "read_toplevel t ob c = (t\<lparr>state := ?st\<rparr>, ob @ [c])"
      using noiac False assms(2) by (simp add: read_toplevel_def they_bin_def)
    ultimately show ?thesis by blast
  qed
qed

lemma read_byte_decode:
  assumes "decode_byte (they_bin t) (state t) c = Some (st, out)" "\<not> in_synch t"
  shows "read_byte t ob c = Inr (t\<lparr>state := st\<rparr>, ob @ out)"
proof (cases "state t = TOP_LEVEL \<or> state t = SEENCR")
  case True
  then have "read_byte t ob c = Inr (read_toplevel t ob c)" by (auto simp: read_byte_def)
  then show ?thesis using read_toplevel_decode [OF True assms(2), of c ob] assms(1) by auto
next
  case False
  then have "state t = SEENIAC" "c = IAC" "st = TOP_LEVEL" "out = [c]"
    using assms(1) by (auto simp: decode_byte_def split: if_splits)
  then show ?thesis by (simp add: read_byte_def read_command_def)
qed

definition reads :: "telnet \<Rightarrow> tel_state \<Rightarrow> byte list \<Rightarrow> telnet \<Rightarrow> byte list \<Rightarrow> bool" where
  "reads t st out t' out' \<longleftrightarrow> state t' = st \<and> printed (events t') @ out' = printed (events t) @ out \<and>
     wire (events t') = wire (events t) \<and> opt_states t' = opt_states t \<and> in_synch t' = in_synch t \<and> sock t' = sock t"

lemma read_loop_decode:
  "decode (they_bin t) (state t) bs = Some (st, out) \<Longrightarrow> \<not> in_synch t \<Longrightarrow> sock t \<noteq> None \<Longrightarrow>
     \<exists>t' out'. read_loop t ob bs = Inr (t', out') \<and> reads t st (ob @ out) t' out'"
proof (induction bs arbitrary: t ob out)
  case Nil
  then show ?case by (simp add: reads_def)
next
  case (Cons c bs)
  obtain st1 o1 out1 where d: "decode_byte (they_bin t) (state t) c = Some (st1, o1)"
    "decode (they_bin t) st1 bs = Some (st, out1)" "out = o1 @ out1"
    using Cons.prems(1) by (auto simp: bind_eq_Some_conv split: prod.splits)
  define u ob1 where "u = t\<lparr>state := st1\<rparr>" and "ob1 = ob @ o1"
  note u = read_byte_decode [OF d(1) Cons.prems(2), of ob, folded u_def ob1_def]
  have keep: "events u = events t" "opt_states u = opt_states t" "in_synch u = in_synch t" "sock u = sock t"
    "state u = st1" "they_bin u = they_bin t" "ob1 @ out1 = ob @ out"
    using d(3) by (simp_all add: u_def ob1_def they_bin_def get_opt_def)
  show ?case
  proof (cases "length ob1 \<ge> 4096")
    case True
    obtain v where v: "c_write u ob1 = Inr v" using c_write_runs [of u ob1] Cons.prems(3) keep by (auto simp: runs_def)
    have keep_v: "opt_states v = opt_states u" "in_synch v = in_synch u" "sock v = sock u" "state v = state u"
      "printed (events v) = printed (events u) @ ob1" "wire (events v) = wire (events u)" "they_bin v = they_bin u"
      using v by (auto simp: c_write_eq they_bin_def get_opt_def)
    obtain t' out' where "read_loop v [] bs = Inr (t', out')" "reads v st ([] @ out1) t' out'"
      using Cons.IH [of v out1 "[]"] d(2) keep keep_v Cons.prems(2,3) by auto
    then show ?thesis using True u v keep keep_v by (intro exI [of _ t'] exI [of _ out']) (simp add: reads_def)
  next
    case False
    obtain t' out' where "read_loop u ob1 bs = Inr (t', out')" "reads u st (ob1 @ out1) t' out'"
      using Cons.IH [of u out1 ob1] d(2) keep Cons.prems(2,3) by auto
    then show ?thesis using False u keep by (intro exI [of _ t'] exI [of _ out']) (simp add: reads_def)
  qed
qed

lemma receive_decode:
  assumes "decode (they_bin t) (state t) bs = Some (st, out)" "\<not> in_synch t" "sock t \<noteq> None"
  shows "\<exists>t'. telnet_receive t False bs = Inr t' \<and> reads t st out t' []"
proof -
  let ?t = "t\<lparr>session_started := True\<rparr>"
  obtain u ob where u: "read_loop ?t [] bs = Inr (u, ob)" "reads ?t st out u ob"
    using read_loop_decode [of ?t bs st out "[]"] assms by (auto simp: they_bin_def get_opt_def)
  show ?thesis
  proof (cases "ob = []")
    case True
    then show ?thesis using u by (auto simp: telnet_receive_def do_telnet_read_def reads_def)
  next
    case False
    have "sock u \<noteq> None" using u(2) assms(3) by (simp add: reads_def)
    then obtain v where v: "c_write u ob = Inr v" using c_write_runs unfolding runs_def by blast
    then have "reads t st out v []" using u(2) by (auto simp: reads_def c_write_eq)
    then show ?thesis using u(1) v False by (simp add: telnet_receive_def do_telnet_read_def)
  qed
qed

text \<open>Receiving a stream that arrives cut into packets.\<close>

fun receive_all :: "telnet \<Rightarrow> byte list list \<Rightarrow> telnet res" where
  "receive_all t [] = Inr t"
| "receive_all t (p # ps) = res_bind (telnet_receive t False p) (\<lambda>t. receive_all t ps)"

lemma receive_all_decode:
  "decode (they_bin t) (state t) (concat ps) = Some (st, out) \<Longrightarrow> \<not> in_synch t \<Longrightarrow> sock t \<noteq> None \<Longrightarrow>
     \<exists>t'. receive_all t ps = Inr t' \<and> reads t st out t' []"
proof (induction ps arbitrary: t out)
  case (Cons p ps)
  obtain st1 o1 o2 where d: "decode (they_bin t) (state t) p = Some (st1, o1)"
    "decode (they_bin t) st1 (concat ps) = Some (st, o2)" "out = o1 @ o2"
    using Cons.prems(1) by (auto simp: decode_append bind_eq_Some_conv split: prod.splits)
  obtain u where u: "telnet_receive t False p = Inr u" "reads t st1 o1 u []" using receive_decode [OF d(1) Cons.prems(2,3)] by blast
  then have "they_bin u = they_bin t" "state u = st1" "\<not> in_synch u" "sock u \<noteq> None"
    using Cons.prems by (simp_all add: reads_def they_bin_def get_opt_def)
  then obtain v where "receive_all u ps = Inr v" "reads u st o2 v []" using Cons.IH [of u o2] d(2) by auto
  then show ?case using u d(3) by (auto simp: reads_def)
qed (simp add: reads_def)

section \<open>Subnegotiation messages\<close>

definition double :: "byte list \<Rightarrow> byte list" where
  "double xs = concat (map iac_dup xs)"

lemma double_simps [simp]: "double [] = []" "double (x # xs) = iac_dup x @ double xs"
  by (simp_all add: double_def)

lemma read_loop_step:
  "read_byte t ob c = Inr (u, ob) \<Longrightarrow> length ob < 4096 \<Longrightarrow> read_loop t ob (c # cs) = read_loop u ob cs"
  by simp

lemma read_subneg:
  "state t = SUBNEGOT \<Longrightarrow> length ob < 4096 \<Longrightarrow>
     read_loop t ob (double xs @ rest) = read_loop (t\<lparr>sb_buf := sb_buf t @ xs\<rparr>) ob rest"
proof (induction xs arbitrary: t)
  case (Cons x xs)
  let ?t = "t\<lparr>sb_buf := sb_buf t @ [x]\<rparr>"
  have "state ?t = SUBNEGOT" using Cons.prems(1) by simp
  then have e: "t\<lparr>sb_buf := sb_buf t @ [x], state := SUBNEGOT\<rparr> = ?t" by simp
  have "read_loop t ob (iac_dup x @ double xs @ rest) =
      read_loop (t\<lparr>sb_buf := sb_buf t @ [x], state := SUBNEGOT\<rparr>) ob (double xs @ rest)"
    using Cons.prems by (cases "x = IAC") (simp_all add: iac_dup_def read_byte_def)
  then have "read_loop t ob (iac_dup x @ double xs @ rest) = read_loop ?t ob (double xs @ rest)" unfolding e .
  then show ?case using Cons.IH [of ?t] Cons.prems by simp
qed simp

text \<open>A subnegotiation with doubled IAC bytes reaches the handler with its payload intact.\<close>

lemma read_message:
  assumes "state t = TOP_LEVEL" "length ob < 4096"
  shows "read_loop t ob ([IAC, SB, p] @ double xs @ [IAC, SE]) =
    res_bind (process_subneg (t\<lparr>sb_opt := p, sb_buf := xs, state := SUBNEG_IAC\<rparr>)) (\<lambda>t. Inr (t\<lparr>state := TOP_LEVEL\<rparr>, ob))"
proof -
  have "read_loop t ob ([IAC, SB, p] @ double xs @ [IAC, SE]) =
      read_loop (t\<lparr>sb_opt := p, sb_buf := [], state := SUBNEGOT\<rparr>) ob (double xs @ [IAC, SE])"
    using assms by (simp add: read_byte_def read_toplevel_def read_command_def)
  also have "\<dots> = read_loop (t\<lparr>sb_opt := p, sb_buf := xs, state := SUBNEGOT\<rparr>) ob [IAC, SE]"
  proof -
    let ?t = "t\<lparr>sb_opt := p, sb_buf := [], state := SUBNEGOT\<rparr>"
    have e: "?t\<lparr>sb_buf := sb_buf ?t @ xs\<rparr> = t\<lparr>sb_opt := p, sb_buf := xs, state := SUBNEGOT\<rparr>" by simp
    show ?thesis unfolding e [symmetric] by (rule read_subneg) (use assms(2) in simp_all)
  qed
  also have "\<dots> = res_bind (process_subneg (t\<lparr>sb_opt := p, sb_buf := xs, state := SUBNEG_IAC\<rparr>)) (\<lambda>t. Inr (t\<lparr>state := TOP_LEVEL\<rparr>, ob))"
    using assms(2)
    by (cases "process_subneg (t\<lparr>sb_opt := p, sb_buf := xs, state := SUBNEG_IAC\<rparr>)")
       (simp_all add: read_byte_def to_toplevel_def)
  finally show ?thesis .
qed

text \<open>The two 16-bit halves of a window size report.\<close>

definition naws_payload :: "int \<Rightarrow> int \<Rightarrow> byte list" where
  "naws_payload w h = [int_byte (drop_bit 8 w), int_byte (w AND 0xFF), int_byte (drop_bit 8 h), int_byte (h AND 0xFF)]"

lemma int_byte_low: "int_byte (w AND 0xFF) = (word_of_int w :: byte)"
proof -
  have "w AND 0xFF = take_bit 8 w" by (simp add: take_bit_eq_mask mask_eq_exp_minus_1)
  then show ?thesis by (simp add: int_byte_def word_of_int_eq_iff)
qed

lemma naws_decode:
  "GET_16BIT_MSB_FIRST [int_byte (drop_bit 8 w), int_byte (w AND 0xFF)] = word_of_int w"
  unfolding GET_16BIT_MSB_FIRST_def int_byte_low
  by (rule bit_word_eqI)
     (auto simp: int_byte_def bit_or_iff bit_push_bit_iff bit_ucast_iff bit_word_of_int_iff bit_drop_bit_eq)

section \<open>A configuration with the options the backend reads\<close>

lemma conf_with:
  "\<forall>(k, v)\<in>set kvs. key_ok k \<and> value_ok (valuetypes (primary k)) v \<Longrightarrow>
     \<exists>cf. conf_ok cf \<and> conf_map cf = map_of kvs"
proof (induction kvs)
  case Nil
  then show ?case using conf_new_ok by (intro exI [of _ conf_new]) simp
next
  case (Cons kv kvs)
  obtain k v where kv: "kv = (k, v)" by (cases kv)
  obtain cf where cf: "conf_ok cf" "conf_map cf = map_of kvs" using Cons by auto
  obtain cf' where "conf_ok cf'" "conf_map cf' = (conf_map cf)(k \<mapsto> v)"
    using conf_insert_typed [OF cf(1), of k v] Cons.prems kv by auto
  then show ?case using cf(2) kv by (intro exI [of _ cf']) simp
qed

lemma CONF_table:
  "map CONF [''width'', ''height'', ''passive_telnet'', ''rfc_environ'', ''termspeed'', ''termtype'', ''username'', ''username_from_env'',
      ''addressfamily'', ''loghost''] = [122, 123, 59, 58, 52, 51, 55, 56, 3, 9]"
  "list_all (\<lambda>(p, ty). check_types p TYPE_NONE ty = Inr ())
     [(122, TYPE_INT), (123, TYPE_INT), (59, TYPE_BOOL), (58, TYPE_BOOL), (52, TYPE_STR), (51, TYPE_STR), (55, TYPE_STR), (56, TYPE_BOOL),
      (3, TYPE_INT), (9, TYPE_STR)]"
  by code_simp+

lemma CONF_numbers:
  "CONF ''width'' = 122" "CONF ''height'' = 123" "CONF ''passive_telnet'' = 59" "CONF ''rfc_environ'' = 58"
  "CONF ''termspeed'' = 52" "CONF ''termtype'' = 51" "CONF ''username'' = 55" "CONF ''username_from_env'' = 56"
  "CONF ''addressfamily'' = 3" "CONF ''loghost'' = 9"
  using CONF_table(1) by simp_all

lemma CONF_types:
  "check_types 122 TYPE_NONE TYPE_INT = Inr ()" "check_types 123 TYPE_NONE TYPE_INT = Inr ()"
  "check_types 59 TYPE_NONE TYPE_BOOL = Inr ()" "check_types 58 TYPE_NONE TYPE_BOOL = Inr ()"
  "check_types 52 TYPE_NONE TYPE_STR = Inr ()" "check_types 51 TYPE_NONE TYPE_STR = Inr ()"
  "check_types 55 TYPE_NONE TYPE_STR = Inr ()" "check_types 56 TYPE_NONE TYPE_BOOL = Inr ()"
  "check_types 3 TYPE_NONE TYPE_INT = Inr ()" "check_types 9 TYPE_NONE TYPE_STR = Inr ()"
  using CONF_table(2) by simp_all

definition sample_options :: "bool \<Rightarrow> (key \<times> conf_value) list" where
  "sample_options pas =
     [(plain_key 122, IntVal 80), (plain_key 123, IntVal 24), (plain_key 59, BoolVal pas), (plain_key 58, BoolVal False),
      (plain_key 52, StringVal []), (plain_key 51, StringVal []), (plain_key 55, StringVal []), (plain_key 56, BoolVal False),
      (plain_key 3, IntVal 0), (plain_key 9, StringVal [])]"

lemma sample_conf_with:
  assumes "\<forall>(k, v)\<in>set extra. key_ok k \<and> value_ok (valuetypes (primary k)) v"
  shows "\<exists>cf. telnet_conf cf \<and> conf_map cf = map_of (sample_options pas @ extra)"
proof -
  have "\<forall>(k, v)\<in>set (sample_options pas @ extra). key_ok k \<and> value_ok (valuetypes (primary k)) v"
    using CONF_types assms by (auto simp: sample_options_def plain_key_ok check_types_ok value_ok_def int_range_def c_string_def)
  then obtain cf where cf: "conf_ok cf" "conf_map cf = map_of (sample_options pas @ extra)" using conf_with by blast
  have "telnet_conf cf"
    unfolding telnet_conf_def has_option_def CONF_numbers cf(2)
    using cf(1) CONF_types by (simp add: sample_options_def plain_key_def)
  then show ?thesis using cf(2) by blast
qed

lemma sample_conf:
  "\<exists>cf. telnet_conf cf \<and> conf_get_bool cf (CONF ''passive_telnet'') = Inr pas"
proof -
  obtain cf where cf: "telnet_conf cf" "conf_map cf = map_of (sample_options pas)" using sample_conf_with [of "[]" pas] by auto
  have m: "conf_map cf (plain_key 59) = Some (BoolVal pas)" by (simp add: cf(2) sample_options_def plain_key_def)
  have "conf_get_bool cf 59 = Inr pas"
    using conf_get_typed [OF _ plain_key_ok [OF CONF_types(3)], of cf] cf(1) m CONF_types(3)
    by (simp add: telnet_conf_def conf_get_bool_def plain_key_def)
  then show ?thesis using cf(1) unfolding CONF_numbers by blast
qed


text \<open>Set-up succeeds with such a configuration.\<close>

lemma conf_copy_telnet:
  assumes "telnet_conf cf"
  shows "\<exists>cf'. conf_copy cf = Inr cf' \<and> telnet_conf cf' \<and> conf_map cf' = conf_map cf"
proof -
  obtain c where c: "conf_copy cf = Inr c" "conf_ok c" "conf_entries c = conf_entries cf"
    using conf_copy_into_ok [OF conf_new_ok(1), of cf] assms by (auto simp: conf_copy_def telnet_conf_def)
  then have "conf_map c = conf_map cf" by (simp add: conf_map_def)
  with c assms show ?thesis by (auto simp: telnet_conf_def has_option_def)
qed

lemma init_opts_runs: "sock t \<noteq> None \<Longrightarrow> runs t (init_opts t os)"
proof (induction os arbitrary: t)
  case (Cons p os)
  let ?t = "set_opt p (initial_state p) t"
  obtain u where u: "(if get_opt ?t p = REQUESTED then send_opt ?t (send p) (option p) else Inr ?t) = Inr u"
    "sock u = sock t" "conf u = conf t"
    using send_opt_set_runs [OF Cons.prems, of p "initial_state p" "send p" "option p"] unfolding runs_def
    by (cases "get_opt ?t p = REQUESTED") auto
  with Cons.IH [of u] Cons.prems show ?case by (auto simp: runs_def Let_def)
qed (simp add: runs_def)

lemma get_bool_cong:
  "conf_ok c \<Longrightarrow> conf_ok cf \<Longrightarrow> conf_map c = conf_map cf \<Longrightarrow> check_types p TYPE_NONE TYPE_BOOL = Inr () \<Longrightarrow>
     conf_get_bool c p = conf_get_bool cf p"
  using conf_get_typed [of c "plain_key p"] conf_get_typed [of cf "plain_key p"] plain_key_ok [of p TYPE_BOOL]
  by (simp add: conf_get_bool_def plain_key_def)

lemma telnet_start_runs:
  assumes "telnet_conf (conf t0)" "conf_get_bool (conf t0) (CONF ''passive_telnet'') = Inr p" "sock t0 \<noteq> None"
    "state t0 = TOP_LEVEL" "\<not> activated t0"
  shows "\<exists>t. telnet_start t0 = Inr t \<and> sock t = sock t0 \<and> conf t = conf t0 \<and> state t = TOP_LEVEL \<and> \<not> in_synch t \<and>
    activated t = (\<not> p)"
proof (cases p)
  case True
  then show ?thesis using assms fold_inactive_keeps [of opts t0] by (simp add: telnet_start_def)
next
  case False
  obtain v where v: "init_opts t0 opts = Inr v" using init_opts_runs [OF assms(3), of opts] by (auto simp: runs_def)
  with init_opts_keeps [OF v] show ?thesis using False assms(2,4) by (simp add: telnet_start_def)
qed

lemma telnet_init_runs:
  assumes "telnet_conf cf" "conf_get_bool cf (CONF ''passive_telnet'') = Inr p"
  shows "\<exists>t host'. telnet_init junk cf seat user (\<lambda>_. Inr host) (\<lambda>_. Inr socket) = Inr (InitOk t host') \<and>
    sock t = Some socket \<and> telnet_conf (conf t) \<and> state t = TOP_LEVEL \<and> \<not> in_synch t \<and> activated t = (\<not> p)"
proof -
  obtain c where c: "conf_copy cf = Inr c" "telnet_conf c" "conf_map c = conf_map cf" using conf_copy_telnet [OF assms(1)] by blast
  obtain w h af lh where wh: "conf_get_int c (CONF ''width'') = Inr w" "conf_get_int c (CONF ''height'') = Inr h"
    "conf_get_int c (CONF ''addressfamily'') = Inr af" "conf_get_str c (CONF ''loghost'') = Inr lh"
    using c(2) get_int_ok [of c "''width''"] get_int_ok [of c "''height''"] get_int_ok [of c "''addressfamily''"]
      get_str_ok [of c "''loghost''"] by (auto simp: telnet_conf_def)
  have p: "conf_get_bool c (CONF ''passive_telnet'') = Inr p"
    using get_bool_cong [of c cf "CONF ''passive_telnet''"] c assms by (simp add: telnet_conf_def has_option_def)
  obtain t0 where t0: "telnet_new junk c seat user = Inr t0" using wh by (auto simp: telnet_new_def)
  let ?t0 = "t0\<lparr>sock := Some socket\<rparr>"
  obtain t where "telnet_start ?t0 = Inr t" "sock t = Some socket" "conf t = c" "state t = TOP_LEVEL" "\<not> in_synch t" "activated t = (\<not> p)"
    using telnet_start_runs [of ?t0 p] telnet_new_fresh [OF t0] c(2) p by auto
  then show ?thesis using c t0 wh by (simp add: telnet_init_def)
qed

section \<open>Properties\<close>

text \<open>
  C4. The invariant of a Telnet session: after set-up and any sequence of calls, local echo is
  on exactly while the remote ECHO option is not active and local editing exactly while the
  remote SGA option is not active; at most one of the two environment options is active, and
  only those two are ever ruled out for good; and whenever an option is requested or active,
  the last command about it that was sent on the wire is the one that asserts it.
\<close>

theorem telnet_session_invariant:
  assumes "telnet_reachable t"
  shows "(telnet_ldisc t LD_ECHO \<longleftrightarrow> get_opt t o_echo \<noteq> ACTIVE) \<and>
    (telnet_ldisc t LD_EDIT \<longleftrightarrow> get_opt t o_they_sga \<noteq> ACTIVE) \<and>
    \<not> (get_opt t o_oenv = ACTIVE \<and> get_opt t o_nenv = ACTIVE) \<and>
    (\<forall>o'\<in>set opts. get_opt t o' = REALLY_INACTIVE \<longrightarrow> o' = o_oenv \<or> o' = o_nenv) \<and>
    (\<forall>o'\<in>set opts. get_opt t o' = REQUESTED \<or> get_opt t o' = ACTIVE \<longrightarrow>
       opt_commands o' (events t) \<noteq> [] \<and> last (opt_commands o' (events t)) = send o')"
  using reachable_inv [OF assms]
  by (auto simp: telnet_inv_def modes_ok_def all_said_def said_def asserted_def telnet_ldisc_def)

theorem telnet_session_invariant_witness:
  "\<exists>t. telnet_reachable t \<and> telnet_ldisc t LD_ECHO = (get_opt t o_echo \<noteq> ACTIVE)"
proof -
  obtain cf where "telnet_conf cf" "conf_get_bool cf (CONF ''passive_telnet'') = Inr False" using sample_conf by blast
  then obtain t host where "telnet_init \<lparr>opt_states0 = \<lambda>_. ACTIVE, bufsize0 = 7, in_synch0 = True, sb_opt0 = 3\<rparr> cf (\<lambda>_. 0) None (\<lambda>_. Inr [104]) (\<lambda>_. Inr (\<lambda>_. 0)) = Inr (InitOk t host)"
    using telnet_init_runs by blast
  then have "telnet_reachable t" by (rule telnet_reachable.init)
  with telnet_session_invariant [OF this] show ?thesis by blast
qed



text \<open>
  C14. What one end sends the other end shows.  The bytes that \<open>telnet_send\<close> writes for a block
  of user data, cut into packets in any way, make a receiver that is between messages and has
  the matching binary option in the same state print exactly that data, after whatever it had
  printed before, and leave it between messages with its options unchanged and nothing sent
  in reply.
\<close>

theorem telnet_stream_roundtrip:
  assumes "sock tx \<noteq> None" and "telnet_send tx buf = Inr (tx', n)" and "events tx' = events tx @ es"
    and "concat packets = wire es"
    and "sock rx \<noteq> None" and "state rx = TOP_LEVEL" and "\<not> in_synch rx"
    and "get_opt rx o_they_bin = ACTIVE \<longleftrightarrow> get_opt tx o_we_bin = ACTIVE"
  shows "\<exists>rx'. receive_all rx packets = Inr rx' \<and> printed (events rx') = printed (events rx) @ buf \<and>
    wire (events rx') = wire (events rx) \<and> state rx' = TOP_LEVEL \<and> opt_states rx' = opt_states rx"
proof -
  have "send_loop tx buf = Inr tx'" using assms(1,2) by (auto simp: telnet_send_def res_bind_eq_Inr)
  then have "wire es = escape (we_bin tx) buf" using send_loop_wire assms(3) by fastforce
  then have "decode (they_bin rx) (state rx) (concat packets) = Some (TOP_LEVEL, buf)"
    using assms(4,6,8) decode_escape [of "we_bin tx" buf] by (simp add: we_bin_def they_bin_def)
  from receive_all_decode [OF this assms(7,5)] show ?thesis by (auto simp: reads_def)
qed

definition sample_telnet :: telnet where
  "sample_telnet = \<lparr>sock = Some (\<lambda>_. 0), closed_on_socket_error = False, seat_backlog = (\<lambda>_. 0), local_user = None,
     has_ldisc = False, term_width = 80, term_height = 24, opt_states = (\<lambda>_. INACTIVE)(0 := ACTIVE),
     echoing = True, editing = True, activated = True, bufsize = 0, in_synch = False, sb_opt = 0, sb_buf = [],
     session_started = True, state = TOP_LEVEL, conf = conf_new, events = []\<rparr>"

theorem telnet_stream_roundtrip_witness:
  "\<exists>rx'. receive_all sample_telnet [[65, 255], [255, 13], [0, 66]] = Inr rx' \<and> printed (events rx') = [65, 255, 13, 66]"
proof -
  let ?es = "[Sent [65], Sent [255, 255], Sent [13, 0], Sent [66]]"
  have "telnet_send sample_telnet [65, 255, 13, 66] = Inr (sample_telnet\<lparr>events := ?es\<rparr>, 0)"
    by (simp add: sample_telnet_def telnet_send_def send_loop.simps sk_write_def log_event_def iswritable_def get_opt_def o_we_bin_def)
  from telnet_stream_roundtrip [OF _ this, of ?es "[[65, 255], [255, 13], [0, 66]]" sample_telnet]
  show ?thesis by (auto simp: sample_telnet_def get_opt_def o_we_bin_def o_they_bin_def)
qed

text \<open>
  C36. Window size reports survive the trip.  With the window size option active,
  \<open>telnet_size\<close> sends one message, which fits its 24-byte buffer; a reader between messages
  that is fed this message ends between messages with the option code and, whatever bytes
  equal to IAC the size contains, exactly the four bytes whose two 16-bit values are the width
  and the height modulo 65536.
\<close>

theorem naws_roundtrip:
  assumes "sock tx \<noteq> None" and "get_opt tx o_naws = ACTIVE" and "state rx = TOP_LEVEL"
  shows "\<exists>tx' b rx'. telnet_size tx w h = Inr tx' \<and> events tx' = events tx @ [Sent b] \<and> length b \<le> 24 \<and>
    do_telnet_read rx b = Inr rx' \<and> state rx' = TOP_LEVEL \<and> sb_opt rx' = TELOPT_NAWS \<and> events rx' = events rx \<and>
    length (sb_buf rx') = 4 \<and>
    GET_16BIT_MSB_FIRST (take 2 (sb_buf rx')) = word_of_int w \<and> GET_16BIT_MSB_FIRST (drop 2 (sb_buf rx')) = word_of_int h"
proof -
  let ?b = "[IAC, SB, TELOPT_NAWS] @ double (naws_payload w h) @ [IAC, SE]"
  let ?rx = "rx\<lparr>sb_opt := TELOPT_NAWS, sb_buf := naws_payload w h, state := TOP_LEVEL\<rparr>"
  have len: "length ?b \<le> 24" by (simp add: naws_payload_def iac_dup_def)
  obtain tx' where "telnet_size tx w h = Inr tx'" "events tx' = events tx @ [Sent ?b]"
    using assms(1,2) len
    by (auto simp: telnet_size_def get_opt_def buffer_of_def naws_payload_def sk_write_def log_event_def Let_def)
  moreover have "do_telnet_read rx ?b = Inr ?rx"
    using read_message [OF assms(3), of "[]" TELOPT_NAWS "naws_payload w h"]
    by (simp add: do_telnet_read_def process_subneg_def)
  ultimately show ?thesis using len naws_decode [of w] naws_decode [of h]
    by (intro exI [of _ tx'] exI [of _ ?b] exI [of _ ?rx]) (simp add: naws_payload_def)
qed

theorem naws_roundtrip_witness:
  "\<exists>tx' b rx'. telnet_size sample_telnet 255 24 = Inr tx' \<and> events tx' = events sample_telnet @ [Sent b] \<and>
     do_telnet_read sample_telnet b = Inr rx' \<and> GET_16BIT_MSB_FIRST (take 2 (sb_buf rx')) = 255"
  using naws_roundtrip [of sample_telnet sample_telnet 255 24]
  by (auto simp: sample_telnet_def get_opt_def o_naws_def)





text \<open>
  C38. After a passive start nothing has been written and \<open>telnet_sendbuffer\<close> answers with the
  value the allocated memory happened to hold, since no statement of \<open>telnet_init\<close> sets
  \<open>bufsize\<close>.
\<close>

theorem passive_bufsize_uninitialised:
  assumes "conf_copy cf = Inr c" and "conf_get_bool c (CONF ''passive_telnet'') = Inr True"
    and "telnet_init junk cf seat user name_lookup new_connection = Inr (InitOk t host)"
  shows "telnet_sendbuffer t = bufsize0 junk \<and> events t = []"
proof -
  have k: "bufsize (fold (\<lambda>o'. set_opt o' INACTIVE) os t) = bufsize t \<and> events (fold (\<lambda>o'. set_opt o' INACTIVE) os t) = events t" for os t
    by (induction os arbitrary: t) (auto simp: set_opt_def)
  obtain t0 socket where t: "telnet_new junk c seat user = Inr t0" "telnet_start (t0\<lparr>sock := Some socket\<rparr>) = Inr t"
    using telnet_init_eq [OF assms(3)] assms(1) by auto
  have "t = (fold (\<lambda>o'. set_opt o' INACTIVE) opts (t0\<lparr>sock := Some socket\<rparr>))\<lparr>in_synch := False\<rparr>"
    using t assms(2) telnet_new_fresh [OF t(1)] by (simp add: telnet_start_def)
  then show ?thesis using k [of opts "t0\<lparr>sock := Some socket\<rparr>"] telnet_new_fresh [OF t(1)]
    by (simp add: telnet_sendbuffer_def)
qed

theorem passive_bufsize_uninitialised_witness:
  "\<exists>cf t host. telnet_init \<lparr>opt_states0 = \<lambda>_. ACTIVE, bufsize0 = 12345, in_synch0 = True, sb_opt0 = 3\<rparr> cf (\<lambda>_. 0) None
     (\<lambda>_. Inr [104]) (\<lambda>_. Inr (\<lambda>_. 0)) = Inr (InitOk t host) \<and> telnet_sendbuffer t = 12345"
proof -
  let ?junk = "\<lparr>opt_states0 = \<lambda>_. ACTIVE, bufsize0 = 12345, in_synch0 = True, sb_opt0 = 3\<rparr>"
  obtain cf where cf: "telnet_conf cf" "conf_get_bool cf (CONF ''passive_telnet'') = Inr True" using sample_conf by blast
  then obtain t host where t: "telnet_init ?junk cf (\<lambda>_. 0) None (\<lambda>_. Inr [104]) (\<lambda>_. Inr (\<lambda>_. 0)) = Inr (InitOk t host)"
    using telnet_init_runs by blast
  obtain c where c: "conf_copy cf = Inr c" "telnet_conf c" "conf_map c = conf_map cf" using conf_copy_telnet [OF cf(1)] by blast
  have "conf_get_bool c (CONF ''passive_telnet'') = Inr True"
    using get_bool_cong [of c cf "CONF ''passive_telnet''"] c cf by (simp add: telnet_conf_def has_option_def)
  from passive_bufsize_uninitialised [OF c(1) this t] t show ?thesis by auto
qed

end
