(* ===== verification/Telnet_Negotiation.thy ===== *)
theory Telnet_Negotiation
  imports Telnet_Data
begin

text \<open>
  Telnet option negotiation between the backend and a peer that follows the same rules.  The
  abstract machine of one option is refined by \<open>proc_rec_opt\<close>; two such machines joined by
  first-in first-out channels stop exchanging messages and agree.
\<close>

section \<open>One end of one option\<close>

datatype msg = Enable | Disable

fun opt_recv :: "opt_state \<Rightarrow> msg \<Rightarrow> opt_state \<times> msg list" where
  "opt_recv REQUESTED Enable = (ACTIVE, [])"
| "opt_recv ACTIVE Enable = (ACTIVE, [])"
| "opt_recv INACTIVE Enable = (ACTIVE, [Enable])"
| "opt_recv REALLY_INACTIVE Enable = (REALLY_INACTIVE, [Disable])"
| "opt_recv REQUESTED Disable = (INACTIVE, [])"
| "opt_recv ACTIVE Disable = (INACTIVE, [Disable])"
| "opt_recv INACTIVE Disable = (INACTIVE, [])"
| "opt_recv REALLY_INACTIVE Disable = (REALLY_INACTIVE, [])"

section \<open>Two ends\<close>

text \<open>
  The state of both ends and the messages under way in each direction.  Either end may at any
  time request an inactive option or rule the option out, as \<open>request_if_inactive\<close> and
  \<open>deactivate_option\<close> do.
\<close>

record nego =
  st1 :: opt_state
  ch12 :: "msg list"
  st2 :: opt_state
  ch21 :: "msg list"

definition flip_nego :: "nego \<Rightarrow> nego" where
  "flip_nego n = \<lparr>st1 = st2 n, ch12 = ch21 n, st2 = st1 n, ch21 = ch12 n\<rparr>"

lemma flip_simps [simp]:
  "st1 (flip_nego n) = st2 n" "ch12 (flip_nego n) = ch21 n" "st2 (flip_nego n) = st1 n" "ch21 (flip_nego n) = ch12 n"
  "flip_nego (flip_nego n) = n"
  by (simp_all add: flip_nego_def)

inductive deliver :: "nego \<Rightarrow> nego \<Rightarrow> bool" where
  deliver1: "opt_recv s1 m = (s1', r) \<Longrightarrow>
    deliver \<lparr>st1 = s1, ch12 = c, st2 = s2, ch21 = m # d\<rparr> \<lparr>st1 = s1', ch12 = c @ r, st2 = s2, ch21 = d\<rparr>"
| deliver2: "opt_recv s2 m = (s2', r) \<Longrightarrow>
    deliver \<lparr>st1 = s1, ch12 = m # c, st2 = s2, ch21 = d\<rparr> \<lparr>st1 = s1, ch12 = c, st2 = s2', ch21 = d @ r\<rparr>"

inductive act :: "nego \<Rightarrow> nego \<Rightarrow> bool" where
  request: "act \<lparr>st1 = INACTIVE, ch12 = c, st2 = s2, ch21 = d\<rparr> \<lparr>st1 = REQUESTED, ch12 = c @ [Enable], st2 = s2, ch21 = d\<rparr>"
| deactivate: "act \<lparr>st1 = s1, ch12 = c, st2 = s2, ch21 = d\<rparr>
    \<lparr>st1 = REALLY_INACTIVE, ch12 = c @ (if s1 = REQUESTED \<or> s1 = ACTIVE then [Disable] else []), st2 = s2, ch21 = d\<rparr>"

definition nego_init :: "nego \<Rightarrow> bool" where
  "nego_init n \<longleftrightarrow> st1 n \<noteq> ACTIVE \<and> st2 n \<noteq> ACTIVE \<and>
     ch12 n = (if st1 n = REQUESTED then [Enable] else []) \<and> ch21 n = (if st2 n = REQUESTED then [Enable] else [])"

inductive nego_reach :: "nego \<Rightarrow> bool" where
  "nego_init n \<Longrightarrow> nego_reach n"
| "nego_reach n \<Longrightarrow> deliver n n' \<Longrightarrow> nego_reach n'"
| "nego_reach n \<Longrightarrow> act n n' \<Longrightarrow> nego_reach n'"
| "nego_reach n \<Longrightarrow> act (flip_nego n) n' \<Longrightarrow> nego_reach (flip_nego n')"

text \<open>
  The invariant: while no end has ruled the option out, the states and channels are one of a
  few; once one has, the other end is told.
\<close>

definition open_half :: "nego \<Rightarrow> bool" where
  "open_half n \<longleftrightarrow> (st1 n, ch12 n, st2 n, ch21 n) \<in>
     {(INACTIVE, [], INACTIVE, []), (REQUESTED, [Enable], INACTIVE, []), (REQUESTED, [], ACTIVE, [Enable]),
      (ACTIVE, [], ACTIVE, []), (REQUESTED, [Enable], REQUESTED, [Enable]), (ACTIVE, [Enable], REQUESTED, [])}"

definition closed1 :: "nego \<Rightarrow> bool" where
  "closed1 n \<longleftrightarrow> st1 n = REALLY_INACTIVE \<and> (Enable \<in> set (ch12 n) \<longrightarrow> last (ch12 n) = Disable) \<and>
     (st2 n = ACTIVE \<longrightarrow> Disable \<in> set (ch12 n)) \<and>
     (st2 n = REQUESTED \<longrightarrow> Disable \<in> set (ch12 n) \<or> Enable \<in> set (ch21 n))"

definition nego_ok :: "nego \<Rightarrow> bool" where
  "nego_ok n \<longleftrightarrow> open_half n \<or> open_half (flip_nego n) \<or> closed1 n \<or> closed1 (flip_nego n) \<or>
     st1 n = REALLY_INACTIVE \<and> st2 n = REALLY_INACTIVE"

lemma nego_ok_flip: "nego_ok (flip_nego n) = nego_ok n"
  by (auto simp: nego_ok_def)

lemma deliver_flip: "deliver n n' \<Longrightarrow> deliver (flip_nego n) (flip_nego n')"
  by (auto simp: flip_nego_def elim!: deliver.cases intro: deliver.intros)

lemma init_ok: "nego_init n \<Longrightarrow> nego_ok n"
  by (cases "st1 n"; cases "st2 n") (simp_all add: nego_init_def nego_ok_def open_half_def closed1_def)

text \<open>Delivery to the first end; the other direction is symmetric.\<close>

lemma open_incoming:
  assumes "open_half \<lparr>st1 = s1, ch12 = c, st2 = s2, ch21 = m # d\<rparr> \<or> open_half (flip_nego \<lparr>st1 = s1, ch12 = c, st2 = s2, ch21 = m # d\<rparr>)"
  shows "m = Enable \<and> d = [] \<and> (s1 = REQUESTED \<and> c = [] \<and> s2 = ACTIVE \<or>
      s1 = REQUESTED \<and> c = [Enable] \<and> s2 = REQUESTED \<or> s1 = INACTIVE \<and> c = [] \<and> s2 = REQUESTED)"
  using assms unfolding open_half_def by fastforce

lemma deliver_open:
  assumes "open_half \<lparr>st1 = s1, ch12 = c, st2 = s2, ch21 = m # d\<rparr> \<or> open_half (flip_nego \<lparr>st1 = s1, ch12 = c, st2 = s2, ch21 = m # d\<rparr>)"
    "opt_recv s1 m = (s1', r)"
  shows "nego_ok \<lparr>st1 = s1', ch12 = c @ r, st2 = s2, ch21 = d\<rparr>"
  using open_incoming [OF assms(1)] assms(2) unfolding nego_ok_def open_half_def by (elim conjE disjE) simp_all

lemma opt_recv_closed [simp]: "opt_recv REALLY_INACTIVE m = (REALLY_INACTIVE, if m = Enable then [Disable] else [])"
  by (cases m) auto

lemma deliver_closed1:
  assumes "closed1 \<lparr>st1 = s1, ch12 = c, st2 = s2, ch21 = m # d\<rparr>" "opt_recv s1 m = (s1', r)"
  shows "closed1 \<lparr>st1 = s1', ch12 = c @ r, st2 = s2, ch21 = d\<rparr>"
  using assms by (cases m) (auto simp: closed1_def)

lemma last_Cons_set: "Enable \<in> set c \<Longrightarrow> last (m # c) = Disable \<Longrightarrow> last c = Disable"
  by (auto split: if_splits)

lemma last_member: "c \<noteq> [] \<Longrightarrow> last c = x \<Longrightarrow> x \<in> set c"
  using last_in_set by blast

lemma deliver_closed2:
  assumes "closed1 \<lparr>st1 = s1, ch12 = m # c, st2 = s2, ch21 = d\<rparr>" "opt_recv s2 m = (s2', r)"
  shows "closed1 \<lparr>st1 = s1, ch12 = c, st2 = s2', ch21 = d @ r\<rparr> \<or> s2' = REALLY_INACTIVE"
  using assms last_member [of c Disable] by (cases s2; cases m) (auto simp: closed1_def dest: last_Cons_set split: if_splits)

lemma deliver_ok:
  assumes "deliver n n'" "nego_ok n"
  shows "nego_ok n'"
proof -
  have one: "nego_ok \<lparr>st1 = s1', ch12 = c @ r, st2 = s2, ch21 = d\<rparr>"
    if ok: "nego_ok \<lparr>st1 = s1, ch12 = c, st2 = s2, ch21 = m # d\<rparr>" and r: "opt_recv s1 m = (s1', r)" for s1 c s2 m d s1' r
  proof -
    let ?n = "\<lparr>st1 = s1, ch12 = c, st2 = s2, ch21 = m # d\<rparr>"
    consider "open_half ?n \<or> open_half (flip_nego ?n)" | "closed1 ?n" | "closed1 (flip_nego ?n)"
      | "s1 = REALLY_INACTIVE \<and> s2 = REALLY_INACTIVE"
      using ok unfolding nego_ok_def by auto
    then show ?thesis
    proof cases
      case 1 then show ?thesis using deliver_open r by blast
    next
      case 2 then show ?thesis using deliver_closed1 [OF _ r] by (auto simp: nego_ok_def)
    next
      case 3
      then have "closed1 \<lparr>st1 = s2, ch12 = m # d, st2 = s1, ch21 = c\<rparr>" by (simp add: flip_nego_def)
      from deliver_closed2 [OF this r] 3 show ?thesis by (auto simp: nego_ok_def flip_nego_def closed1_def)
    next
      case 4 then show ?thesis using r by (auto simp: nego_ok_def)
    qed
  qed
  show ?thesis using assms(1)
  proof cases
    case (deliver1 s1 m s1' r c s2 d)
    then show ?thesis using one assms(2) by simp
  next
    case (deliver2 s2 m s2' r s1 c d)
    have "nego_ok (flip_nego n)" using assms(2) by (simp add: nego_ok_flip)
    then have "nego_ok (flip_nego n')" using one deliver2 by (simp add: flip_nego_def)
    then show ?thesis by (simp add: nego_ok_flip)
  qed
qed

lemma act_ok:
  assumes "act n n'" "nego_ok n"
  shows "nego_ok n'"
  using assms(1)
proof cases
  case (request c s2 d)
  then show ?thesis using assms(2) by (cases s2) (auto simp: nego_ok_def open_half_def closed1_def)
next
  case (deactivate s1 c s2 d)
  show ?thesis
  proof (cases "s2 = REALLY_INACTIVE")
    case True
    then show ?thesis using deactivate by (simp add: nego_ok_def)
  next
    case False
    then show ?thesis using deactivate assms(2)
      by (cases s1) (auto simp: nego_ok_def open_half_def closed1_def)
  qed
qed

lemma nego_reach_ok: "nego_reach n \<Longrightarrow> nego_ok n"
proof (induction rule: nego_reach.induct)
  case (4 n n')
  then show ?case using act_ok [OF 4(2)] by (simp add: nego_ok_flip)
qed (auto intro: init_ok deliver_ok act_ok)

section \<open>Deliveries come to an end\<close>







lemma deliver_enabled: "ch12 n \<noteq> [] \<or> ch21 n \<noteq> [] \<Longrightarrow> \<exists>n'. deliver n n'"
proof -
  assume a: "ch12 n \<noteq> [] \<or> ch21 n \<noteq> []"
  show ?thesis
  proof (cases "ch21 n")
    case Nil
    then obtain m c where "ch12 n = m # c" using a by (cases "ch12 n") auto
    then have "n = \<lparr>st1 = st1 n, ch12 = m # c, st2 = st2 n, ch21 = ch21 n\<rparr>" by simp
    then show ?thesis using deliver2 [of "st2 n" m "fst (opt_recv (st2 n) m)" "snd (opt_recv (st2 n) m)" "st1 n" c "ch21 n"]
      by (metis surjective_pairing)
  next
    case (Cons m d)
    then have "n = \<lparr>st1 = st1 n, ch12 = ch12 n, st2 = st2 n, ch21 = m # d\<rparr>" by simp
    then show ?thesis using deliver1 [of "st1 n" m "fst (opt_recv (st1 n) m)" "snd (opt_recv (st1 n) m)" "ch12 n" "st2 n" d]
      by (metis surjective_pairing)
  qed
qed


section \<open>The backend as one end\<close>


definition msg_of :: "Opt \<Rightarrow> byte \<Rightarrow> msg" where
  "msg_of o' c = (if c = send o' then Enable else Disable)"

definition said_msgs :: "Opt \<Rightarrow> telnet \<Rightarrow> msg list" where
  "said_msgs o' t = map (msg_of o') (opt_commands o' (events t))"



text \<open>What one end of an option shows: its state and the messages it has sent.\<close>

definition view :: "telnet \<Rightarrow> Opt \<Rightarrow> opt_state \<times> msg list" where
  "view t o' = (get_opt t o', said_msgs o' t)"

definition same_views :: "telnet \<Rightarrow> telnet \<Rightarrow> bool" where
  "same_views t t' \<longleftrightarrow> (\<forall>o' \<in> set opts. view t' o' = view t o')"









text \<open>A view that changes as the actions of one end may change it.\<close>

definition acts_to :: "opt_state \<times> msg list \<Rightarrow> opt_state \<times> msg list \<Rightarrow> bool" where
  "acts_to v w \<longleftrightarrow> (\<exists>r. snd w = snd v @ r \<and>
     (\<forall>c s d. act\<^sup>*\<^sup>* \<lparr>st1 = fst v, ch12 = c, st2 = s, ch21 = d\<rparr> \<lparr>st1 = fst w, ch12 = c @ r, st2 = s, ch21 = d\<rparr>))"

lemma acts_to_refl [simp]: "acts_to v v"
  by (simp add: acts_to_def)




text \<open>
  The handlers of one option touch others: the first option to come up requests echo and go-ahead if nothing was
  requested before, an environment option that comes up rules the other one out, and when the new one is refused the old
  one is tried.  Each of these happens at most once, as this number goes down.
\<close>

definition rank :: "telnet \<Rightarrow> nat" where
  "rank t = (if activated t then 0 else 1) + (if get_opt t o_oenv = REALLY_INACTIVE then 0 else 1) +
     (if get_opt t o_nenv = REALLY_INACTIVE then 0 else 1) + (if get_opt t o_nenv = REQUESTED then 1 else 0)"

definition settles_to :: "telnet \<Rightarrow> telnet \<Rightarrow> bool" where
  "settles_to t t' \<longleftrightarrow> (\<forall>o' \<in> set opts. acts_to (view t o') (view t' o')) \<and> rank t' \<le> rank t \<and> (rank t' = rank t \<longrightarrow> same_views t t')"


lemma view_get: "view t' o' = view t o' \<Longrightarrow> get_opt t' o' = get_opt t o'"
  by (simp add: view_def)

lemma same_views_rank: "same_views t t' \<Longrightarrow> activated t' = activated t \<Longrightarrow> rank t' = rank t"
  by (simp add: rank_def same_views_def view_def)

lemma same_views_settles: "same_views t t' \<Longrightarrow> activated t' = activated t \<Longrightarrow> settles_to t t'"
  by (simp add: settles_to_def same_views_rank) (simp add: same_views_def)














lemma settles_refl [simp]: "settles_to t t"
  by (rule same_views_settles) (simp_all add: same_views_def)








section \<open>The backend and a peer\<close>



























end
