(* ===== verification/Block_Hash.thy ===== *)
theory Block_Hash
  imports Utils
begin

text \<open>
  The interface of the hash functions (\<open>ssh_hashalg\<close> in \<open>ssh.h\<close>), the buffering of input into
  fixed-size blocks that MD5, SHA-1, SHA-256 and SHA-512 share, and the client of the
  interface, HMAC (\<open>sshhmac.c\<close>, \<open>sshmac.c\<close>).  The locale \<open>hash_provider\<close> states what a hash
  promises; the theories of the hashes interpret it.
\<close>

section \<open>The hash interface\<close>

text \<open>
  A hash algorithm is a table of functions on its state: a fresh (uninitialised) state, reset,
  write, digest, and the sizes.  Copying a hash copies its state, so \<open>copyfrom\<close> is the identity
  on values; \<open>digest\<close> is only ever applied to a state that is then discarded.
\<close>

record 's ssh_hashalg =
  hash_new :: 's
  hash_reset :: "'s \<Rightarrow> 's"
  hash_write :: "'s \<Rightarrow> byte list \<Rightarrow> 's res"
  hash_digest :: "'s \<Rightarrow> byte list res"
  hlen :: nat
  blocklen :: nat

definition ssh_hash_new :: "'s ssh_hashalg \<Rightarrow> 's" where
  "ssh_hash_new alg = hash_reset alg (hash_new alg)"

definition ssh_hash_digest_nondestructive :: "'s ssh_hashalg \<Rightarrow> 's \<Rightarrow> byte list res" where
  "ssh_hash_digest_nondestructive alg h = hash_digest alg h"

definition hash_simple :: "'s ssh_hashalg \<Rightarrow> byte list \<Rightarrow> byte list res" where
  "hash_simple alg data =
     res_bind (hash_write alg (ssh_hash_new alg) data) (\<lambda>h. hash_digest alg h)"

text \<open>Bytes written one at a time.\<close>

fun put_bytes :: "'s ssh_hashalg \<Rightarrow> 's \<Rightarrow> byte list \<Rightarrow> 's res" where
  "put_bytes alg h [] = Inr h"
| "put_bytes alg h (b # bs) = res_bind (hash_write alg h [b]) (\<lambda>h. put_bytes alg h bs)"

section \<open>HMAC\<close>

record 's hmac =
  h_outer :: 's
  h_inner :: 's
  h_live :: 's

text \<open>The entries of \<open>ssh2_macalg\<close> that the functions read.\<close>

record 's ssh2_macalg =
  mac_hash :: "'s ssh_hashalg"
  mac_len :: nat
  mac_keylen :: nat

definition hmac_new :: "'s ssh_hashalg \<Rightarrow> 's hmac res" where
  "hmac_new alg =
     res_bind (assert_res (blocklen alg \<noteq> 0)) (\<lambda>_.
     Inr \<lparr>h_outer = ssh_hash_new alg, h_inner = ssh_hash_new alg, h_live = ssh_hash_new alg\<rparr>)"

abbreviation PAD_OUTER :: byte where "PAD_OUTER \<equiv> 0x5C"
abbreviation PAD_INNER :: byte where "PAD_INNER \<equiv> 0x36"

definition hmac_key :: "'s ssh_hashalg \<Rightarrow> 's hmac \<Rightarrow> byte list \<Rightarrow> 's hmac res" where
  "hmac_key alg ctx key =
     res_bind (if length key > blocklen alg then hash_simple alg key else Inr key) (\<lambda>kp.
     res_bind (put_bytes alg (hash_reset alg (h_outer ctx)) (map (\<lambda>k. PAD_OUTER XOR k) kp)) (\<lambda>ho.
     res_bind (put_bytes alg ho (replicate (blocklen alg - length kp) PAD_OUTER)) (\<lambda>ho.
     res_bind (put_bytes alg (hash_reset alg (h_inner ctx)) (map (\<lambda>k. PAD_INNER XOR k) kp)) (\<lambda>hi.
     res_bind (put_bytes alg hi (replicate (blocklen alg - length kp) PAD_INNER)) (\<lambda>hi.
     Inr (ctx\<lparr>h_outer := ho, h_inner := hi\<rparr>))))))"

definition hmac_start :: "'s hmac \<Rightarrow> 's hmac" where
  "hmac_start ctx = ctx\<lparr>h_live := h_inner ctx\<rparr>"

definition hmac_write :: "'s ssh_hashalg \<Rightarrow> 's hmac \<Rightarrow> byte list \<Rightarrow> 's hmac res" where
  "hmac_write alg ctx data = res_bind (hash_write alg (h_live ctx) data) (\<lambda>h. Inr (ctx\<lparr>h_live := h\<rparr>))"

definition hmac_genresult :: "'s ssh_hashalg \<Rightarrow> nat \<Rightarrow> 's hmac \<Rightarrow> byte list res" where
  "hmac_genresult alg maclen ctx =
     res_bind (ssh_hash_digest_nondestructive alg (h_live ctx)) (\<lambda>digest.
     res_bind (hash_write alg (h_outer ctx) digest) (\<lambda>htmp.
     res_bind (hash_digest alg htmp) (\<lambda>digest.
     if maclen \<le> length digest then Inr (take maclen digest) else Inl OutOfBounds)))"

definition mac_simple :: "'s ssh_hashalg \<Rightarrow> nat \<Rightarrow> byte list \<Rightarrow> byte list \<Rightarrow> byte list res" where
  "mac_simple alg maclen key data =
     res_bind (hmac_new alg) (\<lambda>mac.
     res_bind (hmac_key alg mac key) (\<lambda>mac.
     res_bind (hmac_write alg (hmac_start mac) data) (\<lambda>mac.
     hmac_genresult alg maclen mac)))"

section \<open>Message authentication of packets\<close>

text \<open>The sequence number is an \<open>unsigned long\<close>, of which \<open>put_uint32\<close> writes the low 32 bits.  The length of
  the body is an \<open>int\<close> in the code, so its callers can pass bodies below \<open>2 ^ 31\<close> bytes; packets are far shorter.\<close>

definition ssh2_mac_prepare :: "'s ssh_hashalg \<Rightarrow> 's hmac \<Rightarrow> byte list \<Rightarrow> u64 \<Rightarrow> 's hmac res" where
  "ssh2_mac_prepare alg mac blk seq =
     res_bind (hmac_write alg (hmac_start mac) (PUT_32BIT_MSB_FIRST (ucast seq))) (\<lambda>mac. hmac_write alg mac blk)"

definition ssh2_mac_generate :: "'s ssh_hashalg \<Rightarrow> nat \<Rightarrow> 's hmac \<Rightarrow> byte list \<Rightarrow> u64 \<Rightarrow> ('s hmac \<times> byte list) res" where
  "ssh2_mac_generate alg maclen mac blk seq =
     res_bind (ssh2_mac_prepare alg mac blk seq) (\<lambda>mac.
     res_bind (hmac_genresult alg maclen mac) (\<lambda>tag. Inr (mac, blk @ tag)))"

definition ssh2_mac_verresult :: "'s ssh_hashalg \<Rightarrow> nat \<Rightarrow> 's hmac \<Rightarrow> byte list \<Rightarrow> bool res" where
  "ssh2_mac_verresult alg maclen mac candidate =
     res_bind (assert_res (maclen \<le> 64)) (\<lambda>_.
     res_bind (hmac_genresult alg maclen mac) (\<lambda>correct.
     if length candidate < maclen then Inl OutOfBounds
     else Inr (smemeq correct (take maclen candidate))))"

definition ssh2_mac_verify :: "'s ssh_hashalg \<Rightarrow> nat \<Rightarrow> 's hmac \<Rightarrow> byte list \<Rightarrow> nat \<Rightarrow> u64 \<Rightarrow> ('s hmac \<times> bool) res" where
  "ssh2_mac_verify alg maclen mac blk len seq =
     res_bind (ssh2_mac_prepare alg mac (take len blk) seq) (\<lambda>mac.
     res_bind (ssh2_mac_verresult alg maclen mac (drop len blk)) (\<lambda>ok. Inr (mac, ok)))"

section \<open>What a hash promises\<close>

text \<open>
  \<open>rep s m\<close> says that the state \<open>s\<close> has absorbed the message \<open>m\<close>; \<open>H\<close> is the hash function on
  whole messages.  Single writes are shorter than \<open>2 ^ 32\<close> bytes.
\<close>

locale hash_provider =
  fixes alg :: "'s ssh_hashalg"
    and good :: "'s \<Rightarrow> bool"
    and rep :: "'s \<Rightarrow> byte list \<Rightarrow> bool"
    and H :: "byte list \<Rightarrow> byte list"
  assumes new_good: "good (hash_new alg)"
    and rep_good: "rep s m \<Longrightarrow> good s"
    and reset_rep: "good s \<Longrightarrow> rep (hash_reset alg s) []"
    and write_rep: "rep s m \<Longrightarrow> length d < 2 ^ 32 \<Longrightarrow> \<exists>s'. hash_write alg s d = Inr s' \<and> rep s' (m @ d)"
    and digest_rep: "rep s m \<Longrightarrow> hash_digest alg s = Inr (H m)"
    and H_length: "length (H m) = hlen alg"
    and sizes: "0 < blocklen alg" "hlen alg \<le> blocklen alg" "blocklen alg < 2 ^ 32"

definition hmac_spec :: "(byte list \<Rightarrow> byte list) \<Rightarrow> nat \<Rightarrow> byte list \<Rightarrow> byte list \<Rightarrow> byte list" where
  "hmac_spec H B key msg =
     (let k = (if length key > B then H key else key);
          k0 = k @ replicate (B - length k) 0
      in H (map (\<lambda>b. 0x5C XOR b) k0 @ H (map (\<lambda>b. 0x36 XOR b) k0 @ msg)))"

text \<open>
  A session: a sequence of writes to one hash, and of packets to one keyed MAC in each
  direction.  A received packet is its sequence number, the length of its body, and the body
  followed by a tag.
\<close>

fun hash_writes :: "'s ssh_hashalg \<Rightarrow> 's \<Rightarrow> byte list list \<Rightarrow> 's res" where
  "hash_writes alg h [] = Inr h"
| "hash_writes alg h (d # ds) = res_bind (hash_write alg h d) (\<lambda>h. hash_writes alg h ds)"

fun mac_send :: "'s ssh2_macalg \<Rightarrow> 's hmac \<Rightarrow> (u64 \<times> byte list) list \<Rightarrow> byte list list res" where
  "mac_send a mac [] = Inr []"
| "mac_send a mac ((seq, blk) # ps) =
     res_bind (ssh2_mac_generate (mac_hash a) (mac_len a) mac blk seq) (\<lambda>(mac, wire).
     res_bind (mac_send a mac ps) (\<lambda>ws. Inr (wire # ws)))"

fun mac_recv :: "'s ssh2_macalg \<Rightarrow> 's hmac \<Rightarrow> (u64 \<times> nat \<times> byte list) list \<Rightarrow> bool list res" where
  "mac_recv a mac [] = Inr []"
| "mac_recv a mac ((seq, len, wire) # ps) =
     res_bind (ssh2_mac_verify (mac_hash a) (mac_len a) mac wire len seq) (\<lambda>(mac, ok).
     res_bind (mac_recv a mac ps) (\<lambda>oks. Inr (ok # oks)))"

definition packet_tag :: "(byte list \<Rightarrow> byte list) \<Rightarrow> 's ssh2_macalg \<Rightarrow> byte list \<Rightarrow> u64 \<Rightarrow> byte list \<Rightarrow> byte list" where
  "packet_tag H a key seq blk =
     take (mac_len a) (hmac_spec H (blocklen (mac_hash a)) key (PUT_32BIT_MSB_FIRST (ucast seq) @ blk))"

definition mac_correct :: "'s ssh2_macalg \<Rightarrow> (byte list \<Rightarrow> byte list) \<Rightarrow> bool" where
  "mac_correct a H \<longleftrightarrow>
     (\<forall>key ps. length key < 2 ^ 32 \<and> (\<forall>(seq, blk, tag)\<in>set ps. length blk < 2 ^ 32 \<and> length tag = mac_len a) \<longrightarrow>
       (\<exists>mac. res_bind (hmac_new (mac_hash a)) (\<lambda>c. hmac_key (mac_hash a) c key) = Inr mac \<and>
         mac_send a mac (map (\<lambda>(seq, blk, tag). (seq, blk)) ps) = Inr (map (\<lambda>(seq, blk, tag). blk @ packet_tag H a key seq blk) ps) \<and>
         mac_recv a mac (map (\<lambda>(seq, blk, tag). (seq, length blk, blk @ tag)) ps) =
           Inr (map (\<lambda>(seq, blk, tag). tag = packet_tag H a key seq blk) ps)))"

context hash_provider
begin

lemma new_rep: "rep (ssh_hash_new alg) []"
  by (simp add: ssh_hash_new_def reset_rep new_good)

lemma hash_simple_correct: "length m < 2 ^ 32 \<Longrightarrow> hash_simple alg m = Inr (H m)"
  using write_rep [OF new_rep, of m] digest_rep by (auto simp: hash_simple_def)

lemma put_bytes_rep: "rep s m \<Longrightarrow> \<exists>s'. put_bytes alg s d = Inr s' \<and> rep s' (m @ d)"
proof (induction d arbitrary: s m)
  case (Cons b d)
  obtain u where "hash_write alg s [b] = Inr u" "rep u (m @ [b])" using write_rep [OF Cons.prems, of "[b]"] by auto
  moreover from Cons.IH [OF this(2)] obtain s' where "put_bytes alg u d = Inr s'" "rep s' ((m @ [b]) @ d)" by blast
  ultimately show ?case by auto
qed simp

text \<open>A context whose key has been set: both halves have absorbed the padded key.\<close>

definition keyed :: "byte list \<Rightarrow> 's hmac \<Rightarrow> bool" where
  "keyed key ctx \<longleftrightarrow>
     (let k = (if length key > blocklen alg then H key else key);
          k0 = k @ replicate (blocklen alg - length k) 0
      in rep (h_outer ctx) (map (\<lambda>b. 0x5C XOR b) k0) \<and> rep (h_inner ctx) (map (\<lambda>b. 0x36 XOR b) k0))"

lemma hmac_new_good: "\<exists>ctx. hmac_new alg = Inr ctx \<and> good (h_outer ctx) \<and> good (h_inner ctx) \<and> good (h_live ctx)"
  using new_rep rep_good sizes(1) by (auto simp: hmac_new_def)

lemma hmac_key_keyed:
  assumes "good (h_outer ctx)" "good (h_inner ctx)" "length key < 2 ^ 32"
  shows "\<exists>ctx'. hmac_key alg ctx key = Inr ctx' \<and> keyed key ctx'"
proof -
  define k where "k = (if length key > blocklen alg then H key else key)"
  define pad where "pad = blocklen alg - length k"
  have k: "(if length key > blocklen alg then hash_simple alg key else Inr key) = Inr k"
    using hash_simple_correct [OF assms(3)] by (simp add: k_def)
  have half: "\<exists>s1 s2. put_bytes alg (hash_reset alg s) (map (\<lambda>b. p XOR b) k) = Inr s1 \<and>
      put_bytes alg s1 (replicate pad p) = Inr s2 \<and> rep s2 (map (\<lambda>b. p XOR b) (k @ replicate pad 0))"
    if "good s" for s p
  proof -
    obtain s1 where s1: "put_bytes alg (hash_reset alg s) (map (\<lambda>b. p XOR b) k) = Inr s1" "rep s1 (map (\<lambda>b. p XOR b) k)"
      using put_bytes_rep [OF reset_rep [OF \<open>good s\<close>], of "map (\<lambda>b. p XOR b) k"] by auto
    obtain s2 where "put_bytes alg s1 (replicate pad p) = Inr s2" "rep s2 (map (\<lambda>b. p XOR b) k @ replicate pad p)"
      using put_bytes_rep [OF s1(2)] by blast
    with s1 show ?thesis by (intro exI [of _ s1] exI [of _ s2]) simp
  qed
  obtain o1 o2 where o2: "put_bytes alg (hash_reset alg (h_outer ctx)) (map (\<lambda>b. PAD_OUTER XOR b) k) = Inr o1"
    "put_bytes alg o1 (replicate pad PAD_OUTER) = Inr o2" "rep o2 (map (\<lambda>b. PAD_OUTER XOR b) (k @ replicate pad 0))"
    using half [OF assms(1)] by blast
  obtain i1 i2 where i2: "put_bytes alg (hash_reset alg (h_inner ctx)) (map (\<lambda>b. PAD_INNER XOR b) k) = Inr i1"
    "put_bytes alg i1 (replicate pad PAD_INNER) = Inr i2" "rep i2 (map (\<lambda>b. PAD_INNER XOR b) (k @ replicate pad 0))"
    using half [OF assms(2)] by blast
  show ?thesis
    unfolding hmac_key_def keyed_def Let_def k k_def [symmetric]
    using o2 i2 unfolding pad_def by simp
qed

lemma hmac_live:
  assumes "keyed key ctx" "rep (h_live ctx) (map (\<lambda>b. 0x36 XOR b) k0 @ msg)" "maclen \<le> hlen alg"
    "k0 = (let k = (if length key > blocklen alg then H key else key) in k @ replicate (blocklen alg - length k) 0)"
  shows "hmac_genresult alg maclen ctx = Inr (take maclen (hmac_spec H (blocklen alg) key msg))"
proof -
  let ?d = "H (map (\<lambda>b. 0x36 XOR b) k0 @ msg)"
  have "length ?d < 2 ^ 32" using H_length sizes(2,3) by (metis le_less_trans)
  then obtain s where "hash_write alg (h_outer ctx) ?d = Inr s" "rep s (map (\<lambda>b. 0x5C XOR b) k0 @ ?d)"
    using assms(1,4) write_rep unfolding keyed_def Let_def by blast
  then show ?thesis using assms(2,3,4) digest_rep H_length
    by (auto simp: hmac_genresult_def ssh_hash_digest_nondestructive_def hmac_spec_def Let_def)
qed

lemma prepare_live:
  assumes "keyed key mac" "length blk < 2 ^ 32"
  shows "\<exists>mac'. ssh2_mac_prepare alg mac blk seq = Inr mac' \<and> keyed key mac' \<and>
    (\<forall>maclen\<le>hlen alg. hmac_genresult alg maclen mac' =
       Inr (take maclen (hmac_spec H (blocklen alg) key (PUT_32BIT_MSB_FIRST (ucast seq) @ blk))))"
proof -
  define k0 where "k0 = (let k = (if length key > blocklen alg then H key else key) in k @ replicate (blocklen alg - length k) 0)"
  have "rep (h_inner mac) (map (\<lambda>b. 0x36 XOR b) k0)" using assms(1) by (simp add: keyed_def k0_def Let_def)
  then obtain s1 where s1: "hash_write alg (h_inner mac) (PUT_32BIT_MSB_FIRST (ucast seq)) = Inr s1"
    "rep s1 (map (\<lambda>b. 0x36 XOR b) k0 @ PUT_32BIT_MSB_FIRST (ucast seq))"
    using write_rep [of _ _ "PUT_32BIT_MSB_FIRST (ucast seq)"] by fastforce
  obtain s2 where s2: "hash_write alg s1 blk = Inr s2"
    "rep s2 ((map (\<lambda>b. 0x36 XOR b) k0 @ PUT_32BIT_MSB_FIRST (ucast seq)) @ blk)"
    using write_rep [OF s1(2) assms(2)] by blast
  let ?mac = "(hmac_start mac)\<lparr>h_live := s2\<rparr>"
  have "ssh2_mac_prepare alg mac blk seq = Inr ?mac" using s1(1) s2(1)
    by (simp add: ssh2_mac_prepare_def hmac_write_def hmac_start_def)
  moreover have kd: "keyed key ?mac" using assms(1) by (simp add: keyed_def hmac_start_def)
  moreover have "hmac_genresult alg maclen ?mac =
      Inr (take maclen (hmac_spec H (blocklen alg) key (PUT_32BIT_MSB_FIRST (ucast seq) @ blk)))" if "maclen \<le> hlen alg" for maclen
    using hmac_live [OF kd _ that k0_def, of "PUT_32BIT_MSB_FIRST (ucast seq) @ blk"] s2(2) by simp
  ultimately show ?thesis by blast
qed

lemma mac_simple_correct:
  assumes "length key < 2 ^ 32" "length data < 2 ^ 32" "maclen \<le> hlen alg"
  shows "mac_simple alg maclen key data = Inr (take maclen (hmac_spec H (blocklen alg) key data))"
proof -
  obtain c0 where c0: "hmac_new alg = Inr c0" "good (h_outer c0)" "good (h_inner c0)" using hmac_new_good by blast
  obtain c1 where c1: "hmac_key alg c0 key = Inr c1" "keyed key c1" using hmac_key_keyed [OF c0(2,3) assms(1)] by blast
  define k0 where "k0 = (let k = (if length key > blocklen alg then H key else key) in k @ replicate (blocklen alg - length k) 0)"
  have "rep (h_inner c1) (map (\<lambda>b. 0x36 XOR b) k0)" using c1(2) by (simp add: keyed_def k0_def Let_def)
  then obtain s where s: "hash_write alg (h_inner c1) data = Inr s" "rep s (map (\<lambda>b. 0x36 XOR b) k0 @ data)"
    using write_rep [OF _ assms(2)] by blast
  have "keyed key (c1\<lparr>h_live := s\<rparr>)" using c1(2) by (simp add: keyed_def)
  then show ?thesis using c0(1) c1(1) s hmac_live [OF _ _ assms(3) k0_def, of "c1\<lparr>h_live := s\<rparr>" data]
    by (simp add: mac_simple_def hmac_write_def hmac_start_def)
qed

text \<open>What the sender appends is what the receiver accepts, and nothing else is accepted.\<close>

lemma mac_generate_verify:
  assumes "keyed key mac" "keyed key mac'" "length blk < 2 ^ 32" "maclen \<le> hlen alg" "maclen \<le> 64" "length tag = maclen"
  shows "(\<exists>m. ssh2_mac_generate alg maclen mac blk seq =
      Inr (m, blk @ take maclen (hmac_spec H (blocklen alg) key (PUT_32BIT_MSB_FIRST (ucast seq) @ blk))) \<and> keyed key m) \<and>
    (\<exists>m. ssh2_mac_verify alg maclen mac' (blk @ tag) (length blk) seq =
      Inr (m, tag = take maclen (hmac_spec H (blocklen alg) key (PUT_32BIT_MSB_FIRST (ucast seq) @ blk))) \<and> keyed key m)"
proof
  obtain m1 where "ssh2_mac_prepare alg mac blk seq = Inr m1" "keyed key m1" "hmac_genresult alg maclen m1 =
      Inr (take maclen (hmac_spec H (blocklen alg) key (PUT_32BIT_MSB_FIRST (ucast seq) @ blk)))"
    using prepare_live [OF assms(1,3), of seq] assms(4) by blast
  then show "\<exists>m. ssh2_mac_generate alg maclen mac blk seq =
      Inr (m, blk @ take maclen (hmac_spec H (blocklen alg) key (PUT_32BIT_MSB_FIRST (ucast seq) @ blk))) \<and> keyed key m"
    by (simp add: ssh2_mac_generate_def)
next
  let ?t = "take maclen (hmac_spec H (blocklen alg) key (PUT_32BIT_MSB_FIRST (ucast seq) @ blk))"
  obtain m1 where "ssh2_mac_prepare alg mac' blk seq = Inr m1" "keyed key m1" "hmac_genresult alg maclen m1 = Inr ?t"
    using prepare_live [OF assms(2,3), of seq] assms(4) by blast
  moreover have "length ?t = maclen" using assms(4) H_length by (simp add: hmac_spec_def Let_def)
  ultimately show "\<exists>m. ssh2_mac_verify alg maclen mac' (blk @ tag) (length blk) seq = Inr (m, tag = ?t) \<and> keyed key m"
    using assms(5,6) smemeq_iff [of ?t tag]
    by (auto simp: ssh2_mac_verify_def ssh2_mac_verresult_def)
qed

text \<open>A context that has been keyed serves any number of packets.\<close>

lemma mac_sends:
  assumes "mac_hash a = alg" "mac_len a \<le> hlen alg"
  shows "keyed key mac \<Longrightarrow> \<forall>(seq, blk, tag)\<in>set ps. length blk < 2 ^ 32 \<Longrightarrow>
    mac_send a mac (map (\<lambda>(seq, blk, tag). (seq, blk)) ps) = Inr (map (\<lambda>(seq, blk, tag). blk @ packet_tag H a key seq blk) ps)"
proof (induction ps arbitrary: mac)
  case (Cons p ps)
  obtain seq blk tag where p: "p = (seq, blk, tag)" by (metis prod.exhaust)
  obtain m1 where "ssh2_mac_prepare alg mac blk seq = Inr m1" "keyed key m1" "hmac_genresult alg (mac_len a) m1 =
      Inr (take (mac_len a) (hmac_spec H (blocklen alg) key (PUT_32BIT_MSB_FIRST (ucast seq) @ blk)))"
    using prepare_live [OF Cons.prems(1), of blk seq] Cons.prems(2) assms(2) p by auto
  then show ?case using Cons.IH [of m1] Cons.prems(2) assms(1) p by (simp add: ssh2_mac_generate_def packet_tag_def)
qed simp

lemma mac_recvs:
  assumes "mac_hash a = alg" "mac_len a \<le> hlen alg" "mac_len a \<le> 64"
  shows "keyed key mac \<Longrightarrow> \<forall>(seq, blk, tag)\<in>set ps. length blk < 2 ^ 32 \<and> length tag = mac_len a \<Longrightarrow>
    mac_recv a mac (map (\<lambda>(seq, blk, tag). (seq, length blk, blk @ tag)) ps) = Inr (map (\<lambda>(seq, blk, tag). tag = packet_tag H a key seq blk) ps)"
proof (induction ps arbitrary: mac)
  case (Cons p ps)
  obtain seq blk tag where p: "p = (seq, blk, tag)" by (metis prod.exhaust)
  have l: "length blk < 2 ^ 32" "length tag = mac_len a" using Cons.prems(2) p by auto
  obtain m where m: "ssh2_mac_verify alg (mac_len a) mac (blk @ tag) (length blk) seq =
      Inr (m, tag = take (mac_len a) (hmac_spec H (blocklen alg) key (PUT_32BIT_MSB_FIRST (ucast seq) @ blk)))" "keyed key m"
    using mac_generate_verify [OF Cons.prems(1) Cons.prems(1) l(1) assms(2,3) l(2), of seq] by blast
  then show ?case using Cons.IH [OF m(2)] Cons.prems(2) assms(1) p by (simp add: packet_tag_def)
qed simp

lemma mac_correctI:
  assumes "mac_hash a = alg" "mac_len a \<le> hlen alg" "mac_len a \<le> 64"
  shows "mac_correct a H"
  unfolding mac_correct_def
proof (intro allI impI, elim conjE)
  fix key and ps :: "(u64 \<times> byte list \<times> byte list) list"
  assume len: "length (key :: byte list) < 2 ^ 32"
    and ps: "\<forall>(seq, blk, tag)\<in>set ps. length blk < 2 ^ 32 \<and> length tag = mac_len a"
  obtain c0 where c0: "hmac_new alg = Inr c0" "good (h_outer c0)" "good (h_inner c0)" using hmac_new_good by blast
  obtain mac where mac: "hmac_key alg c0 key = Inr mac" "keyed key mac" using hmac_key_keyed [OF c0(2,3) len] by blast
  have "\<forall>(seq, blk, tag)\<in>set ps. length blk < 2 ^ 32" using ps by auto
  then show "\<exists>mac. res_bind (hmac_new (mac_hash a)) (\<lambda>c. hmac_key (mac_hash a) c key) = Inr mac \<and>
      mac_send a mac (map (\<lambda>(seq, blk, tag). (seq, blk)) ps) = Inr (map (\<lambda>(seq, blk, tag). blk @ packet_tag H a key seq blk) ps) \<and>
      mac_recv a mac (map (\<lambda>(seq, blk, tag). (seq, length blk, blk @ tag)) ps) =
        Inr (map (\<lambda>(seq, blk, tag). tag = packet_tag H a key seq blk) ps)"
    using c0(1) mac mac_sends [OF assms(1,2) mac(2)] mac_recvs [OF assms mac(2) ps] assms(1)
    by (intro exI [of _ mac]) simp
qed

text \<open>Any sequence of writes hashes the concatenation.\<close>

lemma hash_writes_rep:
  "rep s m \<Longrightarrow> \<forall>d\<in>set ds. length d < 2 ^ 32 \<Longrightarrow> \<exists>s'. hash_writes alg s ds = Inr s' \<and> rep s' (m @ concat ds)"
proof (induction ds arbitrary: s m)
  case (Cons d ds)
  obtain u where u: "hash_write alg s d = Inr u" "rep u (m @ d)" using write_rep [OF Cons.prems(1), of d] Cons.prems(2) by auto
  from Cons.IH [OF u(2)] Cons.prems(2) u(1) show ?case by auto
qed simp

lemma hash_stream_correct:
  "\<forall>d\<in>set ds. length d < 2 ^ 32 \<Longrightarrow>
     res_bind (hash_writes alg (ssh_hash_new alg) ds) (hash_digest alg) = Inr (H (concat ds))"
  using hash_writes_rep [OF new_rep, of ds] digest_rep by auto

end

end
