(* ===== verification/Block_Stream.thy ===== *)
theory Block_Stream
  imports Block_Hash
begin

text \<open>
  Buffering a byte stream into fixed-size blocks.  \<open>absorb\<close> is the reference: it feeds the
  complete blocks of a message to a block function and returns what is left over.  The two
  loops the hash implementations use refine it, however the message is cut into writes.
\<close>

section \<open>Reference\<close>

function absorb :: "nat \<Rightarrow> ('c \<Rightarrow> byte list \<Rightarrow> 'c) \<Rightarrow> 'c \<Rightarrow> byte list \<Rightarrow> 'c \<times> byte list" where
  "absorb B f c m =
     (if B = 0 \<or> length m < B then (c, m) else absorb B f (f c (take B m)) (drop B m))"
  by pat_completeness auto
termination
  by (relation "measure (\<lambda>(B, f, c, m). length m)") auto

declare absorb.simps [simp del]

lemma absorb_short: "length m < B \<Longrightarrow> absorb B f c m = (c, m)"
  by (simp add: absorb.simps)

lemma absorb_block: "0 < B \<Longrightarrow> length b = B \<Longrightarrow> absorb B f c (b @ m) = absorb B f (f c b) m"
  by (subst absorb.simps) simp

lemma absorb_rest: "0 < B \<Longrightarrow> absorb B f c m = (c', r) \<Longrightarrow> length r < B \<and> length r = length m mod B"
proof (induction B f c m rule: absorb.induct)
  case (1 B f c m)
  show ?case
  proof (cases "length m < B")
    case True
    then show ?thesis using 1 by (simp add: absorb.simps)
  next
    case False
    then have "absorb B f (f c (take B m)) (drop B m) = (c', r)" using 1 by (simp add: absorb.simps [of B f c m])
    then show ?thesis using 1(1) False 1(2) by (auto simp: le_mod_geq)
  qed
qed

lemma absorb_append:
  "0 < B \<Longrightarrow> absorb B f c m = (c', r) \<Longrightarrow> absorb B f c (m @ d) = absorb B f c' (r @ d)"
proof (induction B f c m rule: absorb.induct)
  case (1 B f c m)
  show ?case
  proof (cases "length m < B")
    case True
    then show ?thesis using 1 by (simp add: absorb_short)
  next
    case False
    then have *: "absorb B f (f c (take B m)) (drop B m) = (c', r)" using 1 by (simp add: absorb.simps [of B f c m])
    have "absorb B f c (m @ d) = absorb B f (f c (take B m)) (drop B m @ d)"
      using False 1(2) by (subst absorb.simps) simp
    then show ?thesis using 1(1) [OF _ 1(2) *] False 1(2) by simp
  qed
qed

text \<open>
  A buffer of \<open>B\<close> bytes of which the first \<open>used\<close> hold what is left over after absorbing \<open>m\<close>.
\<close>

definition buffers :: "nat \<Rightarrow> ('c \<Rightarrow> byte list \<Rightarrow> 'c) \<Rightarrow> 'c \<Rightarrow> byte list \<Rightarrow> 'c \<Rightarrow> byte list \<Rightarrow> nat \<Rightarrow> bool" where
  "buffers B f c0 m c blk used \<longleftrightarrow> length blk = B \<and> used < B \<and> absorb B f c0 m = (c, take used blk)"

lemma buffers_add:
  assumes "buffers B f c0 m c blk used" "used + length d < B" "mem_write blk used d = Inr blk'"
  shows "buffers B f c0 (m @ d) c blk' (used + length d)"
proof -
  have "take (used + length d) blk' = take used blk @ d" "length blk' = B"
    using assms by (auto simp: buffers_def mem_write_eq_Inr)
  then show ?thesis using assms(1,2) absorb_append [of B f c0 m c "take used blk" d]
    by (simp add: buffers_def absorb_short)
qed

lemma buffers_full:
  assumes "buffers B f c0 m c blk used" "used + length d = B" "mem_write blk used d = Inr blk'"
  shows "buffers B f c0 (m @ d) (f c blk') blk' 0"
proof -
  have b: "blk' = take used blk @ d" "length blk' = B" using assms by (auto simp: buffers_def mem_write_eq_Inr)
  have "absorb B f c0 (m @ d) = absorb B f c (blk' @ [])"
    using assms(1) absorb_append [of B f c0 m c "take used blk" d] b(1) by (simp add: buffers_def)
  also have "\<dots> = (f c blk', [])" using assms(1) b(2) absorb_block [of B blk' f c "[]"] by (simp add: buffers_def absorb_short)
  finally show ?thesis using assms(1) b(2) by (simp add: buffers_def)
qed

lemma rest_used: "0 < B \<Longrightarrow> buffers B f c0 m c blk used \<Longrightarrow> used = length m mod B"
  using absorb_rest [of B f c0 m c "take used blk"] by (auto simp: buffers_def)

lemma absorb_cong:
  "(\<And>c b. length b = B \<Longrightarrow> f c b = g c b) \<Longrightarrow> absorb B f c m = absorb B g c m"
proof (induction B f c m rule: absorb.induct)
  case (1 B f c m)
  show ?case
  proof (cases "B = 0 \<or> length m < B")
    case False
    have "absorb B f (f c (take B m)) (drop B m) = absorb B g (f c (take B m)) (drop B m)"
      by (rule 1(1)) (use False 1(2) in auto)
    then show ?thesis using False 1(2) [of "take B m" c] by (subst (1 2) absorb.simps) simp
  qed (simp add: absorb.simps)
qed

section \<open>The loop of SHA-1 and SHA-256\<close>

record sha_block =
  blk_block :: "byte list"
  blk_used :: nat
  blk_len :: u64

definition sha1_block_setup :: "sha_block \<Rightarrow> sha_block" where
  "sha1_block_setup blk = blk\<lparr>blk_used := 0, blk_len := 0\<rparr>"

definition sha1_block_write :: "sha_block \<Rightarrow> byte list \<Rightarrow> (bool \<times> sha_block \<times> byte list) res" where
  "sha1_block_write blk p =
     (if blk_used blk > 64 then Inl OutOfBounds
      else let blkleft = 64 - blk_used blk; chunk = (if length p < blkleft then length p else blkleft) in
        res_bind (mem_write (blk_block blk) (blk_used blk) (take chunk p)) (\<lambda>b.
        let blk = blk\<lparr>blk_block := b, blk_used := blk_used blk + chunk, blk_len := blk_len blk + of_nat chunk\<rparr> in
        if blk_used blk = 64 then Inr (True, blk\<lparr>blk_used := 0\<rparr>, drop chunk p)
        else Inr (False, blk, drop chunk p)))"

lemma sha1_block_write_progress:
  assumes "sha1_block_write blk p = Inr (full, blk', rest)" "p \<noteq> []"
  shows "2 * length rest + (if blk_used blk' = 64 then 1 else 0) < 2 * length p + (if blk_used blk = 64 then 1 else 0)"
  using assms
  by (cases p) (auto simp: sha1_block_write_def Let_def res_bind_eq_Inr mem_write_eq_Inr split: if_splits)

function sha_write :: "('c \<Rightarrow> byte list \<Rightarrow> 'c) \<Rightarrow> 'c \<Rightarrow> sha_block \<Rightarrow> byte list \<Rightarrow> ('c \<times> sha_block) res" where
  "sha_write f core blk p =
     (if p = [] then Inr (core, blk)
      else case sha1_block_write blk p of
        Inl e \<Rightarrow> Inl e
      | Inr (full, blk', rest) \<Rightarrow> sha_write f (if full then f core (blk_block blk') else core) blk' rest)"
  by pat_completeness auto
termination
  by (relation "measure (\<lambda>(f, core, blk, p). 2 * length p + (if blk_used blk = 64 then 1 else 0))")
     (auto dest: sha1_block_write_progress)

declare sha_write.simps [simp del]

lemma sha_write_buffers:
  "buffers 64 f c0 m core (blk_block blk) (blk_used blk) \<Longrightarrow> blk_len blk = of_nat (length m) \<Longrightarrow>
     \<exists>core' blk'. sha_write f core blk p = Inr (core', blk') \<and>
       buffers 64 f c0 (m @ p) core' (blk_block blk') (blk_used blk') \<and> blk_len blk' = of_nat (length (m @ p))"
proof (induction "length p" arbitrary: m core blk p rule: less_induct)
  case less
  note b = less.prems(1) [unfolded buffers_def]
  show ?case
  proof (cases "p = []")
    case True
    then show ?thesis using less.prems by (simp add: sha_write.simps)
  next
    case False
    define chunk where "chunk = (if length p < 64 - blk_used blk then length p else 64 - blk_used blk)"
    have chunk: "0 < chunk" "chunk \<le> length p" "blk_used blk + chunk \<le> 64" using False b by (auto simp: chunk_def)
    obtain nb where nb: "mem_write (blk_block blk) (blk_used blk) (take chunk p) = Inr nb"
      using chunk b by (simp add: mem_write_def)
    let ?blk = "blk\<lparr>blk_block := nb, blk_used := blk_used blk + chunk, blk_len := blk_len blk + of_nat chunk\<rparr>"
    have len: "blk_len blk + of_nat chunk = (of_nat (length (m @ take chunk p)) :: u64)"
      using less.prems(2) chunk by simp
    have split: "m @ p = (m @ take chunk p) @ drop chunk p" by simp
    show ?thesis
    proof (cases "blk_used blk + chunk = 64")
      case True
      have "sha1_block_write blk p = Inr (True, ?blk\<lparr>blk_used := 0\<rparr>, drop chunk p)"
        using nb True b by (simp add: sha1_block_write_def Let_def chunk_def [symmetric])
      moreover have "buffers 64 f c0 (m @ take chunk p) (f core nb) nb 0"
        using buffers_full [OF less.prems(1) _ nb] chunk True by simp
      ultimately show ?thesis
        using less.hyps [of "drop chunk p" "m @ take chunk p" "f core nb" "?blk\<lparr>blk_used := 0\<rparr>"] chunk False len
        by (subst sha_write.simps) simp
    next
      case False': False
      have "sha1_block_write blk p = Inr (False, ?blk, drop chunk p)"
        using nb False' b by (simp add: sha1_block_write_def Let_def chunk_def [symmetric])
      moreover have "buffers 64 f c0 (m @ take chunk p) core nb (blk_used blk + chunk)"
        using buffers_add [OF less.prems(1) _ nb] chunk False' by simp
      ultimately show ?thesis
        using less.hyps [of "drop chunk p" "m @ take chunk p" core ?blk] chunk False len
        by (subst sha_write.simps) simp
    qed
  qed
qed

section \<open>The loop of MD5 and SHA-512\<close>

function block_loop :: "nat \<Rightarrow> ('c \<Rightarrow> byte list \<Rightarrow> 'c) \<Rightarrow> 'c \<Rightarrow> byte list \<Rightarrow> nat \<Rightarrow> byte list \<Rightarrow> ('c \<times> byte list \<times> byte list) res" where
  "block_loop B f core blk used q =
     (if B = 0 \<or> B < used then Inl OutOfBounds
      else if used + length q < B then Inr (core, blk, q)
      else case mem_write blk used (take (B - used) q) of
        Inl e \<Rightarrow> Inl e
      | Inr blk' \<Rightarrow> block_loop B f (f core blk') blk' 0 (drop (B - used) q))"
  by pat_completeness auto
termination
  by (relation "measure (\<lambda>(B, f, core, blk, used, q). used + length q)") auto

declare block_loop.simps [simp del]

text \<open>The code after the loop: the rest goes to the front of the block.\<close>

definition block_absorb :: "nat \<Rightarrow> ('c \<Rightarrow> byte list \<Rightarrow> 'c) \<Rightarrow> 'c \<Rightarrow> byte list \<Rightarrow> nat \<Rightarrow> byte list \<Rightarrow> ('c \<times> byte list \<times> nat) res" where
  "block_absorb B f core blk used q =
     res_bind (block_loop B f core blk used q) (\<lambda>(core, blk, q).
     res_bind (mem_write blk 0 q) (\<lambda>blk. Inr (core, blk, length q)))"

lemma block_loop_buffers:
  "buffers B f c0 m core blk used \<Longrightarrow> used = 0 \<or> B \<le> used + length q \<Longrightarrow>
     \<exists>core' blk' q' m'. block_loop B f core blk used q = Inr (core', blk', q') \<and> m @ q = m' @ q' \<and>
       buffers B f c0 m' core' blk' 0 \<and> length q' < B"
proof (induction "used + length q" arbitrary: m core blk used q rule: less_induct)
  case less
  note b = less.prems(1) [unfolded buffers_def]
  show ?case
  proof (cases "used + length q < B")
    case True
    then have "used = 0" using less.prems(2) by simp
    then show ?thesis using True b less.prems(1) by (subst block_loop.simps) auto
  next
    case False
    obtain nb where nb: "mem_write blk used (take (B - used) q) = Inr nb" using False b by (simp add: mem_write_def)
    have full: "buffers B f c0 (m @ take (B - used) q) (f core nb) nb 0"
      using buffers_full [OF less.prems(1) _ nb] False b by simp
    have "0 + length (drop (B - used) q) < used + length q" using b False by auto
    from less.hyps [OF this full]
    obtain core' blk' q' m' where *: "block_loop B f (f core nb) nb 0 (drop (B - used) q) = Inr (core', blk', q')"
      "(m @ take (B - used) q) @ drop (B - used) q = m' @ q'" "buffers B f c0 m' core' blk' 0" "length q' < B"
      by blast
    have "block_loop B f core blk used q = Inr (core', blk', q')"
      using *(1) nb False b by (subst block_loop.simps) simp
    with * show ?thesis by auto
  qed
qed

lemma block_absorb_buffers:
  assumes "buffers B f c0 m core blk used" "used = 0 \<or> B \<le> used + length q"
  shows "\<exists>core' blk' used'. block_absorb B f core blk used q = Inr (core', blk', used') \<and>
    buffers B f c0 (m @ q) core' blk' used'"
proof -
  obtain core' blk' q' m' where l: "block_loop B f core blk used q = Inr (core', blk', q')" "m @ q = m' @ q'"
    "buffers B f c0 m' core' blk' 0" "length q' < B"
    using block_loop_buffers [OF assms] by blast
  obtain nb where nb: "mem_write blk' 0 q' = Inr nb" using l(3,4) by (simp add: mem_write_def buffers_def)
  show ?thesis using buffers_add [OF l(3) _ nb] l nb by (simp add: block_absorb_def)
qed

section \<open>Padding\<close>

lemma pad_arith: "used < B \<Longrightarrow> 0 < e \<Longrightarrow> e < B \<Longrightarrow>
  (used + (if e \<le> used then e + B - used else e - used)) mod B = e" for used B e :: nat
  by auto

lemma absorb_exact:
  assumes "0 < B" "length m mod B = 0"
  shows "snd (absorb B f c m) = []"
  using absorb_rest [OF assms(1), of f c m "fst (absorb B f c m)" "snd (absorb B f c m)"] assms(2) by simp

end
