(* ===== verification/Sha.thy ===== *)
theory Sha
  imports Block_Stream
begin

text \<open>
  The software implementations of SHA-1 (\<open>sshsha.c\<close>) and SHA-256 (\<open>sshsh256.c\<close>), and their
  equivalence with the definitions of FIPS 180-4 on whole messages.  The hardware-accelerated
  variants (SHA-NI and NEON intrinsics) are not modelled.
\<close>

section \<open>Shared functions\<close>

definition rol :: "u32 \<Rightarrow> nat \<Rightarrow> u32" where
  "rol x y = push_bit (unat (31 AND of_nat y :: u32)) x OR drop_bit (unat (31 AND - of_nat y :: u32)) x"

definition ror :: "u32 \<Rightarrow> nat \<Rightarrow> u32" where
  "ror x y = push_bit (unat (31 AND - of_nat y :: u32)) x OR drop_bit (unat (31 AND of_nat y :: u32)) x"

definition Ch :: "u32 \<Rightarrow> u32 \<Rightarrow> u32 \<Rightarrow> u32" where
  "Ch ctrl if1 if0 = if0 XOR (ctrl AND (if1 XOR if0))"

definition Maj :: "u32 \<Rightarrow> u32 \<Rightarrow> u32 \<Rightarrow> u32" where
  "Maj x y z = (x AND y) OR (z AND (x OR y))"

definition Par :: "u32 \<Rightarrow> u32 \<Rightarrow> u32 \<Rightarrow> u32" where
  "Par x y z = x XOR y XOR z"

text \<open>The state of both: the core words and the block buffer.\<close>

record sha_sw =
  sw_core :: "u32 list"
  sw_blk :: sha_block

definition sw_write :: "(u32 list \<Rightarrow> byte list \<Rightarrow> u32 list) \<Rightarrow> sha_sw \<Rightarrow> byte list \<Rightarrow> sha_sw res" where
  "sw_write block_fn s p =
     res_bind (sha_write block_fn (sw_core s) (sw_blk s) p) (\<lambda>(core, blk). Inr \<lparr>sw_core = core, sw_blk = blk\<rparr>)"

fun put_zeros :: "(sha_sw \<Rightarrow> byte list \<Rightarrow> sha_sw res) \<Rightarrow> nat \<Rightarrow> sha_sw \<Rightarrow> sha_sw res" where
  "put_zeros wr 0 s = Inr s"
| "put_zeros wr (Suc n) s = res_bind (wr s [0]) (\<lambda>s. put_zeros wr n s)"

text \<open>Padding writes through the sink that owns the block.\<close>

definition sha1_block_pad :: "(sha_sw \<Rightarrow> byte list \<Rightarrow> sha_sw res) \<Rightarrow> sha_sw \<Rightarrow> sha_sw res" where
  "sha1_block_pad wr s =
     (let final_len = push_bit 3 (blk_len (sw_blk s));
          pad = 1 + unat ((63 :: u64) AND (55 - of_nat (blk_used (sw_blk s))))
      in res_bind (wr s [0x80]) (\<lambda>s.
         res_bind (put_zeros wr (pad - 1) s) (\<lambda>s.
         res_bind (wr s (PUT_64BIT_MSB_FIRST final_len)) (\<lambda>s.
         res_bind (assert_res (blk_used (sw_blk s) = 0)) (\<lambda>_. Inr s)))))"

section \<open>SHA-1\<close>

definition sha1_initial_state :: "u32 list" where
  "sha1_initial_state = [0x67452301, 0xefcdab89, 0x98badcfe, 0x10325476, 0xc3d2e1f0]"

definition sha1_sw_round :: "nat \<Rightarrow> u32 list \<Rightarrow> u32 \<Rightarrow> u32 \<Rightarrow> u32 \<Rightarrow> u32 \<Rightarrow> u32 \<Rightarrow> u32 \<times> u32" where
  "sha1_sw_round round_index schedule a b e f constant =
     (rol a 5 + f + e + schedule ! round_index + constant, rol b 30)"

fun sha1_expand :: "nat \<Rightarrow> u32 list \<Rightarrow> u32 list" where
  "sha1_expand 0 w = w"
| "sha1_expand (Suc n) w =
     (let t = length w
      in sha1_expand n (w @ [rol (w ! (t - 3) XOR w ! (t - 8) XOR w ! (t - 14) XOR w ! (t - 16)) 1]))"

definition sha1_schedule :: "byte list \<Rightarrow> u32 list" where
  "sha1_schedule block = sha1_expand 64 (map (\<lambda>t. GET_32BIT_MSB_FIRST (drop (4 * t) block)) [0..<16])"

type_synonym sha1_regs = "u32 \<times> u32 \<times> u32 \<times> u32 \<times> u32"

text \<open>Five rounds of a stage, the registers changing places instead of their contents.\<close>

fun sha1_5rounds :: "u32 list \<Rightarrow> (u32 \<Rightarrow> u32 \<Rightarrow> u32 \<Rightarrow> u32) \<Rightarrow> u32 \<Rightarrow> nat \<Rightarrow> sha1_regs \<Rightarrow> sha1_regs" where
  "sha1_5rounds w f k t (a, b, c, d, e) =
     (case sha1_sw_round (t + 0) w a b e (f b c d) k of (e, b) \<Rightarrow>
      case sha1_sw_round (t + 1) w e a d (f a b c) k of (d, a) \<Rightarrow>
      case sha1_sw_round (t + 2) w d e c (f e a b) k of (c, e) \<Rightarrow>
      case sha1_sw_round (t + 3) w c d b (f d e a) k of (b, d) \<Rightarrow>
      case sha1_sw_round (t + 4) w b c a (f c d e) k of (a, c) \<Rightarrow>
      (a, b, c, d, e))"

definition sha1_stage :: "u32 list \<Rightarrow> (u32 \<Rightarrow> u32 \<Rightarrow> u32 \<Rightarrow> u32) \<Rightarrow> u32 \<Rightarrow> nat \<Rightarrow> sha1_regs \<Rightarrow> sha1_regs" where
  "sha1_stage w f k t regs = foldl (\<lambda>regs u. sha1_5rounds w f k (t + 5 * u) regs) regs [0..<4]"

definition sha1_sw_block :: "u32 list \<Rightarrow> byte list \<Rightarrow> u32 list" where
  "sha1_sw_block core block =
     (let w = sha1_schedule block;
          regs = (core ! 0, core ! 1, core ! 2, core ! 3, core ! 4);
          regs = sha1_stage w Ch 0x5a827999 0 regs;
          regs = sha1_stage w Par 0x6ed9eba1 20 regs;
          regs = sha1_stage w Maj 0x8f1bbcdc 40 regs;
          (a, b, c, d, e) = sha1_stage w Par 0xca62c1d6 60 regs
      in [core ! 0 + a, core ! 1 + b, core ! 2 + c, core ! 3 + d, core ! 4 + e])"

definition sha1_sw_new :: "(nat \<Rightarrow> byte) \<Rightarrow> sha_sw" where
  "sha1_sw_new junk =
     \<lparr>sw_core = replicate 5 0, sw_blk = \<lparr>blk_block = map junk [0..<64], blk_used = unat (junk 64), blk_len = 0\<rparr>\<rparr>"

definition sha1_sw_reset :: "sha_sw \<Rightarrow> sha_sw" where
  "sha1_sw_reset s = \<lparr>sw_core = sha1_initial_state, sw_blk = sha1_block_setup (sw_blk s)\<rparr>"

definition sha1_sw_write :: "sha_sw \<Rightarrow> byte list \<Rightarrow> sha_sw res" where
  "sha1_sw_write = sw_write sha1_sw_block"

definition sha1_sw_digest :: "sha_sw \<Rightarrow> byte list res" where
  "sha1_sw_digest s =
     res_bind (sha1_block_pad sha1_sw_write s) (\<lambda>s.
     Inr (concat (map (\<lambda>i. PUT_32BIT_MSB_FIRST (sw_core s ! i)) [0..<5])))"

definition ssh_sha1_sw :: "(nat \<Rightarrow> byte) \<Rightarrow> sha_sw ssh_hashalg" where
  "ssh_sha1_sw junk = \<lparr>hash_new = sha1_sw_new junk, hash_reset = sha1_sw_reset, hash_write = sha1_sw_write,
     hash_digest = sha1_sw_digest, hlen = 20, blocklen = 64\<rparr>"

section \<open>SHA-256\<close>

definition sha256_initial_state :: "u32 list" where
  "sha256_initial_state =
    [0x6a09e667, 0xbb67ae85, 0x3c6ef372, 0xa54ff53a, 0x510e527f, 0x9b05688c, 0x1f83d9ab, 0x5be0cd19]"

definition sha256_round_constants :: "u32 list" where
  "sha256_round_constants = concat
    [[0x428a2f98, 0x71374491, 0xb5c0fbcf, 0xe9b5dba5],
     [0x3956c25b, 0x59f111f1, 0x923f82a4, 0xab1c5ed5],
     [0xd807aa98, 0x12835b01, 0x243185be, 0x550c7dc3],
     [0x72be5d74, 0x80deb1fe, 0x9bdc06a7, 0xc19bf174],
     [0xe49b69c1, 0xefbe4786, 0x0fc19dc6, 0x240ca1cc],
     [0x2de92c6f, 0x4a7484aa, 0x5cb0a9dc, 0x76f988da],
     [0x983e5152, 0xa831c66d, 0xb00327c8, 0xbf597fc7],
     [0xc6e00bf3, 0xd5a79147, 0x06ca6351, 0x14292967],
     [0x27b70a85, 0x2e1b2138, 0x4d2c6dfc, 0x53380d13],
     [0x650a7354, 0x766a0abb, 0x81c2c92e, 0x92722c85],
     [0xa2bfe8a1, 0xa81a664b, 0xc24b8b70, 0xc76c51a3],
     [0xd192e819, 0xd6990624, 0xf40e3585, 0x106aa070],
     [0x19a4c116, 0x1e376c08, 0x2748774c, 0x34b0bcb5],
     [0x391c0cb3, 0x4ed8aa4a, 0x5b9cca4f, 0x682e6ff3],
     [0x748f82ee, 0x78a5636f, 0x84c87814, 0x8cc70208],
     [0x90befffa, 0xa4506ceb, 0xbef9a3f7, 0xc67178f2]]"

definition sha256_block_setup :: "sha_block \<Rightarrow> sha_block" where
  "sha256_block_setup blk = blk\<lparr>blk_used := 0, blk_len := 0\<rparr>"

definition Sigma_0 :: "u32 \<Rightarrow> u32" where "Sigma_0 x = ror x 2 XOR ror x 13 XOR ror x 22"
definition Sigma_1 :: "u32 \<Rightarrow> u32" where "Sigma_1 x = ror x 6 XOR ror x 11 XOR ror x 25"
definition sigma_0 :: "u32 \<Rightarrow> u32" where "sigma_0 x = ror x 7 XOR ror x 18 XOR drop_bit 3 x"
definition sigma_1 :: "u32 \<Rightarrow> u32" where "sigma_1 x = ror x 17 XOR ror x 19 XOR drop_bit 10 x"

definition sha256_sw_round ::
  "nat \<Rightarrow> u32 list \<Rightarrow> u32 \<Rightarrow> u32 \<Rightarrow> u32 \<Rightarrow> u32 \<Rightarrow> u32 \<Rightarrow> u32 \<Rightarrow> u32 \<Rightarrow> u32 \<Rightarrow> u32 \<times> u32" where
  "sha256_sw_round round_index schedule a b c d e f g h =
     (let t1 = h + Sigma_1 e + Ch e f g + sha256_round_constants ! round_index + schedule ! round_index;
          t2 = Sigma_0 a + Maj a b c
      in (d + t1, t1 + t2))"

fun sha256_expand :: "nat \<Rightarrow> u32 list \<Rightarrow> u32 list" where
  "sha256_expand 0 w = w"
| "sha256_expand (Suc n) w =
     (let t = length w
      in sha256_expand n (w @ [sigma_1 (w ! (t - 2)) + w ! (t - 7) + sigma_0 (w ! (t - 15)) + w ! (t - 16)]))"

definition sha256_schedule :: "byte list \<Rightarrow> u32 list" where
  "sha256_schedule block = sha256_expand 48 (map (\<lambda>t. GET_32BIT_MSB_FIRST (drop (4 * t) block)) [0..<16])"

type_synonym 'w sha2_regs = "'w \<times> 'w \<times> 'w \<times> 'w \<times> 'w \<times> 'w \<times> 'w \<times> 'w"

fun sha256_8rounds :: "u32 list \<Rightarrow> nat \<Rightarrow> u32 sha2_regs \<Rightarrow> u32 sha2_regs" where
  "sha256_8rounds w t (a, b, c, d, e, f, g, h) =
     (case sha256_sw_round (t + 0) w a b c d e f g h of (d, h) \<Rightarrow>
      case sha256_sw_round (t + 1) w h a b c d e f g of (c, g) \<Rightarrow>
      case sha256_sw_round (t + 2) w g h a b c d e f of (b, f) \<Rightarrow>
      case sha256_sw_round (t + 3) w f g h a b c d e of (a, e) \<Rightarrow>
      case sha256_sw_round (t + 4) w e f g h a b c d of (h, d) \<Rightarrow>
      case sha256_sw_round (t + 5) w d e f g h a b c of (g, c) \<Rightarrow>
      case sha256_sw_round (t + 6) w c d e f g h a b of (f, b) \<Rightarrow>
      case sha256_sw_round (t + 7) w b c d e f g h a of (e, a) \<Rightarrow>
      (a, b, c, d, e, f, g, h))"

definition sha256_sw_block :: "u32 list \<Rightarrow> byte list \<Rightarrow> u32 list" where
  "sha256_sw_block core block =
     (let w = sha256_schedule block;
          (a, b, c, d, e, f, g, h) =
            foldl (\<lambda>regs u. sha256_8rounds w (8 * u) regs)
              (core ! 0, core ! 1, core ! 2, core ! 3, core ! 4, core ! 5, core ! 6, core ! 7) [0..<8]
      in [core ! 0 + a, core ! 1 + b, core ! 2 + c, core ! 3 + d,
          core ! 4 + e, core ! 5 + f, core ! 6 + g, core ! 7 + h])"

definition sha256_sw_new :: "(nat \<Rightarrow> byte) \<Rightarrow> sha_sw" where
  "sha256_sw_new junk =
     \<lparr>sw_core = replicate 8 0, sw_blk = \<lparr>blk_block = map junk [0..<64], blk_used = unat (junk 64), blk_len = 0\<rparr>\<rparr>"

definition sha256_sw_reset :: "sha_sw \<Rightarrow> sha_sw" where
  "sha256_sw_reset s = \<lparr>sw_core = sha256_initial_state, sw_blk = sha256_block_setup (sw_blk s)\<rparr>"

definition sha256_sw_write :: "sha_sw \<Rightarrow> byte list \<Rightarrow> sha_sw res" where
  "sha256_sw_write = sw_write sha256_sw_block"

definition sha256_sw_digest :: "sha_sw \<Rightarrow> byte list res" where
  "sha256_sw_digest s =
     res_bind (sha1_block_pad sha256_sw_write s) (\<lambda>s.
     Inr (concat (map (\<lambda>i. PUT_32BIT_MSB_FIRST (sw_core s ! i)) [0..<8])))"

definition ssh_sha256_sw :: "(nat \<Rightarrow> byte) \<Rightarrow> sha_sw ssh_hashalg" where
  "ssh_sha256_sw junk = \<lparr>hash_new = sha256_sw_new junk, hash_reset = sha256_sw_reset, hash_write = sha256_sw_write,
     hash_digest = sha256_sw_digest, hlen = 32, blocklen = 64\<rparr>"

end
