(* ===== verification/Rotations.thy ===== *)
theory Rotations
  imports Prelude
begin

text \<open>Rotations written as two shifts, as the C code has them, are the rotations of the word library.\<close>

lemma rotr_shifts:
  fixes x :: "'a::len word"
  assumes "0 < n" "n < LENGTH('a)"
  shows "push_bit (LENGTH('a) - n) x OR drop_bit n x = word_rotr n x"
proof (rule bit_word_eqI)
  fix i assume i: "i < LENGTH('a)"
  show "bit (push_bit (LENGTH('a) - n) x OR drop_bit n x) i \<longleftrightarrow> bit (word_rotr n x) i"
  proof (cases "i + n < LENGTH('a)")
    case True
    then have "\<not> LENGTH('a) - n \<le> i" by linarith
    then show ?thesis using True i assms
      by (simp add: bit_or_iff bit_push_bit_iff bit_drop_bit_eq bit_word_rotr_iff add.commute)
  next
    case False
    then have "(i + n) mod LENGTH('a) = i + n - LENGTH('a)" using i assms by (simp add: mod_if)
    moreover have "\<not> bit x (n + i)" using False bit_imp_le_length [of x "n + i"] by (auto simp: add.commute)
    moreover have "LENGTH('a) - n \<le> i" using False by linarith
    ultimately show ?thesis using i assms False
      by (simp add: bit_or_iff bit_push_bit_iff bit_drop_bit_eq bit_word_rotr_iff add.commute)
  qed
qed

lemma word_rotl_rotr: "n < LENGTH('a) \<Longrightarrow> 0 < n \<Longrightarrow> word_rotl n x = word_rotr (LENGTH('a) - n) (x :: 'a::len word)"
  by (rule bit_word_eqI) (auto simp: bit_word_rotl_iff bit_word_rotr_iff)

lemma ror_rotr: "0 < n \<Longrightarrow> n < 32 \<Longrightarrow> push_bit (32 - n) (x :: u32) OR drop_bit n x = word_rotr n x"
  using rotr_shifts [of n x] by simp

lemma rol_rotl: "0 < n \<Longrightarrow> n < 32 \<Longrightarrow> push_bit n (x :: u32) OR drop_bit (32 - n) x = word_rotl n x"
  using rotr_shifts [of "32 - n" x] word_rotl_rotr [of n x] by simp

end
