(* ===== verification/Sha_Constants.thy ===== *)
theory Sha_Constants
  imports Prelude
begin

text \<open>
  The constants of FIPS 180-4, as the standard says what they are: the first bits of the fractional parts of the square
  roots (initial values) and cube roots (round constants) of the first primes.  Nothing here refers to the tables of the
  program, which are shown equal to these where the hashes are.
\<close>

section \<open>Integer roots\<close>

text \<open>The largest number below \<open>2 ^ b + acc\<close> whose \<open>k\<close>-th power is at most \<open>n\<close>, found bit by bit.\<close>

fun root_search :: "nat \<Rightarrow> nat \<Rightarrow> nat \<Rightarrow> nat \<Rightarrow> nat" where
  "root_search k n 0 acc = acc"
| "root_search k n (Suc b) acc = root_search k n b (if (acc + 2 ^ b) ^ k \<le> n then acc + 2 ^ b else acc)"

definition is_root :: "nat \<Rightarrow> nat \<Rightarrow> nat \<Rightarrow> bool" where
  "is_root k n r \<longleftrightarrow> r ^ k \<le> n \<and> n < (r + 1) ^ k"

lemma root_search_is_root:
  "acc ^ k \<le> n \<Longrightarrow> n < (acc + 2 ^ b) ^ k \<Longrightarrow> is_root k n (root_search k n b acc)"
proof (induction k n b acc rule: root_search.induct)
  case (2 k n b acc)
  then show ?case by (cases "(acc + 2 ^ b) ^ k \<le> n") (simp_all add: add.assoc mult_2)
qed (simp add: is_root_def)

lemma is_root_unique:
  assumes "is_root k n r" "is_root k n r'"
  shows "r = r'"
proof -
  have "r < r' + 1" "r' < r + 1" using assms power_less_imp_less_base [of _ k] unfolding is_root_def by (meson le_less_trans zero_le)+
  then show ?thesis by simp
qed

text \<open>
  The first \<open>w\<close> bits of the fractional part of the \<open>k\<close>-th root of \<open>p\<close>; the root itself is taken to be below 256.
\<close>

definition root_fraction :: "nat \<Rightarrow> nat \<Rightarrow> nat \<Rightarrow> nat" where
  "root_fraction k w p = root_search k (p * 2 ^ (k * w)) (w + 8) 0 mod 2 ^ w"

lemma root_fractionI:
  assumes "is_root k (p * 2 ^ (k * w)) r" "r < 2 ^ (w + 8)" "0 < k"
  shows "root_fraction k w p = r mod 2 ^ w"
proof -
  have "(r + 1) ^ k \<le> (2 ^ (w + 8)) ^ k" using assms(2) by (intro power_mono) simp_all
  then have "p * 2 ^ (k * w) < (0 + 2 ^ (w + 8)) ^ k" using assms(1) by (simp add: is_root_def)
  then have "is_root k (p * 2 ^ (k * w)) (root_search k (p * 2 ^ (k * w)) (w + 8) 0)"
    using assms(3) by (intro root_search_is_root) (simp_all add: power_0_left)
  then show ?thesis using is_root_unique [OF assms(1)] by (simp add: root_fraction_def)
qed

lemma root_fractions:
  assumes "list_all2 (\<lambda>p r. is_root k (p * 2 ^ (k * w)) r) ps rs" "list_all (\<lambda>r. r < 2 ^ (w + 8)) rs" "0 < k"
  shows "map (root_fraction k w) ps = map (\<lambda>r. r mod 2 ^ w) rs"
  using assms(1,2) by (induction rule: list_all2_induct) (use assms(3) in \<open>auto simp: root_fractionI\<close>)

section \<open>The constants\<close>

definition first_primes :: "nat list" where
  "first_primes =
    [2, 3, 5, 7, 11, 13, 17, 19, 23, 29, 31, 37, 41, 43, 47, 53, 59, 61, 67, 71,
     73, 79, 83, 89, 97, 101, 103, 107, 109, 113, 127, 131, 137, 139, 149, 151, 157, 163, 167, 173,
     179, 181, 191, 193, 197, 199, 211, 223, 227, 229, 233, 239, 241, 251, 257, 263, 269, 271, 277, 281,
     283, 293, 307, 311, 313, 317, 331, 337, 347, 349, 353, 359, 367, 373, 379, 383, 389, 397, 401, 409]"

definition fips_H1 :: "u32 list" where
  "fips_H1 = [0x67452301, 0xefcdab89, 0x98badcfe, 0x10325476, 0xc3d2e1f0]"

definition fips_H256 :: "u32 list" where
  "fips_H256 = map (\<lambda>p. of_nat (root_fraction 2 32 p)) (take 8 first_primes)"

definition fips_K256 :: "u32 list" where
  "fips_K256 = map (\<lambda>p. of_nat (root_fraction 3 32 p)) (take 64 first_primes)"

definition fips_H512 :: "u64 list" where
  "fips_H512 = map (\<lambda>p. of_nat (root_fraction 2 64 p)) (take 8 first_primes)"

definition fips_H384 :: "u64 list" where
  "fips_H384 = map (\<lambda>p. of_nat (root_fraction 2 64 p)) (take 8 (drop 8 first_primes))"

definition fips_K512 :: "u64 list" where
  "fips_K512 = map (\<lambda>p. of_nat (root_fraction 3 64 p)) first_primes"

section \<open>Their values\<close>

text \<open>The roots, scaled by \<open>2 ^ 32\<close> and \<open>2 ^ 64\<close>.\<close>

lemma square_roots_32: "map (root_fraction 2 32) (take 8 first_primes) = map (\<lambda>r. r mod 2 ^ 32)
    [0x16a09e667, 0x1bb67ae85, 0x23c6ef372, 0x2a54ff53a, 0x3510e527f, 0x39b05688c, 0x41f83d9ab, 0x45be0cd19]"
  by (rule root_fractions) (simp_all add: first_primes_def is_root_def)

lemma cube_roots_32: "map (root_fraction 3 32) (take 64 first_primes) = map (\<lambda>r. r mod 2 ^ 32)
    [0x1428a2f98, 0x171374491, 0x1b5c0fbcf, 0x1e9b5dba5, 0x23956c25b, 0x259f111f1, 0x2923f82a4, 0x2ab1c5ed5,
     0x2d807aa98, 0x312835b01, 0x3243185be, 0x3550c7dc3, 0x372be5d74, 0x380deb1fe, 0x39bdc06a7, 0x3c19bf174,
     0x3e49b69c1, 0x3efbe4786, 0x40fc19dc6, 0x4240ca1cc, 0x42de92c6f, 0x44a7484aa, 0x45cb0a9dc, 0x476f988da,
     0x4983e5152, 0x4a831c66d, 0x4b00327c8, 0x4bf597fc7, 0x4c6e00bf3, 0x4d5a79147, 0x506ca6351, 0x514292967,
     0x527b70a85, 0x52e1b2138, 0x54d2c6dfc, 0x553380d13, 0x5650a7354, 0x5766a0abb, 0x581c2c92e, 0x592722c85,
     0x5a2bfe8a1, 0x5a81a664b, 0x5c24b8b70, 0x5c76c51a3, 0x5d192e819, 0x5d6990624, 0x5f40e3585, 0x6106aa070,
     0x619a4c116, 0x61e376c08, 0x62748774c, 0x634b0bcb5, 0x6391c0cb3, 0x64ed8aa4a, 0x65b9cca4f, 0x6682e6ff3,
     0x6748f82ee, 0x678a5636f, 0x684c87814, 0x68cc70208, 0x690befffa, 0x6a4506ceb, 0x6bef9a3f7, 0x6c67178f2]"
  by (rule root_fractions) (simp_all add: first_primes_def is_root_def)

lemma square_roots_64: "map (root_fraction 2 64) (take 16 first_primes) = map (\<lambda>r. r mod 2 ^ 64)
    [0x16a09e667f3bcc908, 0x1bb67ae8584caa73b, 0x23c6ef372fe94f82b, 0x2a54ff53a5f1d36f1,
     0x3510e527fade682d1, 0x39b05688c2b3e6c1f, 0x41f83d9abfb41bd6b, 0x45be0cd19137e2179,
     0x4cbbb9d5dc1059ed8, 0x5629a292a367cd507, 0x59159015a3070dd17, 0x6152fecd8f70e5939,
     0x667332667ffc00b31, 0x68eb44a8768581511, 0x6db0c2e0d64f98fa7, 0x747b5481dbefa4fa4]"
  by (rule root_fractions) (simp_all add: first_primes_def is_root_def)

lemma cube_roots_64: "map (root_fraction 3 64) first_primes = map (\<lambda>r. r mod 2 ^ 64)
    [0x1428a2f98d728ae22, 0x17137449123ef65cd, 0x1b5c0fbcfec4d3b2f, 0x1e9b5dba58189dbbc,
     0x23956c25bf348b538, 0x259f111f1b605d019, 0x2923f82a4af194f9b, 0x2ab1c5ed5da6d8118,
     0x2d807aa98a3030242, 0x312835b0145706fbe, 0x3243185be4ee4b28c, 0x3550c7dc3d5ffb4e2,
     0x372be5d74f27b896f, 0x380deb1fe3b1696b1, 0x39bdc06a725c71235, 0x3c19bf174cf692694,
     0x3e49b69c19ef14ad2, 0x3efbe4786384f25e3, 0x40fc19dc68b8cd5b5, 0x4240ca1cc77ac9c65,
     0x42de92c6f592b0275, 0x44a7484aa6ea6e483, 0x45cb0a9dcbd41fbd4, 0x476f988da831153b5,
     0x4983e5152ee66dfab, 0x4a831c66d2db43210, 0x4b00327c898fb213f, 0x4bf597fc7beef0ee4,
     0x4c6e00bf33da88fc2, 0x4d5a79147930aa725, 0x506ca6351e003826f, 0x5142929670a0e6e70,
     0x527b70a8546d22ffc, 0x52e1b21385c26c926, 0x54d2c6dfc5ac42aed, 0x553380d139d95b3df,
     0x5650a73548baf63de, 0x5766a0abb3c77b2a8, 0x581c2c92e47edaee6, 0x592722c851482353b,
     0x5a2bfe8a14cf10364, 0x5a81a664bbc423001, 0x5c24b8b70d0f89791, 0x5c76c51a30654be30,
     0x5d192e819d6ef5218, 0x5d69906245565a910, 0x5f40e35855771202a, 0x6106aa07032bbd1b8,
     0x619a4c116b8d2d0c8, 0x61e376c085141ab53, 0x62748774cdf8eeb99, 0x634b0bcb5e19b48a8,
     0x6391c0cb3c5c95a63, 0x64ed8aa4ae3418acb, 0x65b9cca4f7763e373, 0x6682e6ff3d6b2b8a3,
     0x6748f82ee5defb2fc, 0x678a5636f43172f60, 0x684c87814a1f0ab72, 0x68cc702081a6439ec,
     0x690befffa23631e28, 0x6a4506cebde82bde9, 0x6bef9a3f7b2c67915, 0x6c67178f2e372532b,
     0x6ca273eceea26619c, 0x6d186b8c721c0c207, 0x6eada7dd6cde0eb1e, 0x6f57d4f7fee6ed178,
     0x706f067aa72176fba, 0x70a637dc5a2c898a6, 0x7113f9804bef90dae, 0x71b710b35131c471b,
     0x728db77f523047d84, 0x732caab7b40c72493, 0x73c9ebe0a15c9bebc, 0x7431d67c49c100d4c,
     0x74cc5d4becb3e42b6, 0x7597f299cfc657e2a, 0x75fcb6fab3ad6faec, 0x76c44198c4a475817]"
  by (rule root_fractions) (simp_all add: first_primes_def is_root_def)

end
