(* ===== verification/Sha_Correct.thy ===== *)
theory Sha_Correct
  imports Sha Rotations Sha_Constants
begin

text \<open>
  SHA-1 and SHA-256 against FIPS 180-4: the rounds with changing registers, the message
  schedule, the incremental buffering and the padding together compute the standard hash of
  the concatenation of everything written.
\<close>

section \<open>The standard\<close>

definition fips_Ch :: "'a::len word \<Rightarrow> 'a word \<Rightarrow> 'a word \<Rightarrow> 'a word" where
  "fips_Ch x y z = (x AND y) XOR (NOT x AND z)"

definition fips_Maj :: "'a::len word \<Rightarrow> 'a word \<Rightarrow> 'a word \<Rightarrow> 'a word" where
  "fips_Maj x y z = (x AND y) XOR (x AND z) XOR (y AND z)"

definition fips_pad64 :: "byte list \<Rightarrow> byte list" where
  "fips_pad64 m = m @ [0x80] @ replicate ((119 - length m mod 64) mod 64) 0 @ PUT_64BIT_MSB_FIRST (of_nat (8 * length m))"

definition fips_words :: "byte list \<Rightarrow> nat \<Rightarrow> u32" where
  "fips_words block t = GET_32BIT_MSB_FIRST (take 4 (drop (4 * t) block))"

function sha1_W :: "byte list \<Rightarrow> nat \<Rightarrow> u32" where
  "sha1_W block t =
     (if t < 16 then fips_words block t
      else word_rotl 1 (sha1_W block (t - 3) XOR sha1_W block (t - 8) XOR sha1_W block (t - 14) XOR sha1_W block (t - 16)))"
  by pat_completeness auto
termination
  by (relation "measure (\<lambda>(block, t). t)") auto

definition sha1_f :: "nat \<Rightarrow> u32 \<Rightarrow> u32 \<Rightarrow> u32 \<Rightarrow> u32" where
  "sha1_f t x y z = (if t < 20 then fips_Ch x y z else if t < 40 then x XOR y XOR z
     else if t < 60 then fips_Maj x y z else x XOR y XOR z)"

definition sha1_K :: "nat \<Rightarrow> u32" where
  "sha1_K t = (if t < 20 then 0x5a827999 else if t < 40 then 0x6ed9eba1 else if t < 60 then 0x8f1bbcdc else 0xca62c1d6)"

fun sha1_round :: "byte list \<Rightarrow> sha1_regs \<Rightarrow> nat \<Rightarrow> sha1_regs" where
  "sha1_round block (a, b, c, d, e) t =
     (word_rotl 5 a + sha1_f t b c d + e + sha1_K t + sha1_W block t, a, word_rotl 30 b, c, d)"

definition sha1_compress :: "u32 list \<Rightarrow> byte list \<Rightarrow> u32 list" where
  "sha1_compress H block =
     (case foldl (sha1_round block) (H ! 0, H ! 1, H ! 2, H ! 3, H ! 4) [0..<80] of
        (a, b, c, d, e) \<Rightarrow> [H ! 0 + a, H ! 1 + b, H ! 2 + c, H ! 3 + d, H ! 4 + e])"

definition sha1 :: "byte list \<Rightarrow> byte list" where
  "sha1 m = concat (map PUT_32BIT_MSB_FIRST (fst (absorb 64 sha1_compress fips_H1 (fips_pad64 m))))"

definition fips_Sigma_0 :: "u32 \<Rightarrow> u32" where "fips_Sigma_0 x = word_rotr 2 x XOR word_rotr 13 x XOR word_rotr 22 x"
definition fips_Sigma_1 :: "u32 \<Rightarrow> u32" where "fips_Sigma_1 x = word_rotr 6 x XOR word_rotr 11 x XOR word_rotr 25 x"
definition fips_sigma_0 :: "u32 \<Rightarrow> u32" where "fips_sigma_0 x = word_rotr 7 x XOR word_rotr 18 x XOR drop_bit 3 x"
definition fips_sigma_1 :: "u32 \<Rightarrow> u32" where "fips_sigma_1 x = word_rotr 17 x XOR word_rotr 19 x XOR drop_bit 10 x"

function sha256_W :: "byte list \<Rightarrow> nat \<Rightarrow> u32" where
  "sha256_W block t =
     (if t < 16 then fips_words block t
      else fips_sigma_1 (sha256_W block (t - 2)) + sha256_W block (t - 7) +
           fips_sigma_0 (sha256_W block (t - 15)) + sha256_W block (t - 16))"
  by pat_completeness auto
termination
  by (relation "measure (\<lambda>(block, t). t)") auto

fun sha256_round :: "byte list \<Rightarrow> u32 sha2_regs \<Rightarrow> nat \<Rightarrow> u32 sha2_regs" where
  "sha256_round block (a, b, c, d, e, f, g, h) t =
     (let T1 = h + fips_Sigma_1 e + fips_Ch e f g + fips_K256 ! t + sha256_W block t;
          T2 = fips_Sigma_0 a + fips_Maj a b c
      in (T1 + T2, a, b, c, d + T1, e, f, g))"

definition sha256_compress :: "u32 list \<Rightarrow> byte list \<Rightarrow> u32 list" where
  "sha256_compress H block =
     (case foldl (sha256_round block) (H ! 0, H ! 1, H ! 2, H ! 3, H ! 4, H ! 5, H ! 6, H ! 7) [0..<64] of
        (a, b, c, d, e, f, g, h) \<Rightarrow>
          [H ! 0 + a, H ! 1 + b, H ! 2 + c, H ! 3 + d, H ! 4 + e, H ! 5 + f, H ! 6 + g, H ! 7 + h])"

definition sha256 :: "byte list \<Rightarrow> byte list" where
  "sha256 m = concat (map PUT_32BIT_MSB_FIRST (fst (absorb 64 sha256_compress fips_H256 (fips_pad64 m))))"

declare sha1_W.simps [simp del] sha256_W.simps [simp del]

section \<open>Constants\<close>

text \<open>The tables of the code hold the constants of the standard.\<close>

lemma sha1_initial_state_fips: "sha1_initial_state = fips_H1"
  by (simp add: sha1_initial_state_def fips_H1_def)

lemma sha256_initial_state_fips: "sha256_initial_state = fips_H256"
proof -
  have "fips_H256 = map of_nat (map (root_fraction 2 32) (take 8 first_primes))" by (simp add: fips_H256_def comp_def)
  then show ?thesis unfolding square_roots_32 by (simp add: sha256_initial_state_def)
qed

lemma sha256_round_constants_fips: "sha256_round_constants = fips_K256"
proof -
  have "fips_K256 = map of_nat (map (root_fraction 3 32) (take 64 first_primes))" by (simp add: fips_K256_def comp_def)
  then show ?thesis unfolding cube_roots_32 by (simp add: sha256_round_constants_def)
qed

section \<open>Bitwise functions\<close>

lemma Ch_fips: "Ch x y z = fips_Ch x y z"
  unfolding Ch_def fips_Ch_def by (rule bit_word_eqI) (auto simp: bit_simps)

lemma Maj_fips: "Maj x y z = fips_Maj x y z"
  unfolding Maj_def fips_Maj_def by (rule bit_word_eqI) (auto simp: bit_simps)

lemma rol_lits: "rol x 1 = word_rotl 1 x" "rol x 5 = word_rotl 5 x" "rol x 30 = word_rotl 30 x"
  using rol_rotl [of 1 x] rol_rotl [of 5 x] rol_rotl [of 30 x] by (simp_all add: rol_def)

lemma ror_lits:
  "ror x 2 = word_rotr 2 x" "ror x 13 = word_rotr 13 x" "ror x 22 = word_rotr 22 x" "ror x 6 = word_rotr 6 x"
  "ror x 11 = word_rotr 11 x" "ror x 25 = word_rotr 25 x" "ror x 7 = word_rotr 7 x" "ror x 18 = word_rotr 18 x"
  "ror x 17 = word_rotr 17 x" "ror x 19 = word_rotr 19 x"
  using ror_rotr [of 2 x] ror_rotr [of 13 x] ror_rotr [of 22 x] ror_rotr [of 6 x] ror_rotr [of 11 x]
    ror_rotr [of 25 x] ror_rotr [of 7 x] ror_rotr [of 18 x] ror_rotr [of 17 x] ror_rotr [of 19 x]
  by (simp_all add: ror_def)

lemmas sigma_fips = Sigma_0_def Sigma_1_def sigma_0_def sigma_1_def fips_Sigma_0_def fips_Sigma_1_def
  fips_sigma_0_def fips_sigma_1_def ror_lits

section \<open>Message schedules\<close>

lemma GET_32_take: "GET_32BIT_MSB_FIRST (take 4 p) = GET_32BIT_MSB_FIRST p"
  by (simp add: GET_32BIT_MSB_FIRST_def)

lemma sha1_expand_W:
  "16 \<le> length w \<Longrightarrow> (\<forall>t<length w. w ! t = sha1_W block t) \<Longrightarrow>
     length (sha1_expand n w) = length w + n \<and> (\<forall>t<length w + n. sha1_expand n w ! t = sha1_W block t)"
proof (induction n arbitrary: w)
  case (Suc n)
  let ?t = "length w"
  have *: "rol (w ! (?t - 3) XOR w ! (?t - 8) XOR w ! (?t - 14) XOR w ! (?t - 16)) 1 = sha1_W block ?t"
    using Suc.prems by (subst sha1_W.simps) (simp add: rol_lits [unfolded One_nat_def])
  let ?w = "w @ [sha1_W block ?t]"
  have "16 \<le> length ?w" "\<forall>t<length ?w. ?w ! t = sha1_W block t" using Suc.prems by (auto simp: nth_append less_Suc_eq)
  from Suc.IH [OF this] show ?case by (simp add: * [unfolded One_nat_def] Let_def)
qed simp

lemma sha1_schedule_W: "t < 80 \<Longrightarrow> sha1_schedule block ! t = sha1_W block t"
  using sha1_expand_W [of "map (\<lambda>t. GET_32BIT_MSB_FIRST (drop (4 * t) block)) [0..<16]" block 64]
  by (simp add: sha1_schedule_def sha1_W.simps [of block] fips_words_def GET_32_take)

lemma sha256_expand_W:
  "16 \<le> length w \<Longrightarrow> (\<forall>t<length w. w ! t = sha256_W block t) \<Longrightarrow>
     length (sha256_expand n w) = length w + n \<and> (\<forall>t<length w + n. sha256_expand n w ! t = sha256_W block t)"
proof (induction n arbitrary: w)
  case (Suc n)
  let ?t = "length w"
  have *: "sigma_1 (w ! (?t - 2)) + w ! (?t - 7) + sigma_0 (w ! (?t - 15)) + w ! (?t - 16) = sha256_W block ?t"
    using Suc.prems by (subst sha256_W.simps) (simp add: sigma_fips)
  let ?w = "w @ [sha256_W block ?t]"
  have "16 \<le> length ?w" "\<forall>t<length ?w. ?w ! t = sha256_W block t" using Suc.prems by (auto simp: nth_append less_Suc_eq)
  from Suc.IH [OF this] show ?case by (simp add: * [unfolded One_nat_def] Let_def)
qed simp

lemma sha256_schedule_W: "t < 64 \<Longrightarrow> sha256_schedule block ! t = sha256_W block t"
  using sha256_expand_W [of "map (\<lambda>t. GET_32BIT_MSB_FIRST (drop (4 * t) block)) [0..<16]" block 48]
  by (simp add: sha256_schedule_def sha256_W.simps [of block] fips_words_def GET_32_take)

section \<open>Rounds\<close>

text \<open>One round of the code is one round of the standard with the registers renamed.\<close>

lemma sha1_round_step:
  "t < 80 \<Longrightarrow> sha1_f t = f \<Longrightarrow> sha1_K t = k \<Longrightarrow>
     sha1_round block (a, b, c, d, e) t =
       (fst (sha1_sw_round t (sha1_schedule block) a b e (f b c d) k), a,
        snd (sha1_sw_round t (sha1_schedule block) a b e (f b c d) k), c, d)"
  by (simp add: sha1_sw_round_def rol_lits sha1_schedule_W add.assoc add.commute add.left_commute)

lemma sha1_5rounds_fips:
  assumes "t + 5 \<le> 80" "\<And>i. t \<le> i \<Longrightarrow> i < t + 5 \<Longrightarrow> f = sha1_f i \<and> k = sha1_K i"
  shows "sha1_5rounds (sha1_schedule block) f k t regs = foldl (sha1_round block) regs [t..<t + 5]"
proof -
  let ?w = "sha1_schedule block"
  obtain a b c d e where regs: "regs = (a, b, c, d, e)" by (cases regs)
  obtain e1 b1 where r1: "sha1_sw_round (t + 0) ?w a b e (f b c d) k = (e1, b1)" by (meson surj_pair)
  obtain d1 a1 where r2: "sha1_sw_round (t + 1) ?w e1 a d (f a b1 c) k = (d1, a1)" by (meson surj_pair)
  obtain c1 e2 where r3: "sha1_sw_round (t + 2) ?w d1 e1 c (f e1 a1 b1) k = (c1, e2)" by (meson surj_pair)
  obtain b2 d2 where r4: "sha1_sw_round (t + 3) ?w c1 d1 b1 (f d1 e2 a1) k = (b2, d2)" by (meson surj_pair)
  obtain a2 c2 where r5: "sha1_sw_round (t + 4) ?w b2 c1 a1 (f c1 d2 e2) k = (a2, c2)" by (meson surj_pair)
  have fk: "sha1_f (t + j) = f" "sha1_K (t + j) = k" if "j < 5" for j using assms(2) [of "t + j"] that by simp_all
  have "[t..<t + 5] = [t + 0, t + 1, t + 2, t + 3, t + 4]" by (simp add: upt_rec)
  moreover have "sha1_round block (a, b, c, d, e) (t + 0) = (e1, a, b1, c, d)"
    using sha1_round_step [OF _ fk, of 0 block a b c d e] r1 assms(1) by simp
  moreover have "sha1_round block (e1, a, b1, c, d) (t + 1) = (d1, e1, a1, b1, c)"
    using sha1_round_step [OF _ fk, of 1 block e1 a b1 c d] r2 assms(1) by simp
  moreover have "sha1_round block (d1, e1, a1, b1, c) (t + 2) = (c1, d1, e2, a1, b1)"
    using sha1_round_step [OF _ fk, of 2 block d1 e1 a1 b1 c] r3 assms(1) by simp
  moreover have "sha1_round block (c1, d1, e2, a1, b1) (t + 3) = (b2, c1, d2, e2, a1)"
    using sha1_round_step [OF _ fk, of 3 block c1 d1 e2 a1 b1] r4 assms(1) by simp
  moreover have "sha1_round block (b2, c1, d2, e2, a1) (t + 4) = (a2, b2, c2, d2, e2)"
    using sha1_round_step [OF _ fk, of 4 block b2 c1 d2 e2 a1] r5 assms(1) by simp
  ultimately have "foldl (sha1_round block) regs [t..<t + 5] = (a2, b2, c2, d2, e2)"
    unfolding regs by (simp only: foldl.simps)
  moreover have "sha1_5rounds ?w f k t regs = (a2, b2, c2, d2, e2)"
    unfolding regs sha1_5rounds.simps r1 r2 r3 r4 r5 prod.case by simp
  ultimately show ?thesis by simp
qed

lemma upt_blocks: "[t..<t + n * Suc k] = [t..<t + n * k] @ [t + n * k..<t + n * k + n]"
  using upt_add_eq_append [of t "t + n * k" n] by (simp add: algebra_simps)

lemma sha1_stage_fips:
  assumes "t + 20 \<le> 80" "\<And>i. t \<le> i \<Longrightarrow> i < t + 20 \<Longrightarrow> f = sha1_f i \<and> k = sha1_K i"
  shows "sha1_stage (sha1_schedule block) f k t regs = foldl (sha1_round block) regs [t..<t + 20]"
proof -
  have "n \<le> 4 \<Longrightarrow> foldl (\<lambda>regs u. sha1_5rounds (sha1_schedule block) f k (t + 5 * u) regs) regs [0..<n] =
      foldl (sha1_round block) regs [t..<t + 5 * n]" for n
  proof (induction n)
    case (Suc n)
    have "sha1_5rounds (sha1_schedule block) f k (t + 5 * n) r = foldl (sha1_round block) r [t + 5 * n..<t + 5 * n + 5]" for r
      by (rule sha1_5rounds_fips) (use Suc.prems assms in auto)
    then show ?case using Suc upt_blocks [of t 5 n] by simp
  qed simp
  from this [of 4] show ?thesis by (simp add: sha1_stage_def)
qed

lemma sha1_block_fips: "sha1_sw_block = sha1_compress"
proof (intro ext)
  fix core block
  let ?w = "sha1_schedule block"
  have s: "sha1_stage ?w Ch 0x5a827999 0 r = foldl (sha1_round block) r [0..<0 + 20]"
    "sha1_stage ?w Par 0x6ed9eba1 20 r = foldl (sha1_round block) r [20..<20 + 20]"
    "sha1_stage ?w Maj 0x8f1bbcdc 40 r = foldl (sha1_round block) r [40..<40 + 20]"
    "sha1_stage ?w Par 0xca62c1d6 60 r = foldl (sha1_round block) r [60..<60 + 20]" for r
    by (rule sha1_stage_fips; auto simp: fun_eq_iff sha1_f_def sha1_K_def Ch_fips Maj_fips Par_def)+
  have "[0..<80] = [0..<0 + 20] @ [20..<20 + 20] @ [40..<40 + 20] @ [60..<60 + (20::nat)]"
    using upt_add_eq_append [of 0 20 60] upt_add_eq_append [of 20 40 40] upt_add_eq_append [of 40 60 20]
    by (simp del: upt.simps upt_rec_numeral)
  then have "foldl (sha1_round block) r [0..<80] =
      sha1_stage ?w Par 0xca62c1d6 60 (sha1_stage ?w Maj 0x8f1bbcdc 40 (sha1_stage ?w Par 0x6ed9eba1 20 (sha1_stage ?w Ch 0x5a827999 0 r)))" for r
    unfolding s by (simp only: foldl_append)
  then show "sha1_sw_block core block = sha1_compress core block"
    unfolding sha1_sw_block_def sha1_compress_def Let_def by simp
qed

lemma sha256_round_step:
  "t < 64 \<Longrightarrow> sha256_round block (a, b, c, d, e, f, g, h) t =
     (snd (sha256_sw_round t (sha256_schedule block) a b c d e f g h), a, b, c,
      fst (sha256_sw_round t (sha256_schedule block) a b c d e f g h), e, f, g)"
  by (simp add: sha256_sw_round_def sha256_schedule_W Let_def Ch_fips Maj_fips sigma_fips sha256_round_constants_fips)

lemma sha256_8rounds_fips:
  assumes "t + 8 \<le> 64"
  shows "sha256_8rounds (sha256_schedule block) t regs = foldl (sha256_round block) regs [t..<t + 8]"
proof -
  let ?w = "sha256_schedule block"
  obtain a b c d e f g h where regs: "regs = (a, b, c, d, e, f, g, h)" by (metis prod.exhaust)
  obtain d1 h1 where r0: "sha256_sw_round (t + 0) ?w a b c d e f g h = (d1, h1)" by (meson surj_pair)
  obtain c1 g1 where r1: "sha256_sw_round (t + 1) ?w h1 a b c d1 e f g = (c1, g1)" by (meson surj_pair)
  obtain b1 f1 where r2: "sha256_sw_round (t + 2) ?w g1 h1 a b c1 d1 e f = (b1, f1)" by (meson surj_pair)
  obtain a1 e1 where r3: "sha256_sw_round (t + 3) ?w f1 g1 h1 a b1 c1 d1 e = (a1, e1)" by (meson surj_pair)
  obtain h2 d2 where r4: "sha256_sw_round (t + 4) ?w e1 f1 g1 h1 a1 b1 c1 d1 = (h2, d2)" by (meson surj_pair)
  obtain g2 c2 where r5: "sha256_sw_round (t + 5) ?w d2 e1 f1 g1 h2 a1 b1 c1 = (g2, c2)" by (meson surj_pair)
  obtain f2 b2 where r6: "sha256_sw_round (t + 6) ?w c2 d2 e1 f1 g2 h2 a1 b1 = (f2, b2)" by (meson surj_pair)
  obtain e2 a2 where r7: "sha256_sw_round (t + 7) ?w b2 c2 d2 e1 f2 g2 h2 a1 = (e2, a2)" by (meson surj_pair)
  have "[t..<t + 8] = [t + 0, t + 1, t + 2, t + 3, t + 4, t + 5, t + 6, t + 7]" by (simp add: upt_rec)
  moreover have "sha256_round block (a, b, c, d, e, f, g, h) (t + 0) = (h1, a, b, c, d1, e, f, g)"
    using sha256_round_step [of "t + 0" block a b c d e f g h] r0 assms by simp
  moreover have "sha256_round block (h1, a, b, c, d1, e, f, g) (t + 1) = (g1, h1, a, b, c1, d1, e, f)"
    using sha256_round_step [of "t + 1" block h1 a b c d1 e f g] r1 assms by simp
  moreover have "sha256_round block (g1, h1, a, b, c1, d1, e, f) (t + 2) = (f1, g1, h1, a, b1, c1, d1, e)"
    using sha256_round_step [of "t + 2" block g1 h1 a b c1 d1 e f] r2 assms by simp
  moreover have "sha256_round block (f1, g1, h1, a, b1, c1, d1, e) (t + 3) = (e1, f1, g1, h1, a1, b1, c1, d1)"
    using sha256_round_step [of "t + 3" block f1 g1 h1 a b1 c1 d1 e] r3 assms by simp
  moreover have "sha256_round block (e1, f1, g1, h1, a1, b1, c1, d1) (t + 4) = (d2, e1, f1, g1, h2, a1, b1, c1)"
    using sha256_round_step [of "t + 4" block e1 f1 g1 h1 a1 b1 c1 d1] r4 assms by simp
  moreover have "sha256_round block (d2, e1, f1, g1, h2, a1, b1, c1) (t + 5) = (c2, d2, e1, f1, g2, h2, a1, b1)"
    using sha256_round_step [of "t + 5" block d2 e1 f1 g1 h2 a1 b1 c1] r5 assms by simp
  moreover have "sha256_round block (c2, d2, e1, f1, g2, h2, a1, b1) (t + 6) = (b2, c2, d2, e1, f2, g2, h2, a1)"
    using sha256_round_step [of "t + 6" block c2 d2 e1 f1 g2 h2 a1 b1] r6 assms by simp
  moreover have "sha256_round block (b2, c2, d2, e1, f2, g2, h2, a1) (t + 7) = (a2, b2, c2, d2, e2, f2, g2, h2)"
    using sha256_round_step [of "t + 7" block b2 c2 d2 e1 f2 g2 h2 a1] r7 assms by simp
  ultimately have "foldl (sha256_round block) regs [t..<t + 8] = (a2, b2, c2, d2, e2, f2, g2, h2)"
    unfolding regs by (simp only: foldl.simps)
  moreover have "sha256_8rounds ?w t regs = (a2, b2, c2, d2, e2, f2, g2, h2)"
    unfolding regs sha256_8rounds.simps r0 r1 r2 r3 r4 r5 r6 r7 prod.case by simp
  ultimately show ?thesis by simp
qed

lemma sha256_block_fips: "sha256_sw_block = sha256_compress"
proof (intro ext)
  fix core block
  let ?w = "sha256_schedule block"
  have "n \<le> 8 \<Longrightarrow> foldl (\<lambda>regs u. sha256_8rounds ?w (8 * u) regs) regs [0..<n] =
      foldl (sha256_round block) regs [0..<0 + 8 * n]" for n regs
  proof (induction n)
    case (Suc n)
    then show ?case using upt_blocks [of 0 8 n] sha256_8rounds_fips [of "8 * n" block] by simp
  qed simp
  from this [of 8] show "sha256_sw_block core block = sha256_compress core block"
    by (simp add: sha256_sw_block_def sha256_compress_def Let_def del: upt.simps upt_rec_numeral)
qed

section \<open>Incremental hashing\<close>

definition sw_rep :: "(u32 list \<Rightarrow> byte list \<Rightarrow> u32 list) \<Rightarrow> u32 list \<Rightarrow> sha_sw \<Rightarrow> byte list \<Rightarrow> bool" where
  "sw_rep f c0 s m \<longleftrightarrow> buffers 64 f c0 m (sw_core s) (blk_block (sw_blk s)) (blk_used (sw_blk s)) \<and>
     blk_len (sw_blk s) = of_nat (length m)"

definition sw_good :: "sha_sw \<Rightarrow> bool" where
  "sw_good s \<longleftrightarrow> length (blk_block (sw_blk s)) = 64"

lemma sw_write_rep: "sw_rep f c0 s m \<Longrightarrow> \<exists>s'. sw_write f s p = Inr s' \<and> sw_rep f c0 s' (m @ p)"
  using sha_write_buffers [of f c0 m "sw_core s" "sw_blk s" p] by (auto simp: sw_rep_def sw_write_def)

lemma put_zeros_rep: "sw_rep f c0 s m \<Longrightarrow> \<exists>s'. put_zeros (sw_write f) n s = Inr s' \<and> sw_rep f c0 s' (m @ replicate n 0)"
proof (induction n arbitrary: s m)
  case (Suc n)
  obtain u where u: "sw_write f s [0] = Inr u" "sw_rep f c0 u (m @ [0])" using sw_write_rep [OF Suc.prems] by blast
  from Suc.IH [OF u(2)] u(1) show ?case by auto
qed simp

lemma pad_count:
  assumes "used < 64"
  shows "unat ((63 :: u64) AND (55 - of_nat used)) = (119 - used) mod 64"
proof -
  have m: "(63 :: u64) AND w = take_bit 6 w" for w by (simp add: take_bit_eq_mask mask_eq_exp_minus_1 and.commute)
  show ?thesis
  proof (cases "used \<le> 55")
    case True
    define n where "n = 55 - used"
    have n: "(55 - of_nat used :: u64) = of_nat n" "n \<le> 55" "119 - used = 64 + n" using True by (simp_all add: n_def)
    have "unat (take_bit 6 (of_nat n :: u64)) = n" using n(2) by (simp add: unsigned_take_bit_eq take_bit_nat_eq_self unat_of_nat)
    then show ?thesis using n(2) unfolding m n(1) n(3) by (simp only: mod_add_self1) simp
  next
    case False
    then have "used = 56 \<or> used = 57 \<or> used = 58 \<or> used = 59 \<or> used = 60 \<or> used = 61 \<or> used = 62 \<or> used = 63"
      using assms by linarith
    then show ?thesis by (elim disjE) simp_all
  qed
qed

lemma len_bits: "push_bit 3 (of_nat n :: u64) = of_nat (8 * n)"
  by (simp add: push_bit_eq_mult mult.commute)

lemma fips_pad64_length: "length (fips_pad64 m) mod 64 = 0"
proof -
  define r where "r = length m mod 64"
  have r: "r < 64" by (simp add: r_def)
  have "length (fips_pad64 m) mod 64 = (r + (9 + (119 - r) mod 64)) mod 64"
    unfolding fips_pad64_def r_def by (simp add: mod_add_left_eq)
  also have "\<dots> = 0"
  proof (cases "r \<le> 55")
    case True
    then have e: "119 - r = 64 + (55 - r)" by simp
    show ?thesis unfolding e using True by (simp only: mod_add_self1) simp
  next
    case False
    then have "(119 - r) mod 64 = 119 - r" using r by simp
    then show ?thesis using r False by simp
  qed
  finally show ?thesis .
qed

lemma sha_pad_rep:
  assumes "sw_rep f c0 s m"
  shows "\<exists>s'. sha1_block_pad (sw_write f) s = Inr s' \<and> sw_core s' = fst (absorb 64 f c0 (fips_pad64 m))"
proof -
  let ?used = "blk_used (sw_blk s)"
  have used: "?used < 64" "?used = length m mod 64"
  proof -
    show "?used < 64" using assms by (simp add: sw_rep_def buffers_def)
    then show "?used = length m mod 64"
      using assms absorb_rest [of 64 f c0 m "sw_core s" "take ?used (blk_block (sw_blk s))"]
      by (auto simp: sw_rep_def buffers_def)
  qed
  have len: "push_bit 3 (blk_len (sw_blk s)) = of_nat (8 * length m)" using assms len_bits by (simp add: sw_rep_def)
  define z where "z = (119 - length m mod 64) mod 64"
  have z: "1 + unat ((63 :: u64) AND (55 - of_nat ?used)) - 1 = z" using pad_count [OF used(1)] used(2) by (simp add: z_def)
  obtain s1 where s1: "sw_write f s [0x80] = Inr s1" "sw_rep f c0 s1 (m @ [0x80])" using sw_write_rep [OF assms] by blast
  obtain s2 where s2: "put_zeros (sw_write f) z s1 = Inr s2" "sw_rep f c0 s2 ((m @ [0x80]) @ replicate z 0)"
    using put_zeros_rep [OF s1(2)] by blast
  obtain s3 where s3: "sw_write f s2 (PUT_64BIT_MSB_FIRST (of_nat (8 * length m))) = Inr s3"
    "sw_rep f c0 s3 (fips_pad64 m)"
    using sw_write_rep [OF s2(2)] by (fastforce simp: fips_pad64_def z_def)
  have ab: "absorb 64 f c0 (fips_pad64 m) = (sw_core s3, take (blk_used (sw_blk s3)) (blk_block (sw_blk s3)))"
    and l3: "length (blk_block (sw_blk s3)) = 64" "blk_used (sw_blk s3) < 64"
    using s3(2) by (auto simp: sw_rep_def buffers_def)
  have "blk_used (sw_blk s3) = 0"
    using absorb_rest [OF _ ab] fips_pad64_length [of m] l3 by simp
  then have "sha1_block_pad (sw_write f) s = Inr s3"
    unfolding sha1_block_pad_def Let_def z len using s1(1) s2(1) s3(1) by simp
  then show ?thesis using ab by simp
qed

lemma sha1_compress_length: "length (sha1_compress H b) = 5"
  by (simp add: sha1_compress_def split: prod.split)

lemma sha256_compress_length: "length (sha256_compress H b) = 8"
  by (simp add: sha256_compress_def split: prod.split)

lemma absorb_length:
  "(\<And>H b. length (f H b) = n) \<Longrightarrow> length c = n \<Longrightarrow> length (fst (absorb B f c m)) = n"
  by (induction B f c m rule: absorb.induct) (subst absorb.simps, simp)

lemma output_words: "length c = n \<Longrightarrow> concat (map (\<lambda>i. g (c ! i)) [0..<n]) = concat (map g c)"
  by (metis (no_types, lifting) map_map map_nth comp_apply map_cong)

lemma length_concat_const: "(\<And>x. length (g x) = k) \<Longrightarrow> length (concat (map g xs)) = k * length xs"
  by (induction xs) simp_all

interpretation sha1: hash_provider "ssh_sha1_sw junk" sw_good "sw_rep sha1_compress sha1_initial_state" sha1 for junk
proof (unfold_locales, goal_cases)
  case (4 s m d)
  then show ?case using sw_write_rep by (simp add: ssh_sha1_sw_def sha1_sw_write_def sha1_block_fips)
next
  case (5 s m)
  obtain s' where s': "sha1_block_pad sha1_sw_write s = Inr s'"
    "sw_core s' = fst (absorb 64 sha1_compress sha1_initial_state (fips_pad64 m))"
    using sha_pad_rep [OF 5] by (auto simp: sha1_sw_write_def sha1_block_fips)
  have "length (sw_core s') = 5"
    using s'(2) absorb_length [of sha1_compress 5 sha1_initial_state] sha1_compress_length
    by (simp add: sha1_initial_state_def)
  then show ?case using s' output_words [of "sw_core s'" 5 PUT_32BIT_MSB_FIRST]
    by (simp add: ssh_sha1_sw_def sha1_sw_digest_def sha1_def sha1_initial_state_fips del: upt.simps upt_rec_numeral)
next
  case (6 m)
  show ?case using absorb_length [of sha1_compress 5 sha1_initial_state] sha1_compress_length
      length_concat_const [of PUT_32BIT_MSB_FIRST 4]
    by (simp add: ssh_sha1_sw_def sha1_def sha1_initial_state_def flip: sha1_initial_state_fips)
qed (auto simp: ssh_sha1_sw_def sw_good_def sw_rep_def buffers_def sha1_sw_new_def sha1_sw_reset_def
      sha1_block_setup_def absorb_short)

interpretation sha256: hash_provider "ssh_sha256_sw junk" sw_good "sw_rep sha256_compress sha256_initial_state" sha256 for junk
proof (unfold_locales, goal_cases)
  case (4 s m d)
  then show ?case using sw_write_rep by (simp add: ssh_sha256_sw_def sha256_sw_write_def sha256_block_fips)
next
  case (5 s m)
  obtain s' where s': "sha1_block_pad sha256_sw_write s = Inr s'"
    "sw_core s' = fst (absorb 64 sha256_compress sha256_initial_state (fips_pad64 m))"
    using sha_pad_rep [OF 5] by (auto simp: sha256_sw_write_def sha256_block_fips)
  have "length (sw_core s') = 8"
    using s'(2) absorb_length [of sha256_compress 8 sha256_initial_state] sha256_compress_length
    by (simp add: sha256_initial_state_def)
  then show ?case using s' output_words [of "sw_core s'" 8 PUT_32BIT_MSB_FIRST]
    by (simp add: ssh_sha256_sw_def sha256_sw_digest_def sha256_def sha256_initial_state_fips del: upt.simps upt_rec_numeral)
next
  case (6 m)
  show ?case using absorb_length [of sha256_compress 8 sha256_initial_state] sha256_compress_length
      length_concat_const [of PUT_32BIT_MSB_FIRST 4]
    by (simp add: ssh_sha256_sw_def sha256_def sha256_initial_state_def flip: sha256_initial_state_fips)
qed (auto simp: ssh_sha256_sw_def sw_good_def sw_rep_def buffers_def sha256_sw_new_def sha256_sw_reset_def
      sha256_block_setup_def absorb_short)

end
