(* ===== verification/Md5.thy ===== *)
theory Md5
  imports Sha_Correct
begin

text \<open>
  MD5 (\<open>sshmd5.c\<close>) and its equivalence with RFC 1321: the unrolled subrounds, the incremental
  buffering and the little-endian padding.
\<close>

section \<open>Core\<close>

definition md5_F :: "u32 \<Rightarrow> u32 \<Rightarrow> u32 \<Rightarrow> u32" where "md5_F x y z = (x AND y) OR (NOT x AND z)"
definition md5_G :: "u32 \<Rightarrow> u32 \<Rightarrow> u32 \<Rightarrow> u32" where "md5_G x y z = (x AND z) OR (NOT z AND y)"
definition md5_H :: "u32 \<Rightarrow> u32 \<Rightarrow> u32 \<Rightarrow> u32" where "md5_H x y z = x XOR y XOR z"
definition md5_I :: "u32 \<Rightarrow> u32 \<Rightarrow> u32 \<Rightarrow> u32" where "md5_I x y z = y XOR (x OR NOT z)"

definition md5_rol :: "u32 \<Rightarrow> nat \<Rightarrow> u32" where
  "md5_rol x y = push_bit y x OR drop_bit (32 - y) x"

definition md5_sub ::
  "(u32 \<Rightarrow> u32 \<Rightarrow> u32 \<Rightarrow> u32) \<Rightarrow> u32 list \<Rightarrow> u32 \<Rightarrow> u32 \<Rightarrow> u32 \<Rightarrow> u32 \<Rightarrow> nat \<times> nat \<times> u32 \<Rightarrow> u32" where
  "md5_sub f block w x y z p = (case p of (k, s, ti) \<Rightarrow> x + md5_rol (w + f x y z + block ! k + ti) s)"

type_synonym md5_row = "(u32 \<Rightarrow> u32 \<Rightarrow> u32 \<Rightarrow> u32) \<times> (nat \<times> nat \<times> u32) \<times> (nat \<times> nat \<times> u32) \<times> (nat \<times> nat \<times> u32) \<times> (nat \<times> nat \<times> u32)"

text \<open>
  Four consecutive \<open>subround\<close> lines assign \<open>a\<close>, \<open>d\<close>, \<open>c\<close> and \<open>b\<close>; a row of the table holds
  their function and, for each of the four, the word of the block, the rotation and the constant.
\<close>

fun md5_subrounds4 :: "u32 list \<Rightarrow> u32 \<times> u32 \<times> u32 \<times> u32 \<Rightarrow> md5_row \<Rightarrow> u32 \<times> u32 \<times> u32 \<times> u32" where
  "md5_subrounds4 block (a, b, c, d) (f, pa, pd, pc, pb) =
     (let a = md5_sub f block a b c d pa;
          d = md5_sub f block d a b c pd;
          c = md5_sub f block c d a b pc;
          b = md5_sub f block b c d a pb
      in (a, b, c, d))"

definition md5_subrounds :: "md5_row list" where
  "md5_subrounds =
    [(md5_F, (0, 7, 0xd76aa478), (1, 12, 0xe8c7b756), (2, 17, 0x242070db), (3, 22, 0xc1bdceee)),
     (md5_F, (4, 7, 0xf57c0faf), (5, 12, 0x4787c62a), (6, 17, 0xa8304613), (7, 22, 0xfd469501)),
     (md5_F, (8, 7, 0x698098d8), (9, 12, 0x8b44f7af), (10, 17, 0xffff5bb1), (11, 22, 0x895cd7be)),
     (md5_F, (12, 7, 0x6b901122), (13, 12, 0xfd987193), (14, 17, 0xa679438e), (15, 22, 0x49b40821)),
     (md5_G, (1, 5, 0xf61e2562), (6, 9, 0xc040b340), (11, 14, 0x265e5a51), (0, 20, 0xe9b6c7aa)),
     (md5_G, (5, 5, 0xd62f105d), (10, 9, 0x02441453), (15, 14, 0xd8a1e681), (4, 20, 0xe7d3fbc8)),
     (md5_G, (9, 5, 0x21e1cde6), (14, 9, 0xc33707d6), (3, 14, 0xf4d50d87), (8, 20, 0x455a14ed)),
     (md5_G, (13, 5, 0xa9e3e905), (2, 9, 0xfcefa3f8), (7, 14, 0x676f02d9), (12, 20, 0x8d2a4c8a)),
     (md5_H, (5, 4, 0xfffa3942), (8, 11, 0x8771f681), (11, 16, 0x6d9d6122), (14, 23, 0xfde5380c)),
     (md5_H, (1, 4, 0xa4beea44), (4, 11, 0x4bdecfa9), (7, 16, 0xf6bb4b60), (10, 23, 0xbebfbc70)),
     (md5_H, (13, 4, 0x289b7ec6), (0, 11, 0xeaa127fa), (3, 16, 0xd4ef3085), (6, 23, 0x04881d05)),
     (md5_H, (9, 4, 0xd9d4d039), (12, 11, 0xe6db99e5), (15, 16, 0x1fa27cf8), (2, 23, 0xc4ac5665)),
     (md5_I, (0, 6, 0xf4292244), (7, 10, 0x432aff97), (14, 15, 0xab9423a7), (5, 21, 0xfc93a039)),
     (md5_I, (12, 6, 0x655b59c3), (3, 10, 0x8f0ccc92), (10, 15, 0xffeff47d), (1, 21, 0x85845dd1)),
     (md5_I, (8, 6, 0x6fa87e4f), (15, 10, 0xfe2ce6e0), (6, 15, 0xa3014314), (13, 21, 0x4e0811a1)),
     (md5_I, (4, 6, 0xf7537e82), (11, 10, 0xbd3af235), (2, 15, 0x2ad7d2bb), (9, 21, 0xeb86d391))]"

definition MD5_Core_Init :: "u32 list" where
  "MD5_Core_Init = [0x67452301, 0xefcdab89, 0x98badcfe, 0x10325476]"

definition MD5_Block :: "u32 list \<Rightarrow> u32 list \<Rightarrow> u32 list" where
  "MD5_Block h block =
     (case foldl (md5_subrounds4 block) (h ! 0, h ! 1, h ! 2, h ! 3) md5_subrounds of
        (a, b, c, d) \<Rightarrow> [h ! 0 + a, h ! 1 + b, h ! 2 + c, h ! 3 + d])"

record MD5Context =
  md5_core :: "u32 list"
  md5_block :: "byte list"
  md5_blkused :: nat
  md5_len :: u64

definition md5_wordblock :: "byte list \<Rightarrow> u32 list" where
  "md5_wordblock block =
     map (\<lambda>i. push_bit 24 (ucast (block ! (i * 4 + 3))) OR push_bit 16 (ucast (block ! (i * 4 + 2))) OR
              push_bit 8 (ucast (block ! (i * 4 + 1))) OR ucast (block ! (i * 4 + 0))) [0..<16]"

definition MD5Init :: "MD5Context \<Rightarrow> MD5Context" where
  "MD5Init s = s\<lparr>md5_core := MD5_Core_Init, md5_blkused := 0, md5_len := 0\<rparr>"

definition MD5_write :: "MD5Context \<Rightarrow> byte list \<Rightarrow> MD5Context res" where
  "MD5_write s q =
     res_bind (assert_res (length q < 2 ^ 32)) (\<lambda>_.
     let s = s\<lparr>md5_len := md5_len s + of_nat (length q)\<rparr> in
     if md5_blkused s + length q < 64
     then res_bind (mem_write (md5_block s) (md5_blkused s) q) (\<lambda>b.
          Inr (s\<lparr>md5_block := b, md5_blkused := md5_blkused s + length q\<rparr>))
     else res_bind (block_absorb 64 (\<lambda>h b. MD5_Block h (md5_wordblock b)) (md5_core s) (md5_block s) (md5_blkused s) q)
            (\<lambda>(h, b, used). Inr (s\<lparr>md5_core := h, md5_block := b, md5_blkused := used\<rparr>)))"

definition md5_output :: "u32 \<Rightarrow> byte list" where
  "md5_output h = [ucast (drop_bit 0 h AND 0xFF), ucast (drop_bit 8 h AND 0xFF),
     ucast (drop_bit 16 h AND 0xFF), ucast (drop_bit 24 h AND 0xFF)]"

definition MD5Final :: "MD5Context \<Rightarrow> byte list res" where
  "MD5Final s =
     (let pad = (if md5_blkused s \<ge> 56 then 56 + 64 - md5_blkused s else 56 - md5_blkused s);
          len = push_bit 3 (md5_len s)
      in res_bind (assert_res (pad \<le> 64)) (\<lambda>_.
         res_bind (MD5_write s (0x80 # replicate (pad - 1) 0)) (\<lambda>s.
         res_bind (MD5_write s (PUT_64BIT_LSB_FIRST len)) (\<lambda>s.
         Inr (concat (map (\<lambda>i. md5_output (md5_core s ! i)) [0..<4]))))))"

definition md5_new :: "(nat \<Rightarrow> byte) \<Rightarrow> MD5Context" where
  "md5_new junk = \<lparr>md5_core = replicate 4 0, md5_block = map junk [0..<64], md5_blkused = unat (junk 64), md5_len = 0\<rparr>"

definition ssh_md5 :: "(nat \<Rightarrow> byte) \<Rightarrow> MD5Context ssh_hashalg" where
  "ssh_md5 junk = \<lparr>hash_new = md5_new junk, hash_reset = MD5Init, hash_write = MD5_write, hash_digest = MD5Final,
     hlen = 16, blocklen = 64\<rparr>"

section \<open>RFC 1321\<close>

definition rfc_T :: "u32 list" where
  "rfc_T =
    [0xd76aa478, 0xe8c7b756, 0x242070db, 0xc1bdceee, 0xf57c0faf, 0x4787c62a, 0xa8304613, 0xfd469501,
     0x698098d8, 0x8b44f7af, 0xffff5bb1, 0x895cd7be, 0x6b901122, 0xfd987193, 0xa679438e, 0x49b40821,
     0xf61e2562, 0xc040b340, 0x265e5a51, 0xe9b6c7aa, 0xd62f105d, 0x02441453, 0xd8a1e681, 0xe7d3fbc8,
     0x21e1cde6, 0xc33707d6, 0xf4d50d87, 0x455a14ed, 0xa9e3e905, 0xfcefa3f8, 0x676f02d9, 0x8d2a4c8a,
     0xfffa3942, 0x8771f681, 0x6d9d6122, 0xfde5380c, 0xa4beea44, 0x4bdecfa9, 0xf6bb4b60, 0xbebfbc70,
     0x289b7ec6, 0xeaa127fa, 0xd4ef3085, 0x04881d05, 0xd9d4d039, 0xe6db99e5, 0x1fa27cf8, 0xc4ac5665,
     0xf4292244, 0x432aff97, 0xab9423a7, 0xfc93a039, 0x655b59c3, 0x8f0ccc92, 0xffeff47d, 0x85845dd1,
     0x6fa87e4f, 0xfe2ce6e0, 0xa3014314, 0x4e0811a1, 0xf7537e82, 0xbd3af235, 0x2ad7d2bb, 0xeb86d391]"

definition rfc_f :: "nat \<Rightarrow> u32 \<Rightarrow> u32 \<Rightarrow> u32 \<Rightarrow> u32" where
  "rfc_f t x y z = (if t < 16 then (x AND y) OR (NOT x AND z) else if t < 32 then (x AND z) OR (y AND NOT z)
     else if t < 48 then x XOR y XOR z else y XOR (x OR NOT z))"

definition rfc_k :: "nat \<Rightarrow> nat" where
  "rfc_k t = (if t < 16 then t else if t < 32 then (5 * t + 1) mod 16 else if t < 48 then (3 * t + 5) mod 16 else 7 * t mod 16)"

definition rfc_s :: "nat \<Rightarrow> nat" where
  "rfc_s t = (if t < 16 then [7, 12, 17, 22] else if t < 32 then [5, 9, 14, 20]
     else if t < 48 then [4, 11, 16, 23] else [6, 10, 15, 21]) ! (t mod 4)"

fun rfc_step :: "(nat \<Rightarrow> u32) \<Rightarrow> u32 \<times> u32 \<times> u32 \<times> u32 \<Rightarrow> nat \<Rightarrow> u32 \<times> u32 \<times> u32 \<times> u32" where
  "rfc_step X (a, b, c, d) t = (d, b + word_rotl (rfc_s t) (a + rfc_f t b c d + X (rfc_k t) + rfc_T ! t), b, c)"

definition md5_words :: "byte list \<Rightarrow> nat \<Rightarrow> u32" where
  "md5_words block t = GET_32BIT_LSB_FIRST (take 4 (drop (4 * t) block))"

definition md5_compress :: "u32 list \<Rightarrow> byte list \<Rightarrow> u32 list" where
  "md5_compress h block =
     (case foldl (rfc_step (md5_words block)) (h ! 0, h ! 1, h ! 2, h ! 3) [0..<64] of
        (a, b, c, d) \<Rightarrow> [h ! 0 + a, h ! 1 + b, h ! 2 + c, h ! 3 + d])"

definition rfc_pad :: "byte list \<Rightarrow> byte list" where
  "rfc_pad m = m @ [0x80] @ replicate ((119 - length m mod 64) mod 64) 0 @ PUT_64BIT_LSB_FIRST (of_nat (8 * length m))"

definition md5_iv :: "u32 list" where
  "md5_iv = [0x67452301, 0xefcdab89, 0x98badcfe, 0x10325476]"

definition md5 :: "byte list \<Rightarrow> byte list" where
  "md5 m = concat (map PUT_32BIT_LSB_FIRST (fst (absorb 64 md5_compress md5_iv (rfc_pad m))))"

declare rfc_step.simps [simp del]

section \<open>The subrounds are the steps of the standard\<close>

definition rfc_entry :: "nat \<Rightarrow> nat \<times> nat \<times> u32" where
  "rfc_entry t = (rfc_k t, rfc_s t, rfc_T ! t)"

lemma md5_subrounds_rfc:
  "md5_subrounds = map (\<lambda>u. (rfc_f (4 * u), rfc_entry (4 * u), rfc_entry (4 * u + 1), rfc_entry (4 * u + 2), rfc_entry (4 * u + 3))) [0..<16]"
proof -
  have f: "rfc_f t = md5_F" if "t < 16" for t using that by (simp add: fun_eq_iff rfc_f_def md5_F_def)
  have g: "rfc_f t = md5_G" if "16 \<le> t" "t < 32" for t
    using that by (simp add: fun_eq_iff rfc_f_def md5_G_def and.commute)
  have h: "rfc_f t = md5_H" if "32 \<le> t" "t < 48" for t using that by (simp add: fun_eq_iff rfc_f_def md5_H_def)
  have i: "rfc_f t = md5_I" if "48 \<le> t" for t using that by (simp add: fun_eq_iff rfc_f_def md5_I_def)
  show ?thesis by (simp add: md5_subrounds_def upt_rec f g h i rfc_entry_def rfc_k_def rfc_s_def rfc_T_def)
qed

lemma md5_rol_rotl: "0 < n \<Longrightarrow> n < 32 \<Longrightarrow> md5_rol x n = word_rotl n x"
  by (simp add: md5_rol_def rol_rotl)

lemma rfc_s_range: "0 < rfc_s t \<and> rfc_s t < 32"
proof -
  have "t mod 4 = 0 \<or> t mod 4 = 1 \<or> t mod 4 = 2 \<or> t mod 4 = 3" by presburger
  then show ?thesis by (auto simp: rfc_s_def)
qed

lemma md5_sub_step:
  assumes "\<And>k. k < 16 \<Longrightarrow> block ! k = X k" "rfc_f t = f"
  shows "rfc_step X (w, x, y, z) t = (z, md5_sub f block w x y z (rfc_entry t), x, y)"
proof -
  have "rfc_k t < 16" by (simp add: rfc_k_def)
  then show ?thesis using assms rfc_s_range [of t]
    by (simp add: rfc_step.simps md5_sub_def rfc_entry_def md5_rol_rotl)
qed

lemma md5_subrounds4_steps:
  assumes "\<And>k. k < 16 \<Longrightarrow> block ! k = X k"
  shows "md5_subrounds4 block r (rfc_f (4 * u), rfc_entry (4 * u), rfc_entry (4 * u + 1), rfc_entry (4 * u + 2), rfc_entry (4 * u + 3))
    = foldl (rfc_step X) r [4 * u..<4 * u + 4]"
proof -
  obtain a b c d where r: "r = (a, b, c, d)" by (metis prod.exhaust)
  have f: "rfc_f (4 * u + 1) = rfc_f (4 * u)" "rfc_f (4 * u + 2) = rfc_f (4 * u)" "rfc_f (4 * u + 3) = rfc_f (4 * u)"
    by (auto simp: fun_eq_iff rfc_f_def)
  have "[4 * u..<4 * u + 4] = [4 * u, 4 * u + 1, 4 * u + 2, 4 * u + 3]" by (simp add: upt_rec)
  then show ?thesis unfolding r
    by (simp only: foldl.simps md5_sub_step [OF assms refl] f md5_subrounds4.simps Let_def)
qed

lemma md5_wordblock_words:
  assumes "length block = 64" "k < 16"
  shows "md5_wordblock block ! k = md5_words block k"
proof -
  have "4 * k + 3 < length block" using assms by simp
  then show ?thesis using assms(2)
    by (simp add: md5_wordblock_def md5_words_def GET_32BIT_LSB_FIRST_def mult.commute or.commute or.left_commute add.commute)
qed

lemma md5_block_rfc:
  assumes "length block = 64"
  shows "MD5_Block h (md5_wordblock block) = md5_compress h block"
proof -
  let ?X = "md5_words block" and ?w = "md5_wordblock block"
  have w: "\<And>k. k < 16 \<Longrightarrow> ?w ! k = ?X k" using md5_wordblock_words [OF assms] .
  have "foldl (md5_subrounds4 ?w) r (map (\<lambda>u. (rfc_f (4 * u), rfc_entry (4 * u), rfc_entry (4 * u + 1), rfc_entry (4 * u + 2), rfc_entry (4 * u + 3))) [0..<n])
      = foldl (rfc_step ?X) r [0..<0 + 4 * n]" for n r
  proof (induction n)
    case (Suc n)
    show ?case using Suc upt_blocks [of 0 4 n] md5_subrounds4_steps [of ?w ?X, OF w] by simp
  qed simp
  from this [of _ 16] show ?thesis
    unfolding MD5_Block_def md5_compress_def md5_subrounds_rfc by (simp del: upt.simps upt_rec_numeral)
qed

lemma md5_output_bytes: "md5_output = PUT_32BIT_LSB_FIRST"
proof
  fix h :: u32
  have "ucast (x AND 0xFF) = (ucast x :: byte)" for x :: u32
    by (rule bit_word_eqI) (auto simp: bit_simps bit_numeral_rec numeral_2_eq_2 elim!: less_SucE)
  then show "md5_output h = PUT_32BIT_LSB_FIRST h" by (simp add: md5_output_def PUT_32BIT_LSB_FIRST_def)
qed

section \<open>Incremental hashing\<close>

definition md5_blockfn :: "u32 list \<Rightarrow> byte list \<Rightarrow> u32 list" where
  "md5_blockfn h b = MD5_Block h (md5_wordblock b)"

definition md5_rep :: "MD5Context \<Rightarrow> byte list \<Rightarrow> bool" where
  "md5_rep s m \<longleftrightarrow> buffers 64 md5_blockfn md5_iv m (md5_core s) (md5_block s) (md5_blkused s) \<and>
     md5_len s = of_nat (length m)"

definition md5_good :: "MD5Context \<Rightarrow> bool" where
  "md5_good s \<longleftrightarrow> length (md5_block s) = 64"

lemma md5_write_rep:
  assumes "md5_rep s m" "length q < 2 ^ 32"
  shows "\<exists>s'. MD5_write s q = Inr s' \<and> md5_rep s' (m @ q)"
proof -
  have b: "buffers 64 md5_blockfn md5_iv m (md5_core s) (md5_block s) (md5_blkused s)" using assms(1) by (simp add: md5_rep_def)
  have eta: "(\<lambda>h b. MD5_Block h (md5_wordblock b)) = md5_blockfn" by (simp add: fun_eq_iff md5_blockfn_def)
  have used: "md5_blkused s < 64" "length (md5_block s) = 64" using b by (simp_all add: buffers_def)
  show ?thesis
  proof (cases "md5_blkused s + length q < 64")
    case True
    then obtain nb where nb: "mem_write (md5_block s) (md5_blkused s) q = Inr nb" using used by (simp add: mem_write_def)
    then show ?thesis using True buffers_add [OF b True nb] assms by (simp add: MD5_write_def Let_def md5_rep_def)
  next
    case False
    then obtain h nb u where "block_absorb 64 md5_blockfn (md5_core s) (md5_block s) (md5_blkused s) q = Inr (h, nb, u)"
      "buffers 64 md5_blockfn md5_iv (m @ q) h nb u"
      using block_absorb_buffers [OF b, of q] by auto
    then show ?thesis using False assms by (simp add: MD5_write_def Let_def md5_rep_def eta)
  qed
qed

lemma rfc_pad_length: "length (rfc_pad m) mod 64 = 0"
  using fips_pad64_length [of m] by (simp add: rfc_pad_def fips_pad64_def)

lemma pad_total:
  assumes "r < (64 :: nat)"
  shows "(if 56 \<le> r then 56 + 64 - r else 56 - r) = Suc ((119 - r) mod 64)"
proof (cases "56 \<le> r")
  case False
  then have "119 - r = 64 + (55 - r)" by simp
  then show ?thesis using False by (simp only: mod_add_self1) simp
qed (use assms in simp)

lemma md5_final_rep:
  assumes "md5_rep s m"
  shows "MD5Final s = Inr (md5 m)"
proof -
  have used: "md5_blkused s = length m mod 64" 
    using assms rest_used [of 64 md5_blockfn md5_iv m "md5_core s" "md5_block s" "md5_blkused s"] by (simp add: md5_rep_def)
  define z where "z = (119 - length m mod 64) mod 64"
  have pad: "(if 56 \<le> md5_blkused s then 56 + 64 - md5_blkused s else 56 - md5_blkused s) = Suc z"
    using pad_total [of "length m mod 64"] unfolding used z_def by simp
  have z: "z < 64" by (simp add: z_def)
  obtain s1 where s1: "MD5_write s (0x80 # replicate z 0) = Inr s1" "md5_rep s1 (m @ 0x80 # replicate z 0)"
    using md5_write_rep [OF assms, of "0x80 # replicate z 0"] z by auto
  obtain s2 where s2: "MD5_write s1 (PUT_64BIT_LSB_FIRST (of_nat (8 * length m))) = Inr s2" "md5_rep s2 (rfc_pad m)"
    using md5_write_rep [OF s1(2), of "PUT_64BIT_LSB_FIRST (of_nat (8 * length m))"] by (auto simp: rfc_pad_def z_def)
  have "push_bit 3 (md5_len s) = of_nat (8 * length m)" using assms len_bits by (simp add: md5_rep_def)
  then have fin: "MD5Final s = Inr (concat (map (\<lambda>i. md5_output (md5_core s2 ! i)) [0..<4]))"
    unfolding MD5Final_def Let_def pad using s1(1) s2(1) z by simp
  have "md5_core s2 = fst (absorb 64 md5_blockfn md5_iv (rfc_pad m))" using s2(2) by (simp add: md5_rep_def buffers_def)
  also have "\<dots> = fst (absorb 64 md5_compress md5_iv (rfc_pad m))"
    using absorb_cong [of 64 md5_blockfn md5_compress md5_iv "rfc_pad m"] by (simp add: md5_blockfn_def md5_block_rfc)
  finally have core: "md5_core s2 = fst (absorb 64 md5_compress md5_iv (rfc_pad m))" .
  have "length (md5_core s2) = 4" unfolding core
    by (rule absorb_length) (simp_all add: md5_compress_def md5_iv_def split: prod.split)
  then show ?thesis unfolding fin md5_output_bytes using output_words [of "md5_core s2" 4 PUT_32BIT_LSB_FIRST] core
    by (simp add: md5_def del: upt.simps upt_rec_numeral)
qed

interpretation md5: hash_provider "ssh_md5 junk" md5_good md5_rep md5 for junk
proof (unfold_locales, goal_cases)
  case (4 s m d)
  then show ?case using md5_write_rep by (simp add: ssh_md5_def)
next
  case (5 s m)
  then show ?case using md5_final_rep by (simp add: ssh_md5_def)
next
  case (6 m)
  have "length (fst (absorb 64 md5_compress md5_iv (rfc_pad m))) = 4"
    by (rule absorb_length) (simp_all add: md5_compress_def md5_iv_def split: prod.split)
  then show ?case using length_concat_const [of PUT_32BIT_LSB_FIRST 4] by (simp add: ssh_md5_def md5_def)
qed (auto simp: ssh_md5_def md5_good_def md5_rep_def buffers_def md5_new_def MD5Init_def absorb_short
      MD5_Core_Init_def md5_iv_def)

end
