(* ===== verification/Sha512.thy ===== *)
theory Sha512
  imports Sha_Correct
begin

text \<open>
  SHA-512 and SHA-384 (\<open>sshsh512.c\<close>) against FIPS 180-4.  The block function, the schedule and
  the buffering are those of the standard; the length field written by \<open>SHA512_Final\<close> is not,
  for messages of \<open>2 ^ 29\<close> bytes and more, so the interface is interpreted with the hash function the
  code computes, which agrees with the standard on shorter messages.
\<close>

section \<open>SHA-512 and SHA-384\<close>

definition ror64 :: "u64 \<Rightarrow> nat \<Rightarrow> u64" where
  "ror64 x y = drop_bit y x OR push_bit (64 - y) x"

definition sha512_Ch :: "u64 \<Rightarrow> u64 \<Rightarrow> u64 \<Rightarrow> u64" where "sha512_Ch x y z = (NOT x AND z) XOR (x AND y)"
definition sha512_Maj :: "u64 \<Rightarrow> u64 \<Rightarrow> u64 \<Rightarrow> u64" where "sha512_Maj x y z = ((x AND y) XOR (x AND z)) XOR (y AND z)"
definition bigsigma0 :: "u64 \<Rightarrow> u64" where "bigsigma0 x = (ror64 x 28 XOR ror64 x 34) XOR ror64 x 39"
definition bigsigma1 :: "u64 \<Rightarrow> u64" where "bigsigma1 x = (ror64 x 14 XOR ror64 x 18) XOR ror64 x 41"
definition smallsigma0 :: "u64 \<Rightarrow> u64" where "smallsigma0 x = (ror64 x 1 XOR ror64 x 8) XOR drop_bit 7 x"
definition smallsigma1 :: "u64 \<Rightarrow> u64" where "smallsigma1 x = (ror64 x 19 XOR ror64 x 61) XOR drop_bit 6 x"

definition INIT :: "u32 \<Rightarrow> u32 \<Rightarrow> u64" where
  "INIT h l = push_bit 32 (ucast h) OR ucast l"

definition SHA512_Core_Init :: "u64 list" where
  "SHA512_Core_Init =
    [INIT 0x6a09e667 0xf3bcc908, INIT 0xbb67ae85 0x84caa73b,
     INIT 0x3c6ef372 0xfe94f82b, INIT 0xa54ff53a 0x5f1d36f1,
     INIT 0x510e527f 0xade682d1, INIT 0x9b05688c 0x2b3e6c1f,
     INIT 0x1f83d9ab 0xfb41bd6b, INIT 0x5be0cd19 0x137e2179]"

definition SHA384_Core_Init :: "u64 list" where
  "SHA384_Core_Init =
    [INIT 0xcbbb9d5d 0xc1059ed8, INIT 0x629a292a 0x367cd507,
     INIT 0x9159015a 0x3070dd17, INIT 0x152fecd8 0xf70e5939,
     INIT 0x67332667 0xffc00b31, INIT 0x8eb44a87 0x68581511,
     INIT 0xdb0c2e0d 0x64f98fa7, INIT 0x47b5481d 0xbefa4fa4]"

definition sha512_k :: "u64 list" where
  "sha512_k =
    [INIT 0x428a2f98 0xd728ae22, INIT 0x71374491 0x23ef65cd,
     INIT 0xb5c0fbcf 0xec4d3b2f, INIT 0xe9b5dba5 0x8189dbbc,
     INIT 0x3956c25b 0xf348b538, INIT 0x59f111f1 0xb605d019,
     INIT 0x923f82a4 0xaf194f9b, INIT 0xab1c5ed5 0xda6d8118,
     INIT 0xd807aa98 0xa3030242, INIT 0x12835b01 0x45706fbe,
     INIT 0x243185be 0x4ee4b28c, INIT 0x550c7dc3 0xd5ffb4e2,
     INIT 0x72be5d74 0xf27b896f, INIT 0x80deb1fe 0x3b1696b1,
     INIT 0x9bdc06a7 0x25c71235, INIT 0xc19bf174 0xcf692694,
     INIT 0xe49b69c1 0x9ef14ad2, INIT 0xefbe4786 0x384f25e3,
     INIT 0x0fc19dc6 0x8b8cd5b5, INIT 0x240ca1cc 0x77ac9c65,
     INIT 0x2de92c6f 0x592b0275, INIT 0x4a7484aa 0x6ea6e483,
     INIT 0x5cb0a9dc 0xbd41fbd4, INIT 0x76f988da 0x831153b5,
     INIT 0x983e5152 0xee66dfab, INIT 0xa831c66d 0x2db43210,
     INIT 0xb00327c8 0x98fb213f, INIT 0xbf597fc7 0xbeef0ee4,
     INIT 0xc6e00bf3 0x3da88fc2, INIT 0xd5a79147 0x930aa725,
     INIT 0x06ca6351 0xe003826f, INIT 0x14292967 0x0a0e6e70,
     INIT 0x27b70a85 0x46d22ffc, INIT 0x2e1b2138 0x5c26c926,
     INIT 0x4d2c6dfc 0x5ac42aed, INIT 0x53380d13 0x9d95b3df,
     INIT 0x650a7354 0x8baf63de, INIT 0x766a0abb 0x3c77b2a8,
     INIT 0x81c2c92e 0x47edaee6, INIT 0x92722c85 0x1482353b,
     INIT 0xa2bfe8a1 0x4cf10364, INIT 0xa81a664b 0xbc423001,
     INIT 0xc24b8b70 0xd0f89791, INIT 0xc76c51a3 0x0654be30,
     INIT 0xd192e819 0xd6ef5218, INIT 0xd6990624 0x5565a910,
     INIT 0xf40e3585 0x5771202a, INIT 0x106aa070 0x32bbd1b8,
     INIT 0x19a4c116 0xb8d2d0c8, INIT 0x1e376c08 0x5141ab53,
     INIT 0x2748774c 0xdf8eeb99, INIT 0x34b0bcb5 0xe19b48a8,
     INIT 0x391c0cb3 0xc5c95a63, INIT 0x4ed8aa4a 0xe3418acb,
     INIT 0x5b9cca4f 0x7763e373, INIT 0x682e6ff3 0xd6b2b8a3,
     INIT 0x748f82ee 0x5defb2fc, INIT 0x78a5636f 0x43172f60,
     INIT 0x84c87814 0xa1f0ab72, INIT 0x8cc70208 0x1a6439ec,
     INIT 0x90befffa 0x23631e28, INIT 0xa4506ceb 0xde82bde9,
     INIT 0xbef9a3f7 0xb2c67915, INIT 0xc67178f2 0xe372532b,
     INIT 0xca273ece 0xea26619c, INIT 0xd186b8c7 0x21c0c207,
     INIT 0xeada7dd6 0xcde0eb1e, INIT 0xf57d4f7f 0xee6ed178,
     INIT 0x06f067aa 0x72176fba, INIT 0x0a637dc5 0xa2c898a6,
     INIT 0x113f9804 0xbef90dae, INIT 0x1b710b35 0x131c471b,
     INIT 0x28db77f5 0x23047d84, INIT 0x32caab7b 0x40c72493,
     INIT 0x3c9ebe0a 0x15c9bebc, INIT 0x431d67c4 0x9c100d4c,
     INIT 0x4cc5d4be 0xcb3e42b6, INIT 0x597f299c 0xfc657e2a,
     INIT 0x5fcb6fab 0x3ad6faec, INIT 0x6c44198c 0x4a475817]"

fun sha512_expand :: "nat \<Rightarrow> u64 list \<Rightarrow> u64 list" where
  "sha512_expand 0 w = w"
| "sha512_expand (Suc n) w =
     (let t = length w; p = smallsigma1 (w ! (t - 2)); q = smallsigma0 (w ! (t - 15)); r = p + q; p = r + w ! (t - 7)
      in sha512_expand n (w @ [p + w ! (t - 16)]))"

text \<open>The macro \<open>ROUND\<close>: the new values of its registers \<open>d\<close> and \<open>h\<close>.\<close>

definition sha512_round ::
  "nat \<Rightarrow> u64 list \<Rightarrow> u64 \<Rightarrow> u64 \<Rightarrow> u64 \<Rightarrow> u64 \<Rightarrow> u64 \<Rightarrow> u64 \<Rightarrow> u64 \<Rightarrow> u64 \<Rightarrow> u64 \<times> u64" where
  "sha512_round j w a b c d e f g h =
     (let p = bigsigma1 e; q = sha512_Ch e f g; r = p + q; p = r + sha512_k ! j; q = p + w ! j; r = q + h;
          p = bigsigma0 a; tmp = sha512_Maj a b c; q = tmp + p; p = r + d
      in (p, q + r))"

fun sha512_8rounds :: "u64 list \<Rightarrow> nat \<Rightarrow> u64 sha2_regs \<Rightarrow> u64 sha2_regs" where
  "sha512_8rounds w t (a, b, c, d, e, f, g, h) =
     (case sha512_round (t + 0) w a b c d e f g h of (d, h) \<Rightarrow>
      case sha512_round (t + 1) w h a b c d e f g of (c, g) \<Rightarrow>
      case sha512_round (t + 2) w g h a b c d e f of (b, f) \<Rightarrow>
      case sha512_round (t + 3) w f g h a b c d e of (a, e) \<Rightarrow>
      case sha512_round (t + 4) w e f g h a b c d of (h, d) \<Rightarrow>
      case sha512_round (t + 5) w d e f g h a b c of (g, c) \<Rightarrow>
      case sha512_round (t + 6) w c d e f g h a b of (f, b) \<Rightarrow>
      case sha512_round (t + 7) w b c d e f g h a of (e, a) \<Rightarrow>
      (a, b, c, d, e, f, g, h))"

definition SHA512_Block :: "u64 list \<Rightarrow> u64 list \<Rightarrow> u64 list" where
  "SHA512_Block s block =
     (let w = sha512_expand 64 (map (\<lambda>t. block ! t) [0..<16]);
          (a, b, c, d, e, f, g, h) =
            foldl (\<lambda>regs u. sha512_8rounds w (8 * u) regs)
              (s ! 0, s ! 1, s ! 2, s ! 3, s ! 4, s ! 5, s ! 6, s ! 7) [0..<10]
      in [s ! 0 + a, s ! 1 + b, s ! 2 + c, s ! 3 + d, s ! 4 + e, s ! 5 + f, s ! 6 + g, s ! 7 + h])"

record SHA512_State =
  s512_h :: "u64 list"
  s512_block :: "byte list"
  s512_blkused :: nat
  s512_lenhi :: u64
  s512_lenlo :: u64

definition SHA512_Init :: "SHA512_State \<Rightarrow> SHA512_State" where
  "SHA512_Init s = s\<lparr>s512_h := SHA512_Core_Init, s512_blkused := 0, s512_lenhi := 0, s512_lenlo := 0\<rparr>"

definition SHA384_Init :: "SHA512_State \<Rightarrow> SHA512_State" where
  "SHA384_Init s = s\<lparr>s512_h := SHA384_Core_Init, s512_blkused := 0, s512_lenhi := 0, s512_lenlo := 0\<rparr>"

definition sha512_wordblock :: "byte list \<Rightarrow> u64 list" where
  "sha512_wordblock block = map (\<lambda>i. GET_64BIT_MSB_FIRST (drop (i * 8) block)) [0..<16]"

definition SHA512_write :: "SHA512_State \<Rightarrow> byte list \<Rightarrow> SHA512_State res" where
  "SHA512_write s q =
     (let lenlo = s512_lenlo s + of_nat (length q);
          s = s\<lparr>s512_lenlo := lenlo, s512_lenhi := s512_lenhi s + (if lenlo < of_nat (length q) then 1 else 0)\<rparr> in
      if s512_blkused s \<noteq> 0 \<and> s512_blkused s + length q < 128
      then res_bind (mem_write (s512_block s) (s512_blkused s) q) (\<lambda>b.
           Inr (s\<lparr>s512_block := b, s512_blkused := s512_blkused s + length q\<rparr>))
      else res_bind (block_absorb 128 (\<lambda>h b. SHA512_Block h (sha512_wordblock b)) (s512_h s) (s512_block s) (s512_blkused s) q)
             (\<lambda>(h, b, used). Inr (s\<lparr>s512_h := h, s512_block := b, s512_blkused := used\<rparr>)))"

definition SHA512_Final :: "SHA512_State \<Rightarrow> byte list res" where
  "SHA512_Final s =
     (let pad = (if s512_blkused s \<ge> 128 - 16 then (128 - 16) + 128 - s512_blkused s else (128 - 16) - s512_blkused s);
          lenhi = push_bit 3 (s512_lenhi s) OR drop_bit (32 - 3) (s512_lenlo s);
          lenlo = push_bit 3 (s512_lenlo s)
      in res_bind (assert_res (pad \<le> 128)) (\<lambda>_.
         res_bind (SHA512_write s (0x80 # replicate (pad - 1) 0)) (\<lambda>s.
         res_bind (SHA512_write s (PUT_64BIT_MSB_FIRST lenhi)) (\<lambda>s.
         res_bind (SHA512_write s (PUT_64BIT_MSB_FIRST lenlo)) (\<lambda>s.
         Inr (concat (map (\<lambda>i. PUT_64BIT_MSB_FIRST (s512_h s ! i)) [0..<8])))))))"

definition SHA384_Final :: "SHA512_State \<Rightarrow> byte list res" where
  "SHA384_Final s = res_bind (SHA512_Final s) (\<lambda>biggerDigest. Inr (take (384 div 8) biggerDigest))"

text \<open>\<open>sha512_new\<close> resets the uninitialised state through the table it is given.\<close>

definition sha512_new :: "(SHA512_State \<Rightarrow> SHA512_State) \<Rightarrow> (nat \<Rightarrow> byte) \<Rightarrow> SHA512_State" where
  "sha512_new reset junk = reset \<lparr>s512_h = replicate 8 0, s512_block = map junk [0..<128], s512_blkused = unat (junk 128),
     s512_lenhi = 0, s512_lenlo = 0\<rparr>"

definition ssh_sha512 :: "(nat \<Rightarrow> byte) \<Rightarrow> SHA512_State ssh_hashalg" where
  "ssh_sha512 junk = \<lparr>hash_new = sha512_new SHA512_Init junk, hash_reset = SHA512_Init, hash_write = SHA512_write,
     hash_digest = SHA512_Final, hlen = 64, blocklen = 128\<rparr>"

definition ssh_sha384 :: "(nat \<Rightarrow> byte) \<Rightarrow> SHA512_State ssh_hashalg" where
  "ssh_sha384 junk = \<lparr>hash_new = sha512_new SHA384_Init junk, hash_reset = SHA384_Init, hash_write = SHA512_write,
     hash_digest = SHA384_Final, hlen = 48, blocklen = 128\<rparr>"

section \<open>The standard\<close>

definition fips512_Sigma_0 :: "u64 \<Rightarrow> u64" where "fips512_Sigma_0 x = word_rotr 28 x XOR word_rotr 34 x XOR word_rotr 39 x"
definition fips512_Sigma_1 :: "u64 \<Rightarrow> u64" where "fips512_Sigma_1 x = word_rotr 14 x XOR word_rotr 18 x XOR word_rotr 41 x"
definition fips512_sigma_0 :: "u64 \<Rightarrow> u64" where "fips512_sigma_0 x = word_rotr 1 x XOR word_rotr 8 x XOR drop_bit 7 x"
definition fips512_sigma_1 :: "u64 \<Rightarrow> u64" where "fips512_sigma_1 x = word_rotr 19 x XOR word_rotr 61 x XOR drop_bit 6 x"

function sha512_W :: "byte list \<Rightarrow> nat \<Rightarrow> u64" where
  "sha512_W block t =
     (if t < 16 then GET_64BIT_MSB_FIRST (take 8 (drop (8 * t) block))
      else fips512_sigma_1 (sha512_W block (t - 2)) + sha512_W block (t - 7) +
           fips512_sigma_0 (sha512_W block (t - 15)) + sha512_W block (t - 16))"
  by pat_completeness auto
termination
  by (relation "measure (\<lambda>(block, t). t)") auto

declare sha512_W.simps [simp del]

fun sha512_step :: "byte list \<Rightarrow> u64 sha2_regs \<Rightarrow> nat \<Rightarrow> u64 sha2_regs" where
  "sha512_step block (a, b, c, d, e, f, g, h) t =
     (let T1 = h + fips512_Sigma_1 e + fips_Ch e f g + fips_K512 ! t + sha512_W block t;
          T2 = fips512_Sigma_0 a + fips_Maj a b c
      in (T1 + T2, a, b, c, d + T1, e, f, g))"

definition sha512_compress :: "u64 list \<Rightarrow> byte list \<Rightarrow> u64 list" where
  "sha512_compress H block =
     (case foldl (sha512_step block) (H ! 0, H ! 1, H ! 2, H ! 3, H ! 4, H ! 5, H ! 6, H ! 7) [0..<80] of
        (a, b, c, d, e, f, g, h) \<Rightarrow>
          [H ! 0 + a, H ! 1 + b, H ! 2 + c, H ! 3 + d, H ! 4 + e, H ! 5 + f, H ! 6 + g, H ! 7 + h])"

text \<open>The 128-bit length field of the standard, and the one the code writes.\<close>

definition fips_length128 :: "nat \<Rightarrow> byte list" where
  "fips_length128 n = PUT_64BIT_MSB_FIRST (of_nat (8 * n div 2 ^ 64)) @ PUT_64BIT_MSB_FIRST (of_nat (8 * n))"

definition code_length128 :: "nat \<Rightarrow> byte list" where
  "code_length128 n =
     PUT_64BIT_MSB_FIRST (push_bit 3 (of_nat (n div 2 ^ 64)) OR drop_bit 29 (of_nat n)) @ PUT_64BIT_MSB_FIRST (of_nat (8 * n))"

definition pad128 :: "(nat \<Rightarrow> byte list) \<Rightarrow> byte list \<Rightarrow> byte list" where
  "pad128 lenfield m = m @ 0x80 # replicate ((239 - length m mod 128) mod 128) 0 @ lenfield (length m)"

definition sha512_with :: "(nat \<Rightarrow> byte list) \<Rightarrow> u64 list \<Rightarrow> byte list \<Rightarrow> byte list" where
  "sha512_with lenfield iv m =
     concat (map PUT_64BIT_MSB_FIRST (fst (absorb 128 sha512_compress iv (pad128 lenfield m))))"

definition sha512 :: "byte list \<Rightarrow> byte list" where
  "sha512 = sha512_with fips_length128 fips_H512"

definition sha384 :: "byte list \<Rightarrow> byte list" where
  "sha384 m = take 48 (sha512_with fips_length128 fips_H384 m)"

section \<open>Constants\<close>

text \<open>The tables of the code, assembled by \<open>INIT\<close> from two halves, hold the constants of the standard.\<close>

lemma SHA512_Core_Init_fips: "SHA512_Core_Init = fips_H512"
proof -
  have "fips_H512 = map of_nat (take 8 (map (root_fraction 2 64) (take 16 first_primes)))"
    by (simp add: fips_H512_def take_map comp_def)
  then show ?thesis unfolding square_roots_64 by (simp add: SHA512_Core_Init_def INIT_def)
qed

lemma SHA384_Core_Init_fips: "SHA384_Core_Init = fips_H384"
proof -
  have "fips_H384 = map of_nat (drop 8 (map (root_fraction 2 64) (take 16 first_primes)))"
    by (simp add: fips_H384_def drop_map take_drop comp_def)
  then show ?thesis unfolding square_roots_64 by (simp add: SHA384_Core_Init_def INIT_def)
qed

lemma sha512_k_fips: "sha512_k = fips_K512"
proof -
  have "fips_K512 = map of_nat (map (root_fraction 3 64) first_primes)" by (simp add: fips_K512_def comp_def)
  then show ?thesis unfolding cube_roots_64 by (simp add: sha512_k_def INIT_def)
qed

section \<open>Block function\<close>

lemma ror64_rotr: "0 < n \<Longrightarrow> n < 64 \<Longrightarrow> ror64 x n = word_rotr n x"
  using rotr_shifts [of n x] by (simp add: ror64_def or.commute)

lemma sigma512_fips:
  "bigsigma0 x = fips512_Sigma_0 x" "bigsigma1 x = fips512_Sigma_1 x"
  "smallsigma0 x = fips512_sigma_0 x" "smallsigma1 x = fips512_sigma_1 x"
  by (simp_all add: bigsigma0_def bigsigma1_def smallsigma0_def smallsigma1_def fips512_Sigma_0_def fips512_Sigma_1_def
      fips512_sigma_0_def fips512_sigma_1_def ror64_rotr xor.assoc)

lemma Ch512_fips: "sha512_Ch x y z = fips_Ch x y z"
  by (simp add: sha512_Ch_def fips_Ch_def xor.commute)

lemma Maj512_fips: "sha512_Maj x y z = fips_Maj x y z"
  by (simp add: sha512_Maj_def fips_Maj_def xor.assoc)

lemma sha512_expand_W:
  "16 \<le> length w \<Longrightarrow> (\<forall>t<length w. w ! t = sha512_W block t) \<Longrightarrow>
     length (sha512_expand n w) = length w + n \<and> (\<forall>t<length w + n. sha512_expand n w ! t = sha512_W block t)"
proof (induction n arbitrary: w)
  case (Suc n)
  let ?t = "length w"
  have *: "smallsigma1 (w ! (?t - 2)) + smallsigma0 (w ! (?t - 15)) + w ! (?t - 7) + w ! (?t - 16) = sha512_W block ?t"
    using Suc.prems by (subst sha512_W.simps) (simp add: sigma512_fips ac_simps)
  let ?w = "w @ [sha512_W block ?t]"
  have "16 \<le> length ?w" "\<forall>t<length ?w. ?w ! t = sha512_W block t" using Suc.prems by (auto simp: nth_append less_Suc_eq)
  from Suc.IH [OF this] show ?case by (simp add: * [unfolded One_nat_def] Let_def)
qed simp

definition sha512_schedule :: "byte list \<Rightarrow> u64 list" where
  "sha512_schedule block = sha512_expand 64 (map (\<lambda>t. sha512_wordblock block ! t) [0..<16])"

lemma sha512_schedule_W: "t < 80 \<Longrightarrow> sha512_schedule block ! t = sha512_W block t"
  using sha512_expand_W [of "map (\<lambda>t. sha512_wordblock block ! t) [0..<16]" block 64]
  by (simp add: sha512_schedule_def sha512_W.simps [of block] sha512_wordblock_def GET_64BIT_MSB_FIRST_def mult.commute)

lemma sha512_round_step:
  "t < 80 \<Longrightarrow> sha512_step block (a, b, c, d, e, f, g, h) t =
     (snd (sha512_round t (sha512_schedule block) a b c d e f g h), a, b, c,
      fst (sha512_round t (sha512_schedule block) a b c d e f g h), e, f, g)"
  by (simp add: sha512_round_def sha512_schedule_W Let_def Ch512_fips Maj512_fips sigma512_fips sha512_k_fips ac_simps)

lemma sha512_8rounds_fips:
  assumes "t + 8 \<le> 80"
  shows "sha512_8rounds (sha512_schedule block) t regs = foldl (sha512_step block) regs [t..<t + 8]"
proof -
  let ?w = "sha512_schedule block"
  obtain a b c d e f g h where regs: "regs = (a, b, c, d, e, f, g, h)" by (metis prod.exhaust)
  obtain d1 h1 where r0: "sha512_round (t + 0) ?w a b c d e f g h = (d1, h1)" by (meson surj_pair)
  obtain c1 g1 where r1: "sha512_round (t + 1) ?w h1 a b c d1 e f g = (c1, g1)" by (meson surj_pair)
  obtain b1 f1 where r2: "sha512_round (t + 2) ?w g1 h1 a b c1 d1 e f = (b1, f1)" by (meson surj_pair)
  obtain a1 e1 where r3: "sha512_round (t + 3) ?w f1 g1 h1 a b1 c1 d1 e = (a1, e1)" by (meson surj_pair)
  obtain h2 d2 where r4: "sha512_round (t + 4) ?w e1 f1 g1 h1 a1 b1 c1 d1 = (h2, d2)" by (meson surj_pair)
  obtain g2 c2 where r5: "sha512_round (t + 5) ?w d2 e1 f1 g1 h2 a1 b1 c1 = (g2, c2)" by (meson surj_pair)
  obtain f2 b2 where r6: "sha512_round (t + 6) ?w c2 d2 e1 f1 g2 h2 a1 b1 = (f2, b2)" by (meson surj_pair)
  obtain e2 a2 where r7: "sha512_round (t + 7) ?w b2 c2 d2 e1 f2 g2 h2 a1 = (e2, a2)" by (meson surj_pair)
  have "[t..<t + 8] = [t + 0, t + 1, t + 2, t + 3, t + 4, t + 5, t + 6, t + 7]" by (simp add: upt_rec)
  moreover have "sha512_step block (a, b, c, d, e, f, g, h) (t + 0) = (h1, a, b, c, d1, e, f, g)"
    using sha512_round_step [of "t + 0" block a b c d e f g h] r0 assms by simp
  moreover have "sha512_step block (h1, a, b, c, d1, e, f, g) (t + 1) = (g1, h1, a, b, c1, d1, e, f)"
    using sha512_round_step [of "t + 1" block h1 a b c d1 e f g] r1 assms by simp
  moreover have "sha512_step block (g1, h1, a, b, c1, d1, e, f) (t + 2) = (f1, g1, h1, a, b1, c1, d1, e)"
    using sha512_round_step [of "t + 2" block g1 h1 a b c1 d1 e f] r2 assms by simp
  moreover have "sha512_step block (f1, g1, h1, a, b1, c1, d1, e) (t + 3) = (e1, f1, g1, h1, a1, b1, c1, d1)"
    using sha512_round_step [of "t + 3" block f1 g1 h1 a b1 c1 d1 e] r3 assms by simp
  moreover have "sha512_step block (e1, f1, g1, h1, a1, b1, c1, d1) (t + 4) = (d2, e1, f1, g1, h2, a1, b1, c1)"
    using sha512_round_step [of "t + 4" block e1 f1 g1 h1 a1 b1 c1 d1] r4 assms by simp
  moreover have "sha512_step block (d2, e1, f1, g1, h2, a1, b1, c1) (t + 5) = (c2, d2, e1, f1, g2, h2, a1, b1)"
    using sha512_round_step [of "t + 5" block d2 e1 f1 g1 h2 a1 b1 c1] r5 assms by simp
  moreover have "sha512_step block (c2, d2, e1, f1, g2, h2, a1, b1) (t + 6) = (b2, c2, d2, e1, f2, g2, h2, a1)"
    using sha512_round_step [of "t + 6" block c2 d2 e1 f1 g2 h2 a1 b1] r6 assms by simp
  moreover have "sha512_step block (b2, c2, d2, e1, f2, g2, h2, a1) (t + 7) = (a2, b2, c2, d2, e2, f2, g2, h2)"
    using sha512_round_step [of "t + 7" block b2 c2 d2 e1 f2 g2 h2 a1] r7 assms by simp
  ultimately have "foldl (sha512_step block) regs [t..<t + 8] = (a2, b2, c2, d2, e2, f2, g2, h2)"
    unfolding regs by (simp only: foldl.simps)
  moreover have "sha512_8rounds ?w t regs = (a2, b2, c2, d2, e2, f2, g2, h2)"
    unfolding regs sha512_8rounds.simps r0 r1 r2 r3 r4 r5 r6 r7 prod.case by simp
  ultimately show ?thesis by simp
qed

lemma sha512_block_fips: "SHA512_Block h (sha512_wordblock block) = sha512_compress h block"
proof -
  let ?w = "sha512_schedule block"
  have "n \<le> 10 \<Longrightarrow> foldl (\<lambda>regs u. sha512_8rounds ?w (8 * u) regs) regs [0..<n] =
      foldl (sha512_step block) regs [0..<0 + 8 * n]" for n regs
  proof (induction n)
    case (Suc n)
    then show ?case using upt_blocks [of 0 8 n] sha512_8rounds_fips [of "8 * n" block] by simp
  qed simp
  from this [of 10] show ?thesis
    by (simp add: SHA512_Block_def sha512_compress_def Let_def sha512_schedule_def del: upt.simps upt_rec_numeral)
qed

section \<open>Incremental hashing\<close>

definition sha512_rep :: "u64 list \<Rightarrow> SHA512_State \<Rightarrow> byte list \<Rightarrow> bool" where
  "sha512_rep iv s m \<longleftrightarrow> buffers 128 sha512_compress iv m (s512_h s) (s512_block s) (s512_blkused s) \<and>
     s512_lenlo s = of_nat (length m) \<and> s512_lenhi s = of_nat (length m div 2 ^ 64)"

definition sha512_good :: "SHA512_State \<Rightarrow> bool" where
  "sha512_good s \<longleftrightarrow> length (s512_block s) = 128"

lemma div_mod_split: "r < M \<Longrightarrow> (a * M + r) div M = a \<and> (a * M + r) mod M = r" for r M a :: nat
  by simp

text \<open>The carry into the upper half of the byte count.\<close>

lemma count_carry:
  assumes "k < 2 ^ 64"
  shows "(of_nat (n div 2 ^ 64) :: u64) + (if (of_nat n + of_nat k :: u64) < of_nat k then 1 else 0) = of_nat ((n + k) div 2 ^ 64)"
proof -
  let ?M = "2 ^ 64 :: nat"
  have lt: "(of_nat n + of_nat k :: u64) < of_nat k \<longleftrightarrow> (n + k) mod ?M < k"
    using assms by (simp add: word_less_nat_alt unat_of_nat flip: of_nat_add)
  have n: "n = n div ?M * ?M + n mod ?M" "n mod ?M < ?M" by simp_all
  have e: "n + k = n div ?M * ?M + (n mod ?M + k)" using n(1) by linarith
  show ?thesis
  proof (cases "n mod ?M + k < ?M")
    case True
    have "(n + k) div ?M = n div ?M" "(n + k) mod ?M = n mod ?M + k"
      using div_mod_split [OF True, of "n div ?M"] e by metis+
    then show ?thesis using lt by simp
  next
    case False
    define r where "r = n mod ?M + k - ?M"
    have r: "n mod ?M + k = ?M + r" "r < ?M" using False assms n(2) by (auto simp: r_def)
    have e2: "n + k = Suc (n div ?M) * ?M + r" using e r(1) unfolding mult_Suc by linarith
    have "(n + k) div ?M = Suc (n div ?M)" "(n + k) mod ?M = r"
      unfolding e2 using div_mod_split [OF r(2), of "Suc (n div ?M)"] by blast+
    moreover have "r < k" using r n(2) by linarith
    ultimately show ?thesis using lt by simp
  qed
qed

lemma SHA512_write_rep:
  assumes "sha512_rep iv s m" "length q < 2 ^ 64"
  shows "\<exists>s'. SHA512_write s q = Inr s' \<and> sha512_rep iv s' (m @ q)"
proof -
  have b: "buffers 128 sha512_compress iv m (s512_h s) (s512_block s) (s512_blkused s)"
    and len: "s512_lenlo s = of_nat (length m)" "s512_lenhi s = of_nat (length m div 2 ^ 64)"
    using assms(1) by (simp_all add: sha512_rep_def)
  have eta: "(\<lambda>h b. SHA512_Block h (sha512_wordblock b)) = sha512_compress" by (simp add: fun_eq_iff sha512_block_fips)
  have used: "s512_blkused s < 128" "length (s512_block s) = 128" using b by (simp_all add: buffers_def)
  define s1 where "s1 = s\<lparr>s512_lenlo := of_nat (length (m @ q)), s512_lenhi := of_nat (length (m @ q) div 2 ^ 64)\<rparr>"
  have s1: "s\<lparr>s512_lenlo := s512_lenlo s + of_nat (length q),
      s512_lenhi := s512_lenhi s + (if s512_lenlo s + of_nat (length q) < of_nat (length q) then 1 else 0)\<rparr> = s1"
    using count_carry [OF assms(2), of "length m"] by (simp add: s1_def len)
  have f: "s512_blkused s1 = s512_blkused s" "s512_block s1 = s512_block s" "s512_h s1 = s512_h s" by (simp_all add: s1_def)
  show ?thesis
  proof (cases "s512_blkused s \<noteq> 0 \<and> s512_blkused s + length q < 128")
    case True
    then obtain nb where nb: "mem_write (s512_block s) (s512_blkused s) q = Inr nb" using used by (simp add: mem_write_def)
    then have "SHA512_write s q = Inr (s1\<lparr>s512_block := nb, s512_blkused := s512_blkused s + length q\<rparr>)"
      using True unfolding SHA512_write_def Let_def s1 f by simp
    then show ?thesis using True buffers_add [OF b _ nb] by (simp add: sha512_rep_def s1_def)
  next
    case False
    then obtain h nb u where *: "block_absorb 128 sha512_compress (s512_h s) (s512_block s) (s512_blkused s) q = Inr (h, nb, u)"
      "buffers 128 sha512_compress iv (m @ q) h nb u"
      using block_absorb_buffers [OF b, of q] by auto
    then have "SHA512_write s q = Inr (s1\<lparr>s512_h := h, s512_block := nb, s512_blkused := u\<rparr>)"
      using False unfolding SHA512_write_def Let_def s1 f eta by auto
    then show ?thesis using * by (simp add: sha512_rep_def s1_def)
  qed
qed

lemma pad_total128:
  assumes "r < (128 :: nat)"
  shows "(if 128 - 16 \<le> r then (128 - 16) + 128 - r else (128 - 16) - r) = Suc ((239 - r) mod 128)"
proof (cases "112 \<le> r")
  case False
  then have "239 - r = 128 + (111 - r)" by simp
  then show ?thesis using False by (simp only: mod_add_self1) simp
qed (use assms in simp)

lemma sha512_compress_length: "length (sha512_compress H b) = 8"
  by (simp add: sha512_compress_def split: prod.split)

lemma SHA512_Final_rep:
  assumes "sha512_rep iv s m" "length iv = 8"
  shows "SHA512_Final s = Inr (sha512_with code_length128 iv m)"
proof -
  have used: "s512_blkused s = length m mod 128"
    using assms rest_used [of 128 sha512_compress iv m "s512_h s" "s512_block s" "s512_blkused s"] by (simp add: sha512_rep_def)
  define z where "z = (239 - length m mod 128) mod 128"
  have pad: "(if 128 - 16 \<le> s512_blkused s then (128 - 16) + 128 - s512_blkused s else (128 - 16) - s512_blkused s) = Suc z"
    using pad_total128 [of "length m mod 128"] unfolding used z_def by simp
  have z: "z < 128" by (simp add: z_def)
  let ?hi = "push_bit 3 (s512_lenhi s) OR drop_bit (32 - 3) (s512_lenlo s)" and ?lo = "push_bit 3 (s512_lenlo s)"
  have lf: "PUT_64BIT_MSB_FIRST ?hi @ PUT_64BIT_MSB_FIRST ?lo = code_length128 (length m)"
    using assms(1) len_bits by (simp add: sha512_rep_def code_length128_def)
  obtain s1 where s1: "SHA512_write s (0x80 # replicate z 0) = Inr s1" "sha512_rep iv s1 (m @ 0x80 # replicate z 0)"
    using SHA512_write_rep [OF assms(1), of "0x80 # replicate z 0"] z by auto
  obtain s2 where s2: "SHA512_write s1 (PUT_64BIT_MSB_FIRST ?hi) = Inr s2"
    "sha512_rep iv s2 ((m @ 0x80 # replicate z 0) @ PUT_64BIT_MSB_FIRST ?hi)"
    using SHA512_write_rep [OF s1(2), of "PUT_64BIT_MSB_FIRST ?hi"] by auto
  obtain s3 where s3: "SHA512_write s2 (PUT_64BIT_MSB_FIRST ?lo) = Inr s3" "sha512_rep iv s3 (pad128 code_length128 m)"
    using SHA512_write_rep [OF s2(2), of "PUT_64BIT_MSB_FIRST ?lo"] lf by (auto simp: pad128_def z_def)
  have fin: "SHA512_Final s = Inr (concat (map (\<lambda>i. PUT_64BIT_MSB_FIRST (s512_h s3 ! i)) [0..<8]))"
    unfolding SHA512_Final_def Let_def pad using s1(1) s2(1) s3(1) z by simp
  have core: "s512_h s3 = fst (absorb 128 sha512_compress iv (pad128 code_length128 m))"
    using s3(2) by (simp add: sha512_rep_def buffers_def)
  have "length (s512_h s3) = 8" unfolding core by (rule absorb_length) (simp_all add: sha512_compress_length assms(2))
  then show ?thesis unfolding fin using output_words [of "s512_h s3" 8 PUT_64BIT_MSB_FIRST] core
    by (simp add: sha512_with_def del: upt.simps upt_rec_numeral)
qed

lemma sha512_with_length: "length iv = 8 \<Longrightarrow> length (sha512_with lf iv m) = 64"
  using absorb_length [of sha512_compress 8 iv] sha512_compress_length length_concat_const [of PUT_64BIT_MSB_FIRST 8]
  by (simp add: sha512_with_def)

lemma iv_length: "length SHA512_Core_Init = 8" "length SHA384_Core_Init = 8"
  by (simp_all add: SHA512_Core_Init_def SHA384_Core_Init_def)

text \<open>What the code computes on a message of any length.\<close>

definition sha512_code :: "byte list \<Rightarrow> byte list" where
  "sha512_code = sha512_with code_length128 SHA512_Core_Init"

definition sha384_code :: "byte list \<Rightarrow> byte list" where
  "sha384_code m = take 48 (sha512_with code_length128 SHA384_Core_Init m)"

lemmas sha512_table = sha512_good_def sha512_rep_def buffers_def sha512_new_def SHA512_Init_def SHA384_Init_def absorb_short

interpretation sha512: hash_provider "ssh_sha512 junk" sha512_good "sha512_rep SHA512_Core_Init" sha512_code for junk
proof (unfold_locales, goal_cases)
  case (4 s m d)
  then show ?case using SHA512_write_rep by (simp add: ssh_sha512_def)
next
  case (5 s m)
  then show ?case using SHA512_Final_rep [OF _ iv_length(1)] by (simp add: ssh_sha512_def sha512_code_def)
qed (auto simp: ssh_sha512_def sha512_table sha512_code_def sha512_with_length iv_length)

interpretation sha384: hash_provider "ssh_sha384 junk" sha512_good "sha512_rep SHA384_Core_Init" sha384_code for junk
proof (unfold_locales, goal_cases)
  case (4 s m d)
  then show ?case using SHA512_write_rep by (simp add: ssh_sha384_def)
next
  case (5 s m)
  then show ?case using SHA512_Final_rep [OF _ iv_length(2)] by (simp add: ssh_sha384_def SHA384_Final_def sha384_code_def)
qed (auto simp: ssh_sha384_def sha512_table sha384_code_def sha512_with_length iv_length)

section \<open>Where the code and the standard agree\<close>

lemma unat_drop29: "n < 2 ^ 64 \<Longrightarrow> unat (drop_bit 29 (of_nat n :: u64)) = n div 2 ^ 29"
proof -
  assume "n < 2 ^ 64"
  then have "unat (of_nat n :: u64) = n" by (simp add: unat_of_nat)
  moreover have "unat (drop_bit 29 w) = drop_bit 29 (unat w)" for w :: u64
    by (simp only: unsigned_drop_bit_eq take_bit_word_eq_self [OF order_refl] unsigned_take_bit_eq [symmetric])
  ultimately show ?thesis by (simp only: drop_bit_eq_div)
qed

lemma length128_agree: "n < 2 ^ 29 \<Longrightarrow> code_length128 n = fips_length128 n"
proof -
  assume n: "n < 2 ^ 29"
  have "unat (drop_bit 29 (of_nat n :: u64)) = 0" using n unat_drop29 [of n] by simp
  then have "drop_bit 29 (of_nat n :: u64) = 0" by (simp only: unat_eq_0)
  then show "code_length128 n = fips_length128 n" using n by (simp add: code_length128_def fips_length128_def)
qed

lemma length128_differ:
  assumes "2 ^ 29 \<le> n" "n < 2 ^ 61"
  shows "code_length128 n \<noteq> fips_length128 n"
proof
  assume "code_length128 n = fips_length128 n"
  then have "PUT_64BIT_MSB_FIRST (drop_bit 29 (of_nat n)) = PUT_64BIT_MSB_FIRST 0"
    using assms by (simp add: code_length128_def fips_length128_def)
  then have "drop_bit 29 (of_nat n :: u64) = 0" by (metis GET_PUT_64)
  then have "unat (drop_bit 29 (of_nat n :: u64)) = 0" by (simp only: unat_eq_0)
  then show False using assms unat_drop29 [of n] by (simp only:) simp
qed

end
