(* ===== verification/Hash_Suite.thy ===== *)
theory Hash_Suite
  imports Md5 Sha512
begin

text \<open>
  The hash functions and message authentication codes as the rest of the program uses them:
  the tables of \<open>sshhmac.c\<close>, and the properties of the whole suite over the interpretations of
  the hash interface.  The tables name \<open>ssh_sha1\<close> and \<open>ssh_sha256\<close>, which select the software
  implementation where the processor has no SHA instructions; that is the one modelled.
\<close>

section \<open>The MAC tables\<close>

definition ssh_hmac_sha256 :: "(nat \<Rightarrow> byte) \<Rightarrow> sha_sw ssh2_macalg" where
  "ssh_hmac_sha256 junk = \<lparr>mac_hash = ssh_sha256_sw junk, mac_len = 32, mac_keylen = 32\<rparr>"

definition ssh_hmac_md5 :: "(nat \<Rightarrow> byte) \<Rightarrow> MD5Context ssh2_macalg" where
  "ssh_hmac_md5 junk = \<lparr>mac_hash = ssh_md5 junk, mac_len = 16, mac_keylen = 16\<rparr>"

definition ssh_hmac_sha1 :: "(nat \<Rightarrow> byte) \<Rightarrow> sha_sw ssh2_macalg" where
  "ssh_hmac_sha1 junk = \<lparr>mac_hash = ssh_sha1_sw junk, mac_len = 20, mac_keylen = 20\<rparr>"

definition ssh_hmac_sha1_96 :: "(nat \<Rightarrow> byte) \<Rightarrow> sha_sw ssh2_macalg" where
  "ssh_hmac_sha1_96 junk = \<lparr>mac_hash = ssh_sha1_sw junk, mac_len = 12, mac_keylen = 20\<rparr>"

definition ssh_hmac_sha1_buggy :: "(nat \<Rightarrow> byte) \<Rightarrow> sha_sw ssh2_macalg" where
  "ssh_hmac_sha1_buggy junk = \<lparr>mac_hash = ssh_sha1_sw junk, mac_len = 20, mac_keylen = 16\<rparr>"

definition ssh_hmac_sha1_96_buggy :: "(nat \<Rightarrow> byte) \<Rightarrow> sha_sw ssh2_macalg" where
  "ssh_hmac_sha1_96_buggy junk = \<lparr>mac_hash = ssh_sha1_sw junk, mac_len = 12, mac_keylen = 16\<rparr>"

lemmas mac_tables = ssh_hmac_sha256_def ssh_hmac_md5_def ssh_hmac_sha1_def ssh_hmac_sha1_96_def
  ssh_hmac_sha1_buggy_def ssh_hmac_sha1_96_buggy_def ssh_sha256_sw_def ssh_md5_def ssh_sha1_sw_def

section \<open>Properties\<close>

text \<open>
  C10.  However a message is cut into writes, from whatever uninitialised memory the state was
  allocated in, the MD5, SHA-1 and SHA-256 code computes the hash of RFC 1321 and FIPS 180-4 of the
  concatenation, without a store outside its block buffer.  The constants of SHA-256 are the standard's own: the
  fractional bits of the square and cube roots of the first primes.
\<close>

theorem hashes_match_standards:
  assumes "\<forall>d\<in>set ds. length d < 2 ^ 32"
  shows "res_bind (hash_writes (ssh_md5 junk) (ssh_hash_new (ssh_md5 junk)) ds) (hash_digest (ssh_md5 junk)) = Inr (md5 (concat ds)) \<and>
    res_bind (hash_writes (ssh_sha1_sw junk) (ssh_hash_new (ssh_sha1_sw junk)) ds) (hash_digest (ssh_sha1_sw junk)) = Inr (sha1 (concat ds)) \<and>
    res_bind (hash_writes (ssh_sha256_sw junk) (ssh_hash_new (ssh_sha256_sw junk)) ds) (hash_digest (ssh_sha256_sw junk)) = Inr (sha256 (concat ds))"
  using md5.hash_stream_correct [OF assms] sha1.hash_stream_correct [OF assms] sha256.hash_stream_correct [OF assms] by simp

theorem hashes_match_standards_witness:
  "res_bind (hash_writes (ssh_md5 (\<lambda>_. 7)) (ssh_hash_new (ssh_md5 (\<lambda>_. 7))) [[97], [98, 99]]) (hash_digest (ssh_md5 (\<lambda>_. 7))) = Inr (md5 [97, 98, 99])"
  using hashes_match_standards [of "[[97], [98, 99]]" "\<lambda>_. 7"] by simp

text \<open>
  C39.  SHA-512 and SHA-384 compute the standard hash, with the standard's root constants, of any message shorter
  than \<open>2 ^ 29\<close> bytes.  From there to \<open>2 ^ 61\<close> bytes both still run the standard's compression from the standard's
  initial value, but over a padding that differs from the standard's: the upper half of the 128-bit length,
  which should be zero, takes the byte count shifted right by 29.
\<close>

theorem sha512_standard_below_half_gigabyte:
  assumes "\<forall>d\<in>set ds. length d < 2 ^ 32"
  defines "digest \<equiv> \<lambda>alg. res_bind (hash_writes alg (ssh_hash_new alg) ds) (hash_digest alg)"
  shows "(length (concat ds) < 2 ^ 29 \<longrightarrow>
      digest (ssh_sha512 junk) = Inr (sha512 (concat ds)) \<and> digest (ssh_sha384 junk) = Inr (sha384 (concat ds))) \<and>
    (2 ^ 29 \<le> length (concat ds) \<and> length (concat ds) < 2 ^ 61 \<longrightarrow>
      digest (ssh_sha512 junk) = Inr (sha512_with code_length128 fips_H512 (concat ds)) \<and>
      digest (ssh_sha384 junk) = Inr (take 48 (sha512_with code_length128 fips_H384 (concat ds))) \<and>
      pad128 code_length128 (concat ds) \<noteq> pad128 fips_length128 (concat ds))"
proof -
  let ?m = "concat ds"
  have c: "digest (ssh_sha512 junk) = Inr (sha512_code ?m)" "digest (ssh_sha384 junk) = Inr (sha384_code ?m)"
    unfolding digest_def by (rule sha512.hash_stream_correct [OF assms(1)], rule sha384.hash_stream_correct [OF assms(1)])
  have "pad128 code_length128 ?m = pad128 fips_length128 ?m \<longleftrightarrow> code_length128 (length ?m) = fips_length128 (length ?m)"
    by (simp add: pad128_def del: length_concat)
  then show ?thesis using c length128_agree [of "length ?m"] length128_differ [of "length ?m"]
    by (auto simp: sha512_code_def sha384_code_def sha512_def sha384_def sha512_with_def SHA512_Core_Init_fips SHA384_Core_Init_fips simp del: length_concat)
qed

theorem sha512_standard_below_half_gigabyte_witness:
  "res_bind (hash_writes (ssh_sha512 (\<lambda>_. 7)) (ssh_hash_new (ssh_sha512 (\<lambda>_. 7))) [[97], [98, 99]]) (hash_digest (ssh_sha512 (\<lambda>_. 7)))
     = Inr (sha512 [97, 98, 99])"
  using sha512_standard_below_half_gigabyte [of "[[97], [98, 99]]" "\<lambda>_. 7"] by simp

text \<open>
  C9.  Every SSH-2 MAC of the program is HMAC: after one \<open>setkey\<close>, each packet of any sequence gets the
  (truncated) RFC 2104 tag of its sequence number and body, and the receiver accepts a
  packet exactly when its tag is that one.
\<close>

theorem ssh2_macs_are_hmac:
  "mac_correct (ssh_hmac_sha256 junk) sha256 \<and> mac_correct (ssh_hmac_md5 junk) md5 \<and>
   mac_correct (ssh_hmac_sha1 junk) sha1 \<and> mac_correct (ssh_hmac_sha1_96 junk) sha1 \<and>
   mac_correct (ssh_hmac_sha1_buggy junk) sha1 \<and> mac_correct (ssh_hmac_sha1_96_buggy junk) sha1"
  by (intro conjI sha256.mac_correctI md5.mac_correctI sha1.mac_correctI) (simp_all add: mac_tables)

end
