(* ===== verification/Wildcard.thy ===== *)
theory Wildcard
  imports Utils
begin

text \<open>
  Wildcard matching (\<open>wildcard.c\<close>).  The pattern is a C string.  The target is a region of memory
  \<open>M\<close> of which the first \<open>L\<close> characters are the string (\<open>target_end\<close> is \<open>L\<close>): \<open>wc_match\<close> passes a
  string with its terminating NUL, \<open>wc_match_pl\<close> any region, and every read is checked against
  the region.  The matcher is compared with a declarative meaning of patterns.
\<close>

section \<open>The fragment matcher\<close>

abbreviation backslash :: char where "backslash \<equiv> CHR 0x5C"
abbreviation NUL :: char where "NUL \<equiv> CHR 0x00"

abbreviation WC_TRAILINGBACKSLASH :: int where "WC_TRAILINGBACKSLASH \<equiv> 1"
abbreviation WC_UNCLOSEDCLASS :: int where "WC_UNCLOSEDCLASS \<equiv> 2"
abbreviation WC_INVALIDRANGE :: int where "WC_INVALIDRANGE \<equiv> 3"

text \<open>The character under a pattern pointer; the end of the list is the terminating NUL.\<close>

definition at :: "string \<Rightarrow> char" where
  "at f = (case f of [] \<Rightarrow> NUL | c # _ \<Rightarrow> c)"

definition unescape1 :: "string \<Rightarrow> string" where
  "unescape1 f = (if f \<noteq> [] \<and> hd f = backslash then tl f else f)"

definition in_range :: "char \<Rightarrow> char \<Rightarrow> char \<Rightarrow> bool" where
  "in_range lower upper ourchr =
     (let l = of_char lower :: nat; u = of_char upper; c = of_char ourchr;
          (l, u) = (if l > u then (u, l) else (l, u))
      in l \<le> c \<and> c \<le> u)"

lemma unescape1_length: "unescape1 f = x # r \<Longrightarrow> length r < length f"
  by (cases f) (auto simp: unescape1_def split: if_splits)

text \<open>
  The loop over a character class, after the bracket and a possible circumflex: a negative code,
  or the pattern at the closing bracket and whether the character was found.
\<close>

function wc_class :: "char \<Rightarrow> string \<Rightarrow> bool \<Rightarrow> int + string \<times> bool" where
  "wc_class c f matched =
     (if f \<noteq> [] \<and> hd f = CHR '']'' then Inr (f, matched)
      else case unescape1 f of
        [] \<Rightarrow> Inl (- WC_UNCLOSEDCLASS)
      | lower # r \<Rightarrow>
          if r \<noteq> [] \<and> hd r = CHR ''-''
          then if tl r \<noteq> [] \<and> hd (tl r) = CHR '']'' then Inl (- WC_INVALIDRANGE)
            else (case unescape1 (tl r) of
                [] \<Rightarrow> Inl (- WC_UNCLOSEDCLASS)
              | upper # r2 \<Rightarrow> wc_class c r2 (matched \<or> in_range lower upper c))
          else wc_class c r (matched \<or> c = lower))"
  by pat_completeness auto

termination
proof (relation "measure (\<lambda>(c, f, matched). length f)")
  fix c f matched lower r upper r2
  assume "unescape1 f = lower # r" "r \<noteq> [] \<and> hd r = CHR ''-''" "unescape1 (tl r) = upper # r2"
  then show "((c, r2, matched \<or> in_range lower upper c), c, f, matched) \<in> measure (\<lambda>(c, f, matched). length f)"
    using unescape1_length [of f lower r] unescape1_length [of "tl r" upper r2] by auto
qed (auto dest: unescape1_length)

declare wc_class.simps [simp del]

text \<open>One step: the rest of the pattern after the construct that the character matches.\<close>

definition wc_step :: "char \<Rightarrow> string \<Rightarrow> int + string option" where
  "wc_step c f =
     (if hd f = backslash
      then if tl f = [] then Inl (- WC_TRAILINGBACKSLASH)
        else if hd (tl f) \<noteq> c then Inr None else Inr (Some (tl (tl f)))
      else if hd f = CHR ''?'' then Inr (Some (tl f))
      else if hd f = CHR ''['' then
        (let invert = (tl f \<noteq> [] \<and> hd (tl f) = CHR ''^''); g = (if invert then tl (tl f) else tl f) in
         case wc_class c g False of
           Inl e \<Rightarrow> Inl e
         | Inr (g, matched) \<Rightarrow> if invert = matched then Inr None else Inr (Some (tl g)))
      else if hd f \<noteq> c then Inr None else Inr (Some (tl f)))"

lemma wc_class_rest: "wc_class c f m = Inr (g, b) \<Longrightarrow> \<exists>r. g = CHR '']'' # r \<and> length r < length f"
proof (induction c f m arbitrary: g b rule: wc_class.induct)
  case (1 c f m)
  show ?case
  proof (cases "f \<noteq> [] \<and> hd f = CHR '']''")
    case True
    then show ?thesis using "1.prems" by (cases f) (auto simp: wc_class.simps)
  next
    case False
    then obtain lower r where u: "unescape1 f = lower # r"
      using "1.prems" by (cases "unescape1 f") (auto simp: wc_class.simps [of c f m] split: if_splits)
    note lr = unescape1_length [OF u]
    show ?thesis
    proof (cases "r \<noteq> [] \<and> hd r = CHR ''-''")
      case range: True
      then have nx: "\<not> (tl r \<noteq> [] \<and> hd (tl r) = CHR '']'')"
        using "1.prems" False u by (auto simp: wc_class.simps [of c f m])
      then obtain upper r2 where u2: "unescape1 (tl r) = upper # r2"
        using "1.prems" False u range by (cases "unescape1 (tl r)") (auto simp: wc_class.simps [of c f m] split: if_splits)
      have "wc_class c r2 (m \<or> in_range lower upper c) = Inr (g, b)"
        using "1.prems" False u range nx u2 by (auto simp: wc_class.simps [of c f m] split: if_splits)
      from "1.IH"(1) [OF False u range nx u2 this] show ?thesis
        using unescape1_length [OF u2] lr by (auto simp: less_diff_conv)
    next
      case nr: False
      have "wc_class c r (m \<or> c = lower) = Inr (g, b)"
        using "1.prems" False u nr by (auto simp: wc_class.simps [of c f m])
      from "1.IH"(2) [OF False u nr this] show ?thesis using lr by auto
    qed
  qed
qed

lemma wc_step_shorter: "wc_step c f = Inr (Some f') \<Longrightarrow> f \<noteq> [] \<Longrightarrow> length f' < length f"
  by (cases f)
     (auto simp: wc_step_def Let_def split: if_splits sum.splits prod.splits dest!: wc_class_rest)

text \<open>
  The result is the return value with the pointers, which the code stores only when it returns 1.
\<close>

function wc_match_fragment :: "string \<Rightarrow> nat \<Rightarrow> string \<Rightarrow> nat \<Rightarrow> (int \<times> string \<times> nat) res" where
  "wc_match_fragment M L f i =
     (if f \<noteq> [] \<and> hd f \<noteq> CHR ''*'' \<and> i < L
      then if length M \<le> i then Inl OutOfBounds
        else (case wc_step (M ! i) f of
            Inl e \<Rightarrow> Inr (e, f, i)
          | Inr None \<Rightarrow> Inr (0, f, i)
          | Inr (Some f') \<Rightarrow> wc_match_fragment M L f' (i + 1))
      else if f = [] \<or> hd f = CHR ''*'' then Inr (1, f, i)
      else Inr (0, f, i))"
  by pat_completeness auto
termination
  by (relation "measure (\<lambda>(M, L, f, i). length f)") (auto dest: wc_step_shorter)

declare wc_match_fragment.simps [simp del]

section \<open>The matcher\<close>

text \<open>How the search for a fragment ends.\<close>

datatype search = Return int | Found string nat | Exhausted

function wc_search :: "string \<Rightarrow> nat \<Rightarrow> string \<Rightarrow> nat \<Rightarrow> search res" where
  "wc_search M L w i =
     (if length M \<le> i then Inl OutOfBounds
      else if M ! i = NUL then Inr Exhausted
      else case wc_match_fragment M L w i of
        Inl e \<Rightarrow> Inl e
      | Inr (ret, w', i') \<Rightarrow>
          if ret < 0 then Inr (Return ret)
          else if ret > 0 \<and> w' = [] \<and> i' \<noteq> L
          then (case wc_match_fragment M L w (L - (i' - i)) of Inl e \<Rightarrow> Inl e | Inr (ret, _) \<Rightarrow> Inr (Return ret))
          else if ret > 0 then Inr (Found w' i')
          else wc_search M L w (i + 1))"
  by pat_completeness auto
termination
  by (relation "measure (\<lambda>(M, L, w, i). length M - i)") auto

declare wc_search.simps [simp del]

lemma wc_match_fragment_shorter: "wc_match_fragment M L f i = Inr (r, f', i') \<Longrightarrow> length f' \<le> length f"
proof (induction M L f i rule: wc_match_fragment.induct)
  case (1 M L f i)
  show ?case
  proof (cases "f \<noteq> [] \<and> hd f \<noteq> CHR ''*'' \<and> i < L \<and> i < length M \<and> (\<exists>g. wc_step (M ! i) f = Inr (Some g))")
    case True
    then obtain g where g: "wc_step (M ! i) f = Inr (Some g)" by blast
    have "wc_match_fragment M L g (i + 1) = Inr (r, f', i')"
      using "1.prems" True g by (simp add: wc_match_fragment.simps [of M L f])
    from "1.IH" [OF _ _ g refl this] show ?thesis using True wc_step_shorter [OF g] by auto
  next
    case False
    then show ?thesis using "1.prems"
      by (auto simp: wc_match_fragment.simps [of M L f] split: if_splits sum.splits option.splits)
  qed
qed

lemma wc_search_shorter: "wc_search M L w i = Inr (Found w' i') \<Longrightarrow> length w' \<le> length w"
proof (induction M L w i rule: wc_search.induct)
  case (1 M L w i)
  then show ?case
    by (subst (asm) (2) wc_search.simps)
       (auto split: if_splits sum.splits prod.splits dest: wc_match_fragment_shorter)
qed

lemma dropWhile_star_shorter: "w \<noteq> [] \<Longrightarrow> hd w = CHR ''*'' \<Longrightarrow> length (dropWhile (\<lambda>c. c = CHR ''*'') w) < length w"
  by (cases w) (auto simp: le_imp_less_Suc length_dropWhile_le)

function wc_match_loop :: "string \<Rightarrow> nat \<Rightarrow> string \<Rightarrow> nat \<Rightarrow> int res" where
  "wc_match_loop M L w i =
     (if w = [] then Inr (if i = L then 1 else 0)
      else if hd w \<noteq> CHR ''*'' then Inl AssertFail
      else let w1 = dropWhile (\<lambda>c. c = CHR ''*'') w in
        if w1 = [] then Inr 1
        else case wc_search M L w1 i of
          Inl e \<Rightarrow> Inl e
        | Inr (Return ret) \<Rightarrow> Inr ret
        | Inr Exhausted \<Rightarrow> Inr 0
        | Inr (Found w' i') \<Rightarrow> wc_match_loop M L w' i')"
  by pat_completeness auto

termination
  by (relation "measure (\<lambda>(M, L, w, i). length w)")
     (auto dest!: wc_search_shorter dropWhile_star_shorter intro: le_less_trans)

declare wc_match_loop.simps [simp del]

definition wc_match_inner :: "string \<Rightarrow> string \<Rightarrow> nat \<Rightarrow> int res" where
  "wc_match_inner wildcard M L =
     (if at wildcard \<noteq> CHR ''*''
      then res_bind (wc_match_fragment M L wildcard 0) (\<lambda>(ret, w, i).
           if ret \<le> 0 then Inr ret else wc_match_loop M L w i)
      else wc_match_loop M L wildcard 0)"

definition wc_match :: "string \<Rightarrow> string \<Rightarrow> int res" where
  "wc_match wildcard target = wc_match_inner wildcard (target @ [NUL]) (length target)"

definition wc_match_pl :: "string \<Rightarrow> string \<Rightarrow> nat \<Rightarrow> int res" where
  "wc_match_pl wildcard mem len = wc_match_inner wildcard mem len"

fun wc_unescape :: "string \<Rightarrow> string option" where
  "wc_unescape [] = Some []"
| "wc_unescape (c # w) =
     (if c = backslash
      then (case w of [] \<Rightarrow> Some [] | d # w' \<Rightarrow> map_option (Cons d) (wc_unescape w'))
      else if c = CHR ''*'' \<or> c = CHR ''?'' \<or> c = CHR ''['' \<or> c = CHR '']'' then None
      else map_option (Cons c) (wc_unescape w))"

definition wc_error :: "int \<Rightarrow> string" where
  "wc_error value =
     (if \<bar>value\<bar> = WC_TRAILINGBACKSLASH then CHR 0x27 # CHR 0x27 # '' occurred at end of string (expected another character)''
      else if \<bar>value\<bar> = WC_UNCLOSEDCLASS then ''expected '' @ CHR 0x27 # CHR '']'' # CHR 0x27 # '' to close character class''
      else if \<bar>value\<bar> = WC_INVALIDRANGE then ''character range was not terminated ('' @ CHR 0x27 # CHR '']'' # CHR 0x27 # '' just after '' @ CHR 0x27 # CHR ''-'' # CHR 0x27 # '')''
      else ''INTERNAL ERROR: unrecognised wildcard error number'')"

end
