(* ===== verification/Wildcard_Correct.thy ===== *)
theory Wildcard_Correct
  imports Wildcard
begin

text \<open>
  The meaning of wildcards, and that the greedy matcher decides it: finding each fragment at the
  first place it occurs, and the last one at the end of the string, never misses a match.
\<close>

section \<open>The meaning of a wildcard\<close>

datatype wtok = Lit char | AnyChar | Class bool "(char \<times> char) list" | Star

definition between :: "char \<Rightarrow> char \<Rightarrow> char \<Rightarrow> bool" where
  "between a b c \<longleftrightarrow> min (of_char a) (of_char b) \<le> (of_char c :: nat) \<and> of_char c \<le> max (of_char a) (of_char b :: nat)"

fun tok_match :: "wtok \<Rightarrow> char \<Rightarrow> bool" where
  "tok_match (Lit x) c = (x = c)"
| "tok_match AnyChar c = True"
| "tok_match (Class invert items) c = (invert \<noteq> (\<exists>(a, b)\<in>set items. between a b c))"
| "tok_match Star c = False"

fun glob :: "wtok list \<Rightarrow> string \<Rightarrow> bool" where
  "glob [] s = (s = [])"
| "glob (t # ts) [] = (t = Star \<and> glob ts [])"
| "glob (t # ts) (c # s) = (if t = Star then glob ts (c # s) \<or> glob (t # ts) s else tok_match t c \<and> glob ts s)"

text \<open>The syntax: character classes, single constructs, whole wildcards.\<close>

text \<open>One character of a class, with a backslash before it or not, and what follows it.\<close>

fun class_char :: "string \<Rightarrow> (char \<times> string) option" where
  "class_char [] = None"
| "class_char [x] = (if x = backslash then None else Some (x, []))"
| "class_char (x # y # r) = (if x = backslash then Some (y, r) else Some (x, y # r))"

lemma class_char_length: "class_char f = Some (x, r) \<Longrightarrow> length r < length f"
  by (cases f rule: class_char.cases) (auto split: if_splits)

function parse_class :: "string \<Rightarrow> int + (char \<times> char) list \<times> string" where
  "parse_class f =
     (if f \<noteq> [] \<and> hd f = CHR '']'' then Inr ([], tl f)
      else case class_char f of
        None \<Rightarrow> Inl (- WC_UNCLOSEDCLASS)
      | Some (a, r) \<Rightarrow>
          if r \<noteq> [] \<and> hd r = CHR ''-''
          then if tl r \<noteq> [] \<and> hd (tl r) = CHR '']'' then Inl (- WC_INVALIDRANGE)
            else (case class_char (tl r) of
                None \<Rightarrow> Inl (- WC_UNCLOSEDCLASS)
              | Some (b, r2) \<Rightarrow> map_sum id (map_prod (Cons (a, b)) id) (parse_class r2))
          else map_sum id (map_prod (Cons (a, a)) id) (parse_class r))"
  by pat_completeness auto
termination
  by (relation "measure length") (auto dest!: class_char_length)

declare parse_class.simps [simp del]

definition parse_tok :: "string \<Rightarrow> int + wtok \<times> string" where
  "parse_tok f =
     (if hd f = backslash
      then if tl f = [] then Inl (- WC_TRAILINGBACKSLASH) else Inr (Lit (hd (tl f)), tl (tl f))
      else if hd f = CHR ''?'' then Inr (AnyChar, tl f)
      else if hd f = CHR ''['' then
        (let invert = (tl f \<noteq> [] \<and> hd (tl f) = CHR ''^'') in
         map_sum id (map_prod (Class invert) id) (parse_class (if invert then tl (tl f) else tl f)))
      else Inr (Lit (hd f), tl f))"

lemma class_char_unescape1: "class_char f = (case unescape1 f of [] \<Rightarrow> None | a # r \<Rightarrow> Some (a, r))"
  by (cases f rule: class_char.cases) (auto simp: unescape1_def)

lemma wc_class_parse:
  "wc_class c f m = map_sum id (\<lambda>(items, rest). (CHR '']'' # rest, m \<or> (\<exists>(a, b)\<in>set items. between a b c))) (parse_class f)"
proof (induction c f m rule: wc_class.induct)
  case (1 c f m)
  have range: "in_range a b c = between a b c" for a b
    by (auto simp: in_range_def between_def Let_def)
  have single: "between a a c \<longleftrightarrow> c = a" for a
    using order.antisym [of "of_char c :: nat" "of_char a"] by (auto simp: between_def)
  show ?case
  proof (cases "f \<noteq> [] \<and> hd f = CHR '']''")
    case True
    then show ?thesis by (cases f) (simp_all add: wc_class.simps parse_class.simps class_char_unescape1)
  next
    case nb: False
    show ?thesis
    proof (cases "unescape1 f")
      case Nil
      then show ?thesis using nb by (auto simp: wc_class.simps [of c f] parse_class.simps [of f] class_char_unescape1)
    next
      case (Cons a r)
      show ?thesis
      proof (cases "r \<noteq> [] \<and> hd r = CHR ''-''")
        case rng: True
        show ?thesis
        proof (cases "tl r \<noteq> [] \<and> hd (tl r) = CHR '']''")
          case True
          then show ?thesis using nb Cons rng by (auto simp: wc_class.simps [of c f] parse_class.simps [of f] class_char_unescape1)
        next
          case nx: False
          show ?thesis
          proof (cases "unescape1 (tl r)")
            case Nil
            then show ?thesis using nb Cons rng nx by (auto simp: wc_class.simps [of c f] parse_class.simps [of f] class_char_unescape1)
          next
            case u2: (Cons b r2)
            have "wc_class c f m = wc_class c r2 (m \<or> in_range a b c)"
              "parse_class f = map_sum id (map_prod (Cons (a, b)) id) (parse_class r2)"
              using nb Cons rng nx u2 by (auto simp: wc_class.simps [of c f] parse_class.simps [of f] class_char_unescape1)
            then show ?thesis using "1.IH"(1) [OF nb Cons rng nx u2]
              by (cases "parse_class r2") (auto simp: range)
          qed
        qed
      next
        case nr: False
        have "wc_class c f m = wc_class c r (m \<or> c = a)"
          "parse_class f = map_sum id (map_prod (Cons (a, a)) id) (parse_class r)"
          using nb Cons nr by (auto simp: wc_class.simps [of c f] parse_class.simps [of f] class_char_unescape1)
        then show ?thesis using "1.IH"(2) [OF nb Cons nr]
          by (cases "parse_class r") (auto simp: single)
      qed
    qed
  qed
qed

lemma wc_step_parse:
  "wc_step c f = map_sum id (\<lambda>(t, r). if tok_match t c then Some r else None) (parse_tok f)"
proof (cases "hd f = CHR ''[''")
  case True
  define invert where "invert = (tl f \<noteq> [] \<and> hd (tl f) = CHR ''^'')"
  define g where "g = (if invert then tl (tl f) else tl f)"
  have "wc_step c f = (case wc_class c g False of Inl e \<Rightarrow> Inl e
      | Inr (g, matched) \<Rightarrow> if invert = matched then Inr None else Inr (Some (tl g)))"
    "parse_tok f = map_sum id (map_prod (Class invert) id) (parse_class g)"
    using True by (simp_all add: wc_step_def parse_tok_def Let_def flip: invert_def g_def)
  then show ?thesis by (cases "parse_class g") (simp_all add: wc_class_parse split: prod.split)
next
  case False
  then show ?thesis by (auto simp: wc_step_def parse_tok_def)
qed

lemma parse_tok_not_star: "hd f \<noteq> CHR ''*'' \<Longrightarrow> parse_tok f = Inr (t, r) \<Longrightarrow> t \<noteq> Star"
  by (auto simp: parse_tok_def Let_def map_sum_def split: if_splits sum.splits)

lemma parse_class_shorter: "parse_class f = Inr (items, r) \<Longrightarrow> length r < length f"
  using wc_class_rest [of undefined f False "CHR '']'' # r"] by (auto simp: wc_class_parse)

lemma parse_tok_shorter: "f \<noteq> [] \<Longrightarrow> parse_tok f = Inr (t, r) \<Longrightarrow> length r < length f"
  by (cases f) (auto simp: parse_tok_def Let_def map_sum_def split: if_splits sum.splits dest!: parse_class_shorter)

function wc_parse :: "string \<Rightarrow> int + wtok list" where
  "wc_parse f =
     (if f = [] then Inr []
      else if hd f = CHR ''*'' then map_sum id (Cons Star) (wc_parse (tl f))
      else case parse_tok f of Inl e \<Rightarrow> Inl e | Inr (t, r) \<Rightarrow> map_sum id (Cons t) (wc_parse r))"
  by pat_completeness auto
termination
  by (relation "measure length") (auto dest: parse_tok_shorter)

declare wc_parse.simps [simp del]

lemma wc_parse_Nil [simp]: "wc_parse [] = Inr []"
  by (simp add: wc_parse.simps)

lemma wc_parse_star [simp]: "wc_parse (CHR ''*'' # f) = map_sum id (Cons Star) (wc_parse f)"
  by (simp add: wc_parse.simps [of "CHR ''*'' # f"])

section \<open>Fragments\<close>

definition rigid :: "wtok list \<Rightarrow> wtok list" where
  "rigid ts = takeWhile (\<lambda>t. t \<noteq> Star) ts"

definition later :: "wtok list \<Rightarrow> wtok list" where
  "later ts = dropWhile (\<lambda>t. t \<noteq> Star) ts"

fun fits :: "wtok list \<Rightarrow> string \<Rightarrow> bool" where
  "fits [] s = True"
| "fits (t # ts) [] = False"
| "fits (t # ts) (c # s) = (tok_match t c \<and> fits ts s)"

lemma fits_length: "fits ts s \<Longrightarrow> length ts \<le> length s"
  by (induction ts s rule: fits.induct) auto

lemma rigid_simps [simp]:
  "rigid [] = []" "later [] = []" "rigid (Star # ts) = []" "later (Star # ts) = Star # ts"
  "t \<noteq> Star \<Longrightarrow> rigid (t # ts) = t # rigid ts" "t \<noteq> Star \<Longrightarrow> later (t # ts) = later ts"
  by (auto simp: rigid_def later_def)

lemma later_star: "later ts = [] \<or> (\<exists>us. later ts = Star # us)"
  by (induction ts) (auto simp: later_def)

lemma glob_rigid: "glob ts s \<longleftrightarrow> fits (rigid ts) s \<and> glob (later ts) (drop (length (rigid ts)) s)"
proof (induction ts s rule: glob.induct)
  case (3 t ts c s)
  then show ?case by (cases "t = Star") auto
next
  case (2 t ts)
  then show ?case by (cases "t = Star") auto
qed simp

lemma ex_le_Suc: "(\<exists>j\<le>Suc n. P j) \<longleftrightarrow> P 0 \<or> (\<exists>j\<le>n. P (Suc j))"
  by (metis Suc_le_mono le0 not0_implies_Suc)

lemma glob_star: "glob (Star # ts) s \<longleftrightarrow> (\<exists>j\<le>length s. glob ts (drop j s))"
proof (induction s)
  case (Cons c s)
  have "(\<exists>j\<le>length (c # s). glob ts (drop j (c # s))) \<longleftrightarrow> glob ts (c # s) \<or> (\<exists>j\<le>length s. glob ts (drop j s))"
    using ex_le_Suc [of "length s" "\<lambda>j. glob ts (drop j (c # s))"] by simp
  then show ?case using Cons by simp
qed auto

lemma glob_star_mono: "a \<le> b \<Longrightarrow> b \<le> length s \<Longrightarrow> glob (Star # ts) (drop b s) \<Longrightarrow> glob (Star # ts) (drop a s)"
  unfolding glob_star
proof (elim exE conjE)
  fix j assume *: "a \<le> b" "b \<le> length s" "j \<le> length (drop b s)" "glob ts (drop j (drop b s))"
  then show "\<exists>j\<le>length (drop a s). glob ts (drop j (drop a s))"
    by (intro exI [of _ "b - a + j"]) (auto simp: add.commute)
qed

text \<open>
  What a call of the fragment matcher does, on a region that holds \<open>t\<close>: it reports the first
  syntax error of the pattern or passes it on, and on a valid pattern it decides \<open>fits\<close>.
\<close>

definition fragment_spec :: "string \<Rightarrow> string \<Rightarrow> nat \<Rightarrow> int \<times> string \<times> nat \<Rightarrow> bool" where
  "fragment_spec t f i = (\<lambda>(r, f', i').
     (r = 1 \<longrightarrow> (f' = [] \<or> hd f' = CHR ''*'') \<and> i \<le> i' \<and> i' \<le> length t) \<and>
     (case wc_parse f of
        Inl e \<Rightarrow> r = e \<or> r = 0 \<or> r = 1 \<and> wc_parse f' = Inl e
      | Inr ts \<Rightarrow> if fits (rigid ts) (drop i t)
                  then r = 1 \<and> wc_parse f' = Inr (later ts) \<and> i' = i + length (rigid ts) else r = 0))"

lemma parse_error_negative: "wc_parse f = Inl e \<Longrightarrow> e < 0"
proof (induction f rule: wc_parse.induct)
  case (1 f)
  have cls: "parse_class g = Inl e \<Longrightarrow> e < 0" for g
  proof (induction g rule: parse_class.induct)
    case (1 g)
    then show ?case
      by (subst (asm) (3) parse_class.simps) (auto simp: map_sum_def split: if_splits option.splits sum.splits prod.splits)
  qed
  have tok: "parse_tok f = Inl e \<Longrightarrow> e < 0"
    using cls by (auto simp: parse_tok_def Let_def map_sum_def split: if_splits sum.splits)
  show ?case using 1 tok
    by (subst (asm) (3) wc_parse.simps) (auto simp: map_sum_def split: if_splits sum.splits prod.splits)
qed

lemma fragment_correct:
  "M = t @ rest \<Longrightarrow> i \<le> length t \<Longrightarrow> \<exists>out. wc_match_fragment M (length t) f i = Inr out \<and> fragment_spec t f i out"
proof (induction M "length t" f i rule: wc_match_fragment.induct)
  case (1 M f i)
  show ?case
  proof (cases "f \<noteq> [] \<and> hd f \<noteq> CHR ''*'' \<and> i < length t")
    case go: True
    then have d: "drop i t = t ! i # drop (i + 1) t" and mi: "M ! i = t ! i" "\<not> length M \<le> i"
      using "1.prems" Cons_nth_drop_Suc [of i t] by (auto simp: nth_append)
    have pf: "wc_parse f = (case parse_tok f of Inl e \<Rightarrow> Inl e | Inr (t, r) \<Rightarrow> map_sum id (Cons t) (wc_parse r))"
      using go by (simp add: wc_parse.simps [of f])
    show ?thesis
    proof (cases "parse_tok f")
      case (Inl e)
      then show ?thesis using go mi parse_error_negative [of f e]
        by (simp add: wc_match_fragment.simps [of M _ f] wc_step_parse pf fragment_spec_def)
    next
      case (Inr p)
      obtain k r where p: "p = (k, r)" by (metis prod.exhaust)
      have k: "k \<noteq> Star" using parse_tok_not_star Inr p go by blast
      show ?thesis
      proof (cases "tok_match k (t ! i)")
        case False
        then show ?thesis using go mi Inr p k d
          by (cases "wc_parse r") (simp_all add: wc_match_fragment.simps [of M _ f] wc_step_parse pf fragment_spec_def)
      next
        case True
        then have st: "wc_step (M ! i) f = Inr (Some r)" using Inr p mi by (simp add: wc_step_parse)
        obtain out where out: "wc_match_fragment M (length t) r (i + 1) = Inr out" "fragment_spec t r (i + 1) out"
          using "1.hyps" [OF go mi(2) st refl] "1.prems" go by auto
        have "wc_match_fragment M (length t) f i = Inr out"
          using go mi st out(1) by (simp add: wc_match_fragment.simps [of M _ f])
        moreover have "fragment_spec t f i out" using out(2) Inr p True k d pf
          by (cases "wc_parse r") (auto simp: fragment_spec_def)
        ultimately show ?thesis by blast
      qed
    qed
  next
    case stop: False
    show ?thesis
    proof (cases "f = [] \<or> hd f = CHR ''*''")
      case True
      then have "wc_match_fragment M (length t) f i = Inr (1, f, i)" using stop by (auto simp: wc_match_fragment.simps)
      moreover have "fragment_spec t f i (1, f, i)"
        using True "1.prems" by (cases "wc_parse (tl f)") (auto simp: fragment_spec_def wc_parse.simps [of f] split: if_splits)
      ultimately show ?thesis by blast
    next
      case False
      then have il: "i = length t" using stop "1.prems" by auto
      have "wc_match_fragment M (length t) f i = Inr (0, f, i)" using stop False by (auto simp: wc_match_fragment.simps)
      moreover have "fragment_spec t f i (0, f, i)"
      proof (cases "parse_tok f")
        case (Inr p)
        then show ?thesis using False il parse_tok_not_star [of f "fst p" "snd p"]
          by (cases "wc_parse (snd p)") (auto simp: fragment_spec_def wc_parse.simps [of f] split: prod.split)
      qed (use False in \<open>simp add: fragment_spec_def wc_parse.simps [of f]\<close>)
      ultimately show ?thesis by blast
    qed
  qed
qed

section \<open>The search and the whole matcher\<close>

lemma rigid_first:
  assumes "wc_parse w = Inr ts" "w \<noteq> []" "hd w \<noteq> CHR ''*''"
  shows "rigid ts \<noteq> []"
  using assms parse_tok_not_star [of w]
  by (auto simp: wc_parse.simps [of w] map_sum_def split: sum.splits prod.splits)

definition search_spec :: "string \<Rightarrow> string \<Rightarrow> nat \<Rightarrow> search \<Rightarrow> bool" where
  "search_spec t w i out =
     (case wc_parse w of
        Inl e \<Rightarrow> (case out of
            Return r \<Rightarrow> r = e \<or> r = 0
          | Found w' i' \<Rightarrow> i' \<le> length t \<and> (w' = [] \<or> hd w' = CHR ''*'') \<and> wc_parse w' = Inl e
          | Exhausted \<Rightarrow> True)
      | Inr ts \<Rightarrow> (case out of
            Return r \<Rightarrow> r = (if glob (Star # ts) (drop i t) then 1 else 0)
          | Found w' i' \<Rightarrow> i' \<le> length t \<and> (w' = [] \<or> hd w' = CHR ''*'') \<and>
              (\<exists>us. wc_parse w' = Inr us \<and> glob (Star # ts) (drop i t) = glob us (drop i' t))
          | Exhausted \<Rightarrow> \<not> glob (Star # ts) (drop i t)))"

lemma glob_star_next:
  assumes "\<not> fits (rigid ts) (drop i t)" "i < length t"
  shows "glob (Star # ts) (drop i t) = glob (Star # ts) (drop (i + 1) t)"
proof -
  have "drop i t = t ! i # drop (i + 1) t" using assms(2) Cons_nth_drop_Suc [of i t] by simp
  then show ?thesis using assms(1) glob_rigid [of ts "drop i t"] by simp
qed

lemma glob_star_found:
  assumes "fits (rigid ts) (drop i t)" "later ts = Star # us" "i \<le> length t"
  shows "glob (Star # ts) (drop i t) = glob (later ts) (drop (i + length (rigid ts)) t)"
proof
  let ?k = "length (rigid ts)"
  assume "glob (Star # ts) (drop i t)"
  then obtain j where j: "j \<le> length (drop i t)" "glob ts (drop j (drop i t))" unfolding glob_star by blast
  then have "glob (Star # us) (drop (j + i + ?k) t)" "fits (rigid ts) (drop (j + i) t)"
    using assms(2) glob_rigid [of ts "drop j (drop i t)"] by (simp_all add: add.commute add.left_commute)
  moreover from fits_length [OF this(2)] j(1) assms(3) have "j + i + ?k \<le> length t" by auto
  ultimately show "glob (later ts) (drop (i + ?k) t)"
    using glob_star_mono [of "i + ?k" "j + i + ?k" t us] assms(2) by simp
next
  assume "glob (later ts) (drop (i + length (rigid ts)) t)"
  then have "glob ts (drop i t)" using assms(1) glob_rigid [of ts "drop i t"] by (simp add: add.commute)
  then show "glob (Star # ts) (drop i t)" unfolding glob_star by (intro exI [of _ 0]) simp
qed

lemma glob_star_last:
  assumes "fits (rigid ts) (drop i t)" "later ts = []" "i \<le> length t"
  shows "glob (Star # ts) (drop i t) = fits (rigid ts) (drop (length t - length (rigid ts)) t)"
proof
  let ?k = "length (rigid ts)"
  assume "glob (Star # ts) (drop i t)"
  then obtain j where j: "j \<le> length (drop i t)" "glob ts (drop j (drop i t))" unfolding glob_star by blast
  then have f: "fits (rigid ts) (drop (j + i) t)" and e: "length t \<le> j + i + ?k"
    using assms(2) glob_rigid [of ts "drop j (drop i t)"] by (auto simp: add.commute add.left_commute)
  have "j + i + ?k \<le> length t" using fits_length [OF f] j(1) assms(3) by auto
  then have "j + i = length t - ?k" using e by simp
  then show "fits (rigid ts) (drop (length t - ?k) t)" using f by simp
next
  let ?k = "length (rigid ts)"
  assume f: "fits (rigid ts) (drop (length t - ?k) t)"
  have k: "i + ?k \<le> length t" using fits_length [OF assms(1)] assms(3) by auto
  then have "drop (length t - ?k - i) (drop i t) = drop (length t - ?k) t" by simp
  moreover have "glob ts (drop (length t - ?k) t)" using f k assms(2) glob_rigid [of ts "drop (length t - ?k) t"] by simp
  ultimately show "glob (Star # ts) (drop i t)" unfolding glob_star using k
    by (intro exI [of _ "length t - ?k - i"]) auto
qed

lemma search_correct:
  "M = t @ [NUL] \<Longrightarrow> NUL \<notin> set t \<Longrightarrow> i \<le> length t \<Longrightarrow> w \<noteq> [] \<Longrightarrow> hd w \<noteq> CHR ''*'' \<Longrightarrow>
     \<exists>out. wc_search M (length t) w i = Inr out \<and> search_spec t w i out"
proof (induction M "length t" w i rule: wc_search.induct)
  case (1 M w i)
  note prems = "1.prems"
  show ?case
  proof (cases "i = length t")
    case True
    have "\<not> glob (Star # ts) []" if "wc_parse w = Inr ts" for ts
      using rigid_first [OF that prems(4,5)] glob_rigid [of ts "[]"] by (cases "rigid ts") simp_all
    then have "search_spec t w i Exhausted" using True by (auto simp: search_spec_def split: sum.split)
    moreover have "wc_search M (length t) w i = Inr Exhausted"
      using True prems(1) by (subst wc_search.simps) (simp add: nth_append)
    ultimately show ?thesis by blast
  next
    case False
    have lt: "i < length t" using False prems(3) by simp
    have nn: "t ! i \<noteq> NUL"
    proof
      assume "t ! i = NUL"
      then show False using nth_mem [OF lt] prems(2) by simp
    qed
    have i: "i < length t" "M ! i = t ! i" "t ! i \<noteq> NUL" "\<not> length M \<le> i"
      using prems(1) lt nn by (simp_all add: nth_append)
    obtain r w' i' where fr: "wc_match_fragment M (length t) w i = Inr (r, w', i')" "fragment_spec t w i (r, w', i')"
      using fragment_correct [OF prems(1), of i w] prems(3) by (metis prod.exhaust)
    note unf = wc_search.simps [of M "length t" w i]
    have neg: "M ! i \<noteq> NUL" using i by simp
    consider (neg) "r < 0" | (miss) "r = 0" | (hit) "r = 1"
      using fr(2) parse_error_negative [of w] by (auto simp: fragment_spec_def split: sum.splits if_splits)
    then show ?thesis
    proof cases
      case neg
      then show ?thesis using fr i unf
        by (auto simp: fragment_spec_def search_spec_def split: sum.splits if_splits)
    next
      case miss
      obtain out where out: "wc_search M (length t) w (i + 1) = Inr out" "search_spec t w (i + 1) out"
        using "1.hyps" [OF i(4) neg fr(1) refl refl] miss prems i by auto
      have "search_spec t w i out"
        using out(2) fr(2) miss glob_star_next [OF _ i(1)]
        by (auto simp: search_spec_def fragment_spec_def split: sum.splits if_splits search.splits)
      then show ?thesis using out(1) unf fr(1) miss i by simp
    next
      case hit
      have w': "w' = [] \<or> hd w' = CHR ''*''" "i \<le> i'" "i' \<le> length t" using fr(2) hit by (auto simp: fragment_spec_def)
      show ?thesis
      proof (cases "w' = [] \<and> i' \<noteq> length t")
        case again: True
        let ?j = "length t - (i' - i)"
        obtain r2 w2 i2 where fr2: "wc_match_fragment M (length t) w ?j = Inr (r2, w2, i2)" "fragment_spec t w ?j (r2, w2, i2)"
          using fragment_correct [OF prems(1), of ?j w] by (metis diff_le_self prod.exhaust)
        have "wc_search M (length t) w i = Inr (Return r2)" using unf fr(1) fr2(1) again hit i by simp
        moreover have "search_spec t w i (Return r2)"
        proof (cases "wc_parse w")
          case (Inl e)
          then have "wc_parse w' = Inl e" using fr(2) hit parse_error_negative [OF Inl] by (auto simp: fragment_spec_def)
          then show ?thesis using again by simp
        next
          case (Inr ts)
          then have f: "fits (rigid ts) (drop i t)" "later ts = []" "i' = i + length (rigid ts)"
            using fr(2) hit again by (auto simp: fragment_spec_def split: if_splits)
          then show ?thesis using glob_star_last [OF f(1,2)] fr2(2) Inr i(1)
            by (auto simp: search_spec_def fragment_spec_def split: if_splits)
        qed
        ultimately show ?thesis by blast
      next
        case False
        then have "wc_search M (length t) w i = Inr (Found w' i')" using unf fr(1) hit i by auto
        moreover have "search_spec t w i (Found w' i')"
        proof (cases "wc_parse w")
          case (Inl e)
          then show ?thesis using fr(2) hit w' parse_error_negative [OF Inl] by (auto simp: fragment_spec_def search_spec_def)
        next
          case (Inr ts)
          then have f: "fits (rigid ts) (drop i t)" "wc_parse w' = Inr (later ts)" "i' = i + length (rigid ts)"
            using fr(2) hit by (auto simp: fragment_spec_def split: if_splits)
          have "glob (Star # ts) (drop i t) = glob (later ts) (drop i' t)"
          proof (cases "later ts")
            case Nil
            then have "i' = length t" using False f(2) w'(1) by (cases w') (auto simp: map_sum_def split: sum.splits)
            then have "length t - length (rigid ts) = i" using f(3) by simp
            then show ?thesis using Nil glob_star_last [OF f(1) Nil] f i(1) \<open>i' = length t\<close> by simp
          next
            case (Cons u us)
            then show ?thesis using later_star [of ts] glob_star_found [OF f(1)] i(1) f(3) by auto
          qed
          then show ?thesis using Inr f(2) w' by (simp add: search_spec_def)
        qed
        ultimately show ?thesis by blast
      qed
    qed
  qed
qed

lemma wc_parse_stars: "wc_parse w = map_sum id (\<lambda>ts. replicate (length (takeWhile (\<lambda>c. c = CHR ''*'') w)) Star @ ts)
    (wc_parse (dropWhile (\<lambda>c. c = CHR ''*'') w))"
  by (induction w) (auto simp: map_sum.compositionality comp_def id_def sum.map_ident)

lemma glob_star_star: "glob (Star # Star # ts) s = glob (Star # ts) s"
proof
  assume "glob (Star # Star # ts) s"
  then obtain j where "j \<le> length s" "glob (Star # ts) (drop j s)" unfolding glob_star [of "Star # ts"] by blast
  then show "glob (Star # ts) s" using glob_star_mono [of 0 j s ts] by simp
next
  assume "glob (Star # ts) s"
  then show "glob (Star # Star # ts) s" unfolding glob_star [of "Star # ts"] by (intro exI [of _ 0]) simp
qed

lemma glob_stars: "glob (replicate (Suc n) Star @ ts) s = glob (Star # ts) s"
proof (induction n arbitrary: s)
  case (Suc n)
  have "glob (replicate (Suc (Suc n)) Star @ ts) s = (\<exists>j\<le>length s. glob (replicate (Suc n) Star @ ts) (drop j s))"
    using glob_star [of "replicate (Suc n) Star @ ts" s] by simp
  also have "\<dots> = glob (Star # Star # ts) s" unfolding glob_star [of "Star # ts"] Suc.IH ..
  finally show ?case by (simp only: glob_star_star)
qed simp

lemma loop_correct:
  "M = t @ [NUL] \<Longrightarrow> NUL \<notin> set t \<Longrightarrow> i \<le> length t \<Longrightarrow> w = [] \<or> hd w = CHR ''*'' \<Longrightarrow>
     \<exists>r. wc_match_loop M (length t) w i = Inr r \<and>
       (case wc_parse w of Inl e \<Rightarrow> r = e \<or> r = 0 | Inr ts \<Rightarrow> r = (if glob ts (drop i t) then 1 else 0))"
proof (induction M "length t" w i rule: wc_match_loop.induct)
  case (1 M w i)
  note prems = "1.prems"
  show ?case
  proof (cases "w = []")
    case True
    then show ?thesis using prems(3) by (simp add: wc_match_loop.simps [of M])
  next
    case False
    then have star: "\<not> hd w \<noteq> CHR ''*''" using prems(4) by simp
    define w1 where "w1 = dropWhile (\<lambda>c. c = CHR ''*'') w"
    obtain n where n: "length (takeWhile (\<lambda>c. c = CHR ''*'') w) = Suc n" using False star by (cases w) auto
    have pw: "wc_parse w = map_sum id (\<lambda>ts. replicate (Suc n) Star @ ts) (wc_parse w1)"
      using wc_parse_stars [of w] unfolding n w1_def .
    note unf = wc_match_loop.simps [of M "length t" w i, unfolded Let_def, folded w1_def]
    show ?thesis
    proof (cases "w1 = []")
      case True
      have "glob [Star] (drop i t)" unfolding glob_star by (intro exI [of _ "length (drop i t)"]) simp
      then show ?thesis using True False star unf pw glob_stars [of n "[]" "drop i t"] by (simp del: replicate_Suc)
    next
      case w1: False
      have hd1: "hd w1 \<noteq> CHR ''*''" using w1 hd_dropWhile [of "\<lambda>c. c = CHR ''*''" w] by (simp add: w1_def)
      obtain out where out: "wc_search M (length t) w1 i = Inr out" "search_spec t w1 i out"
        using search_correct [OF prems(1-3) w1 hd1] by blast
      show ?thesis
      proof (cases out)
        case (Found w' i')
        have f: "i' \<le> length t" "w' = [] \<or> hd w' = CHR ''*''"
          using out(2) Found by (auto simp: search_spec_def split: sum.splits)
        obtain r where r: "wc_match_loop M (length t) w' i' = Inr r"
          "case wc_parse w' of Inl e \<Rightarrow> r = e \<or> r = 0 | Inr ts \<Rightarrow> r = (if glob ts (drop i' t) then 1 else 0)"
          using "1.hyps" [OF False star w1_def w1 out(1)] Found prems f by blast
        have "wc_match_loop M (length t) w i = Inr r" using unf False star w1 out(1) Found r(1) by simp
        then show ?thesis using r(2) out(2) Found pw glob_stars [of n _ "drop i t"]
          by (auto simp: search_spec_def simp del: replicate_Suc split: sum.splits)
      next
        case (Return r)
        then have "wc_match_loop M (length t) w i = Inr r" using unf False star w1 out(1) by simp
        then show ?thesis using out(2) Return pw glob_stars [of n _ "drop i t"]
          by (auto simp: search_spec_def simp del: replicate_Suc split: sum.splits)
      next
        case Exhausted
        then have "wc_match_loop M (length t) w i = Inr 0" using unf False star w1 out(1) by simp
        then show ?thesis using out(2) Exhausted pw glob_stars [of n _ "drop i t"]
          by (auto simp: search_spec_def simp del: replicate_Suc split: sum.splits)
      qed
    qed
  qed
qed

lemma inner_correct:
  assumes "NUL \<notin> set t"
  shows "\<exists>r. wc_match w t = Inr r \<and>
    (case wc_parse w of Inl e \<Rightarrow> r = e \<or> r = 0 | Inr ts \<Rightarrow> r = (if glob ts t then 1 else 0))"
proof (cases "at w = CHR ''*''")
  case True
  then have "hd w = CHR ''*''" by (cases w) (simp_all add: at_def)
  then obtain r where r: "wc_match_loop (t @ [NUL]) (length t) w 0 = Inr r"
    "case wc_parse w of Inl e \<Rightarrow> r = e \<or> r = 0 | Inr ts \<Rightarrow> r = (if glob ts (drop 0 t) then 1 else 0)"
    using loop_correct [OF refl assms, of 0 w] by blast
  then show ?thesis using True by (intro exI [of _ r]) (simp add: wc_match_def wc_match_inner_def split: sum.splits)
next
  case False
  obtain out where "wc_match_fragment (t @ [NUL]) (length t) w 0 = Inr out" "fragment_spec t w 0 out"
    using fragment_correct [OF refl, of 0 t "[NUL]" w] by auto
  moreover obtain r w' i' where "out = (r, w', i')" by (metis prod.exhaust)
  ultimately have fr: "wc_match_fragment (t @ [NUL]) (length t) w 0 = Inr (r, w', i')" "fragment_spec t w 0 (r, w', i')"
    by simp_all
  have eq: "wc_match w t = (if r \<le> 0 then Inr r else wc_match_loop (t @ [NUL]) (length t) w' i')"
    using False fr(1) by (simp add: wc_match_def wc_match_inner_def)
  show ?thesis
  proof (cases "r = 1")
    case True
    then have f: "i' \<le> length t" "w' = [] \<or> hd w' = CHR ''*''" using fr(2) by (auto simp: fragment_spec_def)
    then show ?thesis using loop_correct [OF refl assms f] eq True fr(2) glob_rigid [of _ t] parse_error_negative [of w]
      by (auto simp: fragment_spec_def split: sum.splits if_splits)
  next
    case False
    then have "r \<le> 0" using fr(2) parse_error_negative [of w]
      by (auto simp: fragment_spec_def split: sum.splits if_splits)
    then show ?thesis using eq False fr(2) glob_rigid [of _ t]
      by (auto simp: fragment_spec_def split: sum.splits if_splits)
  qed
qed

section \<open>Unescaping\<close>

lemma unescape_literal:
  "wc_unescape w = Some s \<Longrightarrow> wc_parse w = Inl (- WC_TRAILINGBACKSLASH) \<or> wc_parse w = Inr (map Lit s)"
proof (induction w arbitrary: s rule: wc_unescape.induct)
  case (2 c w)
  show ?case
  proof (cases "c = backslash")
    case True
    show ?thesis
    proof (cases w)
      case Nil
      then show ?thesis using True by (simp add: wc_parse.simps [of "[backslash]"] parse_tok_def)
    next
      case (Cons d w')
      then obtain s' where s': "s = d # s'" "wc_unescape w' = Some s'" using 2 True by auto
      have "wc_parse (c # w) = map_sum id (Cons (Lit d)) (wc_parse w')"
        using True Cons by (simp add: wc_parse.simps [of "backslash # d # w'"] parse_tok_def)
      then show ?thesis using "2.IH"(1) [OF True Cons s'(2)] s'(1) by auto
    qed
  next
    case False
    then have ord: "\<not> (c = CHR ''*'' \<or> c = CHR ''?'' \<or> c = CHR ''['' \<or> c = CHR '']'')" using "2.prems" by (auto split: if_splits)
    then obtain s' where s': "s = c # s'" "wc_unescape w = Some s'" using 2 False by auto
    have "wc_parse (c # w) = map_sum id (Cons (Lit c)) (wc_parse w)"
      using False ord by (simp add: wc_parse.simps [of "c # w"] parse_tok_def)
    then show ?thesis using "2.IH"(2) [OF False ord s'(2)] s'(1) by auto
  qed
qed simp

lemma glob_literal: "glob (map Lit s) t \<longleftrightarrow> t = s"
proof (induction s arbitrary: t)
  case (Cons c s)
  then show ?case by (cases t) auto
qed simp

lemma wc_unescape_matches_itself:
  assumes "wc_unescape w = Some s" "wc_parse w \<noteq> Inl (- WC_TRAILINGBACKSLASH)" "NUL \<notin> set t"
  shows "wc_match w t = Inr (if t = s then 1 else 0)"
  using inner_correct [OF assms(3), of w] unescape_literal [OF assms(1)] assms(2) by (auto simp: glob_literal)

section \<open>Properties\<close>

text \<open>
  C12.  On a target that is a C string the matcher terminates, reads only the string, and answers:
  1 or 0 as the wildcard means, when its syntax is right; the code of the first syntax error, or 0, when it is not.
\<close>

theorem wc_match_decides_glob:
  assumes "NUL \<notin> set t"
  shows "case wc_parse w of
      Inr ts \<Rightarrow> wc_match w t = Inr (if glob ts t then 1 else 0)
    | Inl e \<Rightarrow> e < 0 \<and> (wc_match w t = Inr e \<or> wc_match w t = Inr 0)"
  using inner_correct [OF assms, of w] parse_error_negative [of w] by (auto split: sum.splits)

theorem wc_match_decides_glob_witness: "wc_match ''?b*r?'' ''abracadabra'' = Inr 1"
proof -
  have "wc_parse ''?b*r?'' = Inr [AnyChar, Lit CHR ''b'', Star, Lit CHR ''r'', AnyChar]"
    by (simp add: wc_parse.simps parse_tok_def)
  then show ?thesis using wc_match_decides_glob [of "''abracadabra''" "''?b*r?''"] by simp
qed

text \<open>
  C40.  \<open>wc_match_pl\<close> takes its end of string from a length, but still looks for a terminating NUL: on any
  region without a NUL, the pattern \<open>*\<close> followed by a character that does not occur in it makes the
  search read beyond the region.
\<close>

theorem wc_match_pl_overreads:
  assumes "NUL \<notin> set M" "c \<notin> set M" "c \<notin> {CHR ''*'', CHR ''?'', CHR ''['', backslash}"
  shows "wc_match_pl [CHR ''*'', c] M (length M) = Inl OutOfBounds"
proof -
  have miss: "wc_match_fragment M (length M) [c] i = Inr (0, [c], i)" if "i < length M" for i
    using that assms(2,3) nth_mem [OF that]
    by (subst wc_match_fragment.simps) (auto simp: wc_step_def)
  have nn: "M ! i \<noteq> NUL" if "i < length M" for i
  proof
    assume "M ! i = NUL"
    then show False using nth_mem [OF that] assms(1) by simp
  qed
  have "wc_search M (length M) [c] i = Inl OutOfBounds" if "i \<le> length M" for i
    using that
  proof (induction "length M - i" arbitrary: i)
    case (Suc n)
    then have "wc_search M (length M) [c] (i + 1) = Inl OutOfBounds" by simp
    then show ?case using Suc.hyps(2) miss [of i] nn [of i] by (subst wc_search.simps) simp
  qed (simp add: wc_search.simps)
  then have "wc_match_loop M (length M) [CHR ''*'', c] 0 = Inl OutOfBounds"
    using assms(3) by (simp add: wc_match_loop.simps [of M _ "[CHR ''*'', c]"])
  then show ?thesis by (simp add: wc_match_pl_def wc_match_inner_def at_def)
qed

theorem wc_match_pl_overreads_witness: "wc_match_pl ''*z'' ''abc'' 3 = Inl OutOfBounds"
  using wc_match_pl_overreads [of "''abc''" "CHR ''z''"] by (simp add: numeral_3_eq_3)

end
