(* ===== verification/Crc.thy ===== *)
theory Crc
  imports Prelude
begin

text \<open>
  The CRC of SSH-1 (\<open>sshcrc.c\<close>): the multiplication by \<open>x ^ 4\<close> that avoids a table, and its
  equivalence with the shift register that takes the message one bit at a time.
\<close>

section \<open>The code\<close>

definition crc32_shift_4 :: "u32 \<Rightarrow> u32" where
  "crc32_shift_4 v =
     (let a = 0x11111044; b = 0x08840020; c = 0x04220000; m = v AND 0xF
      in drop_bit 4 v XOR (a * m) XOR (b * m) XOR (c * m))"

definition crc32_shift_8 :: "u32 \<Rightarrow> u32" where
  "crc32_shift_8 v = crc32_shift_4 (crc32_shift_4 v)"

fun crc32_update :: "u32 \<Rightarrow> byte list \<Rightarrow> u32" where
  "crc32_update crc [] = crc"
| "crc32_update crc (b # p) = crc32_update (crc32_shift_8 (crc XOR ucast b)) p"

definition crc32_ssh1 :: "byte list \<Rightarrow> u32" where
  "crc32_ssh1 data = crc32_update 0 data"

definition crc32_rfc1662 :: "byte list \<Rightarrow> u32" where
  "crc32_rfc1662 data = crc32_update 0xFFFFFFFF data XOR 0xFFFFFFFF"

section \<open>The shift register\<close>

text \<open>Multiplication by \<open>x\<close> modulo the polynomial, in the reversed representation.\<close>

definition times_x :: "u32 \<Rightarrow> u32" where
  "times_x v = drop_bit 1 v XOR (if bit v 0 then 0xEDB88320 else 0)"

definition feed_bit :: "u32 \<Rightarrow> bool \<Rightarrow> u32" where
  "feed_bit v d = times_x (v XOR of_bool d)"

definition bits_of :: "byte \<Rightarrow> bool list" where
  "bits_of b = map (bit b) [0..<8]"

lemma times_x_linear: "times_x (v XOR w) = times_x v XOR times_x w"
proof -
  have "drop_bit 1 (v XOR w) = drop_bit 1 v XOR drop_bit 1 w" by (rule drop_bit_xor)
  then show ?thesis by (auto simp: times_x_def bit_xor_iff xor.assoc xor.left_commute)
qed

lemma times_x_pow_linear: "(times_x ^^ n) (v XOR w) = (times_x ^^ n) v XOR (times_x ^^ n) w"
  by (induction n) (simp_all add: times_x_linear)

lemma times_x_shift: "(\<forall>i<n. \<not> bit v i) \<Longrightarrow> (times_x ^^ n) v = drop_bit n v"
proof (induction n)
  case (Suc n)
  then have "(times_x ^^ Suc n) v = times_x (drop_bit n v)" by simp
  also have "\<dots> = drop_bit (Suc n) v" using Suc.prems by (simp add: times_x_def bit_drop_bit_eq)
  finally show ?case .
qed simp

lemma low_nibble:
  fixes m :: u32
  assumes "m = v AND 0xF"
  shows "m \<in> {0, 1, 2, 3, 4, 5, 6, 7, 8, 9, 10, 11, 12, 13, 14, 15}"
proof -
  have "m = take_bit 4 v" using assms by (simp add: take_bit_eq_mask mask_eq_exp_minus_1)
  then have "unat m < 16" by (simp add: unsigned_take_bit_eq take_bit_nat_def)
  then have "unat m \<in> set [0..<16]" by simp
  then have "m \<in> of_nat ` set [0..<16]" by (intro image_eqI [of _ _ "unat m"]) simp_all
  then show ?thesis by (simp add: upt_rec)
qed

lemma crc32_shift_4_register: "crc32_shift_4 v = (times_x ^^ 4) v"
proof -
  define m where "m = v AND 0xF"
  define h where "h = push_bit 4 (drop_bit 4 v)"
  have "m = take_bit 4 v" by (simp add: m_def take_bit_eq_mask mask_eq_exp_minus_1)
  then have split: "v = h XOR m" by (auto simp: h_def bit_simps intro!: bit_word_eqI)
  have "(times_x ^^ 4) h = drop_bit 4 h" by (rule times_x_shift) (simp add: h_def bit_push_bit_iff)
  also have "\<dots> = drop_bit 4 v"
    by (rule bit_word_eqI) (auto simp: h_def bit_simps dest: bit_imp_le_length)
  finally have hi: "(times_x ^^ 4) h = drop_bit 4 v" .
  have lo: "(times_x ^^ 4) m = 0x11111044 * m XOR 0x08840020 * m XOR 0x04220000 * m"
  proof -
    have "(times_x ^^ 4) m = times_x (times_x (times_x (times_x m)))" by (simp add: eval_nat_numeral)
    then show ?thesis using low_nibble [OF m_def] by (elim insertE emptyE) (simp_all add: times_x_def)
  qed
  have "(times_x ^^ 4) v = drop_bit 4 v XOR (0x11111044 * m XOR 0x08840020 * m XOR 0x04220000 * m)"
    using times_x_pow_linear [of 4 h m] unfolding hi lo split [symmetric] .
  then show ?thesis by (simp add: crc32_shift_4_def Let_def xor.assoc flip: m_def)
qed

lemma crc32_shift_8_register: "crc32_shift_8 v = (times_x ^^ 8) v"
  using funpow_add [of 4 4 times_x] by (simp add: crc32_shift_8_def crc32_shift_4_register)

text \<open>Adding a whole byte first is feeding its bits one by one: the later bits sit above the register's low end.\<close>

lemma feed_bits:
  "n \<le> 32 \<Longrightarrow> foldl feed_bit v (map (bit w) [0..<n]) = (times_x ^^ n) (v XOR take_bit n w)" for w :: u32
proof (induction n)
  case (Suc n)
  have "take_bit (Suc n) w = take_bit n w XOR push_bit n (of_bool (bit w n))"
    by (rule bit_word_eqI) (auto simp: bit_simps less_Suc_eq)
  then have "(times_x ^^ Suc n) (v XOR take_bit (Suc n) w) =
      times_x ((times_x ^^ n) (v XOR take_bit n w) XOR (times_x ^^ n) (push_bit n (of_bool (bit w n))))"
    by (simp add: times_x_pow_linear xor.assoc)
  also have "(times_x ^^ n) (push_bit n (of_bool (bit w n))) = drop_bit n (push_bit n (of_bool (bit w n)))"
    by (rule times_x_shift) (simp add: bit_push_bit_iff)
  also have "\<dots> = of_bool (bit w n)" using Suc.prems by (auto simp: bit_simps intro!: bit_word_eqI)
  finally show ?case using Suc by (simp add: feed_bit_def)
qed simp

lemma feed_byte: "foldl feed_bit v (bits_of b) = crc32_shift_8 (v XOR ucast b)"
proof -
  have "bits_of b = map (bit (ucast b :: u32)) [0..<8]" by (auto simp: bits_of_def bit_ucast_iff)
  moreover have "take_bit 8 (ucast b :: u32) = ucast b"
    using bit_imp_le_length [of b] by (auto simp: bit_simps intro!: bit_word_eqI)
  ultimately show ?thesis using feed_bits [of 8 v "ucast b"] by (simp add: crc32_shift_8_register)
qed

lemma crc32_update_serial: "crc32_update v p = foldl feed_bit v (concat (map bits_of p))"
  by (induction p arbitrary: v) (simp_all add: feed_byte)

text \<open>
  C25.  The table-free CRC of SSH-1, and the RFC 1662 variant, are the bit-serial division by the CRC-32
  polynomial, on every message.
\<close>

theorem crc32_is_bit_serial:
  "crc32_ssh1 data = foldl feed_bit 0 (concat (map bits_of data)) \<and>
   crc32_rfc1662 data = NOT (foldl feed_bit 0xFFFFFFFF (concat (map bits_of data)))"
proof -
  have "v XOR 0xFFFFFFFF = NOT v" for v :: u32
  proof -
    have "(0xFFFFFFFF :: u32) = - 1" by simp
    then show ?thesis by (simp only:) (auto simp: bit_simps intro!: bit_word_eqI)
  qed
  then show ?thesis by (simp add: crc32_ssh1_def crc32_rfc1662_def crc32_update_serial)
qed

end
