(* ===== verification/Cipher.thy ===== *)
theory Cipher
  imports Prelude
begin

text \<open>
  The interface of the symmetric ciphers (\<open>ssh_cipheralg\<close> in \<open>ssh.h\<close>) and what a pair of
  contexts, one encrypting and one decrypting, promises.  The theories of the ciphers
  interpret the locale; the binary packet protocol relies on it.
\<close>

record 'c ssh_cipheralg =
  cipher_new :: 'c
  cipher_setiv :: "'c \<Rightarrow> byte list \<Rightarrow> 'c res"
  cipher_setkey :: "'c \<Rightarrow> byte list \<Rightarrow> 'c res"
  cipher_encrypt :: "'c \<Rightarrow> byte list \<Rightarrow> ('c \<times> byte list) res"
  cipher_decrypt :: "'c \<Rightarrow> byte list \<Rightarrow> ('c \<times> byte list) res"
  cipher_encrypt_length :: "'c \<Rightarrow> byte list \<Rightarrow> u64 \<Rightarrow> ('c \<times> byte list) res"
  cipher_decrypt_length :: "'c \<Rightarrow> byte list \<Rightarrow> u64 \<Rightarrow> ('c \<times> byte list) res"
  blksize :: nat
  padded_keybytes :: nat
  is_cbc :: bool
  separate_length :: bool

text \<open>The table entries left null.\<close>

definition no_length_crypt :: "'c \<Rightarrow> byte list \<Rightarrow> u64 \<Rightarrow> ('c \<times> byte list) res" where
  "no_length_crypt c b seq = Inl NullDeref"

text \<open>A new context, keyed and given its IV, as every user of a cipher sets it up.\<close>

definition cipher_setup :: "'c ssh_cipheralg \<Rightarrow> byte list \<Rightarrow> byte list \<Rightarrow> 'c res" where
  "cipher_setup calg key iv =
     res_bind (cipher_setkey calg (cipher_new calg) key) (\<lambda>c. cipher_setiv calg c iv)"

text \<open>What the holder of one table encrypts under a key and IV, the holder of another decrypts.\<close>

definition cipher_recovers :: "'c ssh_cipheralg \<Rightarrow> 'c ssh_cipheralg \<Rightarrow> byte list \<Rightarrow> byte list \<Rightarrow> byte list \<Rightarrow> bool" where
  "cipher_recovers alg alg' key iv p \<longleftrightarrow>
     (\<exists>e d e' d' c. cipher_setup alg key iv = Inr e \<and> cipher_setup alg' key iv = Inr d \<and>
       cipher_encrypt alg e p = Inr (e', c) \<and> cipher_decrypt alg' d c = Inr (d', p))"

text \<open>
  The two ends of a connection use tables that differ at most in the memory their contexts are allocated
  in; \<open>sync e d\<close> says that \<open>d\<close> decrypts what \<open>e\<close> encrypts.
\<close>

locale cipher_provider =
  fixes calg calg' :: "'c ssh_cipheralg"
    and sync :: "'c \<Rightarrow> 'c \<Rightarrow> bool"
  assumes same_table: "calg' = calg\<lparr>cipher_new := cipher_new calg'\<rparr>"
    and blksize_pos: "0 < blksize calg"
    and setup_sync: "length key = padded_keybytes calg \<Longrightarrow> blksize calg \<le> length iv \<Longrightarrow>
      \<exists>e d. cipher_setup calg key iv = Inr e \<and> cipher_setup calg' key iv = Inr d \<and> sync e d"
    and encrypt_sync: "sync e d \<Longrightarrow> blksize calg dvd length p \<Longrightarrow>
      \<exists>e' d' c. cipher_encrypt calg e p = Inr (e', c) \<and> length c = length p \<and>
        cipher_decrypt calg d c = Inr (d', p) \<and> sync e' d'"
    and decrypt_append: "blksize calg dvd length c1 \<Longrightarrow> blksize calg dvd length c2 \<Longrightarrow>
      cipher_decrypt calg d (c1 @ c2) = res_bind (cipher_decrypt calg d c1) (\<lambda>(d, p1).
        res_bind (cipher_decrypt calg d c2) (\<lambda>(d, p2). Inr (d, p1 @ p2)))"
    and decrypt_length: "cipher_decrypt calg d c = Inr (d', p) \<Longrightarrow> length p = length c"
    and decrypt_empty: "cipher_decrypt calg d [] = Inr (d, [])"
    and decrypt_total: "sync e d \<Longrightarrow> blksize calg dvd length c \<Longrightarrow>
      \<exists>e' d' p. cipher_decrypt calg d c = Inr (d', p) \<and> sync e' d'"
    and length_sync: "separate_length calg \<Longrightarrow> sync e d \<Longrightarrow> length b = 4 \<Longrightarrow>
      \<exists>e' d' c. cipher_encrypt_length calg e b seq = Inr (e', c) \<and> length c = 4 \<and>
        cipher_decrypt_length calg d c seq = Inr (d', b) \<and> sync e' d'"
begin

lemma decrypting_table:
  "cipher_decrypt calg' = cipher_decrypt calg" "cipher_decrypt_length calg' = cipher_decrypt_length calg"
  "blksize calg' = blksize calg" "is_cbc calg' = is_cbc calg" "separate_length calg' = separate_length calg"
  by (subst same_table, simp)+

text \<open>A ciphertext decrypted in two parts.\<close>

lemma decrypt_parts:
  assumes "cipher_decrypt calg d (c1 @ c2) = Inr (d', p)" "blksize calg dvd length c1" "blksize calg dvd length c2"
  shows "\<exists>d1. cipher_decrypt calg d c1 = Inr (d1, take (length c1) p) \<and>
    cipher_decrypt calg d1 c2 = Inr (d', drop (length c1) p)"
proof -
  obtain d1 p1 p2 where *: "cipher_decrypt calg d c1 = Inr (d1, p1)" "cipher_decrypt calg d1 c2 = Inr (d', p2)" "p = p1 @ p2"
    using assms(1) unfolding decrypt_append [OF assms(2,3)] by (auto simp: res_bind_eq_Inr)
  then show ?thesis using decrypt_length [OF *(1)] by auto
qed

text \<open>A message through a fresh pair of contexts.\<close>

lemma encrypt_decrypt_setup:
  assumes "length key = padded_keybytes calg" "blksize calg \<le> length iv" "blksize calg dvd length p"
  shows "cipher_recovers calg calg' key iv p"
  using setup_sync [OF assms(1,2)] encrypt_sync [OF _ assms(3)] unfolding decrypting_table cipher_recovers_def by meson

end

section \<open>Ciphers that work on 64-bit blocks\<close>

text \<open>
  The loop of the DES modes: load, transform and store eight bytes at a time; a shorter rest would
  be read and written beyond the data.
\<close>

function run_blocks :: "('c \<Rightarrow> byte list \<Rightarrow> 'c \<times> byte list) \<Rightarrow> 'c \<Rightarrow> byte list \<Rightarrow> ('c \<times> byte list) res" where
  "run_blocks f ctx data =
     (if data = [] then Inr (ctx, [])
      else if length data < 8 then Inl OutOfBounds
      else case f ctx (take 8 data) of (ctx', out) \<Rightarrow>
        (case run_blocks f ctx' (drop 8 data) of Inl e \<Rightarrow> Inl e | Inr (c, rest) \<Rightarrow> Inr (c, out @ rest)))"
  by pat_completeness auto
termination
  by (relation "measure (\<lambda>(f, ctx, data). length data)") auto

declare run_blocks.simps [simp del]

lemma run_blocks_Nil [simp]: "run_blocks f ctx [] = Inr (ctx, [])"
  by (simp add: run_blocks.simps)

lemma run_blocks_append:
  assumes "8 dvd length a"
  shows "run_blocks f ctx (a @ b) = res_bind (run_blocks f ctx a) (\<lambda>(ctx, p). res_bind (run_blocks f ctx b) (\<lambda>(ctx, q). Inr (ctx, p @ q)))"
  using assms
proof (induction "length a" arbitrary: a ctx rule: less_induct)
  case less
  show ?case
  proof (cases "a = []")
    case True
    then show ?thesis by (cases "run_blocks f ctx b") auto
  next
    case False
    then have l: "8 \<le> length a" using less.prems by (meson dvd_imp_le length_greater_0_conv)
    obtain c1 o1 where s: "f ctx (take 8 a) = (c1, o1)" by (meson surj_pair)
    have "8 dvd length (drop 8 a)" using less.prems l by (simp add: dvd_minus_self)
    then have IH: "run_blocks f c1 (drop 8 a @ b) = res_bind (run_blocks f c1 (drop 8 a)) (\<lambda>(ctx, p).
        res_bind (run_blocks f ctx b) (\<lambda>(ctx, q). Inr (ctx, p @ q)))"
      using less.hyps [of "drop 8 a" c1] l by simp
    have "run_blocks f ctx (a @ b) = (case run_blocks f c1 (drop 8 a @ b) of Inl e \<Rightarrow> Inl e | Inr (c, rest) \<Rightarrow> Inr (c, o1 @ rest))"
      "run_blocks f ctx a = (case run_blocks f c1 (drop 8 a) of Inl e \<Rightarrow> Inl e | Inr (c, rest) \<Rightarrow> Inr (c, o1 @ rest))"
      using False l s by (simp_all add: run_blocks.simps [of f ctx])
    then show ?thesis unfolding IH
      by (auto simp: res_bind_def split: sum.splits prod.splits)
  qed
qed

locale block_mode =
  fixes enc dec :: "'c \<Rightarrow> byte list \<Rightarrow> 'c \<times> byte list"
    and sync :: "'c \<Rightarrow> 'c \<Rightarrow> bool"
  assumes out_length: "length b = 8 \<Longrightarrow> length (snd (enc e b)) = 8" "length b = 8 \<Longrightarrow> length (snd (dec e b)) = 8"
    and step_inverse: "sync e d \<Longrightarrow> length b = 8 \<Longrightarrow> snd (dec d (snd (enc e b))) = b"
    and step_sync: "sync e d \<Longrightarrow> length b = 8 \<Longrightarrow> sync (fst (enc e b)) (fst (dec d (snd (enc e b))))"
    and dec_sync: "sync e d \<Longrightarrow> length b = 8 \<Longrightarrow> \<exists>e'. sync e' (fst (dec d b))"
begin

lemma run_blocks_dec_total:
  "sync e d \<Longrightarrow> 8 dvd length c \<Longrightarrow> \<exists>e' d' p. run_blocks dec d c = Inr (d', p) \<and> sync e' d'"
proof (induction "length c" arbitrary: c e d rule: less_induct)
  case less
  show ?case
  proof (cases "c = []")
    case False
    then have l: "8 \<le> length c" using less.prems(2) by (meson dvd_imp_le length_greater_0_conv)
    obtain d1 o1 where s: "dec d (take 8 c) = (d1, o1)" by (meson surj_pair)
    then obtain e1 where "sync e1 d1" using dec_sync [OF less.prems(1), of "take 8 c"] l by auto
    moreover have "8 dvd length (drop 8 c)" using less.prems(2) l by (simp add: dvd_minus_self)
    moreover have "length (drop 8 c) < length c" using l by simp
    ultimately obtain e' d' p where "run_blocks dec d1 (drop 8 c) = Inr (d', p)" "sync e' d'"
      using less.hyps [of "drop 8 c" e1 d1] by blast
    then show ?thesis using False l s by (subst run_blocks.simps) auto
  qed (use less.prems in auto)
qed


lemma run_blocks_dec_length: "run_blocks dec d c = Inr (d', p) \<Longrightarrow> length p = length c"
proof (induction "length c" arbitrary: c d d' p rule: less_induct)
  case less
  show ?case
  proof (cases "c = []")
    case False
    obtain c1 o1 where s: "dec d (take 8 c) = (c1, o1)" by (meson surj_pair)
    from less.prems False have l: "8 \<le> length c" by (subst (asm) run_blocks.simps) (simp split: if_splits)
    then obtain q where q: "run_blocks dec c1 (drop 8 c) = Inr (d', q)" "p = o1 @ q"
      using less.prems False s by (subst (asm) run_blocks.simps) (auto split: sum.splits)
    have "length q = length (drop 8 c)" using less.hyps [OF _ q(1)] l by simp
    then show ?thesis using q(2) out_length(2) [of "take 8 c" d] s l by simp
  qed (use less.prems in simp)
qed

lemma run_blocks_inverse:
  "sync e d \<Longrightarrow> 8 dvd length p \<Longrightarrow>
     \<exists>e' d' c. run_blocks enc e p = Inr (e', c) \<and> length c = length p \<and> run_blocks dec d c = Inr (d', p) \<and> sync e' d'"
proof (induction "length p" arbitrary: p e d rule: less_induct)
  case less
  show ?case
  proof (cases "p = []")
    case False
    then have l: "8 \<le> length p" using less.prems(2) by (meson dvd_imp_le length_greater_0_conv)
    let ?b = "take 8 p"
    have b: "length ?b = 8" using l by simp
    obtain e1 c1 where s: "enc e ?b = (e1, c1)" by (meson surj_pair)
    have c1: "length c1 = 8" using out_length(1) [OF b, of e] s by simp
    obtain d1 where d1: "dec d c1 = (d1, ?b)" "sync e1 d1"
      using step_inverse [OF less.prems(1) b] step_sync [OF less.prems(1) b] s by (cases "dec d c1") auto
    have "8 dvd length (drop 8 p)" using less.prems(2) l by (simp add: dvd_minus_self)
    moreover have "length (drop 8 p) < length p" using l by simp
    ultimately obtain e' d' c where *: "run_blocks enc e1 (drop 8 p) = Inr (e', c)" "length c = length (drop 8 p)"
      "run_blocks dec d1 c = Inr (d', drop 8 p)" "sync e' d'"
      using less.hyps [OF _ d1(2), of "drop 8 p"] by blast
    have "run_blocks enc e p = Inr (e', c1 @ c)" using False l s *(1) by (subst run_blocks.simps) simp
    moreover have "run_blocks dec d (c1 @ c) = Inr (d', ?b @ drop 8 p)"
      using c1 d1(1) *(3) by (subst run_blocks.simps) auto
    ultimately show ?thesis using *(2,4) c1 l by auto
  qed (use less.prems in auto)
qed

end

text \<open>A table whose two functions are such loops provides the interface.\<close>

locale block_cipher = block_mode enc dec sync for enc dec :: "'c \<Rightarrow> byte list \<Rightarrow> 'c \<times> byte list" and sync +
  fixes calg calg' :: "'c ssh_cipheralg"
  assumes table: "cipher_encrypt calg = run_blocks enc" "cipher_decrypt calg = run_blocks dec" "blksize calg = 8"
      "\<not> separate_length calg" "calg' = calg\<lparr>cipher_new := cipher_new calg'\<rparr>"
    and table_setup: "length key = padded_keybytes calg \<Longrightarrow> 8 \<le> length iv \<Longrightarrow>
      \<exists>e d. cipher_setup calg key iv = Inr e \<and> cipher_setup calg' key iv = Inr d \<and> sync e d"

sublocale block_cipher \<subseteq> cipher_provider calg calg' sync
  using run_blocks_inverse run_blocks_append run_blocks_dec_length run_blocks_dec_total table_setup table(5)
  by unfold_locales (auto simp: table(1-4))

end
