(* ===== verification/Ssh2_Bpp.thy ===== *)
theory Ssh2_Bpp
  imports Conf Block_Hash Cipher
begin

text \<open>
  The SSH-2 binary packet protocol (\<open>ssh2bpp.c\<close>, with the helpers it takes from
  \<open>sshcommon.c\<close> and \<open>sshbpp.h\<close>): the layer between the byte streams of the connection and the
  packet queues of the SSH layers.

  \<^item> The state is the record \<open>ssh2_bpp_state\<close>; ciphers, MACs and compressors are their
    function tables with a state each.  Every cipher and every MAC of one record keeps its state
    in one type, as all of them hide behind one pointer type in the source.
  \<^item> \<open>ssh2_bpp_handle_input\<close> is a coroutine.  The places where it can be suspended are the
    values of \<open>resume\<close>, and \<open>bpp_step\<close> runs it from one such place to the next.
  \<^item> Buffers are blocks of their allocated size whose indeterminate bytes are \<open>None\<close>; an access outside
    a block, or a read of an indeterminate byte, faults.
  \<^item> The raw streams are the contents of their buffer chains and the packet queues are lists.
    Errors the layer reports to its owner are appended to \<open>ssh_events\<close>.  Logging, and the calls of
    \<open>ssh_check_frozen\<close> by which the owner adjusts its flow control, are left out.
\<close>

section \<open>Blocks of memory\<close>

definition mem_read :: "byte option list \<Rightarrow> nat \<Rightarrow> nat \<Rightarrow> byte list res" where
  "mem_read blk i n =
     (if i + n \<le> length blk \<and> None \<notin> set (take n (drop i blk))
      then Inr (map the (take n (drop i blk))) else Inl OutOfBounds)"

section \<open>Data transfer statistics\<close>

record DataTransferStatsDirection =
  running :: bool
  expired :: bool
  remaining :: u64

definition dts_consume :: "DataTransferStatsDirection \<Rightarrow> u64 \<Rightarrow> DataTransferStatsDirection" where
  "dts_consume s size_consumed =
     (if running s then
        if remaining s \<le> size_consumed then s\<lparr>running := False, expired := True\<rparr>
        else s\<lparr>remaining := remaining s - size_consumed\<rparr>
      else s)"

definition dts_reset :: "DataTransferStatsDirection \<Rightarrow> u64 \<Rightarrow> DataTransferStatsDirection" where
  "dts_reset s starting_size = s\<lparr>expired := False, remaining := starting_size, running := (starting_size \<noteq> 0)\<rparr>"

section \<open>Packets and message types\<close>

record PktIn =
  in_type :: nat
  in_sequence :: u64
  in_payload :: "byte list"

record PktOut =
  prefix_len :: nat
  out_type :: nat
  minlen :: nat
  out_data :: "byte option list"

abbreviation SSH2_MSG_DISCONNECT :: nat where "SSH2_MSG_DISCONNECT \<equiv> 1"
abbreviation SSH2_MSG_IGNORE :: nat where "SSH2_MSG_IGNORE \<equiv> 2"
abbreviation SSH2_MSG_UNIMPLEMENTED :: nat where "SSH2_MSG_UNIMPLEMENTED \<equiv> 3"
abbreviation SSH2_MSG_NEWKEYS :: nat where "SSH2_MSG_NEWKEYS \<equiv> 21"
abbreviation SSH2_MSG_USERAUTH_SUCCESS :: nat where "SSH2_MSG_USERAUTH_SUCCESS \<equiv> 52"
abbreviation SSH_MSG_NO_TYPE_CODE :: nat where "SSH_MSG_NO_TYPE_CODE \<equiv> 256"

text \<open>The values of the message type macro, in its order.\<close>

definition SSH2_MESSAGE_TYPES :: "nat list" where
  "SSH2_MESSAGE_TYPES = [1, 2, 3, 4, 5, 6, 20, 21, 30, 31, 30, 34, 31, 32, 33, 30, 31, 32, 33, 34, 40, 41,
     30, 31, 32, 30, 31, 50, 51, 52, 53, 60, 60, 60, 61, 60, 61, 63, 64, 65, 66, 80, 81, 82,
     90, 91, 92, 93, 94, 95, 96, 97, 98, 99, 100]"

definition BITMAP_UNIVERSAL :: "nat \<Rightarrow> nat \<Rightarrow> u32" where
  "BITMAP_UNIVERSAL y v = (if y \<le> v \<and> v < y + 32 then push_bit (v - y) 1 else 0)"

definition SSH2_BITMAP_WORD :: "nat \<Rightarrow> u32" where
  "SSH2_BITMAP_WORD y = foldl (\<lambda>w v. w OR BITMAP_UNIVERSAL (32 * y) v) 0 SSH2_MESSAGE_TYPES"

definition valid_bitmap :: "u32 list" where
  "valid_bitmap = map SSH2_BITMAP_WORD [0, 1, 2, 3, 4, 5, 6, 7]"

definition put_pkt :: "PktOut \<Rightarrow> byte list \<Rightarrow> PktOut" where
  "put_pkt pkt d = pkt\<lparr>out_data := out_data pkt @ map Some d\<rparr>"

definition ssh2_bpp_new_pktout :: "nat \<Rightarrow> PktOut" where
  "ssh2_bpp_new_pktout pkt_type =
     \<lparr>prefix_len = 6, out_type = pkt_type, minlen = 0, out_data = replicate 5 None @ [Some (of_nat pkt_type)]\<rparr>"

definition userauth_range :: "nat \<Rightarrow> bool" where
  "userauth_range pkttype \<longleftrightarrow> (word_of_int (int pkttype - 50) :: u32) < 20"

section \<open>State\<close>

record 'z ssh_compression_alg =
  compress_new :: "'z option"
  compress :: "'z \<Rightarrow> byte list \<Rightarrow> int \<Rightarrow> 'z \<times> byte list"
  decompress_new :: "'z option"
  decompress :: "'z \<Rightarrow> byte list \<Rightarrow> 'z \<times> byte list option"

text \<open>No compression: a null compressor, so that the other functions are never called.\<close>

definition ssh_comp_none :: "'z ssh_compression_alg" where
  "ssh_comp_none = \<lparr>compress_new = None, compress = (\<lambda>z d m. (z, [])),
     decompress_new = None, decompress = (\<lambda>z d. (z, None))\<rparr>"

record ('c, 'h, 'z) ssh2_bpp_direction =
  sequence :: u64
  cipher :: "('c ssh_cipheralg \<times> 'c) option"
  mac :: "('h ssh2_macalg \<times> 'h hmac) option"
  etm_mode :: bool
  dir_pending_compression :: "'z ssh_compression_alg option"

datatype resume = Top | CbcMac | CbcBlock | EtmLength | EtmRest | FirstBlock | Rest | WaitNewkeys | Eof | Freed

datatype ssh_event = SwAbort string | RemoteError string | RemoteEof string

record ('c, 'h, 'z) ssh2_bpp_state =
  crState :: resume
  s_len :: int
  s_pad :: nat
  s_payload :: int
  s_packetlen :: nat
  s_maclen :: nat
  s_length :: int
  s_maxlen :: nat
  s_buf :: "byte option list"
  s_data :: "byte option list"
  s_cipherblk :: nat
  stats_in :: DataTransferStatsDirection
  stats_out :: DataTransferStatsDirection
  cbc_ignore_workaround :: bool
  dir_in :: "('c, 'h, 'z) ssh2_bpp_direction"
  dir_out :: "('c, 'h, 'z) ssh2_bpp_direction"
  in_decomp :: "('z ssh_compression_alg \<times> 'z) option"
  out_comp :: "('z ssh_compression_alg \<times> 'z) option"
  is_server :: bool
  pending_newkeys :: bool
  pending_compression :: bool
  seen_userauth_success :: bool
  in_raw :: "byte list"
  out_raw :: "byte list"
  input_eof :: bool
  in_pq :: "PktIn list"
  out_pq :: "PktOut list"
  ic_in_raw :: bool
  ic_out_pq :: bool
  chokes_on_ignore :: bool
  expect_close :: bool
  random_pool :: "nat \<Rightarrow> byte"
  ssh_events :: "ssh_event list"

definition OUR_V2_PACKETLIMIT :: nat where
  "OUR_V2_PACKETLIMIT = 0x9000"

definition new_direction :: "('c, 'h, 'z) ssh2_bpp_direction" where
  "new_direction = \<lparr>sequence = 0, cipher = None, mac = None, etm_mode = False, dir_pending_compression = None\<rparr>"

text \<open>
  The statistics, the random number generator and the raw streams belong to the owner; the state
  itself is cleared.
\<close>

definition ssh2_bpp_new ::
  "DataTransferStatsDirection \<times> DataTransferStatsDirection \<Rightarrow> bool \<Rightarrow> (nat \<Rightarrow> byte) \<Rightarrow> byte list \<Rightarrow> byte list \<Rightarrow>
   ('c, 'h, 'z) ssh2_bpp_state" where
  "ssh2_bpp_new stats server pool raw_in raw_out =
     \<lparr>crState = Top, s_len = 0, s_pad = 0, s_payload = 0, s_packetlen = 0, s_maclen = 0, s_length = 0, s_maxlen = 0,
      s_buf = [], s_data = [], s_cipherblk = 0, stats_in = fst stats, stats_out = snd stats,
      cbc_ignore_workaround = False, dir_in = new_direction, dir_out = new_direction,
      in_decomp = None, out_comp = None, is_server = server, pending_newkeys = False,
      pending_compression = False, seen_userauth_success = False, in_raw = raw_in, out_raw = raw_out,
      input_eof = False, in_pq = [], out_pq = [], ic_in_raw = False, ic_out_pq = False,
      chokes_on_ignore = False, expect_close = False, random_pool = pool, ssh_events = []\<rparr>"

section \<open>New keys\<close>

definition new_cipher :: "'c ssh_cipheralg option \<Rightarrow> byte list \<Rightarrow> byte list \<Rightarrow> ('c ssh_cipheralg \<times> 'c) option res" where
  "new_cipher alg ckey iv = (case alg of None \<Rightarrow> Inr None
     | Some a \<Rightarrow> res_bind (cipher_setup a ckey iv) (\<lambda>c. Inr (Some (a, c))))"

definition new_mac :: "'h ssh2_macalg option \<Rightarrow> byte list \<Rightarrow> ('h ssh2_macalg \<times> 'h hmac) option res" where
  "new_mac alg mac_key = (case alg of None \<Rightarrow> Inr None
     | Some a \<Rightarrow>
         if length mac_key < mac_keylen a then Inl OutOfBounds
         else res_bind (hmac_new (mac_hash a)) (\<lambda>m.
              res_bind (hmac_key (mac_hash a) m (take (mac_keylen a) mac_key)) (\<lambda>m. Inr (Some (a, m)))))"

definition cipher_is_cbc :: "('c ssh_cipheralg \<times> 'c) option \<Rightarrow> bool" where
  "cipher_is_cbc c = (case c of None \<Rightarrow> False | Some (a, _) \<Rightarrow> is_cbc a)"

definition ssh2_bpp_new_outgoing_crypto ::
  "('c, 'h, 'z) ssh2_bpp_state \<Rightarrow> 'c ssh_cipheralg option \<Rightarrow> byte list \<Rightarrow> byte list \<Rightarrow>
   'h ssh2_macalg option \<Rightarrow> bool \<Rightarrow> byte list \<Rightarrow> 'z ssh_compression_alg \<Rightarrow> bool \<Rightarrow> ('c, 'h, 'z) ssh2_bpp_state res" where
  "ssh2_bpp_new_outgoing_crypto s calg ckey iv malg etm mac_key compression delayed_compression =
     res_bind (new_cipher calg ckey iv) (\<lambda>c.
     res_bind (new_mac malg mac_key) (\<lambda>m.
       let delayed = (delayed_compression \<and> \<not> seen_userauth_success s)
       in Inr (s\<lparr>cbc_ignore_workaround := (cipher_is_cbc c \<and> \<not> chokes_on_ignore s),
              dir_out := (dir_out s)\<lparr>cipher := c, etm_mode := etm, mac := m,
                dir_pending_compression := (if delayed then Some compression else None)\<rparr>,
              out_comp := (if delayed then None else map_option (Pair compression) (compress_new compression))\<rparr>)))"

definition ssh2_bpp_new_incoming_crypto ::
  "('c, 'h, 'z) ssh2_bpp_state \<Rightarrow> 'c ssh_cipheralg option \<Rightarrow> byte list \<Rightarrow> byte list \<Rightarrow>
   'h ssh2_macalg option \<Rightarrow> bool \<Rightarrow> byte list \<Rightarrow> 'z ssh_compression_alg \<Rightarrow> bool \<Rightarrow> ('c, 'h, 'z) ssh2_bpp_state res" where
  "ssh2_bpp_new_incoming_crypto s calg ckey iv malg etm mac_key compression delayed_compression =
     res_bind (new_cipher calg ckey iv) (\<lambda>c.
     res_bind (new_mac malg mac_key) (\<lambda>m.
       let delayed = (delayed_compression \<and> \<not> seen_userauth_success s)
       in Inr (s\<lparr>dir_in := (dir_in s)\<lparr>cipher := c, etm_mode := etm, mac := m,
                dir_pending_compression := (if delayed then Some compression else None)\<rparr>,
              in_decomp := (if delayed then None else map_option (Pair compression) (decompress_new compression)),
              pending_newkeys := False, ic_in_raw := True\<rparr>)))"

definition ssh2_bpp_rekey_inadvisable :: "('c, 'h, 'z) ssh2_bpp_state \<Rightarrow> bool" where
  "ssh2_bpp_rekey_inadvisable s = pending_compression s"

text \<open>The log messages dereference the new objects, so a null one is a fault.\<close>

definition ssh2_bpp_enable_pending_compression :: "('c, 'h, 'z) ssh2_bpp_state \<Rightarrow> ('c, 'h, 'z) ssh2_bpp_state res" where
  "ssh2_bpp_enable_pending_compression s =
     res_bind (case dir_pending_compression (dir_in s) of None \<Rightarrow> Inr s
       | Some alg \<Rightarrow> (case decompress_new alg of None \<Rightarrow> Inl NullDeref
         | Some z \<Rightarrow> Inr (s\<lparr>in_decomp := Some (alg, z), dir_in := (dir_in s)\<lparr>dir_pending_compression := None\<rparr>\<rparr>))) (\<lambda>s.
     case dir_pending_compression (dir_out s) of None \<Rightarrow> Inr s
       | Some alg \<Rightarrow> (case compress_new alg of None \<Rightarrow> Inl NullDeref
         | Some z \<Rightarrow> Inr (s\<lparr>out_comp := Some (alg, z), dir_out := (dir_out s)\<lparr>dir_pending_compression := None\<rparr>\<rparr>)))"


section \<open>Receiving\<close>

text \<open>The length a direction's cipher rounds packets to, and the length of its MAC.\<close>

definition dir_cipherblk :: "('c, 'h, 'z) ssh2_bpp_direction \<Rightarrow> nat" where
  "dir_cipherblk d = (let n = (case cipher d of None \<Rightarrow> 8 | Some (a, _) \<Rightarrow> blksize a) in if n < 8 then 8 else n)"

definition dir_maclen :: "('c, 'h, 'z) ssh2_bpp_direction \<Rightarrow> nat" where
  "dir_maclen d = (case mac d of None \<Rightarrow> 0 | Some (a, _) \<Rightarrow> mac_len a)"

definition dir_decrypt :: "('c, 'h, 'z) ssh2_bpp_direction \<Rightarrow> byte list \<Rightarrow> (('c, 'h, 'z) ssh2_bpp_direction \<times> byte list) res" where
  "dir_decrypt d blk = (case cipher d of None \<Rightarrow> Inr (d, blk)
     | Some (a, c) \<Rightarrow> res_bind (cipher_decrypt a c blk) (\<lambda>(c, out). Inr (d\<lparr>cipher := Some (a, c)\<rparr>, out)))"

definition dir_mac_verify :: "('c, 'h, 'z) ssh2_bpp_direction \<Rightarrow> byte list \<Rightarrow> nat \<Rightarrow> (('c, 'h, 'z) ssh2_bpp_direction \<times> bool) res" where
  "dir_mac_verify d blk n = (case mac d of None \<Rightarrow> Inr (d, True)
     | Some (a, m) \<Rightarrow> res_bind (ssh2_mac_verify (mac_hash a) (mac_len a) m blk n (sequence d)) (\<lambda>(m, ok).
         Inr (d\<lparr>mac := Some (a, m)\<rparr>, ok)))"

text \<open>A step of the coroutine: \<open>True\<close> when it goes on, \<open>False\<close> when it returns to its caller.\<close>

type_synonym ('c, 'h, 'z) progress = "(bool \<times> ('c, 'h, 'z) ssh2_bpp_state) res"

definition BPP_READ :: "('c, 'h, 'z) ssh2_bpp_state \<Rightarrow> nat \<Rightarrow>
    (byte list \<Rightarrow> ('c, 'h, 'z) ssh2_bpp_state \<Rightarrow> ('c, 'h, 'z) progress) \<Rightarrow> ('c, 'h, 'z) progress" where
  "BPP_READ s n k =
     (if n \<le> length (in_raw s) then k (take n (in_raw s)) (s\<lparr>in_raw := drop n (in_raw s)\<rparr>)
      else if input_eof s then Inr (True, s\<lparr>crState := Eof\<rparr>)
      else Inr (False, s))"

definition ssh_sw_abort :: "('c, 'h, 'z) ssh2_bpp_state \<Rightarrow> string \<Rightarrow> ('c, 'h, 'z) progress" where
  "ssh_sw_abort s msg = Inr (False, s\<lparr>ssh_events := ssh_events s @ [SwAbort msg], crState := Top\<rparr>)"

definition ensure_buf :: "byte option list \<Rightarrow> nat \<Rightarrow> byte option list" where
  "ensure_buf b n = (if length b < n then b @ replicate (n - length b) None else b)"

definition read_top :: "('c, 'h, 'z) ssh2_bpp_state \<Rightarrow> ('c, 'h, 'z) progress" where
  "read_top s =
     (let d = dir_in s;
          s = s\<lparr>s_maxlen := 0, s_length := 0, s_cipherblk := dir_cipherblk d, s_maclen := dir_maclen d\<rparr>
      in if cipher_is_cbc (cipher d) \<and> mac d \<noteq> None \<and> \<not> etm_mode d then
           Inr (True, s\<lparr>s_buf := ensure_buf (s_buf s) (OUR_V2_PACKETLIMIT + s_maclen s), crState := CbcMac\<rparr>)
         else if mac d \<noteq> None \<and> etm_mode d then
           Inr (True, s\<lparr>s_buf := ensure_buf (s_buf s) 4, crState := EtmLength\<rparr>)
         else Inr (True, s\<lparr>s_buf := ensure_buf (s_buf s) (s_cipherblk s), crState := FirstBlock\<rparr>))"

text \<open>The validity check of \<open>sshcommon.c\<close> answers an unknown message type with \<open>UNIMPLEMENTED\<close>.\<close>

definition pq_push_out :: "('c, 'h, 'z) ssh2_bpp_state \<Rightarrow> PktOut \<Rightarrow> ('c, 'h, 'z) ssh2_bpp_state" where
  "pq_push_out s pkt = s\<lparr>out_pq := out_pq s @ [pkt], ic_out_pq := True\<rparr>"

definition valid_type :: "nat \<Rightarrow> bool" where
  "valid_type t \<longleftrightarrow> \<not> (t < 0x100 \<and> drop_bit (t mod 32) (valid_bitmap ! (t div 32)) AND 1 = 0)"

definition ssh2_bpp_check_unimplemented ::
  "('c, 'h, 'z) ssh2_bpp_state \<Rightarrow> PktIn \<Rightarrow> bool \<times> ('c, 'h, 'z) ssh2_bpp_state" where
  "ssh2_bpp_check_unimplemented s pktin =
     (if \<not> valid_type (in_type pktin)
      then (True, pq_push_out s (put_pkt (ssh2_bpp_new_pktout SSH2_MSG_UNIMPLEMENTED)
                     (PUT_32BIT_MSB_FIRST (ucast (in_sequence pktin)))))
      else (False, s))"

definition ssh2_bpp_queue_disconnect :: "('c, 'h, 'z) ssh2_bpp_state \<Rightarrow> byte list \<Rightarrow> u32 \<Rightarrow> ('c, 'h, 'z) ssh2_bpp_state" where
  "ssh2_bpp_queue_disconnect s msg category =
     (let pkt = put_pkt (ssh2_bpp_new_pktout SSH2_MSG_DISCONNECT) (PUT_32BIT_MSB_FIRST category);
          pkt = put_pkt (put_pkt pkt (PUT_32BIT_MSB_FIRST (of_nat (length msg)))) msg;
          pkt = put_pkt (put_pkt pkt (PUT_32BIT_MSB_FIRST 2)) [101, 110]
      in pq_push_out s pkt)"

text \<open>
  What the three ways of reading a packet share: the payload of the packet in \<open>s_data\<close>, from its
  padding length to the packet queue.
\<close>

definition decompress_payload :: "('c, 'h, 'z) ssh2_bpp_state \<Rightarrow> ('c, 'h, 'z) ssh2_bpp_state res" where
  "decompress_payload s = (case in_decomp s of None \<Rightarrow> Inr s
     | Some (alg, z) \<Rightarrow>
         res_bind (mem_read (s_data s) 5 (nat (s_length s - 5))) (\<lambda>blk.
         case decompress alg z blk of (z, r) \<Rightarrow>
           let s = s\<lparr>in_decomp := Some (alg, z)\<rparr> in
           (case r of None \<Rightarrow> Inr s
            | Some newpayload \<Rightarrow>
                let s = (if s_maxlen s < length newpayload + 5
                         then s\<lparr>s_maxlen := length newpayload + 5, s_data := replicate (length newpayload + 5) None\<rparr> else s)
                in res_bind (mem_write (s_data s) 5 (map Some newpayload)) (\<lambda>d.
                   Inr (s\<lparr>s_length := 5 + int (length newpayload), s_data := d\<rparr>)))))"

definition packet_contents :: "('c, 'h, 'z) ssh2_bpp_state \<Rightarrow> (nat \<times> byte list) res" where
  "packet_contents s =
     (if s_length s \<le> 5 then res_bind (mem_read (s_data s) 5 0) (\<lambda>p. Inr (SSH_MSG_NO_TYPE_CODE, p))
      else res_bind (mem_read (s_data s) 5 1) (\<lambda>t.
           res_bind (mem_read (s_data s) 6 (nat (s_length s - 6))) (\<lambda>p. Inr (unat (hd t), p))))"

definition packet_queued :: "('c, 'h, 'z) ssh2_bpp_state \<Rightarrow> nat \<Rightarrow> ('c, 'h, 'z) progress" where
  "packet_queued s type =
     (if type = SSH2_MSG_NEWKEYS then Inr (False, s\<lparr>pending_newkeys := True, crState := WaitNewkeys\<rparr>)
      else res_bind (if type = SSH2_MSG_USERAUTH_SUCCESS \<and> \<not> is_server s
             then res_bind (ssh2_bpp_enable_pending_compression s) (\<lambda>s. Inr (s\<lparr>seen_userauth_success := True\<rparr>))
             else Inr s) (\<lambda>s.
           let s = (if pending_compression s \<and> userauth_range type
                    then s\<lparr>pending_compression := False, ic_out_pq := True\<rparr> else s)
           in Inr (True, s\<lparr>crState := Top\<rparr>)))"

definition packet_deliver :: "('c, 'h, 'z) ssh2_bpp_state \<Rightarrow> PktIn \<Rightarrow> ('c, 'h, 'z) progress" where
  "packet_deliver s pktin =
     (case ssh2_bpp_check_unimplemented s pktin of (unimplemented, s) \<Rightarrow>
        if unimplemented then Inr (True, s\<lparr>crState := Top\<rparr>)
        else packet_queued (s\<lparr>in_pq := in_pq s @ [pktin]\<rparr>) (in_type pktin))"

definition packet_sized :: "('c, 'h, 'z) ssh2_bpp_state \<Rightarrow> ('c, 'h, 'z) ssh2_bpp_state" where
  "packet_sized s =
     (let s = s\<lparr>s_payload := s_len s - int (s_pad s) - 1\<rparr>;
          s = s\<lparr>s_length := s_payload s + 5\<rparr>;
          s = s\<lparr>stats_in := dts_consume (stats_in s) (of_nat (s_packetlen s))\<rparr>;
          s = s\<lparr>dir_in := (dir_in s)\<lparr>sequence := sequence (dir_in s) + 1\<rparr>\<rparr>
      in s\<lparr>s_length := int (s_packetlen s) - int (s_pad s)\<rparr>)"

definition packet_read :: "('c, 'h, 'z) ssh2_bpp_state \<Rightarrow> ('c, 'h, 'z) progress" where
  "packet_read s =
     res_bind (mem_read (s_data s) 4 1) (\<lambda>pad.
     let s = s\<lparr>s_pad := unat (hd pad)\<rparr>; seq = sequence (dir_in s) in
     if s_pad s < 4 \<or> s_len s - int (s_pad s) < 1 then ssh_sw_abort s ''Invalid padding length on received packet''
     else
       let s = packet_sized s in
       res_bind (assert_res (s_length s \<ge> 0)) (\<lambda>_.
       res_bind (decompress_payload s) (\<lambda>s.
       res_bind (packet_contents s) (\<lambda>(type, payload).
       packet_deliver s \<lparr>in_type = type, in_sequence = seq, in_payload = payload\<rparr>))))"

text \<open>A CBC cipher with a plain MAC: find the end of the packet by checking the MAC after every block.\<close>

definition read_cbc_mac :: "('c, 'h, 'z) ssh2_bpp_state \<Rightarrow> ('c, 'h, 'z) progress" where
  "read_cbc_mac s = BPP_READ s (s_maclen s) (\<lambda>bs s.
     res_bind (mem_write (s_buf s) 0 (map Some bs)) (\<lambda>b.
     case mac (dir_in s) of None \<Rightarrow> Inl NullDeref
     | Some (a, m) \<Rightarrow>
         res_bind (hmac_write (mac_hash a) (hmac_start m) (PUT_32BIT_MSB_FIRST (ucast (sequence (dir_in s))))) (\<lambda>m.
         Inr (True, s\<lparr>s_buf := b, s_packetlen := 0, dir_in := (dir_in s)\<lparr>mac := Some (a, m)\<rparr>, crState := CbcBlock\<rparr>))))"

definition read_cbc_block :: "('c, 'h, 'z) ssh2_bpp_state \<Rightarrow> ('c, 'h, 'z) progress" where
  "read_cbc_block s = BPP_READ s (s_cipherblk s) (\<lambda>bs s.
     res_bind (mem_write (s_buf s) (s_packetlen s + s_maclen s) (map Some bs)) (\<lambda>b.
     res_bind (mem_read b (s_packetlen s) (s_cipherblk s)) (\<lambda>blk.
     res_bind (dir_decrypt (dir_in s) blk) (\<lambda>(d, blk).
     res_bind (mem_write b (s_packetlen s) (map Some blk)) (\<lambda>b.
     case mac d of None \<Rightarrow> Inl NullDeref
     | Some (a, m) \<Rightarrow>
         res_bind (hmac_write (mac_hash a) m blk) (\<lambda>m.
         let s = s\<lparr>s_buf := b, dir_in := d\<lparr>mac := Some (a, m)\<rparr>, s_packetlen := s_packetlen s + s_cipherblk s\<rparr> in
         res_bind (mem_read b (s_packetlen s) (mac_len a)) (\<lambda>candidate.
         res_bind (ssh2_mac_verresult (mac_hash a) (mac_len a) m candidate) (\<lambda>ok.
         res_bind (if ok then res_bind (mem_read b 0 4) (\<lambda>l. Inr (s\<lparr>s_len := toint (GET_32BIT_MSB_FIRST l)\<rparr>)) else Inr s) (\<lambda>s.
         if ok \<and> s_len s = int (s_packetlen s) - 4 then
           let s = s\<lparr>s_maxlen := s_packetlen s + s_maclen s\<rparr>
           in if s_maxlen s \<le> length b then packet_read (s\<lparr>s_data := take (s_maxlen s) b\<rparr>) else Inl OutOfBounds
         else if s_packetlen s \<ge> OUR_V2_PACKETLIMIT then ssh_sw_abort s ''No valid incoming packet found''
         else Inr (True, s))))))))))"

text \<open>Encrypt-then-MAC: the length comes first, in clear or encrypted separately.\<close>

definition etm_length :: "('c, 'h, 'z) ssh2_bpp_direction \<Rightarrow> byte list \<Rightarrow> (('c, 'h, 'z) ssh2_bpp_direction \<times> byte list) res" where
  "etm_length d b = (case cipher d of None \<Rightarrow> Inr (d, b)
     | Some (a, c) \<Rightarrow>
         if separate_length a
         then res_bind (cipher_decrypt_length a c b (sequence d)) (\<lambda>(c, l). Inr (d\<lparr>cipher := Some (a, c)\<rparr>, l))
         else Inr (d, b))"

definition read_etm_length :: "('c, 'h, 'z) ssh2_bpp_state \<Rightarrow> ('c, 'h, 'z) progress" where
  "read_etm_length s = BPP_READ s 4 (\<lambda>bs s.
     res_bind (mem_write (s_buf s) 0 (map Some bs)) (\<lambda>b.
     res_bind (mem_read b 0 4) (\<lambda>four.
     res_bind (etm_length (dir_in s) four) (\<lambda>(d, l).
     let s = s\<lparr>s_buf := b, dir_in := d, s_len := toint (GET_32BIT_MSB_FIRST l)\<rparr> in
     if s_len s < 0 \<or> s_len s > int OUR_V2_PACKETLIMIT \<or> s_len s mod int (s_cipherblk s) \<noteq> 0
     then ssh_sw_abort s ''Incoming packet length field was garbled''
     else
       let s = s\<lparr>s_packetlen := nat (s_len s) + 4\<rparr>
       in res_bind (mem_write (replicate (OUR_V2_PACKETLIMIT + s_maclen s) None) 0 (map Some four)) (\<lambda>data.
          Inr (True, s\<lparr>s_data := data, crState := EtmRest\<rparr>))))))"

definition read_etm_rest :: "('c, 'h, 'z) ssh2_bpp_state \<Rightarrow> ('c, 'h, 'z) progress" where
  "read_etm_rest s = BPP_READ s (s_packetlen s + s_maclen s - 4) (\<lambda>bs s.
     res_bind (mem_write (s_data s) 4 (map Some bs)) (\<lambda>data.
     res_bind (mem_read data 0 (s_packetlen s + s_maclen s)) (\<lambda>whole.
     res_bind (dir_mac_verify (dir_in s) whole (nat (s_len s) + 4)) (\<lambda>(d, ok).
     let s = s\<lparr>s_data := data, dir_in := d\<rparr> in
     if \<not> ok then ssh_sw_abort s ''Incorrect MAC received on packet''
     else
       res_bind (mem_read data 4 (s_packetlen s - 4)) (\<lambda>blk.
       res_bind (dir_decrypt d blk) (\<lambda>(d, blk).
       res_bind (mem_write data 4 (map Some blk)) (\<lambda>data.
       packet_read (s\<lparr>s_data := data, dir_in := d\<rparr>))))))))"

text \<open>Otherwise the first block is decrypted to learn the length.\<close>

definition read_first_block :: "('c, 'h, 'z) ssh2_bpp_state \<Rightarrow> ('c, 'h, 'z) progress" where
  "read_first_block s = BPP_READ s (s_cipherblk s) (\<lambda>bs s.
     res_bind (mem_write (s_buf s) 0 (map Some bs)) (\<lambda>b.
     res_bind (mem_read b 0 (s_cipherblk s)) (\<lambda>blk.
     res_bind (dir_decrypt (dir_in s) blk) (\<lambda>(d, blk).
     res_bind (mem_write b 0 (map Some blk)) (\<lambda>b.
     res_bind (mem_read b 0 4) (\<lambda>l.
     let s = s\<lparr>s_buf := b, dir_in := d, s_len := toint (GET_32BIT_MSB_FIRST l)\<rparr> in
     if s_len s < 0 \<or> s_len s > int OUR_V2_PACKETLIMIT \<or> (s_len s + 4) mod int (s_cipherblk s) \<noteq> 0
     then ssh_sw_abort s ''Incoming packet was garbled on decryption''
     else
       let s = s\<lparr>s_packetlen := nat (s_len s) + 4\<rparr>;
           s = s\<lparr>s_maxlen := s_packetlen s + s_maclen s\<rparr>
       in res_bind (mem_write (replicate (s_maxlen s) None) 0 (map Some blk)) (\<lambda>data.
          Inr (True, s\<lparr>s_data := data, crState := Rest\<rparr>))))))))"

definition read_rest :: "('c, 'h, 'z) ssh2_bpp_state \<Rightarrow> ('c, 'h, 'z) progress" where
  "read_rest s = BPP_READ s (s_packetlen s + s_maclen s - s_cipherblk s) (\<lambda>bs s.
     res_bind (mem_write (s_data s) (s_cipherblk s) (map Some bs)) (\<lambda>data.
     res_bind (mem_read data (s_cipherblk s) (s_packetlen s - s_cipherblk s)) (\<lambda>blk.
     res_bind (dir_decrypt (dir_in s) blk) (\<lambda>(d, blk).
     res_bind (mem_write data (s_cipherblk s) (map Some blk)) (\<lambda>data.
     res_bind (mem_read data 0 (s_packetlen s + s_maclen s)) (\<lambda>whole.
     res_bind (dir_mac_verify d whole (nat (s_len s) + 4)) (\<lambda>(d, ok).
     let s = s\<lparr>s_data := data, dir_in := d\<rparr> in
     if \<not> ok then ssh_sw_abort s ''Incorrect MAC received on packet''
     else packet_read s)))))))"

definition read_eof :: "('c, 'h, 'z) ssh2_bpp_state \<Rightarrow> ('c, 'h, 'z) progress" where
  "read_eof s =
     (if in_pq s \<noteq> [] then Inr (False, s)
      else Inr (False, s\<lparr>crState := Freed, ssh_events := ssh_events s @
        [if expect_close s then RemoteEof ''Remote side closed network connection''
         else RemoteError ''Remote side unexpectedly closed network connection'']\<rparr>))"

definition bpp_step :: "('c, 'h, 'z) ssh2_bpp_state \<Rightarrow> ('c, 'h, 'z) progress" where
  "bpp_step s = (case crState s of
       Top \<Rightarrow> read_top s
     | CbcMac \<Rightarrow> read_cbc_mac s
     | CbcBlock \<Rightarrow> read_cbc_block s
     | EtmLength \<Rightarrow> read_etm_length s
     | EtmRest \<Rightarrow> read_etm_rest s
     | FirstBlock \<Rightarrow> read_first_block s
     | Rest \<Rightarrow> read_rest s
     | WaitNewkeys \<Rightarrow> if pending_newkeys s then Inr (False, s) else Inr (True, s\<lparr>crState := Top\<rparr>)
     | Eof \<Rightarrow> read_eof s
     | Freed \<Rightarrow> Inl NullDeref)"

text \<open>
  The coroutine runs until it returns to its caller.  That it does is not evident from the code (the
  loops read from a stream that others fill) and is proved in the next theory.
\<close>

partial_function (option) ssh2_bpp_handle_input :: "('c, 'h, 'z) ssh2_bpp_state \<Rightarrow> ('c, 'h, 'z) ssh2_bpp_state res option" where
  "ssh2_bpp_handle_input s = (case bpp_step s of
       Inl e \<Rightarrow> Some (Inl e)
     | Inr (go, s') \<Rightarrow> if go then ssh2_bpp_handle_input s' else Some (Inr s'))"

section \<open>Sending\<close>

definition random_read :: "('c, 'h, 'z) ssh2_bpp_state \<Rightarrow> nat \<Rightarrow> ('c, 'h, 'z) ssh2_bpp_state \<times> byte list" where
  "random_read s n = (s\<lparr>random_pool := (\<lambda>i. random_pool s (i + n))\<rparr>, map (random_pool s) [0..<n])"

definition compress_packet :: "('c, 'h, 'z) ssh2_bpp_state \<Rightarrow> PktOut \<Rightarrow> (('c, 'h, 'z) ssh2_bpp_state \<times> byte option list) res" where
  "compress_packet s pkt = (case out_comp s of None \<Rightarrow> Inr (s, out_data pkt)
     | Some (alg, z) \<Rightarrow>
         let minl = int (minlen pkt);
             minl = (if minl \<noteq> 0 then minl - int (dir_maclen (dir_out s)) - 8 else minl)
         in res_bind (mem_read (out_data pkt) 5 (length (out_data pkt) - 5)) (\<lambda>blk.
            case compress alg z blk minl of (z, newpayload) \<Rightarrow>
              Inr (s\<lparr>out_comp := Some (alg, z)\<rparr>, take 5 (out_data pkt) @ map Some newpayload)))"

definition packet_padding :: "('c, 'h, 'z) ssh2_bpp_direction \<Rightarrow> nat \<Rightarrow> nat" where
  "packet_padding d len =
     (let cipherblk = dir_cipherblk d;
          unencrypted_prefix = (if mac d \<noteq> None \<and> etm_mode d then 4 else 0)
      in 4 + (cipherblk - (len - unencrypted_prefix + 4) mod cipherblk) mod cipherblk)"

definition dir_encrypt_length :: "('c, 'h, 'z) ssh2_bpp_direction \<Rightarrow> byte list \<Rightarrow> (('c, 'h, 'z) ssh2_bpp_direction \<times> byte list) res" where
  "dir_encrypt_length d bs = (case cipher d of None \<Rightarrow> Inr (d, bs)
     | Some (a, c) \<Rightarrow>
         if separate_length a
         then res_bind (cipher_encrypt_length a c (take 4 bs) (sequence d)) (\<lambda>(c, l). Inr (d\<lparr>cipher := Some (a, c)\<rparr>, l @ drop 4 bs))
         else Inr (d, bs))"

definition dir_encrypt :: "('c, 'h, 'z) ssh2_bpp_direction \<Rightarrow> byte list \<Rightarrow> (('c, 'h, 'z) ssh2_bpp_direction \<times> byte list) res" where
  "dir_encrypt d blk = (case cipher d of None \<Rightarrow> Inr (d, blk)
     | Some (a, c) \<Rightarrow> res_bind (cipher_encrypt a c blk) (\<lambda>(c, out). Inr (d\<lparr>cipher := Some (a, c)\<rparr>, out)))"

text \<open>The bytes of a packet followed by its MAC, if there is one.\<close>

definition dir_mac_generate :: "('c, 'h, 'z) ssh2_bpp_direction \<Rightarrow> byte list \<Rightarrow> (('c, 'h, 'z) ssh2_bpp_direction \<times> byte list) res" where
  "dir_mac_generate d blk = (case mac d of None \<Rightarrow> Inr (d, blk)
     | Some (a, m) \<Rightarrow> res_bind (ssh2_mac_generate (mac_hash a) (mac_len a) m blk (sequence d)) (\<lambda>(m, out).
         Inr (d\<lparr>mac := Some (a, m)\<rparr>, out)))"

definition seal_packet :: "('c, 'h, 'z) ssh2_bpp_direction \<Rightarrow> byte list \<Rightarrow> (('c, 'h, 'z) ssh2_bpp_direction \<times> byte list) res" where
  "seal_packet d bs =
     res_bind (dir_encrypt_length d bs) (\<lambda>(d, bs).
     if mac d \<noteq> None \<and> etm_mode d then
       res_bind (dir_encrypt d (drop 4 bs)) (\<lambda>(d, body). dir_mac_generate d (take 4 bs @ body))
     else
       res_bind (dir_mac_generate d bs) (\<lambda>(d, out).
       res_bind (dir_encrypt d (take (length bs) out)) (\<lambda>(d, body). Inr (d, body @ drop (length bs) out))))"

definition ssh2_bpp_format_packet_inner ::
  "('c, 'h, 'z) ssh2_bpp_state \<Rightarrow> PktOut \<Rightarrow> (('c, 'h, 'z) ssh2_bpp_state \<times> byte list) res" where
  "ssh2_bpp_format_packet_inner s pkt =
     res_bind (compress_packet s pkt) (\<lambda>(s, data).
     let origlen = length data;
         padding = packet_padding (dir_out s) origlen
     in res_bind (assert_res (padding \<le> 255)) (\<lambda>_.
        case random_read s padding of (s, rnd) \<Rightarrow>
        res_bind (mem_write (data @ map Some rnd) 4 [Some (of_nat padding)]) (\<lambda>data.
        res_bind (mem_write data 0 (map Some (PUT_32BIT_MSB_FIRST (of_nat (origlen + padding - 4))))) (\<lambda>data.
        res_bind (mem_read data 0 (origlen + padding)) (\<lambda>bs.
        res_bind (seal_packet (dir_out s) bs) (\<lambda>(d, wire).
        Inr (s\<lparr>dir_out := d\<lparr>sequence := sequence d + 1\<rparr>,
                stats_out := dts_consume (stats_out s) (of_nat (origlen + padding))\<rparr>, wire)))))))"

text \<open>How long an \<open>IGNORE\<close> must be to bring a packet to its minimum length.\<close>

definition ignore_length :: "('c, 'h, 'z) ssh2_bpp_direction \<Rightarrow> PktOut \<Rightarrow> nat option" where
  "ignore_length d pkt =
     (let block = dir_cipherblk d;
          len = length (out_data pkt) + 4 + (block - 1);
          len = len - len mod block + dir_maclen d
      in if len < minlen pkt
         then Some (nat (int (minlen pkt) - int len - int (dir_maclen d) - 8 - 5))
         else None)"

definition ssh2_bpp_format_packet :: "('c, 'h, 'z) ssh2_bpp_state \<Rightarrow> PktOut \<Rightarrow> ('c, 'h, 'z) ssh2_bpp_state res" where
  "ssh2_bpp_format_packet s pkt =
     res_bind (if minlen pkt > 0 \<and> out_comp s = None then
                 (case ignore_length (dir_out s) pkt of None \<Rightarrow> Inr s
                  | Some n \<Rightarrow>
                      case random_read s n of (s, rnd) \<Rightarrow>
                      let ignore_pkt = put_pkt (put_pkt (ssh2_bpp_new_pktout SSH2_MSG_IGNORE) (PUT_32BIT_MSB_FIRST (of_nat n))) rnd
                      in res_bind (ssh2_bpp_format_packet_inner s ignore_pkt) (\<lambda>(s, wire).
                         Inr (s\<lparr>out_raw := out_raw s @ wire\<rparr>)))
               else Inr s) (\<lambda>s.
     res_bind (ssh2_bpp_format_packet_inner s pkt) (\<lambda>(s, wire). Inr (s\<lparr>out_raw := out_raw s @ wire\<rparr>)))"

fun output_loop :: "('c, 'h, 'z) ssh2_bpp_state \<Rightarrow> int \<Rightarrow> PktOut list \<Rightarrow> ('c, 'h, 'z) ssh2_bpp_state res" where
  "output_loop s n_userauth [] = Inr (s\<lparr>out_pq := []\<rparr>)"
| "output_loop s n_userauth (pkt # pkts) =
     (let n = (if userauth_range (out_type pkt) then n_userauth - 1 else n_userauth) in
      res_bind (ssh2_bpp_format_packet s pkt) (\<lambda>s.
      if n = 0 \<and> dir_pending_compression (dir_out s) \<noteq> None \<and> \<not> is_server s
      then Inr (s\<lparr>pending_compression := True, out_pq := pkts\<rparr>)
      else if out_type pkt = SSH2_MSG_USERAUTH_SUCCESS \<and> is_server s
      then res_bind (ssh2_bpp_enable_pending_compression s) (\<lambda>s. output_loop s n pkts)
      else output_loop s n pkts))"

definition cbc_ignore :: "('c, 'h, 'z) ssh2_bpp_state \<Rightarrow> ('c, 'h, 'z) ssh2_bpp_state res" where
  "cbc_ignore s =
     (case (cipher (dir_out s), mac (dir_out s)) of
        (Some (c, _), Some (m, _)) \<Rightarrow>
          if length (out_raw s) < blksize c + mac_len m
          then ssh2_bpp_format_packet s (put_pkt (ssh2_bpp_new_pktout SSH2_MSG_IGNORE) (PUT_32BIT_MSB_FIRST 0))
          else Inr s
      | _ \<Rightarrow> Inl NullDeref)"

definition ssh2_bpp_handle_output :: "('c, 'h, 'z) ssh2_bpp_state \<Rightarrow> ('c, 'h, 'z) ssh2_bpp_state res" where
  "ssh2_bpp_handle_output s =
     (let n_userauth = int (length (filter (\<lambda>pkt. userauth_range (out_type pkt)) (out_pq s))) in
      if pending_compression s \<and> n_userauth = 0 then Inr s
      else res_bind (if cbc_ignore_workaround s then cbc_ignore s else Inr s) (\<lambda>s.
           output_loop s n_userauth (out_pq s)))"

end
