(* ===== verification/Ssh2_Bpp_Correct.thy ===== *)
theory Ssh2_Bpp_Correct
  imports Ssh2_Bpp
begin

text \<open>
  The input side of the SSH-2 binary packet protocol: it returns on every input, it cannot be made to
  access memory it does not own except in one case of encrypt-then-MAC mode, and what it makes of a
  stream does not depend on how the stream is cut into pieces.
\<close>

section \<open>The coroutine returns\<close>

fun resume_rank :: "resume \<Rightarrow> nat" where
  "resume_rank Top = 3"
| "resume_rank CbcMac = 2"
| "resume_rank CbcBlock = 1"
| "resume_rank EtmLength = 2"
| "resume_rank EtmRest = 4"
| "resume_rank FirstBlock = 2"
| "resume_rank Rest = 4"
| "resume_rank WaitNewkeys = 4"
| "resume_rank Eof = 0"
| "resume_rank Freed = 0"

definition work_left :: "('c, 'h, 'z) ssh2_bpp_state \<Rightarrow> nat" where
  "work_left s = 5 * length (in_raw s) + resume_rank (crState s)"

text \<open>Once past the top of the loop the block size is known, and positive.\<close>

definition live :: "('c, 'h, 'z) ssh2_bpp_state \<Rightarrow> bool" where
  "live s \<longleftrightarrow> crState s = Top \<or> 0 < s_cipherblk s"

lemma dir_cipherblk_pos: "8 \<le> dir_cipherblk d"
  by (simp add: dir_cipherblk_def Let_def)

lemma res_bindE:
  assumes "res_bind m f = Inr y"
  obtains x where "m = Inr x" "f x = Inr y"
  using assms by (auto simp: res_bind_eq_Inr)

text \<open>What the parts of a step leave alone.\<close>

definition same_input :: "('c, 'h, 'z) ssh2_bpp_state \<Rightarrow> ('c, 'h, 'z) ssh2_bpp_state \<Rightarrow> bool" where
  "same_input s s' \<longleftrightarrow> in_raw s' = in_raw s \<and> s_cipherblk s' = s_cipherblk s \<and> input_eof s' = input_eof s \<and>
     ssh_events s' = ssh_events s"

lemma enable_pending_frame:
  "ssh2_bpp_enable_pending_compression s = Inr s' \<Longrightarrow> same_input s s' \<and> crState s' = crState s \<and> pending_newkeys s' = pending_newkeys s"
  unfolding ssh2_bpp_enable_pending_compression_def
  by (elim res_bindE) (auto simp: same_input_def split: option.splits)

lemma packet_queued_frame:
  "packet_queued s t = Inr (go, s') \<Longrightarrow> same_input s s' \<and> crState s' = (if go then Top else WaitNewkeys) \<and> pending_newkeys s' = (pending_newkeys s \<or> \<not> go)"
  unfolding packet_queued_def
  by (auto simp: same_input_def Let_def elim!: res_bindE split: if_splits dest!: enable_pending_frame)

lemma decompress_frame: "decompress_payload s = Inr s' \<Longrightarrow> same_input s s'"
  unfolding decompress_payload_def same_input_def
  by (auto simp: Let_def case_prod_beta elim!: res_bindE split: if_splits option.splits)

lemma packet_deliver_frame:
  "packet_deliver s p = Inr (go, s') \<Longrightarrow> same_input s s' \<and> crState s' = (if go then Top else WaitNewkeys) \<and> (\<not> go \<longrightarrow> pending_newkeys s')"
  by (auto simp: same_input_def packet_deliver_def ssh2_bpp_check_unimplemented_def pq_push_out_def
      split: if_splits dest!: packet_queued_frame)

lemma packet_read_cases:
  assumes "packet_read s = Inr (go, s')"
  obtains (abort) pad where "\<not> go" "s' = s\<lparr>s_pad := pad, ssh_events := ssh_events s @ [SwAbort ''Invalid padding length on received packet''], crState := Top\<rparr>"
    | (deliver) pad s1 p where "decompress_payload (packet_sized (s\<lparr>s_pad := pad\<rparr>)) = Inr s1" "packet_deliver s1 p = Inr (go, s')"
  using assms unfolding packet_read_def
  by (auto simp: Let_def ssh_sw_abort_def elim!: res_bindE split: if_splits)

lemma packet_read_frame:
  assumes "packet_read s = Inr (go, s')"
  shows "in_raw s' = in_raw s \<and> s_cipherblk s' = s_cipherblk s \<and> input_eof s' = input_eof s \<and>
    (go \<longrightarrow> crState s' = Top \<and> ssh_events s' = ssh_events s) \<and>
    (\<not> go \<longrightarrow> crState s' = WaitNewkeys \<and> pending_newkeys s' \<or> ssh_events s' \<noteq> ssh_events s)"
  using assms
proof (cases rule: packet_read_cases)
  case (deliver pad s1 p)
  then show ?thesis using packet_deliver_frame [OF deliver(2)] decompress_frame [OF deliver(1)]
    by (auto simp: same_input_def packet_sized_def Let_def)
qed simp

definition quiet_step :: "('c, 'h, 'z) ssh2_bpp_state \<Rightarrow> ('c, 'h, 'z) ssh2_bpp_state \<Rightarrow> bool" where
  "quiet_step s s' \<longleftrightarrow> ssh_events s' = ssh_events s \<and> input_eof s' = input_eof s \<and> (\<not> input_eof s \<longrightarrow> crState s' \<noteq> Eof)"

text \<open>The bytes the current place waits for.\<close>

fun wanted :: "('c, 'h, 'z) ssh2_bpp_state \<Rightarrow> nat" where
  "wanted s = (case crState s of CbcMac \<Rightarrow> s_maclen s | CbcBlock \<Rightarrow> s_cipherblk s | EtmLength \<Rightarrow> 4
     | EtmRest \<Rightarrow> s_packetlen s + s_maclen s - 4 | FirstBlock \<Rightarrow> s_cipherblk s
     | Rest \<Rightarrow> s_packetlen s + s_maclen s - s_cipherblk s | _ \<Rightarrow> 0)"

text \<open>A step that returns without waiting for bytes has either met \<open>NEWKEYS\<close> or given up on the stream.\<close>

definition stopped :: "('c, 'h, 'z) ssh2_bpp_state \<Rightarrow> ('c, 'h, 'z) ssh2_bpp_state \<Rightarrow> bool" where
  "stopped s s' \<longleftrightarrow> crState s' = WaitNewkeys \<and> pending_newkeys s' \<and> input_eof s' = input_eof s \<or> ssh_events s' \<noteq> ssh_events s"

lemma BPP_READ_cases:
  assumes "BPP_READ s n k = Inr (go, s')"
  obtains (enough) "n \<le> length (in_raw s)" "k (take n (in_raw s)) (s\<lparr>in_raw := drop n (in_raw s)\<rparr>) = Inr (go, s')"
    | (eof) "length (in_raw s) < n" "input_eof s" "go" "s' = s\<lparr>crState := Eof\<rparr>"
    | (wait) "length (in_raw s) < n" "\<not> input_eof s" "\<not> go" "s' = s"
  using assms by (auto simp: BPP_READ_def split: if_splits)


lemma read_cbc_block_progress:
  assumes "read_cbc_block s = Inr (go, s')" "crState s = CbcBlock" "0 < s_cipherblk s"
  shows "s_cipherblk s' = s_cipherblk s \<and> (go \<longrightarrow> work_left s' < work_left s \<and> quiet_step s s') \<and>
    (\<not> go \<longrightarrow> length (in_raw s) < wanted s \<or> stopped s s')"
  using assms(1) unfolding read_cbc_block_def
proof (cases rule: BPP_READ_cases)
  case enough
  then have "s_cipherblk s' = s_cipherblk s" "in_raw s' = drop (s_cipherblk s) (in_raw s)" "go \<longrightarrow> crState s' \<in> {Top, CbcBlock} \<and> ssh_events s' = ssh_events s \<and> input_eof s' = input_eof s"
    "\<not> go \<longrightarrow> stopped s s'"
    using assms(2) by (auto simp: Let_def same_input_def ssh_sw_abort_def stopped_def elim!: res_bindE
        split: if_splits option.splits dest!: packet_read_frame)
  then show ?thesis using assms enough(1) by (auto simp: work_left_def quiet_step_def)
qed (use assms(2) in \<open>auto simp: work_left_def quiet_step_def\<close>)

lemma read_etm_rest_progress:
  assumes "read_etm_rest s = Inr (go, s')" "crState s = EtmRest"
  shows "s_cipherblk s' = s_cipherblk s \<and> (go \<longrightarrow> work_left s' < work_left s \<and> quiet_step s s') \<and>
    (\<not> go \<longrightarrow> length (in_raw s) < wanted s \<or> stopped s s')"
  using assms(1) unfolding read_etm_rest_def
proof (cases rule: BPP_READ_cases)
  case enough
  then have "s_cipherblk s' = s_cipherblk s" "in_raw s' = drop (s_packetlen s + s_maclen s - 4) (in_raw s)" "go \<longrightarrow> crState s' \<in> {Top} \<and> ssh_events s' = ssh_events s \<and> input_eof s' = input_eof s"
    "\<not> go \<longrightarrow> stopped s s'"
    using assms(2) by (auto simp: Let_def same_input_def ssh_sw_abort_def stopped_def elim!: res_bindE
        split: if_splits option.splits dest!: packet_read_frame)
  then show ?thesis using assms enough(1) by (auto simp: work_left_def quiet_step_def)
qed (use assms(2) in \<open>auto simp: work_left_def quiet_step_def\<close>)

lemma read_rest_progress:
  assumes "read_rest s = Inr (go, s')" "crState s = Rest"
  shows "s_cipherblk s' = s_cipherblk s \<and> (go \<longrightarrow> work_left s' < work_left s \<and> quiet_step s s') \<and>
    (\<not> go \<longrightarrow> length (in_raw s) < wanted s \<or> stopped s s')"
  using assms(1) unfolding read_rest_def
proof (cases rule: BPP_READ_cases)
  case enough
  then have "s_cipherblk s' = s_cipherblk s" "in_raw s' = drop (s_packetlen s + s_maclen s - s_cipherblk s) (in_raw s)" "go \<longrightarrow> crState s' \<in> {Top} \<and> ssh_events s' = ssh_events s \<and> input_eof s' = input_eof s"
    "\<not> go \<longrightarrow> stopped s s'"
    using assms(2) by (auto simp: Let_def same_input_def ssh_sw_abort_def stopped_def elim!: res_bindE
        split: if_splits option.splits dest!: packet_read_frame)
  then show ?thesis using assms enough(1) by (auto simp: work_left_def quiet_step_def)
qed (use assms(2) in \<open>auto simp: work_left_def quiet_step_def\<close>)

lemma read_cbc_mac_progress:
  assumes "read_cbc_mac s = Inr (go, s')" "crState s = CbcMac"
  shows "s_cipherblk s' = s_cipherblk s \<and> (go \<longrightarrow> work_left s' < work_left s \<and> quiet_step s s') \<and>
    (\<not> go \<longrightarrow> length (in_raw s) < wanted s \<or> stopped s s')"
  using assms(1) unfolding read_cbc_mac_def
proof (cases rule: BPP_READ_cases)
  case enough
  then have "s_cipherblk s' = s_cipherblk s" "in_raw s' = drop (s_maclen s) (in_raw s)" "go \<longrightarrow> crState s' \<in> {CbcBlock} \<and> ssh_events s' = ssh_events s \<and> input_eof s' = input_eof s"
    "\<not> go \<longrightarrow> stopped s s'"
    using assms(2) by (auto simp: Let_def same_input_def ssh_sw_abort_def stopped_def elim!: res_bindE
        split: if_splits option.splits dest!: packet_read_frame)
  then show ?thesis using assms enough(1) by (auto simp: work_left_def quiet_step_def)
qed (use assms(2) in \<open>auto simp: work_left_def quiet_step_def\<close>)

lemma read_etm_length_progress:
  assumes "read_etm_length s = Inr (go, s')" "crState s = EtmLength"
  shows "s_cipherblk s' = s_cipherblk s \<and> (go \<longrightarrow> work_left s' < work_left s \<and> quiet_step s s') \<and>
    (\<not> go \<longrightarrow> length (in_raw s) < wanted s \<or> stopped s s')"
  using assms(1) unfolding read_etm_length_def
proof (cases rule: BPP_READ_cases)
  case enough
  then have "s_cipherblk s' = s_cipherblk s" "in_raw s' = drop (4) (in_raw s)" "go \<longrightarrow> crState s' \<in> {EtmRest} \<and> ssh_events s' = ssh_events s \<and> input_eof s' = input_eof s"
    "\<not> go \<longrightarrow> stopped s s'"
    using assms(2) by (auto simp: Let_def same_input_def ssh_sw_abort_def stopped_def elim!: res_bindE
        split: if_splits option.splits dest!: packet_read_frame)
  then show ?thesis using assms enough(1) by (auto simp: work_left_def quiet_step_def)
qed (use assms(2) in \<open>auto simp: work_left_def quiet_step_def\<close>)

lemma read_first_block_progress:
  assumes "read_first_block s = Inr (go, s')" "crState s = FirstBlock" "0 < s_cipherblk s"
  shows "s_cipherblk s' = s_cipherblk s \<and> (go \<longrightarrow> work_left s' < work_left s \<and> quiet_step s s') \<and>
    (\<not> go \<longrightarrow> length (in_raw s) < wanted s \<or> stopped s s')"
  using assms(1) unfolding read_first_block_def
proof (cases rule: BPP_READ_cases)
  case enough
  then have "s_cipherblk s' = s_cipherblk s" "in_raw s' = drop (s_cipherblk s) (in_raw s)" "go \<longrightarrow> crState s' \<in> {Rest} \<and> ssh_events s' = ssh_events s \<and> input_eof s' = input_eof s"
    "\<not> go \<longrightarrow> stopped s s'"
    using assms(2) by (auto simp: Let_def same_input_def ssh_sw_abort_def stopped_def elim!: res_bindE
        split: if_splits option.splits dest!: packet_read_frame)
  then show ?thesis using assms enough(1) by (auto simp: work_left_def quiet_step_def)
qed (use assms(2) in \<open>auto simp: work_left_def quiet_step_def\<close>)

lemma bpp_step_progress:
  assumes "live s" "bpp_step s = Inr (go, s')"
  shows "live s' \<and> (go \<longrightarrow> work_left s' < work_left s \<and> quiet_step s s') \<and>
    (\<not> go \<and> crState s \<noteq> Eof \<longrightarrow> length (in_raw s) < wanted s \<or> stopped s s')"
proof (cases "crState s")
  case Top
  then show ?thesis using assms(2) dir_cipherblk_pos [of "dir_in s"]
    by (auto simp: bpp_step_def read_top_def Let_def live_def work_left_def quiet_step_def stopped_def split: if_splits)
next
  case Eof
  then show ?thesis using assms by (auto simp: bpp_step_def read_eof_def live_def split: if_splits)
next
  case WaitNewkeys
  then show ?thesis using assms by (auto simp: bpp_step_def live_def work_left_def quiet_step_def stopped_def split: if_splits)
next
  case Freed
  then show ?thesis using assms by (simp add: bpp_step_def)
qed (use assms read_cbc_block_progress [of s go s'] read_etm_rest_progress [of s go s'] read_rest_progress [of s go s']
  read_cbc_mac_progress [of s go s'] read_etm_length_progress [of s go s'] read_first_block_progress [of s go s']
  in \<open>auto simp: bpp_step_def live_def\<close>)

lemma handle_input_returns: "live s \<Longrightarrow> \<exists>r. ssh2_bpp_handle_input s = Some r \<and> (\<forall>s'. r = Inr s' \<longrightarrow> live s')"
proof (induction "work_left s" arbitrary: s rule: less_induct)
  case less
  show ?case
  proof (cases "bpp_step s")
    case (Inl e)
    then show ?thesis by (subst ssh2_bpp_handle_input.simps) simp
  next
    case (Inr a)
    then obtain go s' where s': "bpp_step s = Inr (go, s')" by (cases a) auto
    note bpp_step_progress [OF less.prems s']
    then show ?thesis using s' less.hyps [of s'] by (subst ssh2_bpp_handle_input.simps) auto
  qed
qed

lemmas read_defs = read_cbc_mac_def read_cbc_block_def read_etm_length_def read_etm_rest_def read_first_block_def read_rest_def

section \<open>The stream may arrive in pieces\<close>

definition feed :: "byte list \<Rightarrow> ('c, 'h, 'z) ssh2_bpp_state \<Rightarrow> ('c, 'h, 'z) ssh2_bpp_state" where
  "feed x s = s\<lparr>in_raw := in_raw s @ x\<rparr>"

text \<open>Once its bytes are taken, a step neither reads nor changes the rest of the stream.\<close>

lemma enable_pending_in_raw:
  "ssh2_bpp_enable_pending_compression (s\<lparr>in_raw := r\<rparr>) =
     res_bind (ssh2_bpp_enable_pending_compression s) (\<lambda>s. Inr (s\<lparr>in_raw := r\<rparr>))"
  by (simp add: ssh2_bpp_enable_pending_compression_def split: option.split)

lemma packet_queued_in_raw:
  "packet_queued (s\<lparr>in_raw := r\<rparr>) t = res_bind (packet_queued s t) (\<lambda>(g, s). Inr (g, s\<lparr>in_raw := r\<rparr>))"
  by (cases "ssh2_bpp_enable_pending_compression s") (simp_all add: packet_queued_def Let_def enable_pending_in_raw)

lemma packet_deliver_in_raw:
  "packet_deliver (s\<lparr>in_raw := r\<rparr>) p = res_bind (packet_deliver s p) (\<lambda>(g, s). Inr (g, s\<lparr>in_raw := r\<rparr>))"
proof -
  have sw: "s\<lparr>in_raw := r, in_pq := x\<rparr> = s\<lparr>in_pq := x\<rparr>\<lparr>in_raw := r\<rparr>" for x by simp
  show ?thesis using packet_queued_in_raw [where s = "s\<lparr>in_pq := in_pq s @ [p]\<rparr>" and r = r and t = "in_type p"]
    by (simp add: packet_deliver_def ssh2_bpp_check_unimplemented_def pq_push_out_def sw)
qed

lemma packet_sized_in_raw: "packet_sized (s\<lparr>in_raw := r\<rparr>) = (packet_sized s)\<lparr>in_raw := r\<rparr>"
  by (simp add: packet_sized_def Let_def)

lemma decompress_in_raw:
  "decompress_payload (s\<lparr>in_raw := r\<rparr>) = res_bind (decompress_payload s) (\<lambda>s. Inr (s\<lparr>in_raw := r\<rparr>))"
  by (auto simp: decompress_payload_def Let_def case_prod_beta res_bind_def split: option.split sum.split)

lemma packet_contents_in_raw [simp]: "packet_contents (s\<lparr>in_raw := r\<rparr>) = packet_contents s"
  by (simp add: packet_contents_def)

lemma packet_read_in_raw:
  "packet_read (s\<lparr>in_raw := r\<rparr>) = res_bind (packet_read s) (\<lambda>(g, s). Inr (g, s\<lparr>in_raw := r\<rparr>))"
proof (cases "mem_read (s_data s) 4 1")
  case (Inr pad)
  let ?s = "s\<lparr>s_pad := unat (hd pad)\<rparr>"
  have sw: "s\<lparr>in_raw := r, s_pad := unat (hd pad)\<rparr> = ?s\<lparr>in_raw := r\<rparr>" by simp
  show ?thesis
  proof (cases "decompress_payload (packet_sized ?s)")
    case (Inr s1)
    then show ?thesis using \<open>mem_read (s_data s) 4 1 = Inr pad\<close> 
      by (cases "packet_contents s1") (auto simp: packet_read_def Let_def ssh_sw_abort_def sw packet_sized_in_raw decompress_in_raw
          packet_deliver_in_raw assert_res_def simp del: One_nat_def)
  qed (use Inr in \<open>auto simp: packet_read_def Let_def ssh_sw_abort_def sw packet_sized_in_raw decompress_in_raw assert_res_def simp del: One_nat_def\<close>)
qed (simp add: packet_read_def)


lemma in_raw_last:
  "s\<lparr>in_raw := r, s_data := v1\<rparr> = s\<lparr>s_data := v1, in_raw := r\<rparr>"
  "s\<lparr>in_raw := r, s_buf := v2\<rparr> = s\<lparr>s_buf := v2, in_raw := r\<rparr>"
  "s\<lparr>in_raw := r, dir_in := v3\<rparr> = s\<lparr>dir_in := v3, in_raw := r\<rparr>"
  "s\<lparr>in_raw := r, s_len := v4\<rparr> = s\<lparr>s_len := v4, in_raw := r\<rparr>"
  "s\<lparr>in_raw := r, s_packetlen := v5\<rparr> = s\<lparr>s_packetlen := v5, in_raw := r\<rparr>"
  "s\<lparr>in_raw := r, s_maxlen := v6\<rparr> = s\<lparr>s_maxlen := v6, in_raw := r\<rparr>"
  "s\<lparr>in_raw := r, crState := v7\<rparr> = s\<lparr>crState := v7, in_raw := r\<rparr>"
  "s\<lparr>in_raw := r, ssh_events := v8\<rparr> = s\<lparr>ssh_events := v8, in_raw := r\<rparr>"
  by simp_all

lemma res_bind_assoc: "res_bind (res_bind m f) g = res_bind m (\<lambda>x. res_bind (f x) g)"
  by (cases m) auto

lemma res_bind_cases:
  "res_bind (case p of (a, b) \<Rightarrow> f a b) g = (case p of (a, b) \<Rightarrow> res_bind (f a b) g)"
  "res_bind (case q of None \<Rightarrow> m | Some z \<Rightarrow> h z) g = (case q of None \<Rightarrow> res_bind m g | Some z \<Rightarrow> res_bind (h z) g)"
  "res_bind (if c then m1 else m2) g = (if c then res_bind m1 g else res_bind m2 g)"
  by (auto split: prod.split option.split)

lemma feed_read:
  "n \<le> length (in_raw s) \<Longrightarrow> BPP_READ (feed x s) n k = k (take n (in_raw s)) (s\<lparr>in_raw := drop n (in_raw s) @ x\<rparr>)"
  by (simp add: BPP_READ_def feed_def)

lemma feed_simps [simp]:
  "crState (feed x s) = crState s" "s_packetlen (feed x s) = s_packetlen s" "s_maclen (feed x s) = s_maclen s"
  "s_cipherblk (feed x s) = s_cipherblk s" "pending_newkeys (feed x s) = pending_newkeys s" "input_eof (feed x s) = input_eof s"
  "dir_in (feed x s) = dir_in s" "s_buf (feed x s) = s_buf s" "s_data (feed x s) = s_data s" "s_len (feed x s) = s_len s" "in_pq (feed x s) = in_pq s"
  "feed x s\<lparr>in_raw := r\<rparr> = s\<lparr>in_raw := r\<rparr>"
  "feed x (s\<lparr>in_raw := r\<rparr>) = s\<lparr>in_raw := r @ x\<rparr>" "in_raw (feed x s) = in_raw s @ x" "ssh_events (feed x s) = ssh_events s"
  by (simp_all add: feed_def)

lemma feed_updates [simp]:
  "feed x (feed y s) = feed (y @ x) s" "feed [] s = s"
  by (simp_all add: feed_def)

lemmas feed_proof = res_bind_assoc res_bind_cases BPP_READ_def feed_read Let_def ssh_sw_abort_def packet_read_in_raw in_raw_last

lemma read_rest_feed:
  "crState s = Rest \<Longrightarrow> wanted s \<le> length (in_raw s) \<Longrightarrow>
     read_rest (feed x s) = res_bind (read_rest s) (\<lambda>(go, s). Inr (go, feed x s))"
  by (simp add: read_rest_def feed_proof case_prod_unfold cong: if_cong option.case_cong)

lemma read_etm_rest_feed:
  "crState s = EtmRest \<Longrightarrow> wanted s \<le> length (in_raw s) \<Longrightarrow>
     read_etm_rest (feed x s) = res_bind (read_etm_rest s) (\<lambda>(go, s). Inr (go, feed x s))"
  by (simp add: read_etm_rest_def feed_proof case_prod_unfold cong: if_cong option.case_cong)

lemma read_cbc_block_feed:
  "crState s = CbcBlock \<Longrightarrow> wanted s \<le> length (in_raw s) \<Longrightarrow>
     read_cbc_block (feed x s) = res_bind (read_cbc_block s) (\<lambda>(go, s). Inr (go, feed x s))"
  by (simp add: read_cbc_block_def feed_proof case_prod_unfold cong: if_cong option.case_cong)

lemma read_cbc_mac_feed:
  "crState s = CbcMac \<Longrightarrow> wanted s \<le> length (in_raw s) \<Longrightarrow>
     read_cbc_mac (feed x s) = res_bind (read_cbc_mac s) (\<lambda>(go, s). Inr (go, feed x s))"
  by (simp add: read_cbc_mac_def feed_proof case_prod_unfold cong: if_cong option.case_cong)

lemma read_etm_length_feed:
  "crState s = EtmLength \<Longrightarrow> wanted s \<le> length (in_raw s) \<Longrightarrow>
     read_etm_length (feed x s) = res_bind (read_etm_length s) (\<lambda>(go, s). Inr (go, feed x s))"
  by (simp add: read_etm_length_def feed_proof case_prod_unfold cong: if_cong option.case_cong)

lemma read_first_block_feed:
  "crState s = FirstBlock \<Longrightarrow> wanted s \<le> length (in_raw s) \<Longrightarrow>
     read_first_block (feed x s) = res_bind (read_first_block s) (\<lambda>(go, s). Inr (go, feed x s))"
  by (simp add: read_first_block_def feed_proof case_prod_unfold cong: if_cong option.case_cong)

text \<open>A step that does not wait is the same whatever follows the bytes it reads.\<close>

lemma bpp_step_feed:
  assumes "crState s \<noteq> Eof" "wanted s \<le> length (in_raw s)"
  shows "bpp_step (feed x s) = res_bind (bpp_step s) (\<lambda>(go, s). Inr (go, feed x s))"
proof (cases "crState s")
  case Top
  then show ?thesis by (auto simp: bpp_step_def read_top_def Let_def feed_def)
next
  case WaitNewkeys
  then show ?thesis by (auto simp: bpp_step_def feed_def)
qed (use assms read_rest_feed [of s x] read_etm_rest_feed [of s x] read_cbc_block_feed [of s x]
  read_cbc_mac_feed [of s x] read_etm_length_feed [of s x] read_first_block_feed [of s x]
  in \<open>auto simp: bpp_step_def\<close>)

lemma bpp_step_unfeed:
  assumes "bpp_step (feed x s) = Inr (go, t)" "crState s \<noteq> Eof" "wanted s \<le> length (in_raw s)"
  shows "\<exists>s'. bpp_step s = Inr (go, s') \<and> t = feed x s'"
  using assms(1) unfolding bpp_step_feed [OF assms(2,3)] by (auto elim!: res_bindE)

lemma bpp_step_waits:
  assumes "length (in_raw s) < wanted s" "\<not> input_eof s"
  shows "bpp_step s = Inr (False, s)"
  using assms by (cases "crState s") (auto simp: bpp_step_def read_defs BPP_READ_def)

lemma handle_input_step: "bpp_step s = Inr (True, s') \<Longrightarrow> ssh2_bpp_handle_input s = ssh2_bpp_handle_input s'"
  by (subst ssh2_bpp_handle_input.simps) simp

lemma handle_input_stop: "bpp_step s = Inr (False, s') \<Longrightarrow> ssh2_bpp_handle_input s = Some (Inr s')"
  by (subst ssh2_bpp_handle_input.simps) simp

lemma handle_input_waiting:
  "crState s = WaitNewkeys \<Longrightarrow> pending_newkeys s \<Longrightarrow> ssh2_bpp_handle_input s = Some (Inr s)"
  by (rule handle_input_stop) (simp add: bpp_step_def)

text \<open>If the layer copes with a stream in one piece, it copes with a first part and then with the rest.\<close>

lemma handle_input_unfeed:
  assumes "live s" "ssh2_bpp_handle_input (feed x s) = Some (Inr t)" "ssh_events t = ssh_events s" "\<not> input_eof s" "crState s \<noteq> Eof"
  shows "\<exists>s1. ssh2_bpp_handle_input s = Some (Inr s1) \<and> live s1 \<and> ssh_events s1 = ssh_events s \<and> \<not> input_eof s1 \<and> crState s1 \<noteq> Eof \<and>
    ssh2_bpp_handle_input (feed x s1) = Some (Inr t)"
  using assms
proof (induction "work_left s" arbitrary: s rule: less_induct)
  case less
  show ?case
  proof (cases "wanted s \<le> length (in_raw s)")
    case False
    then have "ssh2_bpp_handle_input s = Some (Inr s)" using bpp_step_waits [of s] less.prems(4) handle_input_stop by fastforce
    then show ?thesis using less.prems by blast
  next
    case True
    obtain go t' where t': "bpp_step (feed x s) = Inr (go, t')"
      using less.prems(2) by (subst (asm) ssh2_bpp_handle_input.simps) (auto split: sum.splits)
    obtain s' where s': "bpp_step s = Inr (go, s')" "t' = feed x s'" using bpp_step_unfeed [OF t' less.prems(5) True] by blast
    show ?thesis
    proof (cases go)
      case True
      then have st: "bpp_step s = Inr (True, s')" using s' by simp
      have "ssh2_bpp_handle_input (feed x s') = Some (Inr t)" using handle_input_step [of "feed x s" t'] t' s'(2) True less.prems(2) by simp
      then show ?thesis using less.hyps [of s'] bpp_step_progress [OF less.prems(1) st] less.prems(3,4) handle_input_step [OF st] by (simp add: quiet_step_def)
    next
      case False
      then have st: "bpp_step s = Inr (False, s')" using s' by simp
      have tt: "t = feed x s'" using handle_input_stop [of "feed x s" t'] t' s'(2) False less.prems(2) by simp
      then have ev: "ssh_events s' = ssh_events s" using less.prems(3) by simp
      have w: "crState s' = WaitNewkeys" "pending_newkeys s'" "input_eof s' = input_eof s"
        using bpp_step_progress [OF less.prems(1) st] less.prems(5) True ev by (auto simp: stopped_def)
      then show ?thesis using handle_input_stop [OF st] handle_input_waiting [of "feed x s'"] tt ev
          bpp_step_progress [OF less.prems(1) st] less.prems(4) by simp
    qed
  qed
qed

text \<open>The owner adds a piece of the stream to the input and runs the layer, piece by piece.\<close>

fun receive :: "('c, 'h, 'z) ssh2_bpp_state \<Rightarrow> byte list list \<Rightarrow> ('c, 'h, 'z) ssh2_bpp_state res option" where
  "receive s [] = Some (Inr s)"
| "receive s (c # cs) = (case ssh2_bpp_handle_input (feed c s) of
       Some (Inr s') \<Rightarrow> receive s' cs
     | r \<Rightarrow> r)"

lemma feed_live [simp]: "live (feed x s) = live s"
  by (simp add: live_def)

lemma receive_pieces:
  assumes "live s" "ssh2_bpp_handle_input (feed (concat cs) s) = Some (Inr t)" "ssh_events t = ssh_events s" "\<not> input_eof s"
    "crState s \<noteq> Eof" "cs \<noteq> []"
  shows "receive s cs = Some (Inr t)"
  using assms
proof (induction cs arbitrary: s)
  case (Cons c cs)
  have "ssh2_bpp_handle_input (feed (concat cs) (feed c s)) = Some (Inr t)" using Cons.prems(2) by simp
  from handle_input_unfeed [OF _ this] Cons.prems obtain s1 where s1: "ssh2_bpp_handle_input (feed c s) = Some (Inr s1)" "live s1"
    "ssh_events s1 = ssh_events s" "\<not> input_eof s1" "crState s1 \<noteq> Eof" "ssh2_bpp_handle_input (feed (concat cs) s1) = Some (Inr t)"
    by auto
  show ?case
  proof (cases "cs = []")
    case True
    then have "s1 = t" using s1(1) Cons.prems(2) by simp
    then show ?thesis using s1(1) True by simp
  next
    case False
    then show ?thesis using Cons.IH [OF s1(2,6) _ s1(4,5)] s1(1,3) Cons.prems(3) by simp
  qed
qed simp

end
