(* ===== verification/Ssh2_Bpp_Session.thy ===== *)
theory Ssh2_Bpp_Session
  imports Ssh2_Bpp_Correct
begin

text \<open>
  The two ends of an SSH-2 connection: what one end's binary packet protocol formats, the
  other end's takes apart, in every mode, however the bytes are cut on their way, and across
  changes of keys.
\<close>

section \<open>Blocks of determinate bytes\<close>

lemma mem_read_Some:
  "i + n \<le> length bs \<Longrightarrow> mem_read (map Some bs @ blk) i n = Inr (take n (drop i bs))"
  by (auto simp: mem_read_def take_map drop_map comp_def)

lemma mem_write_Some:
  "i + length d \<le> length blk \<Longrightarrow> take i blk = map Some bs \<Longrightarrow>
     mem_write blk i (map Some d) = Inr (map Some (bs @ d) @ drop (i + length d) blk)"
  by (simp add: mem_write_def)

section \<open>Well-formed packets\<close>

text \<open>The clear text of a packet: its length, the length of the padding, the type, payload and padding.\<close>

definition clear_packet :: "nat \<Rightarrow> byte list \<Rightarrow> byte list \<Rightarrow> byte list" where
  "clear_packet t payload rnd =
     PUT_32BIT_MSB_FIRST (of_nat (2 + length payload + length rnd)) @ of_nat (length rnd) # of_nat t # payload @ rnd"

lemma length_clear_packet [simp]: "length (clear_packet t payload rnd) = 6 + length payload + length rnd"
  by (simp add: clear_packet_def)

lemma toint_of_nat:
  assumes "n \<le> INT_MAX"
  shows "toint (of_nat n) = int n"
proof -
  have u: "unat (of_nat n :: u32) = n" using assms by (simp add: unat_of_nat)
  then have "(of_nat n :: u32) \<le> of_nat INT_MAX" using assms by (simp add: word_le_nat_alt)
  moreover have "uint (of_nat n :: u32) = int n" using u by (metis uint_nat)
  ultimately show ?thesis by (simp add: toint_def)
qed

lemma clear_packet_length_field:
  assumes "length (clear_packet t payload rnd) \<le> OUR_V2_PACKETLIMIT"
  shows "toint (GET_32BIT_MSB_FIRST (take 4 (clear_packet t payload rnd))) = int (length (clear_packet t payload rnd)) - 4"
proof -
  have "take 4 (clear_packet t payload rnd) = PUT_32BIT_MSB_FIRST (of_nat (2 + length payload + length rnd))"
    by (simp add: clear_packet_def)
  then show ?thesis using assms toint_of_nat [of "2 + length payload + length rnd"]
    by (simp add: OUR_V2_PACKETLIMIT_def del: of_nat_add)
qed

lemma clear_packet_nth:
  "clear_packet t payload rnd ! 4 = of_nat (length rnd)" "clear_packet t payload rnd ! 5 = of_nat t"
  "drop 6 (clear_packet t payload rnd) = payload @ rnd"
  by (simp_all add: clear_packet_def nth_append)

text \<open>A receiver with no compression that is ready for, or in the middle of, a packet.\<close>

definition plain_receiver :: "('c, 'h, 'z) ssh2_bpp_state \<Rightarrow> bool" where
  "plain_receiver s \<longleftrightarrow> in_decomp s = None \<and> dir_pending_compression (dir_in s) = None \<and>
     dir_pending_compression (dir_out s) = None \<and> \<not> input_eof s"

definition delivered :: "('c, 'h, 'z) ssh2_bpp_state \<Rightarrow> nat \<Rightarrow> byte list \<Rightarrow> ('c, 'h, 'z) ssh2_bpp_state \<Rightarrow> bool" where
  "delivered s t payload s' \<longleftrightarrow>
     in_pq s' = in_pq s @ [\<lparr>in_type = t, in_sequence = sequence (dir_in s), in_payload = payload\<rparr>] \<and>
     dir_in s' = (dir_in s)\<lparr>sequence := sequence (dir_in s) + 1\<rparr> \<and> plain_receiver s' \<and> in_raw s' = in_raw s \<and>
     ssh_events s' = ssh_events s \<and> s_cipherblk s' = s_cipherblk s \<and> out_pq s' = out_pq s \<and>
     (if t = SSH2_MSG_NEWKEYS then crState s' = WaitNewkeys \<and> pending_newkeys s' else crState s' = Top)"

lemma packet_deliver_plain:
  assumes "plain_receiver s" "valid_type (in_type p)"
  shows "\<exists>s'. packet_deliver s p = Inr (in_type p \<noteq> SSH2_MSG_NEWKEYS, s') \<and> in_pq s' = in_pq s @ [p] \<and> dir_in s' = dir_in s \<and>
    plain_receiver s' \<and> in_raw s' = in_raw s \<and> ssh_events s' = ssh_events s \<and> s_cipherblk s' = s_cipherblk s \<and> out_pq s' = out_pq s \<and>
    (if in_type p = SSH2_MSG_NEWKEYS then crState s' = WaitNewkeys \<and> pending_newkeys s' else crState s' = Top)"
proof -
  have "ssh2_bpp_enable_pending_compression (s\<lparr>in_pq := x\<rparr>) = Inr (s\<lparr>in_pq := x\<rparr>)" for x
    using assms(1) by (simp add: ssh2_bpp_enable_pending_compression_def plain_receiver_def)
  then show ?thesis using assms
    by (auto simp: packet_deliver_def ssh2_bpp_check_unimplemented_def packet_queued_def plain_receiver_def Let_def)
qed

lemma packet_read_clear:
  assumes "s_data s = map Some (l4 @ drop 4 (clear_packet t payload rnd)) @ rest" "length l4 = 4" "s_len s = int (length (clear_packet t payload rnd)) - 4"
    "s_packetlen s = length (clear_packet t payload rnd)" "plain_receiver s" "valid_type t" "t < 256" "4 \<le> length rnd" "length rnd \<le> 255"
  shows "\<exists>s'. packet_read s = Inr (t \<noteq> SSH2_MSG_NEWKEYS, s') \<and> delivered s t payload s'"
proof -
  let ?b = "clear_packet t payload rnd"
  let ?s = "packet_sized (s\<lparr>s_pad := length rnd\<rparr>)"
  have tail: "drop 4 ?b = of_nat (length rnd) # of_nat t # payload @ rnd" by (simp add: clear_packet_def)
  have rd: "mem_read (s_data s) i n = Inr (take n (drop i (l4 @ of_nat (length rnd) # of_nat t # payload @ rnd)))"
    if "i + n \<le> 6 + length payload" for i n
    unfolding assms(1) tail by (rule mem_read_Some) (use that assms(2) in simp)
  have pad: "mem_read (s_data s) 4 1 = Inr [of_nat (length rnd)]" using rd [of 4 1] assms(2) by simp
  have u: "unat (of_nat (length rnd) :: byte) = length rnd" using assms(9) by (simp add: unat_of_nat)
  have u': "uint (of_nat (length rnd) :: byte) = int (length rnd)" using u by (metis uint_nat)
  have d: "decompress_payload ?s = Inr ?s" using assms(5) by (simp add: decompress_payload_def plain_receiver_def packet_sized_def Let_def)
  have "mem_read (s_data s) 5 1 = Inr [of_nat t]" "mem_read (s_data s) 6 (length payload) = Inr payload"
    using rd [of 5 1] rd [of 6 "length payload"] assms(2) by simp_all
  then have c: "packet_contents ?s = Inr (t, payload)"
    using assms(4,7) by (simp add: packet_contents_def packet_sized_def Let_def unat_of_nat)
  have "packet_read s = packet_deliver ?s \<lparr>in_type = t, in_sequence = sequence (dir_in s), in_payload = payload\<rparr>"
    using pad u u' d c assms(3,4,8) by (simp add: packet_read_def Let_def packet_sized_def)
  moreover have "plain_receiver ?s" using assms(5) by (simp add: plain_receiver_def packet_sized_def Let_def)
  ultimately show ?thesis using packet_deliver_plain [of ?s "\<lparr>in_type = t, in_sequence = sequence (dir_in s), in_payload = payload\<rparr>"] assms(6)
    by (auto simp: delivered_def packet_sized_def Let_def)
qed

lemma BPP_READ_exact: "in_raw s = x @ rest \<Longrightarrow> length x = n \<Longrightarrow> BPP_READ s n k = k x (s\<lparr>in_raw := rest\<rparr>)"
  by (simp add: BPP_READ_def)

section \<open>Two directions with the same keys\<close>

definition unit_ok :: "('c, 'h, 'z) ssh2_bpp_direction \<Rightarrow> byte list \<Rightarrow> bool" where
  "unit_ok e bs \<longleftrightarrow> dir_cipherblk e dvd length bs - (if mac e \<noteq> None \<and> etm_mode e then 4 else 0)"

text \<open>A stream of bytes that carries a list of packets.\<close>

inductive carries :: "('c, 'h, 'z) ssh2_bpp_direction \<Rightarrow> (nat \<times> byte list) list \<Rightarrow> byte list \<Rightarrow> ('c, 'h, 'z) ssh2_bpp_direction \<Rightarrow> bool" where
  carries_Nil: "carries e [] [] e"
| carries_Cons: "bs = clear_packet t payload rnd \<Longrightarrow> 4 \<le> length rnd \<Longrightarrow> length rnd \<le> 255 \<Longrightarrow> unit_ok e bs \<Longrightarrow> length bs \<le> OUR_V2_PACKETLIMIT \<Longrightarrow>
    seal_packet e bs = Inr (e1, w1) \<Longrightarrow> carries (e1\<lparr>sequence := sequence e1 + 1\<rparr>) ps w e' \<Longrightarrow> carries e ((t, payload) # ps) (w1 @ w) e'"

inductive_cases carries_ConsE: "carries e (p # ps) w e'"
inductive_cases carries_NilE: "carries e [] w e'"

lemma carries_append: "carries e ps w e' \<Longrightarrow> carries e' qs v e'' \<Longrightarrow> carries e (ps @ qs) (w @ v) e''"
  by (induction rule: carries.induct) (auto intro: carries.intros)

lemma carries_split:
  assumes "carries e (ps @ qs) w e''"
  shows "\<exists>e' u v. w = u @ v \<and> carries e ps u e' \<and> carries e' qs v e''"
  using assms
proof (induction e "ps @ qs" w e'' arbitrary: ps rule: carries.induct)
  case (carries_Nil e)
  then show ?case using carries.carries_Nil by blast
next
  case (carries_Cons bs t payload rnd e e1 w1 rs w e')
  show ?case
  proof (cases ps)
    case Nil
    then have "carries e qs (w1 @ w) e'" using carries.carries_Cons [OF carries_Cons(1-7)] carries_Cons(9) by simp
    then show ?thesis using Nil carries.carries_Nil by blast
  next
    case (Cons p ps')
    then have "p = (t, payload)" "rs = ps' @ qs" using carries_Cons(9) by auto
    then show ?thesis using carries_Cons(8) [of ps'] carries.carries_Cons [OF carries_Cons(1-6)] Cons by (metis append.assoc)
  qed
qed

section \<open>The sending end\<close>

definition message :: "nat \<Rightarrow> byte list \<Rightarrow> nat \<Rightarrow> PktOut" where
  "message t payload ml = (put_pkt (ssh2_bpp_new_pktout t) payload)\<lparr>minlen := ml\<rparr>"

definition plain_sender :: "('c, 'h, 'z) ssh2_bpp_state \<Rightarrow> bool" where
  "plain_sender s \<longleftrightarrow> out_comp s = None \<and> dir_pending_compression (dir_out s) = None \<and> dir_pending_compression (dir_in s) = None \<and>
     \<not> pending_compression s \<and> (cbc_ignore_workaround s \<longrightarrow> cipher (dir_out s) \<noteq> None \<and> mac (dir_out s) \<noteq> None)"

lemma plain_sender_raw [simp]: "plain_sender (s\<lparr>out_raw := x\<rparr>) = plain_sender s" "plain_sender (s\<lparr>out_pq := q\<rparr>) = plain_sender s"
  by (simp_all add: plain_sender_def)

lemma packet_padding_ok:
  assumes "dir_cipherblk d \<le> 252" "6 \<le> len"
  shows "4 \<le> packet_padding d len" "packet_padding d len \<le> 255"
    "dir_cipherblk d dvd len + packet_padding d len - (if mac d \<noteq> None \<and> etm_mode d then 4 else 0)"
proof -
  let ?u = "dir_cipherblk d" and ?p = "if mac d \<noteq> None \<and> etm_mode d then 4 else 0 :: nat"
  let ?l = "len - ?p + 4"
  have u: "0 < ?u" using dir_cipherblk_pos [of d] by simp
  then have "(?u - ?l mod ?u) mod ?u < ?u" by simp
  then show "4 \<le> packet_padding d len" "packet_padding d len \<le> 255" using assms(1) unfolding packet_padding_def Let_def by linarith+
  have "(?l + (?u - ?l mod ?u) mod ?u) mod ?u = (?l mod ?u + (?u - ?l mod ?u)) mod ?u" by (simp add: mod_simps)
  also have "\<dots> = 0" using u by simp
  finally have "?u dvd ?l + (?u - ?l mod ?u) mod ?u" by (simp add: mod_eq_0_iff_dvd)
  moreover have "len + packet_padding d len - ?p = ?l + (?u - ?l mod ?u) mod ?u" using assms(2) by (simp add: packet_padding_def Let_def)
  ultimately show "?u dvd len + packet_padding d len - ?p" by simp
qed

lemma format_inner_carries:
  assumes "out_comp s = None" "dir_cipherblk (dir_out s) \<le> 252" "length payload + 261 \<le> OUR_V2_PACKETLIMIT"
    "\<And>bs. unit_ok (dir_out s) bs \<Longrightarrow> length bs < 2 ^ 32 \<Longrightarrow> 4 \<le> length bs \<Longrightarrow> \<exists>e' w. seal_packet (dir_out s) bs = Inr (e', w)"
  shows "\<exists>s' w. ssh2_bpp_format_packet_inner s (message t payload ml) = Inr (s', w) \<and> carries (dir_out s) [(t, payload)] w (dir_out s') \<and>
    out_comp s' = out_comp s \<and> dir_in s' = dir_in s \<and> pending_compression s' = pending_compression s \<and> out_raw s' = out_raw s \<and>
    cbc_ignore_workaround s' = cbc_ignore_workaround s \<and> out_pq s' = out_pq s"
proof -
  let ?len = "6 + length payload"
  define padding where "padding = packet_padding (dir_out s) ?len"
  define rnd where "rnd = map (random_pool s) [0..<padding]"
  let ?bs = "clear_packet t payload rnd"
  have pad: "4 \<le> padding" "padding \<le> 255" "dir_cipherblk (dir_out s) dvd ?len + padding - (if mac (dir_out s) \<noteq> None \<and> etm_mode (dir_out s) then 4 else 0)"
    unfolding padding_def by (rule packet_padding_ok [OF assms(2)], simp)+
  have lr: "length rnd = padding" by (simp add: rnd_def)
  have unit: "unit_ok (dir_out s) ?bs" using pad(3) lr by (simp add: unit_ok_def)
  have lim: "length ?bs \<le> OUR_V2_PACKETLIMIT" using assms(3) pad(2) lr by simp
  then obtain e' w where seal: "seal_packet (dir_out s) ?bs = Inr (e', w)" using assms(4) [OF unit] by (auto simp: OUR_V2_PACKETLIMIT_def)
  let ?data = "replicate 5 None @ map Some (of_nat t # payload)"
  have d: "out_data (message t payload ml) = ?data" by (simp add: message_def put_pkt_def ssh2_bpp_new_pktout_def)
  have w1: "mem_write (?data @ map Some rnd) 4 [Some (of_nat padding)] = Inr (replicate 4 None @ map Some (of_nat padding # of_nat t # payload @ rnd))"
    by (simp add: mem_write_def eval_nat_numeral)
  have w2: "mem_write (replicate 4 None @ map Some (of_nat padding # of_nat t # payload @ rnd)) 0 (map Some (PUT_32BIT_MSB_FIRST (of_nat (?len + padding - 4)))) = Inr (map Some ?bs)"
    using lr by (simp add: mem_write_def clear_packet_def)
  have r: "mem_read (map Some ?bs) 0 (?len + padding) = Inr ?bs" using mem_read_Some [of 0 "?len + padding" ?bs "[]"] lr by simp
  define s' where "s' = s\<lparr>random_pool := (\<lambda>i. random_pool s (i + padding)), dir_out := e'\<lparr>sequence := sequence e' + 1\<rparr>,
    stats_out := dts_consume (stats_out s) (of_nat (?len + padding))\<rparr>"
  have "ssh2_bpp_format_packet_inner s (message t payload ml) = Inr (s', w)"
    using w1 w2 r seal pad(2) assms(1) d
    by (simp add: ssh2_bpp_format_packet_inner_def compress_packet_def Let_def random_read_def padding_def [symmetric] rnd_def [symmetric] s'_def del: map_append map_map of_nat_add)
  moreover have "carries (dir_out s) [(t, payload)] w (dir_out s')"
    using carries_Cons [OF refl _ _ unit lim seal carries_Nil] pad lr by (simp add: s'_def)
  ultimately show ?thesis by (intro exI [of _ s'] exI [of _ w]) (simp add: s'_def)
qed

text \<open>
  The cipher and the MAC of a direction, at its sending and its receiving end.  Block sizes are such
  that a packet can be padded to a whole number of blocks, and the largest packet is one.
\<close>

definition rounded :: "nat \<Rightarrow> nat" where
  "rounded n = (if n < 8 then 8 else n)"

lemma same_part [simp]:
  "cipher d = x \<Longrightarrow> d\<lparr>cipher := x\<rparr> = d" "mac d = y \<Longrightarrow> d\<lparr>mac := y\<rparr> = d"
  by auto

locale bpp_crypto = cipher_provider calg calg' sync + tx: hash_provider "mac_hash malg" good rep H +
  rx: hash_provider "mac_hash malg'" good rep H
  for calg calg' :: "'c ssh_cipheralg" and sync and malg malg' :: "'h ssh2_macalg" and good rep H +
  assumes whole_blocks: "blksize calg dvd rounded (blksize calg)"
    and limit_blocks: "rounded (blksize calg) dvd OUR_V2_PACKETLIMIT"
    and block_small: "blksize calg \<le> 252"
    and same_mac: "mac_len malg' = mac_len malg" "mac_keylen malg' = mac_keylen malg" "blocklen (mac_hash malg') = blocklen (mac_hash malg)"
    and mac_sizes: "mac_len malg \<le> hlen (mac_hash malg)" "mac_len malg \<le> 64" "mac_keylen malg < 2 ^ 32"
begin

definition cipher_pair :: "('c ssh_cipheralg \<times> 'c) option \<Rightarrow> ('c ssh_cipheralg \<times> 'c) option \<Rightarrow> bool" where
  "cipher_pair e d \<longleftrightarrow> e = None \<and> d = None \<or> (\<exists>x y. e = Some (calg, x) \<and> d = Some (calg', y) \<and> sync x y)"

definition mac_pair :: "byte list \<Rightarrow> ('h ssh2_macalg \<times> 'h hmac) option \<Rightarrow> ('h ssh2_macalg \<times> 'h hmac) option \<Rightarrow> bool" where
  "mac_pair key e d \<longleftrightarrow> e = None \<and> d = None \<or>
     (\<exists>m m'. e = Some (malg, m) \<and> d = Some (malg', m') \<and> tx.keyed key m \<and> rx.keyed key m')"

definition dir_pair :: "byte list \<Rightarrow> ('c, 'h, 'z) ssh2_bpp_direction \<Rightarrow> ('c, 'h, 'z) ssh2_bpp_direction \<Rightarrow> bool" where
  "dir_pair key e d \<longleftrightarrow> cipher_pair (cipher e) (cipher d) \<and> mac_pair key (mac e) (mac d) \<and>
     sequence e = sequence d \<and> etm_mode e = etm_mode d \<and>
     dir_pending_compression e = None \<and> dir_pending_compression d = None \<and>
     (separate_length calg \<and> cipher e \<noteq> None \<longrightarrow> mac e \<noteq> None \<and> etm_mode e)"

definition tag :: "byte list \<Rightarrow> u64 \<Rightarrow> byte list \<Rightarrow> byte list" where
  "tag key seq blk = take (mac_len malg) (hmac_spec H (blocklen (mac_hash malg)) key (PUT_32BIT_MSB_FIRST (ucast seq) @ blk))"

lemma tag_length: "length (tag key seq blk) = mac_len malg"
  using mac_sizes(1) tx.H_length by (simp add: tag_def hmac_spec_def Let_def)

lemma hlen': "hlen (mac_hash malg') = hlen (mac_hash malg)"
  using tx.H_length rx.H_length by metis

lemma dir_pair_shape:
  assumes "dir_pair key e d"
  shows "dir_cipherblk d = dir_cipherblk e" "dir_maclen d = dir_maclen e" "(mac d = None) = (mac e = None)" "(cipher d = None) = (cipher e = None)"
    "cipher_is_cbc (cipher d) = cipher_is_cbc (cipher e)" "dir_maclen e \<le> 64" "dir_cipherblk e dvd OUR_V2_PACKETLIMIT" "dir_cipherblk e \<le> 252"
    "cipher e \<noteq> None \<longrightarrow> blksize calg dvd dir_cipherblk e"
proof -
  have c: "cipher_pair (cipher e) (cipher d)" and m: "mac_pair key (mac e) (mac d)" using assms by (auto simp: dir_pair_def)
  have blk: "cipher e = None \<and> cipher d = None \<and> dir_cipherblk e = 8 \<and> dir_cipherblk d = 8 \<or>
      cipher e \<noteq> None \<and> cipher d \<noteq> None \<and> dir_cipherblk e = rounded (blksize calg) \<and> dir_cipherblk d = rounded (blksize calg) \<and>
      cipher_is_cbc (cipher d) = is_cbc calg \<and> cipher_is_cbc (cipher e) = is_cbc calg"
  proof (cases "cipher e")
    case None
    then show ?thesis using c by (simp add: cipher_pair_def dir_cipherblk_def)
  next
    case (Some z)
    then obtain x y where "cipher e = Some (calg, x)" "cipher d = Some (calg', y)" using c by (auto simp: cipher_pair_def)
    then show ?thesis by (simp add: dir_cipherblk_def rounded_def cipher_is_cbc_def Let_def decrypting_table)
  qed
  then show "dir_cipherblk d = dir_cipherblk e" "(cipher d = None) = (cipher e = None)" "cipher_is_cbc (cipher d) = cipher_is_cbc (cipher e)"
    "cipher e \<noteq> None \<longrightarrow> blksize calg dvd dir_cipherblk e"
    using whole_blocks by (auto simp: cipher_is_cbc_def)
  show "dir_cipherblk e dvd OUR_V2_PACKETLIMIT" using blk limit_blocks by (auto simp: OUR_V2_PACKETLIMIT_def)
  show "dir_cipherblk e \<le> 252" using blk block_small by (auto simp: rounded_def)
  show "dir_maclen d = dir_maclen e" "(mac d = None) = (mac e = None)" "dir_maclen e \<le> 64"
    using m same_mac(1) mac_sizes(2) by (auto simp: mac_pair_def dir_maclen_def)
qed

text \<open>Encryption and decryption of a whole number of blocks.\<close>

lemma dir_crypt:
  fixes e d :: "('c, 'h, 'z) ssh2_bpp_direction"
  assumes "cipher_pair (cipher e) (cipher d)" "cipher e \<noteq> None \<longrightarrow> blksize calg dvd length p"
  shows "\<exists>x y c. dir_encrypt e p = Inr (e\<lparr>cipher := x\<rparr>, c) \<and> length c = length p \<and> cipher_pair x y \<and> (x = None) = (cipher e = None) \<and>
    (\<forall>d1 :: ('c, 'h, 'z) ssh2_bpp_direction. cipher d1 = cipher d \<longrightarrow> dir_decrypt d1 c = Inr (d1\<lparr>cipher := y\<rparr>, p))"
proof (cases "cipher e")
  case None
  then show ?thesis using assms by (intro exI [of _ None] exI [of _ p]) (simp add: cipher_pair_def dir_encrypt_def dir_decrypt_def)
next
  case (Some z)
  then obtain x y where xy: "cipher e = Some (calg, x)" "cipher d = Some (calg', y)" "sync x y"
    using assms(1) by (auto simp: cipher_pair_def)
  obtain x' y' c where "cipher_encrypt calg x p = Inr (x', c)" "length c = length p" "cipher_decrypt calg y c = Inr (y', p)" "sync x' y'"
    using encrypt_sync [OF xy(3)] assms(2) xy(1) by blast
  then show ?thesis using xy
    by (intro exI [of _ "Some (calg, x')"] exI [of _ "Some (calg', y')"] exI [of _ c])
       (auto simp: dir_encrypt_def dir_decrypt_def cipher_pair_def decrypting_table)
qed

lemma dir_decrypt_parts:
  fixes d :: "('c, 'h, 'z) ssh2_bpp_direction"
  assumes "cipher_pair x0 (cipher d)" "dir_decrypt d (c1 @ c2) = Inr (d', p)" "cipher d \<noteq> None \<longrightarrow> blksize calg dvd length c1 \<and> blksize calg dvd length c2"
  shows "\<exists>y. dir_decrypt d c1 = Inr (d\<lparr>cipher := y\<rparr>, take (length c1) p) \<and>
    (\<forall>d1 :: ('c, 'h, 'z) ssh2_bpp_direction. cipher d1 = y \<longrightarrow> dir_decrypt d1 c2 = Inr (d1\<lparr>cipher := cipher d'\<rparr>, drop (length c1) p))"
proof (cases "cipher d")
  case None
  then show ?thesis using assms by (intro exI [of _ None]) (auto simp: dir_decrypt_def)
next
  case (Some z)
  then obtain y where y: "cipher d = Some (calg', y)" using assms(1) by (auto simp: cipher_pair_def)
  then obtain y' where y': "cipher_decrypt calg y (c1 @ c2) = Inr (y', p)" "d' = d\<lparr>cipher := Some (calg', y')\<rparr>"
    using assms(2) by (auto simp: dir_decrypt_def decrypting_table elim!: res_bindE)
  obtain y1 where "cipher_decrypt calg y c1 = Inr (y1, take (length c1) p)" "cipher_decrypt calg y1 c2 = Inr (y', drop (length c1) p)"
    using decrypt_parts [OF y'(1)] assms(3) Some by auto
  then show ?thesis using y y'(2) by (intro exI [of _ "Some (calg', y1)"]) (auto simp: dir_decrypt_def decrypting_table)
qed

text \<open>What the sender appends the receiver accepts.\<close>

lemma dir_mac:
  fixes e d :: "('c, 'h, 'z) ssh2_bpp_direction"
  assumes "mac_pair key (mac e) (mac d)" "sequence e = sequence d" "length blk < 2 ^ 32"
  shows "\<exists>x y t. dir_mac_generate e blk = Inr (e\<lparr>mac := x\<rparr>, blk @ t) \<and> length t = dir_maclen e \<and>
    mac_pair key x y \<and> (x = None) = (mac e = None) \<and> (mac e \<noteq> None \<longrightarrow> t = tag key (sequence e) blk) \<and>
    (\<forall>d1 :: ('c, 'h, 'z) ssh2_bpp_direction. mac d1 = mac d \<and> sequence d1 = sequence d \<longrightarrow> dir_mac_verify d1 (blk @ t) (length blk) = Inr (d1\<lparr>mac := y\<rparr>, True))"
proof (cases "mac e")
  case None
  then show ?thesis using assms by (intro exI [of _ None] exI [of _ "[]"]) (simp add: mac_pair_def dir_mac_generate_def dir_mac_verify_def dir_maclen_def)
next
  case (Some z)
  then obtain m m' where m: "mac e = Some (malg, m)" "mac d = Some (malg', m')" "tx.keyed key m" "rx.keyed key m'"
    using assms(1) by (auto simp: mac_pair_def)
  let ?t = "tag key (sequence e) blk"
  obtain a where a: "ssh2_mac_generate (mac_hash malg) (mac_len malg) m blk (sequence e) = Inr (a, blk @ ?t)" "tx.keyed key a"
    using tx.mac_generate_verify [OF m(3,3) assms(3) mac_sizes(1,2) tag_length [of key "sequence e" blk], of "sequence e"] by (auto simp: tag_def)
  obtain b where b: "ssh2_mac_verify (mac_hash malg') (mac_len malg') m' (blk @ ?t) (length blk) (sequence d) = Inr (b, True)" "rx.keyed key b"
    using rx.mac_generate_verify [OF m(4,4) assms(3), of "mac_len malg'" ?t "sequence d"] mac_sizes same_mac tag_length hlen' assms(2)
    by (auto simp: tag_def)
  show ?thesis using a b m
    by (intro exI [of _ "Some (malg, a)"] exI [of _ "Some (malg', b)"] exI [of _ ?t])
       (auto simp: dir_mac_generate_def dir_mac_verify_def dir_maclen_def mac_pair_def tag_length)
qed

lemma seal_plain:
  fixes e d :: "('c, 'h, 'z) ssh2_bpp_direction"
  assumes "dir_pair key e d" "\<not> (mac e \<noteq> None \<and> etm_mode e)" "dir_cipherblk e dvd length bs" "length bs < 2 ^ 32"
  shows "\<exists>x y mx my c t. seal_packet e bs = Inr (e\<lparr>mac := mx, cipher := x\<rparr>, c @ t) \<and> length c = length bs \<and> length t = dir_maclen e \<and>
    dir_decrypt d c = Inr (d\<lparr>cipher := y\<rparr>, bs) \<and> cipher_pair x y \<and> mac_pair key mx my \<and> (mac e \<noteq> None \<longrightarrow> t = tag key (sequence e) bs) \<and>
    (x = None) = (cipher e = None) \<and> (mx = None) = (mac e = None) \<and>
    (\<forall>d1 :: ('c, 'h, 'z) ssh2_bpp_direction. mac d1 = mac d \<and> sequence d1 = sequence d \<longrightarrow> dir_mac_verify d1 (bs @ t) (length bs) = Inr (d1\<lparr>mac := my\<rparr>, True))"
proof -
  have p: "cipher_pair (cipher e) (cipher d)" "mac_pair key (mac e) (mac d)" "sequence e = sequence d" using assms(1) by (auto simp: dir_pair_def)
  obtain mx my t where m: "dir_mac_generate e bs = Inr (e\<lparr>mac := mx\<rparr>, bs @ t)" "length t = dir_maclen e" "mac_pair key mx my"
    "(mx = None) = (mac e = None)" "mac e \<noteq> None \<longrightarrow> t = tag key (sequence e) bs"
    "\<forall>d1 :: ('c, 'h, 'z) ssh2_bpp_direction. mac d1 = mac d \<and> sequence d1 = sequence d \<longrightarrow> dir_mac_verify d1 (bs @ t) (length bs) = Inr (d1\<lparr>mac := my\<rparr>, True)"
    using dir_mac [OF p(2,3) assms(4)] by metis
  have "cipher e \<noteq> None \<longrightarrow> blksize calg dvd length bs" using dir_pair_shape(9) [OF assms(1)] assms(3) by (auto intro: dvd_trans)
  then obtain x y c where c: "dir_encrypt (e\<lparr>mac := mx\<rparr>) bs = Inr (e\<lparr>mac := mx, cipher := x\<rparr>, c)" "length c = length bs" "cipher_pair x y"
    "(x = None) = (cipher e = None)" "dir_decrypt d c = Inr (d\<lparr>cipher := y\<rparr>, bs)"
    using dir_crypt [of "e\<lparr>mac := mx\<rparr>" d bs] p(1) by auto
  have "dir_encrypt_length e bs = Inr (e, bs)" using assms(1,2) p(1) by (auto simp: dir_encrypt_length_def dir_pair_def cipher_pair_def split: if_splits)
  then have "seal_packet e bs = Inr (e\<lparr>mac := mx, cipher := x\<rparr>, c @ t)" using m(1) c(1) assms(2) by (auto simp: seal_packet_def)
  then show ?thesis using m c
    by (intro exI [of _ x] exI [of _ y] exI [of _ mx] exI [of _ my] exI [of _ c] exI [of _ t] conjI)
qed

text \<open>The receiver after a packet.\<close>

definition received :: "byte list \<Rightarrow> ('c, 'h, 'z) ssh2_bpp_direction \<Rightarrow> ('c, 'h, 'z) ssh2_bpp_state \<Rightarrow> nat \<Rightarrow> byte list \<Rightarrow> byte list \<Rightarrow>
    ('c, 'h, 'z) ssh2_bpp_state \<Rightarrow> bool" where
  "received key e s t payload rest s' \<longleftrightarrow>
     in_pq s' = in_pq s @ [\<lparr>in_type = t, in_sequence = sequence (dir_in s), in_payload = payload\<rparr>] \<and>
     dir_pair key (e\<lparr>sequence := sequence e + 1\<rparr>) (dir_in s') \<and> plain_receiver s' \<and> in_raw s' = rest \<and> ssh_events s' = ssh_events s \<and>
     out_pq s' = out_pq s \<and>
     (if t = SSH2_MSG_NEWKEYS then crState s' = WaitNewkeys \<and> pending_newkeys s' else crState s' = Top)"

lemma read_plain:
  fixes s :: "('c, 'h, 'z) ssh2_bpp_state"
  assumes "dir_pair key e (dir_in s)" "plain_receiver s" "crState s = Top" "\<not> (mac e \<noteq> None \<and> etm_mode e)"
    "\<not> (cipher_is_cbc (cipher e) \<and> mac e \<noteq> None)" "bs = clear_packet t payload rnd" "dir_cipherblk e dvd length bs"
    "length bs \<le> OUR_V2_PACKETLIMIT" "4 \<le> length rnd" "length rnd \<le> 255" "valid_type t" "t < 256"
    "seal_packet e bs = Inr (e', w)" "in_raw s = w @ rest"
  shows "\<exists>s'. ssh2_bpp_handle_input s = (if t = SSH2_MSG_NEWKEYS then Some (Inr s') else ssh2_bpp_handle_input s') \<and>
    received key e' s t payload rest s'"
proof -
  let ?d = "dir_in s" and ?u = "dir_cipherblk e" and ?n = "length bs"
  have lim: "?n < 2 ^ 32" using assms(8) by (simp add: OUR_V2_PACKETLIMIT_def)
  obtain x y mx my c tg where q: "seal_packet e bs = Inr (e\<lparr>mac := mx, cipher := x\<rparr>, c @ tg)" "length c = ?n" "length tg = dir_maclen e"
    "dir_decrypt ?d c = Inr (?d\<lparr>cipher := y\<rparr>, bs)" "cipher_pair x y" "mac_pair key mx my" "(x = None) = (cipher e = None)" "(mx = None) = (mac e = None)"
    "\<forall>d1 :: ('c, 'h, 'z) ssh2_bpp_direction. mac d1 = mac ?d \<and> sequence d1 = sequence ?d \<longrightarrow> dir_mac_verify d1 (bs @ tg) ?n = Inr (d1\<lparr>mac := my\<rparr>, True)"
    using seal_plain [OF assms(1,4,7) lim] by metis
  have ew: "e' = e\<lparr>mac := mx, cipher := x\<rparr>" "w = c @ tg" using q(1) assms(13) by simp_all
  note shape = dir_pair_shape [OF assms(1)]
  have u: "8 \<le> ?u" "?u \<le> ?n" using dir_cipherblk_pos [of e] assms(6,7) by (auto intro: dvd_imp_le)
  have dv: "cipher ?d \<noteq> None \<longrightarrow> blksize calg dvd length (take ?u c) \<and> blksize calg dvd length (drop ?u c)"
    using shape(4,9) assms(7) u q(2) by (auto intro: dvd_trans dvd_diff_nat)
  have lu: "length (take ?u c) = ?u" using u q(2) by simp
  have cp: "cipher_pair (cipher e) (cipher ?d)" using assms(1) by (simp add: dir_pair_def)
  have "dir_decrypt ?d (take ?u c @ drop ?u c) = Inr (?d\<lparr>cipher := y\<rparr>, bs)" using q(4) by simp
  from dir_decrypt_parts [OF cp this dv, unfolded lu] obtain z where z: "dir_decrypt ?d (take ?u c) = Inr (?d\<lparr>cipher := z\<rparr>, take ?u bs)"
    "\<forall>d1 :: ('c, 'h, 'z) ssh2_bpp_direction. cipher d1 = z \<longrightarrow> dir_decrypt d1 (drop ?u c) = Inr (d1\<lparr>cipher := y\<rparr>, drop ?u bs)"
    by auto
  let ?s1 = "s\<lparr>s_maxlen := 0, s_length := 0, s_cipherblk := ?u, s_maclen := dir_maclen e, s_buf := ensure_buf (s_buf s) ?u, crState := FirstBlock\<rparr>"
  have etm: "etm_mode ?d = etm_mode e" using assms(1) by (simp add: dir_pair_def)
  have mode: "(cipher_is_cbc (cipher ?d) \<and> mac ?d \<noteq> None \<and> \<not> etm_mode ?d) = False" "(mac ?d \<noteq> None \<and> etm_mode ?d) = False"
    unfolding shape(3,5) etm using assms(4,5) by blast+
  have s1: "bpp_step s = Inr (True, ?s1)"
    unfolding bpp_step_def read_top_def Let_def mode using assms(3) shape(1,2) by simp
  let ?buf = "map Some (take ?u bs) @ drop ?u (ensure_buf (s_buf s) ?u)"
  let ?data = "map Some (take ?u bs) @ replicate (?n + dir_maclen e - ?u) None"
  let ?s2 = "?s1\<lparr>in_raw := drop ?u c @ tg @ rest, s_buf := ?buf, dir_in := ?d\<lparr>cipher := z\<rparr>, s_len := int ?n - 4, s_packetlen := ?n,
     s_maxlen := ?n + dir_maclen e, s_data := ?data, crState := Rest\<rparr>"
  have raw: "take ?u (in_raw s) = take ?u c" "drop ?u (in_raw s) = drop ?u c @ tg @ rest" "?u \<le> length (in_raw s)"
    using assms(14) ew(2) q(2) u by auto
  have eb: "?u \<le> length (ensure_buf (s_buf s) ?u)" by (simp add: ensure_buf_def)
  have len: "toint (GET_32BIT_MSB_FIRST (take 4 bs)) = int ?n - 4" using clear_packet_length_field assms(6,8) by blast
  have s2: "bpp_step ?s1 = Inr (True, ?s2)"
  proof -
    have w1: "mem_write (ensure_buf (s_buf s) ?u) 0 (map Some (take ?u c)) = Inr (map Some (take ?u c) @ drop ?u (ensure_buf (s_buf s) ?u))"
      using eb q(2) u by (simp add: mem_write_def)
    have r1: "mem_read (map Some (take ?u c) @ drop ?u (ensure_buf (s_buf s) ?u)) 0 ?u = Inr (take ?u c)"
      using q(2) u by (subst mem_read_Some) simp_all
    have w2: "mem_write (map Some (take ?u c) @ drop ?u (ensure_buf (s_buf s) ?u)) 0 (map Some (take ?u bs)) = Inr ?buf"
      using eb q(2) u by (simp add: mem_write_def)
    have r2: "mem_read ?buf 0 4 = Inr (take 4 bs)" using u by (subst mem_read_Some) simp_all
    have w3: "mem_write (replicate (?n + dir_maclen e) None) 0 (map Some (take ?u bs)) = Inr ?data"
      using u by (simp add: mem_write_def)
    have m: "(int ?n - 4 + 4) mod int ?u = 0" using assms(7) by (simp add: zmod_int [symmetric] mod_eq_0_iff_dvd)
    have n4: "nat (int ?n - 4) + 4 = ?n" using u by simp
    show ?thesis using raw w1 r1 w2 r2 w3 z(1) len m n4 assms(8) u
      by (simp add: bpp_step_def read_first_block_def BPP_READ_def Let_def)
  qed
  define s2 where "s2 = ?s2"
  have sel: "crState s2 = Rest" "s_packetlen s2 = ?n" "s_maclen s2 = dir_maclen e" "s_cipherblk s2 = ?u" "in_raw s2 = (drop ?u c @ tg) @ rest"
    "s_data s2 = ?data" "s_len s2 = int ?n - 4" "dir_in s2 = ?d\<lparr>cipher := z\<rparr>" "in_pq s2 = in_pq s" "ssh_events s2 = ssh_events s"
    "out_pq s2 = out_pq s" "in_decomp s2 = in_decomp s" "dir_out s2 = dir_out s" "input_eof s2 = input_eof s"
    by (simp_all add: s2_def)
  let ?s3 = "s2\<lparr>in_raw := rest, s_data := map Some (bs @ tg), dir_in := ?d\<lparr>cipher := y, mac := my\<rparr>\<rparr>"
  have rest: "bpp_step s2 = packet_read ?s3"
  proof -
    have r: "BPP_READ s2 (?n + dir_maclen e - ?u) k = k (drop ?u c @ tg) (s2\<lparr>in_raw := rest\<rparr>)" for k
      using u q(2,3) by (intro BPP_READ_exact [OF sel(5)]) simp
    have w1: "mem_write ?data ?u (map Some (drop ?u c @ tg)) = Inr (map Some (take ?u bs @ drop ?u c @ tg))"
      using u q(2,3) by (subst mem_write_Some [where bs = "take ?u bs"]) simp_all
    have r1: "mem_read (map Some (take ?u bs @ drop ?u c @ tg)) ?u (?n - ?u) = Inr (drop ?u c)"
      using u q(2) mem_read_Some [of ?u "?n - ?u" "take ?u bs @ drop ?u c @ tg" "[]"] by simp
    have w2: "mem_write (map Some (take ?u bs @ drop ?u c @ tg)) ?u (map Some (drop ?u bs)) = Inr (map Some (bs @ tg))"
      using u q(2,3) by (subst mem_write_Some [where bs = "take ?u bs"]) (simp_all add: drop_map [symmetric])
    have r2: "mem_read (map Some (bs @ tg)) 0 (?n + dir_maclen e) = Inr (bs @ tg)"
      using q(3) mem_read_Some [of 0 "?n + dir_maclen e" "bs @ tg" "[]"] by simp
    have v: "dir_mac_verify (?d\<lparr>cipher := y\<rparr>) (bs @ tg) ?n = Inr (?d\<lparr>cipher := y, mac := my\<rparr>, True)" using q(9) by simp
    have n4: "nat (int ?n - 4) + 4 = ?n" using u by simp
    show ?thesis using w1 r1 w2 r2 v z(2) n4
      by (simp add: bpp_step_def read_rest_def sel r del: map_append)
  qed
  have "plain_receiver ?s3" using assms(2) by (simp add: plain_receiver_def sel)
  then obtain s' where s': "packet_read ?s3 = Inr (t \<noteq> SSH2_MSG_NEWKEYS, s')" "delivered ?s3 t payload s'"
    using packet_read_clear [of ?s3 "take 4 bs" t payload rnd "map Some tg"] assms(6,9-12) by (auto simp: sel simp flip: map_append)
  have "dir_pair key (e'\<lparr>sequence := sequence e' + 1\<rparr>) (dir_in s')"
    using s'(2) assms(1,4) q(5-8) ew(1) by (auto simp: delivered_def dir_pair_def)
  then have "received key e' s t payload rest s'" using s'(2) by (simp add: received_def delivered_def sel)
  then show ?thesis using handle_input_step [OF s1] handle_input_step [OF s2] rest s'(1)
      handle_input_step [of s2 s'] handle_input_stop [of s2 s'] by (intro exI [of _ s']) (auto simp: s2_def)
qed

lemma seal_etm:
  fixes e d :: "('c, 'h, 'z) ssh2_bpp_direction"
  assumes "dir_pair key e d" "mac e \<noteq> None" "etm_mode e" "dir_cipherblk e dvd length bs - 4" "length bs < 2 ^ 32" "4 \<le> length bs"
  shows "\<exists>x y y0 mx my l4 c t. seal_packet e bs = Inr (e\<lparr>cipher := x, mac := mx\<rparr>, l4 @ c @ t) \<and> length l4 = 4 \<and> length c = length bs - 4 \<and>
    length t = dir_maclen e \<and> etm_length d l4 = Inr (d\<lparr>cipher := y0\<rparr>, take 4 bs) \<and> cipher_pair x y \<and> mac_pair key mx my \<and>
    (x = None) = (cipher e = None) \<and> (mx = None) = (mac e = None) \<and>
    (\<forall>d1 :: ('c, 'h, 'z) ssh2_bpp_direction. mac d1 = mac d \<and> sequence d1 = sequence d \<longrightarrow>
       dir_mac_verify d1 (l4 @ c @ t) (length bs) = Inr (d1\<lparr>mac := my\<rparr>, True)) \<and>
    (\<forall>d1 :: ('c, 'h, 'z) ssh2_bpp_direction. cipher d1 = y0 \<longrightarrow> dir_decrypt d1 c = Inr (d1\<lparr>cipher := y\<rparr>, drop 4 bs))"
proof -
  have p: "cipher_pair (cipher e) (cipher d)" "mac_pair key (mac e) (mac d)" "sequence e = sequence d" using assms(1) by (auto simp: dir_pair_def)
  have "\<exists>x0 y0 l4. dir_encrypt_length e bs = Inr (e\<lparr>cipher := x0\<rparr>, l4 @ drop 4 bs) \<and> length l4 = 4 \<and>
      etm_length d l4 = Inr (d\<lparr>cipher := y0\<rparr>, take 4 bs) \<and> cipher_pair x0 y0 \<and> (x0 = None) = (cipher e = None)"
  proof (cases "cipher e \<noteq> None \<and> separate_length calg")
    case True
    then obtain x y where xy: "cipher e = Some (calg, x)" "cipher d = Some (calg', y)" "sync x y" using p(1) by (auto simp: cipher_pair_def)
    have "length (take 4 bs) = 4" using assms(6) by simp
    from length_sync [OF conjunct2 [OF True] xy(3) this, of "sequence e"] obtain x' y' c4 where
      "cipher_encrypt_length calg x (take 4 bs) (sequence e) = Inr (x', c4)" "length c4 = 4"
      "cipher_decrypt_length calg y c4 (sequence e) = Inr (y', take 4 bs)" "sync x' y'" by blast
    then show ?thesis using xy True p(3)
      by (intro exI [of _ "Some (calg, x')"] exI [of _ "Some (calg', y')"] exI [of _ c4])
         (simp add: dir_encrypt_length_def etm_length_def cipher_pair_def decrypting_table)
  next
    case False
    then have "dir_encrypt_length e bs = Inr (e, take 4 bs @ drop 4 bs)" "etm_length d (take 4 bs) = Inr (d, take 4 bs)"
      using p(1) by (auto simp: dir_encrypt_length_def etm_length_def cipher_pair_def decrypting_table)
    then show ?thesis using p(1) assms(6) by (intro exI [of _ "cipher e"] exI [of _ "cipher d"] exI [of _ "take 4 bs"]) simp
  qed
  then obtain x0 y0 l4 where l: "dir_encrypt_length e bs = Inr (e\<lparr>cipher := x0\<rparr>, l4 @ drop 4 bs)" "length l4 = 4"
      "etm_length d l4 = Inr (d\<lparr>cipher := y0\<rparr>, take 4 bs)" "cipher_pair x0 y0" "(x0 = None) = (cipher e = None)" by metis
  have "x0 \<noteq> None \<longrightarrow> blksize calg dvd length (drop 4 bs)" using dir_pair_shape(9) [OF assms(1)] assms(4) l(5) by (auto intro: dvd_trans)
  then obtain x y c where c: "dir_encrypt (e\<lparr>cipher := x0\<rparr>) (drop 4 bs) = Inr (e\<lparr>cipher := x\<rparr>, c)" "length c = length bs - 4" "cipher_pair x y"
    "(x = None) = (cipher e = None)"
    "\<forall>d1 :: ('c, 'h, 'z) ssh2_bpp_direction. cipher d1 = y0 \<longrightarrow> dir_decrypt d1 c = Inr (d1\<lparr>cipher := y\<rparr>, drop 4 bs)"
    using dir_crypt [of "e\<lparr>cipher := x0\<rparr>" "d\<lparr>cipher := y0\<rparr>" "drop 4 bs"] l(4,5) by auto
  have ln: "length (l4 @ c) = length bs" using l(2) c(2) assms(6) by simp
  obtain mx my t where m: "dir_mac_generate (e\<lparr>cipher := x\<rparr>) (l4 @ c) = Inr (e\<lparr>cipher := x, mac := mx\<rparr>, (l4 @ c) @ t)" "length t = dir_maclen (e\<lparr>cipher := x\<rparr>)"
    "mac_pair key mx my" "(mx = None) = (mac (e\<lparr>cipher := x\<rparr>) = None)"
    "\<forall>d1 :: ('c, 'h, 'z) ssh2_bpp_direction. mac d1 = mac d \<and> sequence d1 = sequence d \<longrightarrow>
      dir_mac_verify d1 ((l4 @ c) @ t) (length (l4 @ c)) = Inr (d1\<lparr>mac := my\<rparr>, True)"
    using dir_mac [of key "e\<lparr>cipher := x\<rparr>" d "l4 @ c"] p(2,3) assms(5) ln by auto
  have "seal_packet e bs = Inr (e\<lparr>cipher := x, mac := mx\<rparr>, l4 @ c @ t)"
    using l(1,2) c(1) m(1) assms(2,3) by (simp add: seal_packet_def)
  moreover have "length t = dir_maclen e" using m(2) by (simp add: dir_maclen_def)
  moreover have "(mx = None) = (mac e = None)" using m(4) by simp
  moreover have "\<forall>d1 :: ('c, 'h, 'z) ssh2_bpp_direction. mac d1 = mac d \<and> sequence d1 = sequence d \<longrightarrow>
      dir_mac_verify d1 (l4 @ c @ t) (length bs) = Inr (d1\<lparr>mac := my\<rparr>, True)" using m(5) ln by simp
  ultimately show ?thesis using l c m(3)
    by (intro exI [of _ x] exI [of _ y] exI [of _ y0] exI [of _ mx] exI [of _ my] exI [of _ l4] exI [of _ c] exI [of _ t] conjI)
qed

lemma read_etm:
  fixes s :: "('c, 'h, 'z) ssh2_bpp_state"
  assumes "dir_pair key e (dir_in s)" "plain_receiver s" "crState s = Top" "mac e \<noteq> None" "etm_mode e"
    "bs = clear_packet t payload rnd" "dir_cipherblk e dvd length bs - 4"
    "length bs \<le> OUR_V2_PACKETLIMIT" "4 \<le> length rnd" "length rnd \<le> 255" "valid_type t" "t < 256"
    "seal_packet e bs = Inr (e', w)" "in_raw s = w @ rest"
  shows "\<exists>s'. ssh2_bpp_handle_input s = (if t = SSH2_MSG_NEWKEYS then Some (Inr s') else ssh2_bpp_handle_input s') \<and>
    received key e' s t payload rest s'"
proof -
  let ?d = "dir_in s" and ?u = "dir_cipherblk e" and ?n = "length bs"
  have lim: "?n < 2 ^ 32" "4 \<le> ?n" using assms(6,8) by (simp_all add: OUR_V2_PACKETLIMIT_def)
  obtain x y y0 mx my l4 c tg where q: "seal_packet e bs = Inr (e\<lparr>cipher := x, mac := mx\<rparr>, l4 @ c @ tg)" "length l4 = 4" "length c = ?n - 4"
    "length tg = dir_maclen e" "etm_length ?d l4 = Inr (?d\<lparr>cipher := y0\<rparr>, take 4 bs)" "cipher_pair x y" "mac_pair key mx my"
    "(x = None) = (cipher e = None)" "(mx = None) = (mac e = None)"
    "\<forall>d1 :: ('c, 'h, 'z) ssh2_bpp_direction. mac d1 = mac ?d \<and> sequence d1 = sequence ?d \<longrightarrow>
       dir_mac_verify d1 (l4 @ c @ tg) ?n = Inr (d1\<lparr>mac := my\<rparr>, True)"
    "\<forall>d1 :: ('c, 'h, 'z) ssh2_bpp_direction. cipher d1 = y0 \<longrightarrow> dir_decrypt d1 c = Inr (d1\<lparr>cipher := y\<rparr>, drop 4 bs)"
    using seal_etm [OF assms(1,4,5,7) lim] by metis
  have ew: "e' = e\<lparr>cipher := x, mac := mx\<rparr>" "w = l4 @ c @ tg" using q(1) assms(13) by simp_all
  note shape = dir_pair_shape [OF assms(1)]
  have etm: "etm_mode ?d = etm_mode e" using assms(1) by (simp add: dir_pair_def)
  have mode: "(cipher_is_cbc (cipher ?d) \<and> mac ?d \<noteq> None \<and> \<not> etm_mode ?d) = False" "(mac ?d \<noteq> None \<and> etm_mode ?d) = True"
    unfolding shape(3,5) etm using assms(4,5) by blast+
  define s1 where "s1 = s\<lparr>s_maxlen := 0, s_length := 0, s_cipherblk := ?u, s_maclen := dir_maclen e, s_buf := ensure_buf (s_buf s) 4, crState := EtmLength\<rparr>"
  have s1: "bpp_step s = Inr (True, s1)"
    unfolding bpp_step_def read_top_def Let_def mode using assms(3) shape(1,2) by (simp add: s1_def)
  have sel1: "crState s1 = EtmLength" "s_maclen s1 = dir_maclen e" "s_cipherblk s1 = ?u" "in_raw s1 = l4 @ c @ tg @ rest"
    "s_buf s1 = ensure_buf (s_buf s) 4" "dir_in s1 = ?d" using assms(14) ew(2) by (simp_all add: s1_def)
  let ?buf = "map Some l4 @ drop 4 (ensure_buf (s_buf s) 4)"
  let ?data = "map Some l4 @ replicate (OUR_V2_PACKETLIMIT + dir_maclen e - 4) None"
  define s2 where "s2 = s1\<lparr>in_raw := c @ tg @ rest, s_buf := ?buf, dir_in := ?d\<lparr>cipher := y0\<rparr>, s_len := int ?n - 4, s_packetlen := ?n, s_data := ?data, crState := EtmRest\<rparr>"
  have len: "toint (GET_32BIT_MSB_FIRST (take 4 bs)) = int ?n - 4" using clear_packet_length_field assms(6,8) by blast
  have n4: "nat (int ?n - 4) + 4 = ?n" using lim by simp
  have s2: "bpp_step s1 = Inr (True, s2)"
  proof -
    have r: "BPP_READ s1 4 k = k l4 (s1\<lparr>in_raw := c @ tg @ rest\<rparr>)" for k by (rule BPP_READ_exact [OF sel1(4) q(2)])
    have w1: "mem_write (ensure_buf (s_buf s) 4) 0 (map Some l4) = Inr ?buf"
      using q(2) by (simp add: mem_write_def ensure_buf_def)
    have r1: "mem_read ?buf 0 4 = Inr l4" using q(2) by (subst mem_read_Some) simp_all
    have w2: "mem_write (replicate (OUR_V2_PACKETLIMIT + dir_maclen e) None) 0 (map Some l4) = Inr ?data"
      using q(2) by (simp add: mem_write_def OUR_V2_PACKETLIMIT_def)
    have "int (?n - 4) mod int ?u = 0" using assms(7) by (simp add: zmod_int [symmetric] mod_eq_0_iff_dvd)
    then have m: "(int ?n - 4) mod int ?u = 0" using lim(2) by (simp add: of_nat_diff)
    show ?thesis using w1 r1 w2 q(5) len m n4 assms(8) lim(2)
      by (simp add: bpp_step_def read_etm_length_def sel1 r Let_def s2_def)
  qed
  have sel: "crState s2 = EtmRest" "s_packetlen s2 = ?n" "s_maclen s2 = dir_maclen e" "s_cipherblk s2 = ?u" "in_raw s2 = (c @ tg) @ rest"
    "s_data s2 = ?data" "s_len s2 = int ?n - 4" "dir_in s2 = ?d\<lparr>cipher := y0\<rparr>" "in_pq s2 = in_pq s" "ssh_events s2 = ssh_events s"
    "out_pq s2 = out_pq s" "in_decomp s2 = in_decomp s" "dir_out s2 = dir_out s" "input_eof s2 = input_eof s"
    by (simp_all add: s2_def s1_def)
  let ?fill = "replicate (OUR_V2_PACKETLIMIT - ?n) None"
  let ?s3 = "s2\<lparr>in_raw := rest, s_data := map Some (l4 @ drop 4 bs) @ map Some tg @ ?fill, dir_in := ?d\<lparr>cipher := y, mac := my\<rparr>\<rparr>"
  have rest: "bpp_step s2 = packet_read ?s3"
  proof -
    have r: "BPP_READ s2 (?n + dir_maclen e - 4) k = k (c @ tg) (s2\<lparr>in_raw := rest\<rparr>)" for k
      using q(3,4) lim(2) by (intro BPP_READ_exact [OF sel(5)]) simp
    have w1: "mem_write ?data 4 (map Some (c @ tg)) = Inr (map Some (l4 @ c @ tg) @ ?fill)"
      using q(2-4) lim(2) assms(8) by (subst mem_write_Some [where bs = l4]) (simp_all add: drop_replicate)
    have r1: "mem_read (map Some (l4 @ c @ tg) @ ?fill) 0 (?n + dir_maclen e) = Inr (l4 @ c @ tg)"
      using q(2-4) lim(2) by (subst mem_read_Some) simp_all
    have r2: "mem_read (map Some (l4 @ c @ tg) @ ?fill) 4 (?n - 4) = Inr c"
      using q(2-4) lim(2) by (subst mem_read_Some) simp_all
    have w2: "mem_write (map Some (l4 @ c @ tg) @ ?fill) 4 (map Some (drop 4 bs)) = Inr (map Some (l4 @ drop 4 bs) @ map Some tg @ ?fill)"
      using q(2-4) lim(2) by (subst mem_write_Some [where bs = l4]) simp_all
    have v: "dir_mac_verify (?d\<lparr>cipher := y0\<rparr>) (l4 @ c @ tg) ?n = Inr (?d\<lparr>cipher := y0, mac := my\<rparr>, True)" using q(10) by simp
    have sw: "s2\<lparr>in_raw := rest, s_data := a1, dir_in := b1, s_data := a2, dir_in := b2\<rparr> = s2\<lparr>in_raw := rest, s_data := a2, dir_in := b2\<rparr>" for a1 b1 a2 b2 by simp
    have dd: "?d\<lparr>cipher := y0, mac := my, cipher := y\<rparr> = ?d\<lparr>cipher := y, mac := my\<rparr>" by simp
    show ?thesis using w1 r1 w2 r2 v q(11) n4
      by (simp add: bpp_step_def read_etm_rest_def sel r Let_def sw dd del: map_append)
  qed
  have "plain_receiver ?s3" using assms(2) by (simp add: plain_receiver_def sel)
  then obtain s' where s': "packet_read ?s3 = Inr (t \<noteq> SSH2_MSG_NEWKEYS, s')" "delivered ?s3 t payload s'"
    using packet_read_clear [of ?s3 l4 t payload rnd "map Some tg @ ?fill"] q(2) assms(6,9-12) by (auto simp: sel)
  have "dir_pair key (e'\<lparr>sequence := sequence e' + 1\<rparr>) (dir_in s')"
    using s'(2) assms(1,4,5) q(6-9) ew(1) by (auto simp: delivered_def dir_pair_def)
  then have "received key e' s t payload rest s'" using s'(2) by (simp add: received_def delivered_def sel)
  then show ?thesis using handle_input_step [OF s1] handle_input_step [OF s2] rest s'(1)
      handle_input_step [of s2 s'] handle_input_stop [of s2 s'] by (intro exI [of _ s']) auto
qed

text \<open>
  CBC with a plain MAC: before each block the buffer holds the clear text of the blocks so far and, after
  it, as many bytes of the stream as the MAC is long.
\<close>

definition same_frame :: "('c, 'h, 'z) ssh2_bpp_state \<Rightarrow> ('c, 'h, 'z) ssh2_bpp_state \<Rightarrow> bool" where
  "same_frame s0 s \<longleftrightarrow> in_pq s = in_pq s0 \<and> ssh_events s = ssh_events s0 \<and> out_pq s = out_pq s0 \<and> in_decomp s = in_decomp s0 \<and>
     dir_out s = dir_out s0 \<and> input_eof s = input_eof s0"

definition inner_pad :: "byte list \<Rightarrow> byte list" where
  "inner_pad key = map (\<lambda>b. 0x36 XOR b)
     (let k = (if length key > blocklen (mac_hash malg') then H key else key) in k @ replicate (blocklen (mac_hash malg') - length k) 0)"

definition cbc_at :: "byte list \<Rightarrow> byte list \<Rightarrow> byte list \<Rightarrow> byte list \<Rightarrow> byte list \<Rightarrow> ('c, 'h, 'z) ssh2_bpp_state \<Rightarrow> 'c \<Rightarrow> nat \<Rightarrow>
    ('c, 'h, 'z) ssh2_bpp_state \<Rightarrow> bool" where
  "cbc_at key bs c tg rest s0 yf k s \<longleftrightarrow>
     crState s = CbcBlock \<and> s_packetlen s = k \<and> s_maclen s = mac_len malg \<and> s_cipherblk s = rounded (blksize calg) \<and>
     (\<exists>junk. s_buf s = map Some (take k bs @ take (mac_len malg) (drop k (c @ tg))) @ junk) \<and>
     OUR_V2_PACKETLIMIT + mac_len malg \<le> length (s_buf s) \<and> in_raw s = drop (k + mac_len malg) (c @ tg) @ rest \<and> same_frame s0 s \<and>
     (\<exists>y m. dir_in s = (dir_in s0)\<lparr>cipher := Some (calg', y), mac := Some (malg', m)\<rparr> \<and> cipher_decrypt calg y (drop k c) = Inr (yf, drop k bs) \<and>
       rx.keyed key m \<and> rep (h_live m) (inner_pad key @ PUT_32BIT_MSB_FIRST (ucast (sequence (dir_in s0))) @ take k bs))"

lemma live_result:
  assumes "rx.keyed key m" "rep (h_live m) (inner_pad key @ PUT_32BIT_MSB_FIRST (ucast seq) @ msg)" "mac_len malg \<le> length cand"
  shows "ssh2_mac_verresult (mac_hash malg') (mac_len malg') m cand = Inr (take (mac_len malg) cand = tag key seq msg)"
proof -
  have "hmac_genresult (mac_hash malg') (mac_len malg') m = Inr (tag key seq msg)"
    using rx.hmac_live [OF assms(1), of _ "PUT_32BIT_MSB_FIRST (ucast seq) @ msg" "mac_len malg'", OF assms(2) [unfolded inner_pad_def]]
      mac_sizes(1) same_mac hlen' by (simp add: tag_def)
  then show ?thesis using assms(3) mac_sizes(2) same_mac smemeq_iff [of "tag key seq msg" "take (mac_len malg) cand"] tag_length [of key seq msg]
    by (auto simp: ssh2_mac_verresult_def)
qed

lemma cbc_block_step:
  fixes s :: "('c, 'h, 'z) ssh2_bpp_state"
  defines "u \<equiv> rounded (blksize calg)" and "L \<equiv> mac_len malg"
  assumes "cbc_at key bs c tg rest s0 yf k s" "length c = length bs" "length tg = mac_len malg" "tg = tag key (sequence (dir_in s0)) bs"
    "u dvd k" "u dvd length bs" "k < length bs" "length bs \<le> OUR_V2_PACKETLIMIT"
    "bs = clear_packet t payload rnd"
  shows "\<exists>s1. cbc_at key bs c tg rest s0 yf (k + u) s1 \<and>
    bpp_step s = (if k + u = length bs then packet_read (s1\<lparr>s_len := int (length bs) - 4, s_maxlen := length bs + L, s_data := take (length bs + L) (s_buf s1)\<rparr>)
      else Inr (True, s1))"
proof -
  let ?n = "length bs" and ?seq = "sequence (dir_in s0)"
  define W where "W = c @ tg"
  have W: "length W = ?n + L" "take ?n W = c" "drop ?n W = tg" using assms(4,5) by (auto simp: W_def L_def)
  obtain junk y m where st: "crState s = CbcBlock" "s_packetlen s = k" "s_maclen s = L" "s_cipherblk s = u"
    "s_buf s = map Some (take k bs @ take L (drop k W)) @ junk" "OUR_V2_PACKETLIMIT + L \<le> length (s_buf s)"
    "in_raw s = drop (k + L) W @ rest" "same_frame s0 s" "dir_in s = (dir_in s0)\<lparr>cipher := Some (calg', y), mac := Some (malg', m)\<rparr>"
    "cipher_decrypt calg y (drop k c) = Inr (yf, drop k bs)" "rx.keyed key m" "rep (h_live m) (inner_pad key @ PUT_32BIT_MSB_FIRST (ucast ?seq) @ take k bs)"
    using assms(3) unfolding cbc_at_def L_def u_def W_def by metis
  have ku: "k + u \<le> ?n" "8 \<le> u" using assms(7-9) dvd_imp_le [of u "?n - k"] by (auto simp: u_def rounded_def)
  define x where "x = take u (drop (k + L) W)"
  have raw: "in_raw s = x @ drop (k + u + L) W @ rest" "length x = u"
    using st(7) ku W(1) append_take_drop_id [of u "drop (k + L) W"] by (simp_all add: x_def add.commute add.left_commute)
  have "take (L + u) (drop k W) = take L (drop k W) @ take u (drop L (drop k W))" by (rule take_add)
  then have Wx: "take L (drop k W) @ x = take (L + u) (drop k W)" by (simp add: x_def add.commute)
  have ku': "take (L + u) (drop k W) = take u (drop k c) @ take L (drop (k + u) W)"
  proof -
    have "take (u + L) (drop k W) = take u (drop k W) @ take L (drop u (drop k W))" by (rule take_add)
    moreover have "take u (drop k W) = take u (drop k c)" using ku W(2) by (metis add.commute drop_take take_take min.absorb1 diff_le_mono le_add_diff_inverse2 take_drop)
    ultimately show ?thesis by (simp add: add.commute)
  qed
  define b1 where "b1 = map Some (take k bs @ take u (drop k c) @ take L (drop (k + u) W)) @ drop u junk"
  have lj: "u \<le> length junk" "length (take k bs @ take L (drop k W)) = k + L" using st(5,6) ku W(1) assms(9,10) by auto
  have w1: "mem_write (s_buf s) (k + L) (map Some x) = Inr b1"
    using st(5) lj raw(2) Wx ku' by (subst mem_write_Some [where bs = "take k bs @ take L (drop k W)"]) (simp_all add: b1_def)
  have r1: "mem_read b1 k u = Inr (take u (drop k c))" unfolding b1_def using ku assms(4) by (subst mem_read_Some) simp_all
  obtain y1 where y1: "cipher_decrypt calg y (take u (drop k c)) = Inr (y1, take u (drop k bs))" "cipher_decrypt calg y1 (drop (k + u) c) = Inr (yf, drop (k + u) bs)"
  proof -
    have d: "blksize calg dvd length (take u (drop k c))" "blksize calg dvd length (drop (k + u) c)"
      using whole_blocks assms(4,7,8) ku by (auto simp: u_def intro: dvd_trans dvd_diff_nat dvd_add)
    have "take u (drop k c) @ drop (k + u) c = drop k c" by (metis add.commute append_take_drop_id drop_drop)
    then show ?thesis using decrypt_parts [of y "take u (drop k c)" "drop (k + u) c" yf "drop k bs"] d st(10) ku assms(4) that by (auto simp: add.commute)
  qed
  have dec: "dir_decrypt (dir_in s) (take u (drop k c)) = Inr ((dir_in s)\<lparr>cipher := Some (calg', y1)\<rparr>, take u (drop k bs))"
    using st(9) y1(1) by (simp add: dir_decrypt_def decrypting_table)
  define b2 where "b2 = map Some (take (k + u) bs @ take L (drop (k + u) W)) @ drop u junk"
  have tk: "take (k + u) bs = take k bs @ take u (drop k bs)" by (rule take_add)
  have w2: "mem_write b1 k (map Some (take u (drop k bs))) = Inr b2"
    using ku assms(4) tk unfolding b1_def b2_def by (subst mem_write_Some [where bs = "take k bs"]) simp_all
  obtain h where h: "hash_write (mac_hash malg') (h_live m) (take u (drop k bs)) = Inr h"
    "rep h (inner_pad key @ PUT_32BIT_MSB_FIRST (ucast ?seq) @ take (k + u) bs)"
  proof -
    have "length (take u (drop k bs)) < 2 ^ 32" using assms(10) by (auto simp: OUR_V2_PACKETLIMIT_def min_def)
    then show ?thesis using rx.write_rep [OF st(12), of "take u (drop k bs)"] tk that by auto
  qed
  have keyed: "rx.keyed key (m\<lparr>h_live := h\<rparr>)" using st(11) by (simp add: rx.keyed_def)
  let ?cand = "take L (drop (k + u) W)"
  have r3: "mem_read b2 (k + u) L = Inr ?cand" unfolding b2_def using ku W(1) by (subst mem_read_Some) simp_all
  have r4: "mem_read b2 0 4 = Inr (take 4 bs)" unfolding b2_def using ku by (subst mem_read_Some) simp_all
  define ok where "ok = (?cand = tag key ?seq (take (k + u) bs))"
  have ver: "ssh2_mac_verresult (mac_hash malg') L (m\<lparr>h_live := h\<rparr>) ?cand = Inr ok"
    using live_result [OF keyed, of ?seq "take (k + u) bs" ?cand] h(2) ku W(1) same_mac(1) by (simp add: ok_def L_def)
  have len: "toint (GET_32BIT_MSB_FIRST (take 4 bs)) = int ?n - 4" using clear_packet_length_field assms(10,11) by blast
  define s1 where "s1 = s\<lparr>in_raw := drop (k + u + L) W @ rest, s_buf := b2,
    dir_in := (dir_in s0)\<lparr>cipher := Some (calg', y1), mac := Some (malg', m\<lparr>h_live := h\<rparr>)\<rparr>, s_packetlen := k + u,
    s_len := (if ok then int ?n - 4 else s_len s)\<rparr>"
  have lb: "length b2 = length (s_buf s)" using length_mem_write [OF w1] length_mem_write [OF w2] by simp
  have at: "cbc_at key bs c tg rest s0 yf (k + u) s1"
    unfolding cbc_at_def
  proof (intro conjI)
    show "\<exists>junk. s_buf s1 = map Some (take (k + u) bs @ take (mac_len malg) (drop (k + u) (c @ tg))) @ junk"
      by (simp add: s1_def b2_def L_def W_def)
    show "\<exists>y m'. dir_in s1 = (dir_in s0)\<lparr>cipher := Some (calg', y), mac := Some (malg', m')\<rparr> \<and> cipher_decrypt calg y (drop (k + u) c) = Inr (yf, drop (k + u) bs) \<and>
       rx.keyed key m' \<and> rep (h_live m') (inner_pad key @ PUT_32BIT_MSB_FIRST (ucast ?seq) @ take (k + u) bs)"
      using y1(2) keyed h(2) by (intro exI [of _ y1] exI [of _ "m\<lparr>h_live := h\<rparr>"]) (simp add: s1_def)
  qed (use st(1,3,4,6,8) lb in \<open>simp_all add: s1_def same_frame_def L_def u_def W_def\<close>)
  have r: "BPP_READ s u f = f x (s\<lparr>in_raw := drop (k + u + L) W @ rest\<rparr>)" for f by (rule BPP_READ_exact [OF raw])
  show ?thesis
  proof (intro exI [of _ s1] conjI at)
    show "bpp_step s = (if k + u = ?n then packet_read (s1\<lparr>s_len := int ?n - 4, s_maxlen := ?n + L, s_data := take (?n + L) (s_buf s1)\<rparr>) else Inr (True, s1))"
    proof (cases "k + u = ?n")
      case True
      then have ok: "ok" using W(1,3) assms(5,6) by (simp add: ok_def L_def)
      show ?thesis using True ok w1 r1 dec w2 h(1) r3 ver r4 len st(6) lb ku assms(10)
        by (simp add: bpp_step_def read_cbc_block_def st r Let_def hmac_write_def same_mac L_def [symmetric] s1_def)
    next
      case False
      then have lt: "k + u < OUR_V2_PACKETLIMIT" "int ?n - 4 \<noteq> int (k + u) - 4" using ku assms(10) by auto
      show ?thesis
      proof (cases ok)
        case True
        then show ?thesis using False lt w1 r1 dec w2 h(1) r3 ver r4 len
          by (simp add: bpp_step_def read_cbc_block_def st r Let_def hmac_write_def same_mac L_def [symmetric] s1_def)
      next
        case nok: False
        show ?thesis using False nok lt w1 r1 dec w2 h(1) r3 ver
          by (simp add: bpp_step_def read_cbc_block_def st r Let_def hmac_write_def same_mac L_def [symmetric] s1_def)
      qed
    qed
  qed
qed

lemma cbc_loop:
  fixes s :: "('c, 'h, 'z) ssh2_bpp_state"
  assumes "length c = length bs" "length tg = mac_len malg" "tg = tag key (sequence (dir_in s0)) bs"
    "rounded (blksize calg) dvd length bs" "length bs \<le> OUR_V2_PACKETLIMIT" "bs = clear_packet t payload rnd"
  shows "cbc_at key bs c tg rest s0 yf k s \<Longrightarrow> rounded (blksize calg) dvd k \<Longrightarrow> k < length bs \<Longrightarrow>
    \<exists>sl s1. ssh2_bpp_handle_input s = ssh2_bpp_handle_input sl \<and> cbc_at key bs c tg rest s0 yf (length bs) s1 \<and>
      bpp_step sl = packet_read (s1\<lparr>s_len := int (length bs) - 4, s_maxlen := length bs + mac_len malg, s_data := take (length bs + mac_len malg) (s_buf s1)\<rparr>)"
proof (induction "length bs - k" arbitrary: k s rule: less_induct)
  case less
  let ?u = "rounded (blksize calg)"
  obtain s1 where s1: "cbc_at key bs c tg rest s0 yf (k + ?u) s1"
    "bpp_step s = (if k + ?u = length bs then packet_read (s1\<lparr>s_len := int (length bs) - 4, s_maxlen := length bs + mac_len malg,
       s_data := take (length bs + mac_len malg) (s_buf s1)\<rparr>) else Inr (True, s1))"
    using cbc_block_step [OF less.prems(1) assms(1-3) less.prems(2) assms(4) less.prems(3) assms(5,6)] by blast
  show ?case
  proof (cases "k + ?u = length bs")
    case True
    have at: "cbc_at key bs c tg rest s0 yf (length bs) s1" using s1(1) unfolding True .
    show ?thesis using s1(2) True by (intro exI [of _ s] exI [of _ s1] conjI refl at) simp
  next
    case False
    have pos: "0 < ?u" by (simp add: rounded_def)
    have "?u \<le> length bs - k" using less.prems(2,3) assms(4) by (intro dvd_imp_le) auto
    then have lt: "k + ?u < length bs" using False less.prems(3) by linarith
    have "?u dvd k + ?u" using less.prems(2) by simp
    have dec: "length bs - (k + ?u) < length bs - k" using pos less.prems(3) by linarith
    from less.hyps [OF dec s1(1) \<open>?u dvd k + ?u\<close> lt] obtain sl s2 where
      "ssh2_bpp_handle_input s1 = ssh2_bpp_handle_input sl" "cbc_at key bs c tg rest s0 yf (length bs) s2"
      "bpp_step sl = packet_read (s2\<lparr>s_len := int (length bs) - 4, s_maxlen := length bs + mac_len malg, s_data := take (length bs + mac_len malg) (s_buf s2)\<rparr>)"
      by blast
    then show ?thesis using handle_input_step [of s s1] s1(2) False by (intro exI [of _ sl] exI [of _ s2]) simp
  qed
qed

lemma cbc_start:
  fixes s :: "('c, 'h, 'z) ssh2_bpp_state"
  assumes "crState s = Top" "cipher (dir_in s) = Some (calg', y)" "mac (dir_in s) = Some (malg', m)" "\<not> etm_mode (dir_in s)" "is_cbc calg"
    "rx.keyed key m" "cipher_decrypt calg y c = Inr (yf, bs)" "in_raw s = c @ tg @ rest" "length tg = mac_len malg"
  shows "\<exists>s1. ssh2_bpp_handle_input s = ssh2_bpp_handle_input s1 \<and> cbc_at key bs c tg rest s yf 0 s1"
proof -
  let ?L = "mac_len malg" and ?u = "rounded (blksize calg)" and ?b = "ensure_buf (s_buf s) (OUR_V2_PACKETLIMIT + mac_len malg)"
  have shape: "dir_cipherblk (dir_in s) = ?u" "dir_maclen (dir_in s) = ?L" "cipher_is_cbc (cipher (dir_in s))"
    using assms(2,3,5) same_mac(1) by (simp_all add: dir_cipherblk_def dir_maclen_def cipher_is_cbc_def rounded_def decrypting_table)
  define s1 where "s1 = s\<lparr>s_maxlen := 0, s_length := 0, s_cipherblk := ?u, s_maclen := ?L, s_buf := ?b, crState := CbcMac\<rparr>"
  have s1: "bpp_step s = Inr (True, s1)"
    using assms(1,3,4) shape by (simp add: bpp_step_def read_top_def Let_def s1_def)
  have raw: "in_raw s1 = take ?L (c @ tg) @ drop ?L (c @ tg) @ rest" "length (take ?L (c @ tg)) = ?L"
    using assms(8,9) append_take_drop_id [of ?L "c @ tg"] by (simp_all add: s1_def del: append_take_drop_id take_append drop_append)
  have "rep (h_inner m) (inner_pad key)" using assms(6) by (simp add: rx.keyed_def inner_pad_def Let_def)
  then obtain h where h: "hash_write (mac_hash malg') (h_inner m) (PUT_32BIT_MSB_FIRST (ucast (sequence (dir_in s)))) = Inr h"
    "rep h (inner_pad key @ PUT_32BIT_MSB_FIRST (ucast (sequence (dir_in s))))"
    using rx.write_rep [of "h_inner m" "inner_pad key" "PUT_32BIT_MSB_FIRST (ucast (sequence (dir_in s)))"] by auto
  let ?m = "m\<lparr>h_live := h\<rparr>"
  have keyed: "rx.keyed key ?m" using assms(6) by (simp add: rx.keyed_def)
  let ?b1 = "map Some (take ?L (c @ tg)) @ drop ?L ?b"
  have lb: "OUR_V2_PACKETLIMIT + ?L \<le> length ?b" by (simp add: ensure_buf_def)
  have w: "mem_write ?b 0 (map Some (take ?L (c @ tg))) = Inr ?b1" using lb raw(2) by (simp add: mem_write_def del: take_append length_take)
  define s2 where "s2 = s1\<lparr>in_raw := drop ?L (c @ tg) @ rest, s_buf := ?b1, s_packetlen := 0, dir_in := (dir_in s)\<lparr>mac := Some (malg', ?m)\<rparr>, crState := CbcBlock\<rparr>"
  have s2: "bpp_step s1 = Inr (True, s2)"
  proof -
    have r: "BPP_READ s1 ?L f = f (take ?L (c @ tg)) (s1\<lparr>in_raw := drop ?L (c @ tg) @ rest\<rparr>)" for f by (rule BPP_READ_exact [OF raw])
    have sel: "crState s1 = CbcMac" "s_maclen s1 = ?L" "s_buf s1 = ?b" "dir_in s1 = dir_in s" by (simp_all add: s1_def)
    show ?thesis using w h(1) assms(3)
      by (simp add: bpp_step_def read_cbc_mac_def sel r hmac_write_def hmac_start_def s2_def del: take_append drop_append)
  qed
  have "cbc_at key bs c tg rest s yf 0 s2"
    unfolding cbc_at_def
  proof (intro conjI)
    show "\<exists>junk. s_buf s2 = map Some (take 0 bs @ take ?L (drop 0 (c @ tg))) @ junk" by (simp add: s2_def del: take_append drop_append)
    have "dir_in s2 = (dir_in s)\<lparr>cipher := Some (calg', y), mac := Some (malg', ?m)\<rparr>" using assms(2) by (simp add: s2_def)
    then show "\<exists>y m'. dir_in s2 = (dir_in s)\<lparr>cipher := Some (calg', y), mac := Some (malg', m')\<rparr> \<and> cipher_decrypt calg y (drop 0 c) = Inr (yf, drop 0 bs) \<and>
       rx.keyed key m' \<and> rep (h_live m') (inner_pad key @ PUT_32BIT_MSB_FIRST (ucast (sequence (dir_in s))) @ take 0 bs)"
      using assms(7) keyed h(2) by (intro exI [of _ y] exI [of _ ?m]) simp
    show "OUR_V2_PACKETLIMIT + ?L \<le> length (s_buf s2)" using lb assms(9) by (simp add: s2_def del: take_append drop_append)
  qed (simp_all add: s2_def s1_def same_frame_def del: take_append drop_append)
  then show ?thesis using handle_input_step [OF s1] handle_input_step [OF s2] by auto
qed

lemma read_cbc:
  fixes s :: "('c, 'h, 'z) ssh2_bpp_state"
  assumes "dir_pair key e (dir_in s)" "plain_receiver s" "crState s = Top" "mac e \<noteq> None" "\<not> etm_mode e" "cipher_is_cbc (cipher e)"
    "bs = clear_packet t payload rnd" "dir_cipherblk e dvd length bs"
    "length bs \<le> OUR_V2_PACKETLIMIT" "4 \<le> length rnd" "length rnd \<le> 255" "valid_type t" "t < 256"
    "seal_packet e bs = Inr (e', w)" "in_raw s = w @ rest"
  shows "\<exists>s'. ssh2_bpp_handle_input s = (if t = SSH2_MSG_NEWKEYS then Some (Inr s') else ssh2_bpp_handle_input s') \<and>
    received key e' s t payload rest s'"
proof -
  let ?d = "dir_in s" and ?n = "length bs"
  have lim: "?n < 2 ^ 32" "\<not> (mac e \<noteq> None \<and> etm_mode e)" using assms(5,9) by (simp_all add: OUR_V2_PACKETLIMIT_def)
  obtain x y mx my c tg where q: "seal_packet e bs = Inr (e\<lparr>mac := mx, cipher := x\<rparr>, c @ tg)" "length c = ?n" "length tg = dir_maclen e"
    "dir_decrypt ?d c = Inr (?d\<lparr>cipher := y\<rparr>, bs)" "cipher_pair x y" "mac_pair key mx my" "(x = None) = (cipher e = None)" "(mx = None) = (mac e = None)"
    "mac e \<noteq> None \<longrightarrow> tg = tag key (sequence e) bs"
    using seal_plain [OF assms(1) lim(2) assms(8) lim(1)] by metis
  have ew: "e' = e\<lparr>mac := mx, cipher := x\<rparr>" "w = c @ tg" using q(1) assms(14) by simp_all
  obtain c0 y0 where c0: "cipher e = Some (calg, c0)" "cipher ?d = Some (calg', y0)"
    using assms(1,6) by (auto simp: dir_pair_def cipher_pair_def cipher_is_cbc_def)
  obtain m0 m where m: "mac e = Some (malg, m0)" "mac ?d = Some (malg', m)" "rx.keyed key m"
    using assms(1,4) by (auto simp: dir_pair_def mac_pair_def)
  obtain yf where yf: "cipher_decrypt calg y0 c = Inr (yf, bs)" "?d\<lparr>cipher := y\<rparr> = ?d\<lparr>cipher := Some (calg', yf)\<rparr>"
    using q(4) c0(2) by (auto simp: dir_decrypt_def decrypting_table elim!: res_bindE)
  have "cipher (?d\<lparr>cipher := y\<rparr>) = Some (calg', yf)" unfolding yf(2) by simp
  then have y: "y = Some (calg', yf)" by simp
  have d: "\<not> etm_mode ?d" "is_cbc calg" "sequence e = sequence ?d" "dir_maclen e = mac_len malg" "dir_cipherblk e = rounded (blksize calg)"
    using assms(1,5,6) c0(1) m(1) by (simp_all add: dir_pair_def cipher_is_cbc_def dir_maclen_def dir_cipherblk_def rounded_def)
  have tg: "length tg = mac_len malg" "tg = tag key (sequence ?d) bs" using q(3,9) d assms(4) by auto
  have "in_raw s = c @ tg @ rest" using assms(15) ew(2) by simp
  then obtain s1 where s1: "ssh2_bpp_handle_input s = ssh2_bpp_handle_input s1" "cbc_at key bs c tg rest s yf 0 s1"
    using cbc_start [OF assms(3) c0(2) m(2) d(1,2) m(3) yf(1) _ tg(1)] by blast
  have n0: "0 < ?n" using assms(7) by simp
  have ud: "rounded (blksize calg) dvd ?n" using assms(8) d(5) by simp
  obtain sl s2 where s2: "ssh2_bpp_handle_input s1 = ssh2_bpp_handle_input sl" "cbc_at key bs c tg rest s yf ?n s2"
    "bpp_step sl = packet_read (s2\<lparr>s_len := int ?n - 4, s_maxlen := ?n + mac_len malg, s_data := take (?n + mac_len malg) (s_buf s2)\<rparr>)"
    using cbc_loop [OF q(2) tg ud assms(9,7) s1(2) dvd_0_right n0] by blast
  let ?s3 = "s2\<lparr>s_len := int ?n - 4, s_maxlen := ?n + mac_len malg, s_data := take (?n + mac_len malg) (s_buf s2)\<rparr>"
  obtain junk yl ml where at: "s_packetlen s2 = ?n" "s_buf s2 = map Some (bs @ tg) @ junk" "in_raw s2 = rest" "same_frame s s2"
    "dir_in s2 = ?d\<lparr>cipher := Some (calg', yl), mac := Some (malg', ml)\<rparr>" "cipher_decrypt calg yl [] = Inr (yf, [])" "rx.keyed key ml"
    using s2(2) q(2) tg(1) unfolding cbc_at_def by auto
  have yl: "yl = yf" using at(6) decrypt_empty by simp
  have data: "s_data ?s3 = map Some (take 4 bs @ drop 4 bs) @ map Some tg" using at(2) tg(1) by simp
  have "plain_receiver ?s3" using assms(2) at(4,5) by (auto simp: plain_receiver_def same_frame_def)
  then obtain s' where s': "packet_read ?s3 = Inr (t \<noteq> SSH2_MSG_NEWKEYS, s')" "delivered ?s3 t payload s'"
    using packet_read_clear [OF data [unfolded assms(7)]] at(1) assms(7,10-13) by auto
  have "dir_in s' = ?d\<lparr>cipher := Some (calg', yf), mac := Some (malg', ml), sequence := sequence ?d + 1\<rparr>"
    using s'(2) at(5) yl by (simp add: delivered_def)
  then have "dir_pair key (e'\<lparr>sequence := sequence e' + 1\<rparr>) (dir_in s')"
    using assms(1,4,5) q(5,6,8) c0(1) y at(7) ew(1) by (auto simp: dir_pair_def mac_pair_def)
  then have "received key e' s t payload rest s'" using s'(2) at(3,4,5) by (simp add: received_def delivered_def same_frame_def)
  then show ?thesis using s1(1) s2(1,3) s'(1) handle_input_step [of sl s'] handle_input_stop [of sl s']
    by (intro exI [of _ s']) auto
qed

text \<open>All modes at once.\<close>

lemma read_packet:
  fixes s :: "('c, 'h, 'z) ssh2_bpp_state"
  assumes "dir_pair key e (dir_in s)" "plain_receiver s" "crState s = Top" "bs = clear_packet t payload rnd" "unit_ok e bs"
    "length bs \<le> OUR_V2_PACKETLIMIT" "4 \<le> length rnd" "length rnd \<le> 255" "valid_type t" "t < 256"
    "seal_packet e bs = Inr (e', w)" "in_raw s = w @ rest"
  shows "\<exists>s'. ssh2_bpp_handle_input s = (if t = SSH2_MSG_NEWKEYS then Some (Inr s') else ssh2_bpp_handle_input s') \<and>
    received key e' s t payload rest s'"
proof -
  consider (etm) "mac e \<noteq> None" "etm_mode e" | (cbc) "mac e \<noteq> None" "\<not> etm_mode e" "cipher_is_cbc (cipher e)"
    | (plain) "\<not> (mac e \<noteq> None \<and> etm_mode e)" "\<not> (cipher_is_cbc (cipher e) \<and> mac e \<noteq> None)" by blast
  then show ?thesis
  proof cases
    case etm
    then show ?thesis using read_etm [OF assms(1-3) etm assms(4)] assms(5-12) by (simp add: unit_ok_def)
  next
    case cbc
    then show ?thesis using read_cbc [OF assms(1-3) cbc assms(4)] assms(5-12) by (simp add: unit_ok_def)
  next
    case plain
    have "dir_cipherblk e dvd length bs" using assms(5) plain(1) by (auto simp: unit_ok_def split: if_splits)
    then show ?thesis using read_plain [OF assms(1-3) plain assms(4)] assms(6-12) by blast
  qed
qed

lemma seal_packet_ok:
  fixes e d :: "('c, 'h, 'z) ssh2_bpp_direction"
  assumes "dir_pair key e d" "unit_ok e bs" "length bs < 2 ^ 32" "4 \<le> length bs"
  shows "\<exists>e' w. seal_packet e bs = Inr (e', w)"
proof (cases "mac e \<noteq> None \<and> etm_mode e")
  case True
  then show ?thesis using seal_etm [OF assms(1), of bs] assms(2-4) by (auto simp: unit_ok_def)
next
  case False
  have "dir_cipherblk e dvd length bs" using assms(2) False by (auto simp: unit_ok_def split: if_splits)
  then show ?thesis using seal_plain [OF assms(1) False _ assms(3)] by auto
qed

lemma seal_kept:
  fixes e d :: "('c, 'h, 'z) ssh2_bpp_direction"
  assumes "dir_pair key e d" "unit_ok e bs" "length bs < 2 ^ 32" "4 \<le> length bs" "seal_packet e bs = Inr (e', w)"
  shows "(\<exists>d'. dir_pair key (e'\<lparr>sequence := sequence e' + 1\<rparr>) d') \<and> (cipher e' = None) = (cipher e = None) \<and> (mac e' = None) = (mac e = None)"
proof -
  have "\<exists>x y mx my. e' = e\<lparr>cipher := x, mac := mx\<rparr> \<and> cipher_pair x y \<and> mac_pair key mx my \<and> (x = None) = (cipher e = None) \<and> (mx = None) = (mac e = None)"
  proof (cases "mac e \<noteq> None \<and> etm_mode e")
    case True
    then have m: "mac e \<noteq> None" "etm_mode e" "dir_cipherblk e dvd length bs - 4" using assms(2) by (simp_all add: unit_ok_def)
    obtain x y mx my l4 c t where q: "seal_packet e bs = Inr (e\<lparr>cipher := x, mac := mx\<rparr>, l4 @ c @ t)" "cipher_pair x y" "mac_pair key mx my"
      "(x = None) = (cipher e = None)" "(mx = None) = (mac e = None)"
      using seal_etm [OF assms(1) m assms(3,4)] by metis
    have "e' = e\<lparr>cipher := x, mac := mx\<rparr>" using q(1) assms(5) by simp
    then show ?thesis using q(2-5) by (intro exI [of _ x] exI [of _ y] exI [of _ mx] exI [of _ my]) simp
  next
    case False
    have u: "dir_cipherblk e dvd length bs" using assms(2) False by (auto simp: unit_ok_def split: if_splits)
    obtain x y mx my c t where q: "seal_packet e bs = Inr (e\<lparr>mac := mx, cipher := x\<rparr>, c @ t)" "cipher_pair x y" "mac_pair key mx my"
      "(x = None) = (cipher e = None)" "(mx = None) = (mac e = None)"
      using seal_plain [OF assms(1) False u assms(3)] by metis
    have "e' = e\<lparr>cipher := x, mac := mx\<rparr>" using q(1) assms(5) by simp
    then show ?thesis using q(2-5) by (intro exI [of _ x] exI [of _ y] exI [of _ mx] exI [of _ my]) simp
  qed
  then obtain x y mx my where q: "e' = e\<lparr>cipher := x, mac := mx\<rparr>" "cipher_pair x y" "mac_pair key mx my" "(x = None) = (cipher e = None)"
    "(mx = None) = (mac e = None)" by metis
  have "dir_pair key (e'\<lparr>sequence := sequence e' + 1\<rparr>) (d\<lparr>cipher := y, mac := my, sequence := sequence d + 1\<rparr>)"
    using q assms(1) by (auto simp: dir_pair_def)
  then show ?thesis using q by auto
qed

lemma carries_kept:
  fixes e e' :: "('c, 'h, 'z) ssh2_bpp_direction"
  shows "carries e ps w e' \<Longrightarrow> dir_pair key e d \<Longrightarrow>
    (\<exists>d'. dir_pair key e' d') \<and> (cipher e' = None) = (cipher e = None) \<and> (mac e' = None) = (mac e = None)"
proof (induction arbitrary: d rule: carries.induct)
  case (carries_Cons bs t payload rnd e e1 w1 ps w e')
  have "length bs < 2 ^ 32" "4 \<le> length bs" using carries_Cons(1,5) by (simp_all add: OUR_V2_PACKETLIMIT_def)
  from seal_kept [OF carries_Cons.prems carries_Cons(4) this carries_Cons(6)] obtain d1 where
    "dir_pair key (e1\<lparr>sequence := sequence e1 + 1\<rparr>) d1" "(cipher e1 = None) = (cipher e = None)" "(mac e1 = None) = (mac e = None)" by metis
  then show ?case using carries_Cons.IH [of d1] by simp
qed blast

definition fits :: "nat \<times> byte list \<times> nat \<Rightarrow> bool" where
  "fits m = (case m of (t, payload, ml) \<Rightarrow> length payload + 261 \<le> OUR_V2_PACKETLIMIT \<and> ml + 265 \<le> OUR_V2_PACKETLIMIT)"

definition not_ignored :: "nat \<times> byte list \<Rightarrow> bool" where
  "not_ignored p \<longleftrightarrow> fst p \<noteq> SSH2_MSG_IGNORE"

text \<open>One end sends \<open>ps\<close>, of which only \<open>IGNORE\<close> messages are of the layer's own making.\<close>

definition sends :: "byte list \<Rightarrow> ('c, 'h, 'z) ssh2_bpp_state \<Rightarrow> (nat \<times> byte list) list \<Rightarrow> byte list \<Rightarrow> ('c, 'h, 'z) ssh2_bpp_state \<Rightarrow> bool" where
  "sends key s ps w s' \<longleftrightarrow> carries (dir_out s) ps w (dir_out s') \<and> plain_sender s' \<and> (\<exists>d. dir_pair key (dir_out s') d) \<and>
     out_raw s' = out_raw s @ w \<and> out_pq s' = out_pq s \<and> dir_in s' = dir_in s"

lemma sends_trans: "sends key s ps w s' \<Longrightarrow> sends key s' qs v s'' \<Longrightarrow> sends key s (ps @ qs) (w @ v) s''"
  unfolding sends_def by (auto intro: carries_append)

lemma format_inner_sends:
  assumes "plain_sender s" "dir_pair key (dir_out s) d" "length payload + 261 \<le> OUR_V2_PACKETLIMIT"
  shows "\<exists>s' w. ssh2_bpp_format_packet_inner s (message t payload ml) = Inr (s', w) \<and> sends key s [(t, payload)] w (s'\<lparr>out_raw := out_raw s' @ w\<rparr>)"
proof -
  have "out_comp s = None" using assms(1) by (simp add: plain_sender_def)
  from format_inner_carries [OF this dir_pair_shape(8) [OF assms(2)] assms(3) seal_packet_ok [OF assms(2)], of t ml]
  obtain s' w where q: "ssh2_bpp_format_packet_inner s (message t payload ml) = Inr (s', w)" "carries (dir_out s) [(t, payload)] w (dir_out s')"
    and f: "out_comp s' = out_comp s" "dir_in s' = dir_in s" "pending_compression s' = pending_compression s" "out_raw s' = out_raw s"
    "cbc_ignore_workaround s' = cbc_ignore_workaround s" "out_pq s' = out_pq s" by blast
  obtain d' where k: "dir_pair key (dir_out s') d'" "(cipher (dir_out s') = None) = (cipher (dir_out s) = None)" "(mac (dir_out s') = None) = (mac (dir_out s) = None)"
    using carries_kept [OF q(2) assms(2)] by metis
  have "plain_sender (s'\<lparr>out_raw := out_raw s' @ w\<rparr>)" using assms(1) k f unfolding plain_sender_def by (simp add: dir_pair_def)
  then show ?thesis using q(1,2) k(1) f by (intro exI [of _ s'] exI [of _ w]) (auto simp: sends_def)
qed

lemma format_packet_sends:
  assumes "plain_sender s" "dir_pair key (dir_out s) d" "fits (t, payload, ml)"
  shows "\<exists>s' w ps. ssh2_bpp_format_packet s (message t payload ml) = Inr s' \<and> sends key s ps w s' \<and> (ps = [(t, payload)] \<or> (\<exists>x. ps = [(SSH2_MSG_IGNORE, x), (t, payload)]))"
proof -
  have fit: "length payload + 261 \<le> OUR_V2_PACKETLIMIT" "ml + 265 \<le> OUR_V2_PACKETLIMIT" using assms(3) by (auto simp: fits_def)
  have comp: "out_comp s = None" using assms(1) by (simp add: plain_sender_def)
  have last: "\<exists>s'' w. ssh2_bpp_format_packet_inner s' (message t payload ml) = Inr (s'', w) \<and> sends key s' [(t, payload)] w (s''\<lparr>out_raw := out_raw s'' @ w\<rparr>)"
    if "plain_sender s'" "dir_pair key (dir_out s') d'" for s' :: "('c, 'h, 'z) ssh2_bpp_state" and d'
    using format_inner_sends [OF that fit(1)] by blast
  show ?thesis
  proof (cases "0 < ml \<and> ignore_length (dir_out s) (message t payload ml) \<noteq> None")
    case False
    then have "ssh2_bpp_format_packet s (message t payload ml) =
        res_bind (ssh2_bpp_format_packet_inner s (message t payload ml)) (\<lambda>(s, wire). Inr (s\<lparr>out_raw := out_raw s @ wire\<rparr>))"
      using comp by (auto simp: ssh2_bpp_format_packet_def message_def put_pkt_def split: option.splits)
    moreover obtain s'' w where "ssh2_bpp_format_packet_inner s (message t payload ml) = Inr (s'', w)" "sends key s [(t, payload)] w (s''\<lparr>out_raw := out_raw s'' @ w\<rparr>)"
      using last [OF assms(1,2)] by blast
    ultimately show ?thesis by (intro exI [of _ "s''\<lparr>out_raw := out_raw s'' @ w\<rparr>"] exI [of _ w] exI [of _ "[(t, payload)]"]) simp
  next
    case True
    then obtain n where n: "0 < ml" "ignore_length (dir_out s) (message t payload ml) = Some n" by auto
    then have "n \<le> ml" by (auto simp: ignore_length_def message_def Let_def split: if_splits)
    define s0 where "s0 = fst (random_read s n)"
    define x where "x = PUT_32BIT_MSB_FIRST (of_nat n) @ snd (random_read s n)"
    have s0: "plain_sender s0" "dir_pair key (dir_out s0) d" "dir_out s0 = dir_out s" "out_raw s0 = out_raw s" "out_pq s0 = out_pq s" "dir_in s0 = dir_in s"
      using assms(1,2) by (simp_all add: s0_def random_read_def plain_sender_def)
    have lx: "length x + 261 \<le> OUR_V2_PACKETLIMIT" using fit(2) \<open>n \<le> ml\<close> by (simp add: x_def random_read_def)
    have ig: "put_pkt (put_pkt (ssh2_bpp_new_pktout SSH2_MSG_IGNORE) (PUT_32BIT_MSB_FIRST (of_nat n))) (snd (random_read s n)) = message SSH2_MSG_IGNORE x 0"
      by (simp add: message_def put_pkt_def ssh2_bpp_new_pktout_def x_def)
    obtain s1 w where s1: "ssh2_bpp_format_packet_inner s0 (message SSH2_MSG_IGNORE x 0) = Inr (s1, w)" "sends key s0 [(SSH2_MSG_IGNORE, x)] w (s1\<lparr>out_raw := out_raw s1 @ w\<rparr>)"
      using format_inner_sends [OF s0(1,2) lx] by blast
    let ?s1 = "s1\<lparr>out_raw := out_raw s1 @ w\<rparr>"
    have st: "sends key s [(SSH2_MSG_IGNORE, x)] w ?s1" using s1(2) s0(3-6) by (simp add: sends_def)
    then obtain d' where "plain_sender ?s1" "dir_pair key (dir_out ?s1) d'" unfolding sends_def by blast
    from last [OF this] obtain s2 v where s2: "ssh2_bpp_format_packet_inner ?s1 (message t payload ml) = Inr (s2, v)"
      "sends key ?s1 [(t, payload)] v (s2\<lparr>out_raw := out_raw s2 @ v\<rparr>)" by blast
    have "ssh2_bpp_format_packet s (message t payload ml) = Inr (s2\<lparr>out_raw := out_raw s2 @ v\<rparr>)"
      using n comp ig s1(1) s2(1) by (simp add: ssh2_bpp_format_packet_def Let_def case_prod_beta s0_def message_def [of t] put_pkt_def [of _ payload])
    then show ?thesis using sends_trans [OF st s2(2)]
      by (intro exI [of _ "s2\<lparr>out_raw := out_raw s2 @ v\<rparr>"] exI [of _ "w @ v"] exI [of _ "[(SSH2_MSG_IGNORE, x)] @ [(t, payload)]"]) simp
  qed
qed

text \<open>The packets on the wire are those of the queue, with \<open>IGNORE\<close> messages before some of them.\<close>

definition padded :: "(nat \<times> byte list) list \<Rightarrow> (nat \<times> byte list) list \<Rightarrow> bool" where
  "padded ps ms \<longleftrightarrow> filter not_ignored ps = filter not_ignored ms \<and> (ms \<noteq> [] \<longrightarrow> ps \<noteq> [] \<and> last ps = last ms)"

lemma padded_append: "padded ps ms \<Longrightarrow> padded qs ns \<Longrightarrow> ns \<noteq> [] \<or> qs = [] \<Longrightarrow> padded (ps @ qs) (ms @ ns)"
  by (auto simp: padded_def)

lemma padded_one: "ps = [m] \<or> (\<exists>x. ps = [(SSH2_MSG_IGNORE, x), m]) \<Longrightarrow> padded ps [m]"
  by (auto simp: padded_def not_ignored_def)

lemma enable_pending_plain: "plain_sender s \<Longrightarrow> ssh2_bpp_enable_pending_compression s = Inr s"
  by (simp add: plain_sender_def ssh2_bpp_enable_pending_compression_def)

abbreviation packet_of :: "nat \<times> byte list \<times> nat \<Rightarrow> PktOut" where
  "packet_of \<equiv> \<lambda>(t, payload, ml). message t payload ml"

abbreviation content_of :: "nat \<times> byte list \<times> nat \<Rightarrow> nat \<times> byte list" where
  "content_of \<equiv> \<lambda>(t, payload, ml). (t, payload)"

lemma output_loop_sends:
  "plain_sender s \<Longrightarrow> dir_pair key (dir_out s) d \<Longrightarrow> \<forall>m\<in>set ms. fits m \<Longrightarrow>
     \<exists>s' ps w. output_loop s n (map packet_of ms) = Inr s' \<and> sends key (s\<lparr>out_pq := []\<rparr>) ps w s' \<and> padded ps (map content_of ms) \<and> (ms = [] \<longrightarrow> ps = [])"
proof (induction ms arbitrary: s d n)
  case Nil
  then show ?case by (intro exI [of _ "s\<lparr>out_pq := []\<rparr>"] exI [of _ "[]"]) (auto simp: sends_def padded_def intro: carries_Nil)
next
  case (Cons m ms)
  obtain t payload ml where m: "m = (t, payload, ml)" by (metis prod.exhaust)
  obtain s1 w ps where s1: "ssh2_bpp_format_packet s (message t payload ml) = Inr s1" "sends key s ps w s1"
    "ps = [(t, payload)] \<or> (\<exists>x. ps = [(SSH2_MSG_IGNORE, x), (t, payload)])"
    using format_packet_sends [OF Cons.prems(1,2), of t payload ml] Cons.prems(3) m by (metis list.set_intros(1))
  let ?n = "if userauth_range t then n - 1 else n"
  obtain d1 where p: "plain_sender s1" "dir_pair key (dir_out s1) d1" using s1(2) unfolding sends_def by blast
  then obtain s' qs v where s': "output_loop s1 ?n (map packet_of ms) = Inr s'" "sends key (s1\<lparr>out_pq := []\<rparr>) qs v s'"
    "padded qs (map content_of ms)" "ms = [] \<longrightarrow> qs = []"
    using Cons.IH [OF p, of ?n] Cons.prems(3) by auto
  have pend: "dir_pending_compression (dir_out s1) = None" using p(1) by (simp add: plain_sender_def)
  have ot: "out_type (message t payload ml) = t" by (simp add: message_def put_pkt_def ssh2_bpp_new_pktout_def)
  have "output_loop s n (map packet_of (m # ms)) = Inr s'"
    using s1(1) s'(1) pend enable_pending_plain [OF p(1)] m ot by (auto simp: Let_def split: if_splits)
  moreover have "sends key (s\<lparr>out_pq := []\<rparr>) ps w (s1\<lparr>out_pq := []\<rparr>)" using s1(2) by (auto simp: sends_def)
  then have "sends key (s\<lparr>out_pq := []\<rparr>) (ps @ qs) (w @ v) s'" using s'(2) by (rule sends_trans)
  moreover have "padded (ps @ qs) ([(t, payload)] @ map content_of ms)"
    using padded_append [OF padded_one [OF s1(3)] s'(3)] s'(4) by auto
  ultimately show ?case using m by (intro exI [of _ s'] exI [of _ "ps @ qs"] exI [of _ "w @ v"]) simp
qed

lemma handle_output_sends:
  assumes "plain_sender s" "dir_pair key (dir_out s) d" "\<forall>m\<in>set ms. fits m" "out_pq s = map packet_of ms"
  shows "\<exists>s' ps w. ssh2_bpp_handle_output s = Inr s' \<and> sends key (s\<lparr>out_pq := []\<rparr>) ps w s' \<and> padded ps (map content_of ms)"
proof -
  let ?n = "int (length (filter (\<lambda>pkt. userauth_range (out_type pkt)) (out_pq s)))"
  let ?ign = "put_pkt (ssh2_bpp_new_pktout SSH2_MSG_IGNORE) (PUT_32BIT_MSB_FIRST 0)"
  have ho: "ssh2_bpp_handle_output s = res_bind (if cbc_ignore_workaround s then cbc_ignore s else Inr s) (\<lambda>s. output_loop s ?n (out_pq s))"
    using assms(1) by (simp add: ssh2_bpp_handle_output_def Let_def plain_sender_def)
  show ?thesis
  proof (cases "cbc_ignore_workaround s \<and> cbc_ignore s \<noteq> Inr s")
    case False
    then show ?thesis using ho output_loop_sends [OF assms(1-3), of ?n] assms(4) by (auto simp del: not_None_eq)
  next
    case True
    then obtain c cs m ms' where "cipher (dir_out s) = Some (c, cs)" "mac (dir_out s) = Some (m, ms')" using assms(1) by (auto simp: plain_sender_def)
    then have ci: "cbc_ignore s = ssh2_bpp_format_packet s ?ign" using True by (auto simp: cbc_ignore_def split: if_splits)
    have ig: "?ign = message SSH2_MSG_IGNORE (PUT_32BIT_MSB_FIRST 0) 0" by (simp add: message_def put_pkt_def ssh2_bpp_new_pktout_def)
    obtain s1 w ps where s1: "cbc_ignore s = Inr s1" "sends key s ps w s1"
      "ps = [(SSH2_MSG_IGNORE, PUT_32BIT_MSB_FIRST 0)] \<or> (\<exists>x. ps = [(SSH2_MSG_IGNORE, x), (SSH2_MSG_IGNORE, PUT_32BIT_MSB_FIRST 0)])"
      using format_packet_sends [OF assms(1,2), of SSH2_MSG_IGNORE "PUT_32BIT_MSB_FIRST 0" 0] ci ig by (auto simp: fits_def OUR_V2_PACKETLIMIT_def)
    obtain d1 where p: "plain_sender s1" "dir_pair key (dir_out s1) d1" "out_pq s1 = map packet_of ms" using s1(2) assms(4) unfolding sends_def by auto
    obtain s' qs v where s': "output_loop s1 ?n (map packet_of ms) = Inr s'" "sends key (s1\<lparr>out_pq := []\<rparr>) qs v s'" "padded qs (map content_of ms)"
      using output_loop_sends [OF p(1,2) assms(3), of ?n] by blast
    have "sends key (s\<lparr>out_pq := []\<rparr>) ps w (s1\<lparr>out_pq := []\<rparr>)" using s1(2) by (auto simp: sends_def)
    from sends_trans [OF this s'(2)] have "sends key (s\<lparr>out_pq := []\<rparr>) (ps @ qs) (w @ v) s'" .
    moreover have "padded (ps @ qs) (map content_of ms)" using s1(3) s'(3) by (auto simp: padded_def not_ignored_def)
    moreover have "ssh2_bpp_handle_output s = Inr s'" using ho True s1(1) s'(1) p(3) by simp
    ultimately show ?thesis by blast
  qed
qed

text \<open>The receiving end takes a whole stream of packets.\<close>

definition took :: "byte list \<Rightarrow> ('c, 'h, 'z) ssh2_bpp_direction \<Rightarrow> ('c, 'h, 'z) ssh2_bpp_state \<Rightarrow> (nat \<times> byte list) list \<Rightarrow> byte list \<Rightarrow>
    ('c, 'h, 'z) ssh2_bpp_state \<Rightarrow> bool" where
  "took key e s ps rest s' \<longleftrightarrow> map (\<lambda>p. (in_type p, in_payload p)) (in_pq s') = map (\<lambda>p. (in_type p, in_payload p)) (in_pq s) @ ps \<and>
     dir_pair key e (dir_in s') \<and> plain_receiver s' \<and> in_raw s' = rest \<and> ssh_events s' = ssh_events s"

definition sendable :: "nat \<times> byte list \<Rightarrow> bool" where
  "sendable p \<longleftrightarrow> fst p < 256 \<and> valid_type (fst p)"

lemma read_packets:
  fixes e e' :: "('c, 'h, 'z) ssh2_bpp_direction"
  shows "carries e ps w e' \<Longrightarrow> dir_pair key e (dir_in s) \<Longrightarrow> plain_receiver s \<Longrightarrow> crState s = Top \<Longrightarrow>
     \<forall>p\<in>set ps. sendable p \<and> fst p \<noteq> SSH2_MSG_NEWKEYS \<Longrightarrow> in_raw s = w @ rest \<Longrightarrow>
     \<exists>s'. ssh2_bpp_handle_input s = ssh2_bpp_handle_input s' \<and> took key e' s ps rest s' \<and> crState s' = Top"
proof (induction arbitrary: s rule: carries.induct)
  case (carries_Nil e)
  then show ?case by (auto simp: took_def)
next
  case (carries_Cons bs t payload rnd e e1 w1 ps w e')
  have "valid_type t" "t < 256" "t \<noteq> SSH2_MSG_NEWKEYS" using carries_Cons.prems(4) by (auto simp: sendable_def)
  moreover have "in_raw s = w1 @ w @ rest" using carries_Cons.prems(5) by simp
  ultimately obtain s1 where s1: "ssh2_bpp_handle_input s = ssh2_bpp_handle_input s1" "received key e1 s t payload (w @ rest) s1"
    using read_packet [OF carries_Cons.prems(1-3) carries_Cons(1,4,5,2,3) _ _ carries_Cons(6)] by auto
  then have "dir_pair key (e1\<lparr>sequence := sequence e1 + 1\<rparr>) (dir_in s1)" "plain_receiver s1" "crState s1 = Top" "in_raw s1 = w @ rest"
    using \<open>t \<noteq> SSH2_MSG_NEWKEYS\<close> by (auto simp: received_def)
  from carries_Cons.IH [OF this(1-3) _ this(4)] carries_Cons.prems(4) obtain s' where
    "ssh2_bpp_handle_input s1 = ssh2_bpp_handle_input s'" "took key e' s1 ps rest s'" "crState s' = Top" by auto
  then show ?case using s1 by (intro exI [of _ s']) (auto simp: took_def received_def)
qed

lemma read_newkeys:
  fixes e e' :: "('c, 'h, 'z) ssh2_bpp_direction"
  assumes "carries e (ps @ [(SSH2_MSG_NEWKEYS, payload)]) w e'" "dir_pair key e (dir_in s)" "plain_receiver s" "crState s = Top"
    "\<forall>p\<in>set ps. sendable p \<and> fst p \<noteq> SSH2_MSG_NEWKEYS" "in_raw s = w @ rest" "valid_type SSH2_MSG_NEWKEYS"
  shows "\<exists>s'. ssh2_bpp_handle_input s = Some (Inr s') \<and> took key e' s (ps @ [(SSH2_MSG_NEWKEYS, payload)]) rest s' \<and> crState s' = WaitNewkeys \<and> pending_newkeys s'"
proof -
  obtain e1 u v where c: "w = u @ v" "carries e ps u e1" "carries e1 [(SSH2_MSG_NEWKEYS, payload)] v e'" using carries_split [OF assms(1)] by blast
  have "in_raw s = u @ v @ rest" using assms(6) c(1) by simp
  from read_packets [OF c(2) assms(2-5) this] obtain s1 where s1: "ssh2_bpp_handle_input s = ssh2_bpp_handle_input s1" "took key e1 s ps (v @ rest) s1" "crState s1 = Top"
    by blast
  have t: "dir_pair key e1 (dir_in s1)" "plain_receiver s1" "in_raw s1 = v @ rest" using s1(2) by (auto simp: took_def)
  obtain rnd e2 where k: "4 \<le> length rnd" "length rnd \<le> 255" "unit_ok e1 (clear_packet SSH2_MSG_NEWKEYS payload rnd)"
    "length (clear_packet SSH2_MSG_NEWKEYS payload rnd) \<le> OUR_V2_PACKETLIMIT"
    "seal_packet e1 (clear_packet SSH2_MSG_NEWKEYS payload rnd) = Inr (e2, v)" "e' = e2\<lparr>sequence := sequence e2 + 1\<rparr>"
    using c(3) by (elim carries_ConsE carries_NilE) simp
  obtain s' where "ssh2_bpp_handle_input s1 = Some (Inr s')" "received key e2 s1 SSH2_MSG_NEWKEYS payload rest s'"
    using read_packet [OF t(1,2) s1(3) refl k(3,4,1,2) assms(7) _ k(5) t(3)] by auto
  then show ?thesis using s1 k(6) by (intro exI [of _ s']) (auto simp: took_def received_def)
qed

end

end
