(* ===== verification/Ssh2_Bpp_Exchange.thy ===== *)
theory Ssh2_Bpp_Exchange
  imports Ssh2_Bpp_Session
begin

text \<open>
  Whole connections: one end sends batches of messages and now and then changes its keys, the
  other end is given the stream in pieces and installs its new keys when the layer stops for
  them.
\<close>

section \<open>Both ends with their owners\<close>

type_synonym bpp_keys = "byte list \<times> byte list \<times> bool \<times> byte list"
type_synonym bpp_message = "nat \<times> byte list \<times> nat"

text \<open>The owner queues a batch of messages, runs the layer, and passes the raw output on.\<close>

fun send_batches :: "('c, 'h, 'z) ssh2_bpp_state \<Rightarrow> bpp_message list list \<Rightarrow> (('c, 'h, 'z) ssh2_bpp_state \<times> byte list) res" where
  "send_batches s [] = Inr (s, [])"
| "send_batches s (ms # bs) =
     res_bind (ssh2_bpp_handle_output (s\<lparr>out_pq := out_pq s @ map (\<lambda>(t, payload, ml). message t payload ml) ms\<rparr>)) (\<lambda>s1.
     res_bind (send_batches (s1\<lparr>out_raw := []\<rparr>) bs) (\<lambda>(s2, w). Inr (s2, out_raw s1 @ w)))"

text \<open>After a \<open>NEWKEYS\<close> message the transport layer installs the outgoing keys.\<close>

fun send_session :: "'c ssh_cipheralg \<Rightarrow> 'h ssh2_macalg \<Rightarrow> ('c, 'h, 'z) ssh2_bpp_state \<Rightarrow> bpp_message list list \<Rightarrow>
    (bpp_keys \<times> bpp_message list list) list \<Rightarrow> (('c, 'h, 'z) ssh2_bpp_state \<times> byte list) res" where
  "send_session calg malg s bs [] = send_batches s bs"
| "send_session calg malg s bs (((ckey, iv, etm, mac_key), bs') # es) =
     res_bind (send_batches s bs) (\<lambda>(s, w0).
     res_bind (send_batches s [[(SSH2_MSG_NEWKEYS, [], 0)]]) (\<lambda>(s, w1).
     res_bind (ssh2_bpp_new_outgoing_crypto s (Some calg) ckey iv (Some malg) etm mac_key ssh_comp_none False) (\<lambda>s.
     res_bind (send_session calg malg s bs' es) (\<lambda>(s, w2). Inr (s, w0 @ w1 @ w2)))))"

text \<open>The layer has delivered a \<open>NEWKEYS\<close> packet and waits for the keys.\<close>

definition awaits_keys :: "('c, 'h, 'z) ssh2_bpp_state \<Rightarrow> bool" where
  "awaits_keys s \<longleftrightarrow> crState s = WaitNewkeys \<and> pending_newkeys s"

text \<open>The owner runs the layer on its input, and again after each change of the incoming keys.\<close>

fun take_input :: "'c ssh_cipheralg \<Rightarrow> 'h ssh2_macalg \<Rightarrow> ('c, 'h, 'z) ssh2_bpp_state \<Rightarrow> bpp_keys list \<Rightarrow>
    (('c, 'h, 'z) ssh2_bpp_state \<times> bpp_keys list) res option" where
  "take_input calg malg s [] = map_option (\<lambda>r. res_bind r (\<lambda>s. Inr (s, []))) (ssh2_bpp_handle_input s)"
| "take_input calg malg s ((ckey, iv, etm, mac_key) # ks) =
     (case ssh2_bpp_handle_input s of None \<Rightarrow> None | Some (Inl e) \<Rightarrow> Some (Inl e)
      | Some (Inr s1) \<Rightarrow>
          if awaits_keys s1 then
            (case ssh2_bpp_new_incoming_crypto s1 (Some calg) ckey iv (Some malg) etm mac_key ssh_comp_none False of
               Inl e \<Rightarrow> Some (Inl e) | Inr s2 \<Rightarrow> take_input calg malg s2 ks)
          else Some (Inr (s1, (ckey, iv, etm, mac_key) # ks)))"

fun receive_session :: "'c ssh_cipheralg \<Rightarrow> 'h ssh2_macalg \<Rightarrow> ('c, 'h, 'z) ssh2_bpp_state \<Rightarrow> bpp_keys list \<Rightarrow> byte list list \<Rightarrow>
    (('c, 'h, 'z) ssh2_bpp_state \<times> bpp_keys list) res option" where
  "receive_session calg malg s ks [] = Some (Inr (s, ks))"
| "receive_session calg malg s ks (c # cs) = (case take_input calg malg (feed c s) ks of
       Some (Inr (s, ks)) \<Rightarrow> receive_session calg malg s ks cs
     | r \<Rightarrow> r)"

text \<open>What the specification asks of a connection: keys that are long enough and messages that fit.\<close>

definition keys_ok :: "'c ssh_cipheralg \<Rightarrow> 'h ssh2_macalg \<Rightarrow> bpp_keys \<Rightarrow> bool" where
  "keys_ok calg malg k = (case k of (ckey, iv, etm, mac_key) \<Rightarrow>
     length ckey = padded_keybytes calg \<and> blksize calg \<le> length iv \<and> mac_keylen malg \<le> length mac_key \<and>
     (separate_length calg \<longrightarrow> etm))"

definition message_ok :: "bpp_message \<Rightarrow> bool" where
  "message_ok m = (case m of (t, payload, ml) \<Rightarrow> t < 256 \<and> valid_type t \<and> t \<noteq> SSH2_MSG_NEWKEYS \<and>
     length payload + 261 \<le> OUR_V2_PACKETLIMIT \<and> ml + 265 \<le> OUR_V2_PACKETLIMIT)"

definition session_ok :: "'c ssh_cipheralg \<Rightarrow> 'h ssh2_macalg \<Rightarrow> bpp_message list list \<Rightarrow> (bpp_keys \<times> bpp_message list list) list \<Rightarrow> bool" where
  "session_ok calg malg bs es \<longleftrightarrow> list_all message_ok (concat bs) \<and>
     list_all (\<lambda>(k, bs'). keys_ok calg malg k \<and> list_all message_ok (concat bs')) es"

definition visible :: "(nat \<times> byte list) list \<Rightarrow> (nat \<times> byte list) list" where
  "visible ps = filter (\<lambda>(t, payload). t \<noteq> SSH2_MSG_IGNORE) ps"

definition batch_contents :: "bpp_message list list \<Rightarrow> (nat \<times> byte list) list" where
  "batch_contents bs = map (\<lambda>(t, payload, ml). (t, payload)) (concat bs)"

fun session_contents :: "bpp_message list list \<Rightarrow> (bpp_keys \<times> bpp_message list list) list \<Rightarrow> (nat \<times> byte list) list" where
  "session_contents bs [] = batch_contents bs"
| "session_contents bs ((k, bs') # es) = batch_contents bs @ (SSH2_MSG_NEWKEYS, []) # session_contents bs' es"

definition queue_contents :: "PktIn list \<Rightarrow> (nat \<times> byte list) list" where
  "queue_contents q = map (\<lambda>p. (in_type p, in_payload p)) q"

text \<open>
  Every connection between two new layers goes through: the sender does not fail, and however the
  stream is cut into pieces the receiver returns, has used all the keys, has reported no error,
  and holds the messages that were sent, in order, \<open>IGNORE\<close> messages apart.
\<close>

definition session_delivered :: "'c ssh_cipheralg \<Rightarrow> 'c ssh_cipheralg \<Rightarrow> 'h ssh2_macalg \<Rightarrow> 'h ssh2_macalg \<Rightarrow>
    ('c, 'h, 'z) ssh2_bpp_state \<Rightarrow> ('c, 'h, 'z) ssh2_bpp_state \<Rightarrow> bpp_message list list \<Rightarrow> (bpp_keys \<times> bpp_message list list) list \<Rightarrow> bool" where
  "session_delivered calg calg' malg malg' S R bs es \<longleftrightarrow>
     (\<exists>S' w. send_session calg malg S bs es = Inr (S', w) \<and>
        (\<forall>cs. cs \<noteq> [] \<and> concat cs = w \<longrightarrow>
           (\<exists>R'. receive_session calg' malg' R (map fst es) cs = Some (Inr (R', [])) \<and>
              visible (queue_contents (in_pq R')) = visible (session_contents bs es) \<and>
              in_raw R' = [] \<and> ssh_events R' = [] \<and> sequence (dir_in R') = sequence (dir_out S'))))"

section \<open>Input in pieces, with changes of keys\<close>

inductive pumped :: "'c ssh_cipheralg \<Rightarrow> 'h ssh2_macalg \<Rightarrow> ('c, 'h, 'z) ssh2_bpp_state \<Rightarrow> bpp_keys list \<Rightarrow>
    ('c, 'h, 'z) ssh2_bpp_state \<Rightarrow> bpp_keys list \<Rightarrow> bool" for calg malg where
  pumped_stop: "ssh2_bpp_handle_input s = Some (Inr t) \<Longrightarrow> ssh_events t = ssh_events s \<Longrightarrow> ks = [] \<or> \<not> awaits_keys t \<Longrightarrow> pumped calg malg s ks t ks"
| pumped_keys: "ssh2_bpp_handle_input s = Some (Inr s1) \<Longrightarrow> ssh_events s1 = ssh_events s \<Longrightarrow> awaits_keys s1 \<Longrightarrow>
    ssh2_bpp_new_incoming_crypto s1 (Some calg) ckey iv (Some malg) etm mac_key ssh_comp_none False = Inr s2 \<Longrightarrow>
    pumped calg malg s2 ks t ks' \<Longrightarrow> pumped calg malg s ((ckey, iv, etm, mac_key) # ks) t ks'"

lemma pumped_take_input: "pumped calg malg s ks t ks' \<Longrightarrow> take_input calg malg s ks = Some (Inr (t, ks'))"
proof (induction rule: pumped.induct)
  case (pumped_stop s t ks)
  then show ?case by (cases ks) (auto simp: res_bind_def)
qed simp

lemma new_incoming_kept:
  assumes "ssh2_bpp_new_incoming_crypto s c ckey iv m etm mac_key z delayed = Inr s'"
  shows "ssh2_bpp_new_incoming_crypto (feed x s) c ckey iv m etm mac_key z delayed = Inr (feed x s')"
    "live s' = live s" "input_eof s' = input_eof s" "crState s' = crState s" "ssh_events s' = ssh_events s" "in_raw s' = in_raw s" "in_pq s' = in_pq s"
    "\<not> pending_newkeys s'"
  using assms by (auto simp: ssh2_bpp_new_incoming_crypto_def Let_def feed_def live_def elim!: res_bindE)

lemma pumped_events: "pumped calg malg s ks t ks' \<Longrightarrow> ssh_events t = ssh_events s"
  by (induction rule: pumped.induct) (auto dest: new_incoming_kept)

lemma new_incoming_unfeed:
  "ssh2_bpp_new_incoming_crypto (feed x s) c ckey iv m etm mac_key z delayed = Inr t \<Longrightarrow>
     \<exists>s'. ssh2_bpp_new_incoming_crypto s c ckey iv m etm mac_key z delayed = Inr s' \<and> t = feed x s'"
  by (auto simp: ssh2_bpp_new_incoming_crypto_def Let_def feed_def elim!: res_bindE)

lemma pumped_unfeed:
  assumes "pumped calg malg (feed x s) ks t ks'" "live s" "\<not> input_eof s" "crState s \<noteq> Eof"
  shows "\<exists>s1 ks1. pumped calg malg s ks s1 ks1 \<and> live s1 \<and> \<not> input_eof s1 \<and> crState s1 \<noteq> Eof \<and> pumped calg malg (feed x s1) ks1 t ks'"
  using assms
proof (induction "feed x s" ks t ks' arbitrary: s rule: pumped.induct)
  case (pumped_stop t ks)
  then obtain s1 where s1: "ssh2_bpp_handle_input s = Some (Inr s1)" "live s1" "ssh_events s1 = ssh_events s" "\<not> input_eof s1" "crState s1 \<noteq> Eof"
    "ssh2_bpp_handle_input (feed x s1) = Some (Inr t)" using handle_input_unfeed [of s x t] by auto
  have "ks = [] \<or> \<not> awaits_keys s1"
    using s1(6) handle_input_waiting [of "feed x s1"] pumped_stop(3) by (auto simp: awaits_keys_def)
  then have "pumped calg malg s ks s1 ks" using s1(1,3) by (intro pumped.pumped_stop)
  moreover have "pumped calg malg (feed x s1) ks t ks" using s1(3,6) pumped_stop(2,3) by (intro pumped.pumped_stop) simp_all
  ultimately show ?case using s1 by blast
next
  case (pumped_keys t1 ckey iv etm mac_key t2 ks t ks')
  then obtain s1 where s1: "ssh2_bpp_handle_input s = Some (Inr s1)" "live s1" "ssh_events s1 = ssh_events s" "\<not> input_eof s1" "crState s1 \<noteq> Eof"
    "ssh2_bpp_handle_input (feed x s1) = Some (Inr t1)" using handle_input_unfeed [of s x t1] by auto
  show ?case
  proof (cases "awaits_keys s1")
    case True
    then have "t1 = feed x s1" using s1(6) handle_input_waiting [of "feed x s1"] by (auto simp: awaits_keys_def)
    then obtain s2 where s2: "ssh2_bpp_new_incoming_crypto s1 (Some calg) ckey iv (Some malg) etm mac_key ssh_comp_none False = Inr s2" "t2 = feed x s2"
      using pumped_keys(4) new_incoming_unfeed by blast
    obtain s3 ks1 where "pumped calg malg s2 ks s3 ks1" "live s3" "\<not> input_eof s3" "crState s3 \<noteq> Eof" "pumped calg malg (feed x s3) ks1 t ks'"
      using pumped_keys(6) [OF s2(2)] new_incoming_kept [OF s2(1)] s1(2,4,5) by auto
    then show ?thesis using pumped.pumped_keys [OF s1(1,3) True s2(1)] by blast
  next
    case False
    then have "pumped calg malg s ((ckey, iv, etm, mac_key) # ks) s1 ((ckey, iv, etm, mac_key) # ks)" using s1(1,3) by (intro pumped.pumped_stop) simp_all
    moreover have "pumped calg malg (feed x s1) ((ckey, iv, etm, mac_key) # ks) t ks'"
      using pumped.pumped_keys [OF s1(6) _ pumped_keys(3,4,5)] s1(3) pumped_keys(2) by simp
    ultimately show ?thesis using s1 by blast
  qed
qed

lemma pumped_pieces:
  "pumped calg malg (feed (concat cs) s) ks t ks' \<Longrightarrow> live s \<Longrightarrow> \<not> input_eof s \<Longrightarrow> crState s \<noteq> Eof \<Longrightarrow> cs \<noteq> [] \<Longrightarrow>
     receive_session calg malg s ks cs = Some (Inr (t, ks'))"
proof (induction cs arbitrary: s ks)
  case (Cons c cs)
  show ?case
  proof (cases "cs = []")
    case True
    then show ?thesis using pumped_take_input [of calg malg "feed c s" ks t ks'] Cons.prems(1) by simp
  next
    case False
    obtain s1 ks1 where s1: "pumped calg malg (feed c s) ks s1 ks1" "live s1" "\<not> input_eof s1" "crState s1 \<noteq> Eof" "pumped calg malg (feed (concat cs) s1) ks1 t ks'"
      using pumped_unfeed [of calg malg "concat cs" "feed c s" ks t ks'] Cons.prems(1-4) by auto
    then show ?thesis using Cons.IH [OF s1(5,2,3,4) False] pumped_take_input [OF s1(1)] by simp
  qed
qed simp

section \<open>Delivery\<close>

lemma valid_type_NEWKEYS: "valid_type SSH2_MSG_NEWKEYS"
  by code_simp

lemma valid_type_IGNORE: "valid_type SSH2_MSG_IGNORE"
  by code_simp

lemma handle_input_resume:
  "crState s = WaitNewkeys \<Longrightarrow> \<not> pending_newkeys s \<Longrightarrow> ssh2_bpp_handle_input s = ssh2_bpp_handle_input (s\<lparr>crState := Top\<rparr>)"
  by (rule handle_input_step) (simp add: bpp_step_def)

text \<open>With no input left the layer returns from the read that starts a packet.\<close>

lemma handle_input_idle:
  assumes "crState s = Top" "in_raw s = []" "\<not> input_eof s" "mac (dir_in s) \<noteq> None \<longrightarrow> 0 < dir_maclen (dir_in s)"
  shows "\<exists>t. ssh2_bpp_handle_input s = Some (Inr t) \<and> in_pq t = in_pq s \<and> ssh_events t = ssh_events s \<and> in_raw t = [] \<and>
    dir_in t = dir_in s \<and> crState t \<noteq> WaitNewkeys"
proof -
  let ?s = "s\<lparr>s_maxlen := 0, s_length := 0, s_cipherblk := dir_cipherblk (dir_in s), s_maclen := dir_maclen (dir_in s)\<rparr>"
  obtain b c where bc: "bpp_step s = Inr (True, ?s\<lparr>s_buf := b, crState := c\<rparr>)" "c \<in> {CbcMac, EtmLength, FirstBlock}" "c = CbcMac \<longrightarrow> mac (dir_in s) \<noteq> None"
    using assms(1) unfolding bpp_step_def read_top_def Let_def by (cases "cipher_is_cbc (cipher (dir_in s)) \<and> mac (dir_in s) \<noteq> None \<and> \<not> etm_mode (dir_in s)";
      cases "mac (dir_in s) \<noteq> None \<and> etm_mode (dir_in s)") auto
  define s1 where "s1 = ?s\<lparr>s_buf := b, crState := c\<rparr>"
  have s1: "bpp_step s = Inr (True, s1)" "in_raw s1 = []" "\<not> input_eof s1" "in_pq s1 = in_pq s" "ssh_events s1 = ssh_events s" "dir_in s1 = dir_in s"
    "crState s1 \<in> {CbcMac, EtmLength, FirstBlock}" "8 \<le> s_cipherblk s1" "crState s1 = CbcMac \<longrightarrow> 0 < s_maclen s1"
    using bc assms dir_cipherblk_pos [of "dir_in s"] by (simp_all add: s1_def)
  have "bpp_step s1 = Inr (False, s1)"
    using s1(2,3,7,8,9) by (auto simp: bpp_step_def read_cbc_mac_def read_etm_length_def read_first_block_def BPP_READ_def)
  then show ?thesis using handle_input_step [OF s1(1)] handle_input_stop s1 by fastforce
qed

text \<open>The interface of the two ends, with a MAC that is not empty.\<close>

locale bpp_session = bpp_crypto calg calg' sync malg malg' good rep H
  for calg calg' :: "'c ssh_cipheralg" and sync and malg malg' :: "'h ssh2_macalg" and good rep H +
  assumes tag_pos: "0 < mac_len malg"
begin

lemma visible_alt: "visible ps = filter not_ignored ps"
  by (induction ps) (auto simp: visible_def not_ignored_def)

lemma new_mac_keyed:
  assumes "mac_keylen malg \<le> length mac_key"
  shows "\<exists>m m'. new_mac (Some malg) mac_key = Inr (Some (malg, m)) \<and> new_mac (Some malg') mac_key = Inr (Some (malg', m')) \<and>
    mac_pair (take (mac_keylen malg) mac_key) (Some (malg, m)) (Some (malg', m'))"
proof -
  let ?k = "take (mac_keylen malg) mac_key"
  have l: "length ?k < 2 ^ 32" using mac_sizes(3) by simp
  obtain m m' where "res_bind (hmac_new (mac_hash malg)) (\<lambda>m. hmac_key (mac_hash malg) m ?k) = Inr m" "tx.keyed ?k m"
    "res_bind (hmac_new (mac_hash malg')) (\<lambda>m. hmac_key (mac_hash malg') m ?k) = Inr m'" "rx.keyed ?k m'"
    using tx.hmac_new_good rx.hmac_new_good tx.hmac_key_keyed [OF _ _ l] rx.hmac_key_keyed [OF _ _ l] by (metis res_bind_Inr)
  then show ?thesis using assms same_mac(2)
    by (intro exI [of _ m] exI [of _ m']) (auto simp: new_mac_def mac_pair_def elim!: res_bindE)
qed

lemma change_keys:
  fixes S :: "('c, 'h, 'z) ssh2_bpp_state"
  assumes "plain_sender S" "keys_ok calg malg (ckey, iv, etm, mac_key)"
  shows "\<exists>S'. ssh2_bpp_new_outgoing_crypto S (Some calg) ckey iv (Some malg) etm mac_key ssh_comp_none False = Inr S' \<and> plain_sender S' \<and>
    out_raw S' = out_raw S \<and> out_pq S' = out_pq S \<and> (\<exists>d. dir_pair (take (mac_keylen malg) mac_key) (dir_out S') d) \<and>
    (\<forall>R :: ('c, 'h, 'z) ssh2_bpp_state. dir_pair key (dir_out S) (dir_in R) \<and> plain_receiver R \<longrightarrow>
      (\<exists>R'. ssh2_bpp_new_incoming_crypto R (Some calg') ckey iv (Some malg') etm mac_key ssh_comp_none False = Inr R' \<and> plain_receiver R' \<and>
        dir_pair (take (mac_keylen malg) mac_key) (dir_out S') (dir_in R')))"
proof -
  obtain e d where ed: "cipher_setup calg ckey iv = Inr e" "cipher_setup calg' ckey iv = Inr d" "sync e d"
    using setup_sync [of ckey iv] assms(2) by (auto simp: keys_ok_def)
  obtain m m' where m: "new_mac (Some malg) mac_key = Inr (Some (malg, m))" "new_mac (Some malg') mac_key = Inr (Some (malg', m'))"
    "mac_pair (take (mac_keylen malg) mac_key) (Some (malg, m)) (Some (malg', m'))" using new_mac_keyed [of mac_key] assms(2) by (auto simp: keys_ok_def)
  have c: "cipher_pair (Some (calg, e)) (Some (calg', d))" using ed(3) by (simp add: cipher_pair_def)
  let ?e = "(dir_out S)\<lparr>cipher := Some (calg, e), etm_mode := etm, mac := Some (malg, m), dir_pending_compression := None\<rparr>"
  let ?S = "S\<lparr>cbc_ignore_workaround := (is_cbc calg \<and> \<not> chokes_on_ignore S), dir_out := ?e, out_comp := None\<rparr>"
  have S: "ssh2_bpp_new_outgoing_crypto S (Some calg) ckey iv (Some malg) etm mac_key ssh_comp_none False = Inr ?S"
    using ed(1) m(1) by (simp add: ssh2_bpp_new_outgoing_crypto_def new_cipher_def Let_def cipher_is_cbc_def ssh_comp_none_def)
  have pair: "dir_pair (take (mac_keylen malg) mac_key) ?e (D\<lparr>cipher := Some (calg', d), etm_mode := etm, mac := Some (malg', m'), dir_pending_compression := None\<rparr>)"
    if "sequence D = sequence (dir_out S)" for D :: "('c, 'h, 'z) ssh2_bpp_direction"
    using that c m(3) assms(2) by (simp add: dir_pair_def keys_ok_def)
  have "\<exists>R'. ssh2_bpp_new_incoming_crypto R (Some calg') ckey iv (Some malg') etm mac_key ssh_comp_none False = Inr R' \<and> plain_receiver R' \<and>
      dir_pair (take (mac_keylen malg) mac_key) (dir_out ?S) (dir_in R')"
    if "dir_pair key (dir_out S) (dir_in R)" "plain_receiver R" for R :: "('c, 'h, 'z) ssh2_bpp_state"
    using that ed(2) m(2) pair [of "dir_in R"]
    by (simp add: ssh2_bpp_new_incoming_crypto_def new_cipher_def Let_def plain_receiver_def dir_pair_def ssh_comp_none_def)
  then show ?thesis using S assms(1) pair [of "dir_out S"] by (intro exI [of _ ?S]) (auto simp: plain_sender_def)
qed

text \<open>The sender between two batches.\<close>

definition ready :: "byte list \<Rightarrow> ('c, 'h, 'z) ssh2_bpp_state \<Rightarrow> bool" where
  "ready key S \<longleftrightarrow> plain_sender S \<and> (\<exists>d. dir_pair key (dir_out S) d) \<and> out_raw S = [] \<and> out_pq S = []"

lemma send_batch:
  assumes "ready key S" "\<forall>m\<in>set ms. fits m"
  shows "\<exists>S' ps w. send_batches S [ms] = Inr (S', w) \<and> ready key S' \<and> carries (dir_out S) ps w (dir_out S') \<and> padded ps (map content_of ms)"
proof -
  obtain d where S: "plain_sender S" "dir_pair key (dir_out S) d" "out_raw S = []" "out_pq S = []" using assms(1) by (auto simp: ready_def)
  obtain S1 ps w where S1: "ssh2_bpp_handle_output (S\<lparr>out_pq := map packet_of ms\<rparr>) = Inr S1" "sends key (S\<lparr>out_pq := []\<rparr>) ps w S1" "padded ps (map content_of ms)"
    using handle_output_sends [of "S\<lparr>out_pq := map packet_of ms\<rparr>" key d ms] S assms(2) by auto
  then have "ready key (S1\<lparr>out_raw := []\<rparr>)" "out_raw S1 = w" "carries (dir_out S) ps w (dir_out S1)"
    using S(3) by (auto simp: sends_def ready_def)
  then show ?thesis using S1 S(4) by (intro exI [of _ "S1\<lparr>out_raw := []\<rparr>"] exI [of _ ps] exI [of _ w]) simp
qed

lemma send_batches_Cons:
  "send_batches S (ms # bs) = res_bind (send_batches S [ms]) (\<lambda>(S, w). res_bind (send_batches S bs) (\<lambda>(S', v). Inr (S', w @ v)))"
  by (simp add: res_bind_assoc)

lemma send_batches_carries:
  "ready key S \<Longrightarrow> \<forall>m\<in>set (concat bs). fits m \<Longrightarrow>
     \<exists>S' ps w. send_batches S bs = Inr (S', w) \<and> ready key S' \<and> carries (dir_out S) ps w (dir_out S') \<and> visible ps = visible (batch_contents bs)"
proof (induction bs arbitrary: S)
  case Nil
  then show ?case by (intro exI [of _ S] exI [of _ "[]"]) (auto simp: batch_contents_def intro: carries_Nil)
next
  case (Cons ms bs)
  obtain S1 ps w where S1: "send_batches S [ms] = Inr (S1, w)" "ready key S1" "carries (dir_out S) ps w (dir_out S1)" "padded ps (map content_of ms)"
    using send_batch [OF Cons.prems(1), of ms] Cons.prems(2) by auto
  obtain S2 qs v where "send_batches S1 bs = Inr (S2, v)" "ready key S2" "carries (dir_out S1) qs v (dir_out S2)" "visible qs = visible (batch_contents bs)"
    using Cons.IH [OF S1(2)] Cons.prems(2) by auto
  then show ?case unfolding send_batches_Cons [of S ms bs] using S1 carries_append [OF S1(3)]
    by (intro exI [of _ S2] exI [of _ "ps @ qs"] exI [of _ "w @ v"]) (simp add: visible_alt batch_contents_def padded_def)
qed

text \<open>The packets of batches of messages that fit and have a valid type.\<close>

lemma filter_mem: "x \<in> set (filter P xs) \<longleftrightarrow> x \<in> set xs \<and> P x"
  by simp

lemma visible_sendable:
  assumes "visible ps = visible (batch_contents bs)" "\<forall>m\<in>set (concat bs). message_ok m" "p \<in> set ps"
  shows "sendable p \<and> fst p \<noteq> SSH2_MSG_NEWKEYS"
proof (cases "not_ignored p")
  case True
  then have "p \<in> set (batch_contents bs)" using assms(1,3) filter_mem [of p not_ignored] unfolding visible_alt by metis
  then obtain t payload ml where "(t, payload, ml) \<in> set (concat bs)" "p = (t, payload)" by (auto simp: batch_contents_def)
  then show ?thesis using assms(2) by (fastforce simp: message_ok_def sendable_def)
next
  case False
  then show ?thesis using valid_type_IGNORE by (simp add: not_ignored_def sendable_def)
qed

definition attached :: "byte list \<Rightarrow> ('c, 'h, 'z) ssh2_bpp_direction \<Rightarrow> ('c, 'h, 'z) ssh2_bpp_state \<Rightarrow> bool" where
  "attached key e R \<longleftrightarrow> dir_pair key e (dir_in R) \<and> plain_receiver R \<and> (crState R = Top \<or> crState R = WaitNewkeys \<and> \<not> pending_newkeys R)"

lemma attached_top:
  assumes "attached key e R"
  shows "ssh2_bpp_handle_input R = ssh2_bpp_handle_input (R\<lparr>crState := Top\<rparr>)"
proof (cases "crState R = Top")
  case True
  then have "R\<lparr>crState := Top\<rparr> = R" by (cases R) simp
  then show ?thesis by simp
qed (use assms handle_input_resume [of R] in \<open>auto simp: attached_def\<close>)

lemma read_last:
  fixes e e' :: "('c, 'h, 'z) ssh2_bpp_direction"
  assumes "attached key e R" "carries e ps w e'" "\<forall>p\<in>set ps. sendable p \<and> fst p \<noteq> SSH2_MSG_NEWKEYS" "in_raw R = w"
  shows "\<exists>R'. ssh2_bpp_handle_input R = Some (Inr R') \<and> queue_contents (in_pq R') = queue_contents (in_pq R) @ ps \<and> in_raw R' = [] \<and>
    ssh_events R' = ssh_events R \<and> sequence (dir_in R') = sequence e' \<and> \<not> awaits_keys R'"
proof -
  let ?R = "R\<lparr>crState := Top\<rparr>"
  have R: "ssh2_bpp_handle_input R = ssh2_bpp_handle_input ?R" "dir_pair key e (dir_in ?R)" "plain_receiver ?R"
    using assms(1) attached_top by (auto simp: attached_def plain_receiver_def)
  have "crState ?R = Top" "in_raw ?R = w @ []" using assms(4) by simp_all
  from read_packets [OF assms(2) R(2,3) this(1) assms(3) this(2)] obtain R1 where R1: "ssh2_bpp_handle_input ?R = ssh2_bpp_handle_input R1" "took key e' ?R ps [] R1" "crState R1 = Top"
    by blast
  have "dir_pair key e' (dir_in R1)" "\<not> input_eof R1" "in_raw R1 = []" using R1(2) by (auto simp: took_def plain_receiver_def)
  moreover have "mac (dir_in R1) \<noteq> None \<longrightarrow> 0 < dir_maclen (dir_in R1)"
    using calculation(1) tag_pos same_mac(1) by (auto simp: dir_pair_def mac_pair_def dir_maclen_def)
  ultimately obtain R' where "ssh2_bpp_handle_input R1 = Some (Inr R')" "in_pq R' = in_pq R1" "ssh_events R' = ssh_events R1" "in_raw R' = []"
    "dir_in R' = dir_in R1" "crState R' \<noteq> WaitNewkeys" using handle_input_idle [OF R1(3)] by auto
  then show ?thesis using R(1) R1 \<open>dir_pair key e' (dir_in R1)\<close>
    by (intro exI [of _ R']) (simp add: took_def queue_contents_def awaits_keys_def dir_pair_def)
qed

lemma read_until_keys:
  fixes e e' :: "('c, 'h, 'z) ssh2_bpp_direction"
  assumes "attached key e R" "carries e (ps @ [(SSH2_MSG_NEWKEYS, [])]) w e'" "\<forall>p\<in>set ps. sendable p \<and> fst p \<noteq> SSH2_MSG_NEWKEYS" "in_raw R = w @ rest"
  shows "\<exists>R'. ssh2_bpp_handle_input R = Some (Inr R') \<and> queue_contents (in_pq R') = queue_contents (in_pq R) @ ps @ [(SSH2_MSG_NEWKEYS, [])] \<and>
    in_raw R' = rest \<and> ssh_events R' = ssh_events R \<and> dir_pair key e' (dir_in R') \<and> plain_receiver R' \<and> awaits_keys R'"
proof -
  let ?R = "R\<lparr>crState := Top\<rparr>"
  have R: "ssh2_bpp_handle_input R = ssh2_bpp_handle_input ?R" "dir_pair key e (dir_in ?R)" "plain_receiver ?R"
    using assms(1) attached_top by (auto simp: attached_def plain_receiver_def)
  have "crState ?R = Top" "in_raw ?R = w @ rest" using assms(4) by simp_all
  from read_newkeys [OF assms(2) R(2,3) this(1) assms(3) this(2) valid_type_NEWKEYS] obtain R' where
    "ssh2_bpp_handle_input ?R = Some (Inr R')" "took key e' ?R (ps @ [(SSH2_MSG_NEWKEYS, [])]) rest R'" "crState R' = WaitNewkeys" "pending_newkeys R'" by blast
  then show ?thesis using R(1) by (intro exI [of _ R']) (simp add: took_def queue_contents_def awaits_keys_def)
qed

lemma message_ok_fits: "message_ok m \<Longrightarrow> fits m"
  by (auto simp: message_ok_def fits_def)

lemma session_pumps:
  fixes S :: "('c, 'h, 'z) ssh2_bpp_state"
  shows "ready key S \<Longrightarrow> session_ok calg malg bs es \<Longrightarrow>
    \<exists>S' w. send_session calg malg S bs es = Inr (S', w) \<and>
      (\<forall>R :: ('c, 'h, 'z) ssh2_bpp_state. attached key (dir_out S) R \<and> in_raw R = w \<longrightarrow>
        (\<exists>R' ps. pumped calg' malg' R (map fst es) R' [] \<and> queue_contents (in_pq R') = queue_contents (in_pq R) @ ps \<and>
          visible ps = visible (session_contents bs es) \<and> in_raw R' = [] \<and> sequence (dir_in R') = sequence (dir_out S')))"
proof (induction es arbitrary: S bs key)
  case Nil
  then have ok: "\<forall>m\<in>set (concat bs). message_ok m" by (simp add: session_ok_def list_all_iff)
  obtain S' ps w where S': "send_batches S bs = Inr (S', w)" "ready key S'" "carries (dir_out S) ps w (dir_out S')" "visible ps = visible (batch_contents bs)"
    using send_batches_carries [OF Nil.prems(1)] ok message_ok_fits by blast
  have send: "\<forall>p\<in>set ps. sendable p \<and> fst p \<noteq> SSH2_MSG_NEWKEYS" using visible_sendable [OF S'(4) ok] by blast
  have "\<exists>R' ps. pumped calg' malg' R [] R' [] \<and> queue_contents (in_pq R') = queue_contents (in_pq R) @ ps \<and>
      visible ps = visible (batch_contents bs) \<and> in_raw R' = [] \<and> sequence (dir_in R') = sequence (dir_out S')"
    if "attached key (dir_out S) R" "in_raw R = w" for R :: "('c, 'h, 'z) ssh2_bpp_state"
    using read_last [OF that(1) S'(3) send that(2)] S'(4) pumped_stop [where ks = "[]"] by metis
  then show ?case using S'(1) by simp
next
  case (Cons ep es)
  obtain ckey iv etm mac_key bs' where ep: "ep = ((ckey, iv, etm, mac_key), bs')" by (metis prod.exhaust)
  have ok: "\<forall>m\<in>set (concat bs). message_ok m" "keys_ok calg malg (ckey, iv, etm, mac_key)" "session_ok calg malg bs' es"
    using Cons.prems(2) ep by (auto simp: session_ok_def list_all_iff)
  obtain S1 ps u where S1: "send_batches S bs = Inr (S1, u)" "ready key S1" "carries (dir_out S) ps u (dir_out S1)" "visible ps = visible (batch_contents bs)"
    using send_batches_carries [OF Cons.prems(1)] ok(1) message_ok_fits by blast
  obtain S2 qs v where S2: "send_batches S1 [[(SSH2_MSG_NEWKEYS, [], 0)]] = Inr (S2, v)" "ready key S2" "carries (dir_out S1) qs v (dir_out S2)"
    "padded qs [(SSH2_MSG_NEWKEYS, [])]"
    using send_batch [OF S1(2), of "[(SSH2_MSG_NEWKEYS, [], 0)]"] by (auto simp: fits_def OUR_V2_PACKETLIMIT_def)
  obtain qs' where qs: "qs = qs' @ [(SSH2_MSG_NEWKEYS, [])]" "filter not_ignored qs' = []"
    using S2(4) by (cases qs rule: rev_cases) (auto simp: padded_def not_ignored_def split: if_splits)
  have vis: "visible (ps @ qs') = visible (batch_contents bs)" using S1(4) qs(2) by (simp add: visible_alt)
  have send: "\<forall>p\<in>set (ps @ qs'). sendable p \<and> fst p \<noteq> SSH2_MSG_NEWKEYS" using visible_sendable [OF vis ok(1)] by blast
  have wire: "carries (dir_out S) ((ps @ qs') @ [(SSH2_MSG_NEWKEYS, [])]) (u @ v) (dir_out S2)" using carries_append [OF S1(3) S2(3)] qs(1) by simp
  let ?k = "take (mac_keylen malg) mac_key"
  have "plain_sender S2" using S2(2) by (simp add: ready_def)
  from change_keys [OF this ok(2), of key] obtain S3 where
    S3: "ssh2_bpp_new_outgoing_crypto S2 (Some calg) ckey iv (Some malg) etm mac_key ssh_comp_none False = Inr S3" "ready ?k S3"
    and new: "\<And>R :: ('c, 'h, 'z) ssh2_bpp_state. dir_pair key (dir_out S2) (dir_in R) \<Longrightarrow> plain_receiver R \<Longrightarrow>
      \<exists>R'. ssh2_bpp_new_incoming_crypto R (Some calg') ckey iv (Some malg') etm mac_key ssh_comp_none False = Inr R' \<and> plain_receiver R' \<and>
        dir_pair ?k (dir_out S3) (dir_in R')"
    using S2(2) unfolding ready_def by metis
  from Cons.IH [OF S3(2) ok(3)] obtain S' w where S': "send_session calg malg S3 bs' es = Inr (S', w)"
    and rest: "\<And>R :: ('c, 'h, 'z) ssh2_bpp_state. attached ?k (dir_out S3) R \<Longrightarrow> in_raw R = w \<Longrightarrow>
      \<exists>R' ps. pumped calg' malg' R (map fst es) R' [] \<and> queue_contents (in_pq R') = queue_contents (in_pq R) @ ps \<and>
        visible ps = visible (session_contents bs' es) \<and> in_raw R' = [] \<and> sequence (dir_in R') = sequence (dir_out S')" by metis
  have "\<exists>R' rs. pumped calg' malg' R (map fst (ep # es)) R' [] \<and> queue_contents (in_pq R') = queue_contents (in_pq R) @ rs \<and>
      visible rs = visible (session_contents bs (ep # es)) \<and> in_raw R' = [] \<and> sequence (dir_in R') = sequence (dir_out S')"
    if R: "attached key (dir_out S) R" "in_raw R = u @ v @ w" for R :: "('c, 'h, 'z) ssh2_bpp_state"
  proof -
    obtain R1 where R1: "ssh2_bpp_handle_input R = Some (Inr R1)" "queue_contents (in_pq R1) = queue_contents (in_pq R) @ (ps @ qs') @ [(SSH2_MSG_NEWKEYS, [])]"
      "in_raw R1 = w" "ssh_events R1 = ssh_events R" "dir_pair key (dir_out S2) (dir_in R1)" "plain_receiver R1" "awaits_keys R1"
      using read_until_keys [OF R(1) wire send, of w] R(2) by auto
    obtain R2 where R2: "ssh2_bpp_new_incoming_crypto R1 (Some calg') ckey iv (Some malg') etm mac_key ssh_comp_none False = Inr R2"
      "plain_receiver R2" "dir_pair ?k (dir_out S3) (dir_in R2)" using new [OF R1(5,6)] by blast
    note kept = new_incoming_kept [OF R2(1)]
    have "attached ?k (dir_out S3) R2" using R2 R1(7) kept by (simp add: attached_def awaits_keys_def)
    from rest [OF this] obtain R' rs where R': "pumped calg' malg' R2 (map fst es) R' []" "queue_contents (in_pq R') = queue_contents (in_pq R2) @ rs"
      "visible rs = visible (session_contents bs' es)" "in_raw R' = []" "sequence (dir_in R') = sequence (dir_out S')" using kept R1(3) by auto
    have "visible ((ps @ qs') @ (SSH2_MSG_NEWKEYS, []) # rs) = visible (session_contents bs (ep # es))"
      using vis R'(3) ep by (simp add: visible_def)
    moreover have "pumped calg' malg' R (map fst (ep # es)) R' []" using pumped_keys [OF R1(1,4,7) R2(1) R'(1)] ep by simp
    moreover have "queue_contents (in_pq R') = queue_contents (in_pq R) @ (ps @ qs') @ (SSH2_MSG_NEWKEYS, []) # rs" using R'(2) R1(2) kept by simp
    ultimately show ?thesis using R'(4,5) by blast
  qed
  then show ?case using S1(1) S2(1) S3(1) S' ep by simp
qed

theorem session_goes_through:
  fixes S R :: "('c, 'h, 'z) ssh2_bpp_state"
  assumes "session_ok calg malg bs es" "S = (ssh2_bpp_new stats server pool [] [])\<lparr>chokes_on_ignore := choke\<rparr>"
    "R = ssh2_bpp_new stats' server' pool' [] []"
  shows "session_delivered calg calg' malg malg' S R bs es"
proof -
  have new: "dir_pair [] new_direction (new_direction :: ('c, 'h, 'z) ssh2_bpp_direction)"
    by (simp add: dir_pair_def cipher_pair_def mac_pair_def new_direction_def)
  then have S: "ready [] S" using assms(2) by (auto simp: ready_def plain_sender_def ssh2_bpp_new_def new_direction_def)
  have R: "attached [] (dir_out S) (feed w R)" "live R" "\<not> input_eof R" "crState R \<noteq> Eof" "in_raw R = []" "in_pq R = []" "ssh_events R = []" for w
    using assms(2,3) new by (simp_all add: attached_def plain_receiver_def ssh2_bpp_new_def live_def feed_def) (simp add: new_direction_def)
  obtain S' w where S': "send_session calg malg S bs es = Inr (S', w)" and rd: "\<And>R :: ('c, 'h, 'z) ssh2_bpp_state.
      attached [] (dir_out S) R \<Longrightarrow> in_raw R = w \<Longrightarrow> \<exists>R' ps. pumped calg' malg' R (map fst es) R' [] \<and> queue_contents (in_pq R') = queue_contents (in_pq R) @ ps \<and>
          visible ps = visible (session_contents bs es) \<and> in_raw R' = [] \<and> sequence (dir_in R') = sequence (dir_out S')"
    using session_pumps [OF S assms(1)] by metis
  obtain R' where R': "pumped calg' malg' (feed w R) (map fst es) R' []" "visible (queue_contents (in_pq R')) = visible (session_contents bs es)"
    "in_raw R' = []" "sequence (dir_in R') = sequence (dir_out S')" using rd [OF R(1) [of w]] R(5,6) by (auto simp: queue_contents_def)
  have "ssh_events R' = []" using pumped_events [OF R'(1)] R(7) by simp
  moreover have "receive_session calg' malg' R (map fst es) cs = Some (Inr (R', []))" if "concat cs = w" "cs \<noteq> []" for cs
    using pumped_pieces [of calg' malg' cs R "map fst es" R' "[]"] R'(1) R(2-4) that by simp
  ultimately show ?thesis unfolding session_delivered_def using S' R' by blast
qed

end

end
