(* ===== verification/Ssh2_Bpp_Safety.thy ===== *)
theory Ssh2_Bpp_Safety
  imports Ssh2_Bpp_Exchange
begin

text \<open>
  The receiving end against a hostile peer: whatever bytes arrive, in whatever pieces, no step of the input
  coroutine touches memory outside a block, reads an indeterminate byte, dereferences a null pointer
  or fails an assertion, with one exception in encrypt-then-MAC mode.
\<close>

section \<open>The owner's actions\<close>

text \<open>
  The states of a layer that its owner runs in any order: input arrives or ends, the layer handles its
  input or output, keys are installed at any time with any algorithms, packets are taken from
  one queue and added to the other, sent bytes are removed.
\<close>

inductive reachable :: "('c, 'h, 'z) ssh2_bpp_state \<Rightarrow> bool" where
  reach_new: "reachable (ssh2_bpp_new stats server pool raw_in raw_out)"
| reach_feed: "reachable s \<Longrightarrow> reachable (feed x s)"
| reach_eof: "reachable s \<Longrightarrow> reachable (s\<lparr>input_eof := True\<rparr>)"
| reach_owner: "reachable s \<Longrightarrow> reachable (s\<lparr>in_pq := q, out_pq := q', out_raw := r, chokes_on_ignore := b, expect_close := c\<rparr>)"
| reach_input: "reachable s \<Longrightarrow> ssh2_bpp_handle_input s = Some (Inr s') \<Longrightarrow> reachable s'"
| reach_output: "reachable s \<Longrightarrow> ssh2_bpp_handle_output s = Inr s' \<Longrightarrow> reachable s'"
| reach_keys_in: "reachable s \<Longrightarrow> ssh2_bpp_new_incoming_crypto s ca ckey iv ma etm mac_key z delayed = Inr s' \<Longrightarrow> reachable s'"
| reach_keys_out: "reachable s \<Longrightarrow> ssh2_bpp_new_outgoing_crypto s ca ckey iv ma etm mac_key z delayed = Inr s' \<Longrightarrow> reachable s'"

text \<open>Sending leaves the input coroutine where it is.\<close>

definition same_place :: "('c, 'h, 'z) ssh2_bpp_state \<Rightarrow> ('c, 'h, 'z) ssh2_bpp_state \<Rightarrow> bool" where
  "same_place s s' \<longleftrightarrow> crState s' = crState s \<and> s_cipherblk s' = s_cipherblk s"

lemma format_inner_place: "ssh2_bpp_format_packet_inner s pkt = Inr (s', w) \<Longrightarrow> same_place s s'"
  unfolding ssh2_bpp_format_packet_inner_def compress_packet_def
  by (auto simp: same_place_def random_read_def Let_def case_prod_beta elim!: res_bindE split: option.splits)

lemma format_packet_place: "ssh2_bpp_format_packet s pkt = Inr s' \<Longrightarrow> same_place s s'"
  unfolding ssh2_bpp_format_packet_def
  by (auto simp: Let_def case_prod_beta same_place_def random_read_def elim!: res_bindE split: if_splits option.splits dest!: format_inner_place)

lemma output_loop_place: "output_loop s n pkts = Inr s' \<Longrightarrow> same_place s s'"
proof (induction pkts arbitrary: s n)
  case (Cons pkt pkts)
  then obtain s1 where s1: "ssh2_bpp_format_packet s pkt = Inr s1" by (cases "ssh2_bpp_format_packet s pkt") (auto simp: Let_def)
  show ?case using Cons.prems s1 format_packet_place [OF s1] Cons.IH
    by (auto simp: Let_def same_place_def same_input_def elim!: res_bindE split: if_splits dest!: enable_pending_frame)
qed (auto simp: same_place_def)

lemma handle_output_place: "ssh2_bpp_handle_output s = Inr s' \<Longrightarrow> same_place s s'"
  unfolding ssh2_bpp_handle_output_def cbc_ignore_def
  by (auto simp: same_place_def Let_def elim!: res_bindE split: if_splits option.splits dest!: output_loop_place format_packet_place)

lemma reachable_live: "reachable s \<Longrightarrow> live s"
proof (induction rule: reachable.induct)
  case (reach_input s s')
  then show ?case using handle_input_returns [of s] by auto
next
  case (reach_output s s')
  then show ?case using handle_output_place [of s s'] by (auto simp: live_def same_place_def)
next
  case (reach_keys_in s ca ckey iv ma etm mac_key z delayed s')
  then show ?case using new_incoming_kept(2) by blast
next
  case (reach_keys_out s ca ckey iv ma etm mac_key z delayed s')
  then show ?case by (auto simp: live_def ssh2_bpp_new_outgoing_crypto_def Let_def elim!: res_bindE)
qed (simp_all add: live_def ssh2_bpp_new_def)

section \<open>The longest encrypt-then-MAC packet\<close>

lemma read_etm_rest_overflow:
  assumes "s_len s = int OUR_V2_PACKETLIMIT" "s_packetlen s = OUR_V2_PACKETLIMIT + 4" "length (s_data s) = OUR_V2_PACKETLIMIT + s_maclen s"
    "OUR_V2_PACKETLIMIT + s_maclen s \<le> length (in_raw s)"
  shows "read_etm_rest s = Inl OutOfBounds"
  using assms by (simp add: read_etm_rest_def BPP_READ_def mem_write_def)

definition etm_of :: "bpp_keys \<Rightarrow> bool" where
  "etm_of k = (case k of (ckey, iv, etm, mac_key) \<Rightarrow> etm)"

section \<open>A receiver and any peer\<close>

locale bpp_defence = bpp_session calg calg' sync malg malg' good rep H
  for calg calg' :: "'c ssh_cipheralg" and sync and malg malg' :: "'h ssh2_macalg" and good rep H +
  assumes no_length_cipher: "\<not> separate_length calg"
begin

section \<open>Total operations\<close>

definition in_ok :: "('c, 'h, 'z) ssh2_bpp_direction \<Rightarrow> bool" where
  "in_ok d \<longleftrightarrow> (\<exists>key e. dir_pair key e d)"

definition same_mode :: "('c, 'h, 'z) ssh2_bpp_direction \<Rightarrow> ('c, 'h, 'z) ssh2_bpp_direction \<Rightarrow> bool" where
  "same_mode d d' \<longleftrightarrow> etm_mode d' = etm_mode d \<and> (mac d' = None) = (mac d = None) \<and> dir_cipherblk d' = dir_cipherblk d \<and> dir_maclen d' = dir_maclen d"

lemma in_ok_alt:
  "in_ok d \<longleftrightarrow> (cipher d = None \<or> (\<exists>x y. cipher d = Some (calg', y) \<and> sync x y)) \<and>
     (mac d = None \<or> (\<exists>key m m'. mac d = Some (malg', m') \<and> tx.keyed key m \<and> rx.keyed key m')) \<and> dir_pending_compression d = None"
proof
  assume "in_ok d"
  then show "(cipher d = None \<or> (\<exists>x y. cipher d = Some (calg', y) \<and> sync x y)) \<and>
     (mac d = None \<or> (\<exists>key m m'. mac d = Some (malg', m') \<and> tx.keyed key m \<and> rx.keyed key m')) \<and> dir_pending_compression d = None"
    unfolding in_ok_def dir_pair_def cipher_pair_def mac_pair_def by (elim exE conjE) (intro conjI; blast)
next
  assume *: "(cipher d = None \<or> (\<exists>x y. cipher d = Some (calg', y) \<and> sync x y)) \<and>
     (mac d = None \<or> (\<exists>key m m'. mac d = Some (malg', m') \<and> tx.keyed key m \<and> rx.keyed key m')) \<and> dir_pending_compression d = None"
  obtain x where x: "cipher_pair x (cipher d)" using * by (auto simp: cipher_pair_def)
  obtain key m where m: "mac_pair key m (mac d)" using * by (auto simp: mac_pair_def)
  have "dir_pair key (d\<lparr>cipher := x, mac := m\<rparr>) d" using x m * no_length_cipher by (simp add: dir_pair_def)
  then show "in_ok d" by (auto simp: in_ok_def)
qed

lemma in_ok_blocks: "in_ok d \<Longrightarrow> dir_cipherblk d dvd OUR_V2_PACKETLIMIT"
  unfolding in_ok_def by (elim exE) (metis dir_pair_shape(1,7))

lemma in_ok_sequence [simp]: "in_ok (d\<lparr>sequence := n\<rparr>) = in_ok d"
  by (simp add: in_ok_alt)

lemma decrypt_safe:
  assumes "in_ok d" "dir_cipherblk d dvd length c"
  shows "\<exists>x p. dir_decrypt d c = Inr (d\<lparr>cipher := x\<rparr>, p) \<and> length p = length c \<and> in_ok (d\<lparr>cipher := x\<rparr>) \<and> same_mode d (d\<lparr>cipher := x\<rparr>)"
proof (cases "cipher d")
  case None
  then show ?thesis using assms(1) by (intro exI [of _ None] exI [of _ c]) (simp add: dir_decrypt_def same_mode_def)
next
  case (Some z)
  then obtain x y where y: "cipher d = Some (calg', y)" "sync x y" using assms(1) by (auto simp: in_ok_alt)
  have "blksize calg dvd length c" using assms y(1) whole_blocks
    by (auto simp: dir_cipherblk_def decrypting_table rounded_def Let_def intro: dvd_trans split: if_splits)
  then obtain x' y' p where p: "cipher_decrypt calg y c = Inr (y', p)" "sync x' y'" using decrypt_total [OF y(2)] by blast
  then show ?thesis using y assms(1) decrypt_length [OF p(1)]
    by (intro exI [of _ "Some (calg', y')"] exI [of _ p])
       (auto simp: dir_decrypt_def decrypting_table in_ok_alt same_mode_def dir_cipherblk_def dir_maclen_def)
qed

lemma mac_verify_safe:
  assumes "in_ok d" "n < 2 ^ 32" "n + dir_maclen d \<le> length blk"
  shows "\<exists>x ok. dir_mac_verify d blk n = Inr (d\<lparr>mac := x\<rparr>, ok) \<and> in_ok (d\<lparr>mac := x\<rparr>) \<and> same_mode d (d\<lparr>mac := x\<rparr>)"
proof (cases "mac d")
  case None
  then show ?thesis using assms(1) by (intro exI [of _ None] exI [of _ True]) (simp add: dir_mac_verify_def same_mode_def)
next
  case (Some z)
  then obtain key m m' where m: "mac d = Some (malg', m')" "tx.keyed key m" "rx.keyed key m'" using assms(1) by (auto simp: in_ok_alt)
  have len: "length (take n blk) < 2 ^ 32" "mac_len malg' \<le> length (drop n blk)" using assms(2,3) m(1) by (auto simp: dir_maclen_def)
  obtain m1 where m1: "ssh2_mac_prepare (mac_hash malg') m' (take n blk) (sequence d) = Inr m1" "rx.keyed key m1"
    "\<exists>t. hmac_genresult (mac_hash malg') (mac_len malg') m1 = Inr t"
    using rx.prepare_live [OF m(3) len(1), of "sequence d"] mac_sizes(1) same_mac(1) hlen' by metis
  then obtain ok where "ssh2_mac_verify (mac_hash malg') (mac_len malg') m' blk n (sequence d) = Inr (m1, ok)"
    using len(2) mac_sizes(2) same_mac(1) by (auto simp: ssh2_mac_verify_def ssh2_mac_verresult_def)
  then show ?thesis using m m1(2) assms(1)
    by (intro exI [of _ "Some (malg', m1)"] exI [of _ ok]) (auto simp: dir_mac_verify_def in_ok_alt same_mode_def dir_cipherblk_def dir_maclen_def)
qed

section \<open>What holds where the coroutine is suspended\<close>

definition sized :: "('c, 'h, 'z) ssh2_bpp_state \<Rightarrow> bool" where
  "sized s \<longleftrightarrow> s_cipherblk s = dir_cipherblk (dir_in s) \<and> s_maclen s = dir_maclen (dir_in s)"

definition measured :: "('c, 'h, 'z) ssh2_bpp_state \<Rightarrow> bool" where
  "measured s \<longleftrightarrow> 0 \<le> s_len s \<and> s_len s \<le> int OUR_V2_PACKETLIMIT \<and> s_packetlen s = nat (s_len s) + 4"

definition place_ok :: "('c, 'h, 'z) ssh2_bpp_state \<Rightarrow> bool" where
  "place_ok s = (case crState s of
       Top \<Rightarrow> True
     | WaitNewkeys \<Rightarrow> True
     | CbcMac \<Rightarrow> sized s \<and> mac (dir_in s) \<noteq> None \<and> OUR_V2_PACKETLIMIT + s_maclen s \<le> length (s_buf s)
     | CbcBlock \<Rightarrow> sized s \<and> OUR_V2_PACKETLIMIT + s_maclen s \<le> length (s_buf s) \<and> s_cipherblk s dvd s_packetlen s \<and>
         s_packetlen s < OUR_V2_PACKETLIMIT \<and> (\<exists>bs junk. s_buf s = map Some bs @ junk \<and> length bs = s_packetlen s + s_maclen s) \<and>
         (\<exists>m x. mac (dir_in s) = Some (malg', m) \<and> rep (h_live m) x)
     | EtmLength \<Rightarrow> sized s \<and> mac (dir_in s) \<noteq> None \<and> etm_mode (dir_in s) \<and> 4 \<le> length (s_buf s)
     | EtmRest \<Rightarrow> sized s \<and> mac (dir_in s) \<noteq> None \<and> etm_mode (dir_in s) \<and> measured s \<and> s_cipherblk s dvd nat (s_len s) \<and>
         (\<exists>four. s_data s = map Some four @ replicate (OUR_V2_PACKETLIMIT + s_maclen s - 4) None \<and> length four = 4)
     | FirstBlock \<Rightarrow> sized s \<and> s_cipherblk s \<le> length (s_buf s)
     | Rest \<Rightarrow> sized s \<and> measured s \<and> s_cipherblk s dvd s_packetlen s \<and>
         (\<exists>blk. s_data s = map Some blk @ replicate (s_packetlen s + s_maclen s - s_cipherblk s) None \<and> length blk = s_cipherblk s)
     | _ \<Rightarrow> False)"

definition sound :: "('c, 'h, 'z) ssh2_bpp_state \<Rightarrow> bool" where
  "sound s \<longleftrightarrow> plain_receiver s \<and> in_ok (dir_in s) \<and> place_ok s"

text \<open>A step that does not fault, and keeps the mode.\<close>

definition fine :: "bool \<Rightarrow> ('c, 'h, 'z) progress \<Rightarrow> bool" where
  "fine etm r \<longleftrightarrow> (\<exists>go s'. r = Inr (go, s') \<and> sound s' \<and> etm_mode (dir_in s') = etm)"

lemma fineI: "sound s' \<Longrightarrow> etm_mode (dir_in s') = etm \<Longrightarrow> fine etm (Inr (go, s'))"
  by (auto simp: fine_def)

lemma sound_top: "plain_receiver s \<Longrightarrow> in_ok (dir_in s) \<Longrightarrow> crState s = Top \<or> crState s = WaitNewkeys \<Longrightarrow> sound s"
  by (auto simp: sound_def place_ok_def)

lemma sw_abort_fine: "plain_receiver s \<Longrightarrow> in_ok (dir_in s) \<Longrightarrow> fine (etm_mode (dir_in s)) (ssh_sw_abort s msg)"
  unfolding ssh_sw_abort_def by (rule fineI) (auto intro!: sound_top simp: plain_receiver_def)

lemma read_fine:
  assumes "sound s" "\<And>bs r. length bs = n \<Longrightarrow> fine (etm_mode (dir_in s)) (k bs (s\<lparr>in_raw := r\<rparr>))"
  shows "fine (etm_mode (dir_in s)) (BPP_READ s n k)"
proof (cases "n \<le> length (in_raw s)")
  case True
  then show ?thesis using assms(2) [of "take n (in_raw s)"] by (simp add: BPP_READ_def)
next
  case False
  then show ?thesis using assms(1) by (auto simp: BPP_READ_def fine_def sound_def plain_receiver_def)
qed

lemma plain_raw [simp]: "plain_receiver (s\<lparr>in_raw := r\<rparr>) = plain_receiver s" "plain_receiver (s\<lparr>s_buf := b\<rparr>) = plain_receiver s"
  "plain_receiver (s\<lparr>s_data := b\<rparr>) = plain_receiver s" "plain_receiver (s\<lparr>s_len := l\<rparr>) = plain_receiver s"
  "plain_receiver (s\<lparr>s_packetlen := n\<rparr>) = plain_receiver s" "plain_receiver (s\<lparr>s_maxlen := n\<rparr>) = plain_receiver s"
  "plain_receiver (s\<lparr>crState := c\<rparr>) = plain_receiver s" "plain_receiver (s\<lparr>s_pad := n\<rparr>) = plain_receiver s"
  by (simp_all add: plain_receiver_def)

lemma plain_dir: "in_ok d \<Longrightarrow> plain_receiver s \<Longrightarrow> plain_receiver (s\<lparr>dir_in := d\<rparr>)"
  by (auto simp: plain_receiver_def in_ok_alt)

lemma packet_deliver_fine:
  assumes "plain_receiver s" "in_ok (dir_in s)"
  shows "fine (etm_mode (dir_in s)) (packet_deliver s p)"
proof (cases "valid_type (in_type p)")
  case True
  obtain s' where "packet_deliver s p = Inr (in_type p \<noteq> SSH2_MSG_NEWKEYS, s')" "dir_in s' = dir_in s" "plain_receiver s'"
    "crState s' = Top \<or> crState s' = WaitNewkeys" using packet_deliver_plain [OF assms(1) True] by metis
  then show ?thesis using assms(2) by (auto intro!: fineI sound_top)
next
  case False
  then show ?thesis using assms by (auto intro!: fineI sound_top simp: packet_deliver_def ssh2_bpp_check_unimplemented_def pq_push_out_def plain_receiver_def)
qed

lemma packet_read_fine:
  assumes "plain_receiver s" "in_ok (dir_in s)" "s_data s = map Some bs @ rest" "5 \<le> length bs" "s_packetlen s \<le> length bs"
    "int (s_packetlen s) = s_len s + 4"
  shows "fine (etm_mode (dir_in s)) (packet_read s)"
proof -
  have rd: "mem_read (s_data s) i n = Inr (take n (drop i bs))" if "i + n \<le> length bs" for i n
    unfolding assms(3) by (rule mem_read_Some) (rule that)
  obtain b where "take 1 (drop 4 bs) = [b]" using assms(4) by (cases "drop 4 bs") auto
  then have pad: "mem_read (s_data s) 4 1 = Inr [b]" using rd [of 4 1] assms(4) by simp
  define n where "n = unat b"
  then have ub: "uint b = int n" by simp
  let ?s = "s\<lparr>s_pad := n\<rparr>"
  show ?thesis
  proof (cases "n < 4 \<or> s_len s - int n < 1")
    case True
    then show ?thesis using pad sw_abort_fine [of ?s] assms(1,2) by (auto simp: packet_read_def n_def Let_def)
  next
    case False
    define s1 where "s1 = packet_sized ?s"
    have s1: "s_length s1 = int (s_packetlen s) - int n" "s_data s1 = s_data s" "plain_receiver s1" "in_ok (dir_in s1)" "etm_mode (dir_in s1) = etm_mode (dir_in s)"
      using assms(1,2) by (simp_all add: s1_def packet_sized_def Let_def plain_receiver_def)
    have len: "5 \<le> s_length s1" "s_length s1 \<le> int (length bs)" using False s1(1) assms(5,6) by auto
    have d: "decompress_payload s1 = Inr s1" using s1(3) by (simp add: decompress_payload_def plain_receiver_def)
    have "\<exists>t payload. packet_contents s1 = Inr (t, payload)"
      using rd [of 5 0] rd [of 5 1] rd [of 6 "nat (s_length s1 - 6)"] len assms(4) s1(2) by (auto simp: packet_contents_def)
    then obtain t payload where c: "packet_contents s1 = Inr (t, payload)" by blast
    have "packet_read s = packet_deliver s1 \<lparr>in_type = t, in_sequence = sequence (dir_in s), in_payload = payload\<rparr>"
      using pad False d c len ub by (simp add: packet_read_def n_def [symmetric] Let_def s1_def [symmetric])
    then show ?thesis using packet_deliver_fine [OF s1(3,4)] s1(5) by simp
  qed
qed

section \<open>The steps\<close>

lemma mem_write_front: "length d \<le> length blk \<Longrightarrow> mem_write blk 0 (map Some d) = Inr (map Some d @ drop (length d) blk)"
  by (simp add: mem_write_def)

lemma read_top_fine:
  assumes "sound s" "crState s = Top"
  shows "fine (etm_mode (dir_in s)) (read_top s)"
proof -
  have "length (ensure_buf b n) \<ge> n" for b n by (simp add: ensure_buf_def)
  then show ?thesis using assms
    by (auto simp: read_top_def Let_def sound_def place_ok_def sized_def plain_receiver_def intro!: fineI)
qed

lemma read_first_block_fine:
  assumes "sound s" "crState s = FirstBlock"
  shows "fine (etm_mode (dir_in s)) (read_first_block s)"
  unfolding read_first_block_def
proof (rule read_fine [OF assms(1)], goal_cases)
  case (1 bs r)
  note l = this
  let ?u = "s_cipherblk s" and ?d = "dir_in s"
  have s: "plain_receiver s" "in_ok ?d" "?u = dir_cipherblk ?d" "s_maclen s = dir_maclen ?d" "?u \<le> length (s_buf s)"
    using assms by (auto simp: sound_def place_ok_def sized_def)
  have u: "8 \<le> ?u" using s(3) dir_cipherblk_pos by simp
  have w: "mem_write (s_buf s) 0 (map Some bs) = Inr (map Some bs @ drop ?u (s_buf s))" using mem_write_front [of bs "s_buf s"] l s(5) by simp
  have rd: "mem_read (map Some bs @ drop ?u (s_buf s)) 0 ?u = Inr bs" using mem_read_Some [of 0 ?u bs "drop ?u (s_buf s)"] l by simp
  obtain x p where p: "dir_decrypt ?d bs = Inr (?d\<lparr>cipher := x\<rparr>, p)" "length p = ?u" "in_ok (?d\<lparr>cipher := x\<rparr>)" "same_mode ?d (?d\<lparr>cipher := x\<rparr>)"
    using decrypt_safe [OF s(2), of bs] l s(3) by auto
  have w2: "mem_write (map Some bs @ drop ?u (s_buf s)) 0 (map Some p) = Inr (map Some p @ drop ?u (s_buf s))"
    using mem_write_front [of p "map Some bs @ drop ?u (s_buf s)"] l p(2) by simp
  have r2: "mem_read (map Some p @ drop ?u (s_buf s)) 0 4 = Inr (take 4 p)" using mem_read_Some [of 0 4 p "drop ?u (s_buf s)"] u p(2) by simp
  define len where "len = toint (GET_32BIT_MSB_FIRST (take 4 p))"
  define s1 where "s1 = s\<lparr>in_raw := r, s_buf := map Some p @ drop ?u (s_buf s), dir_in := ?d\<lparr>cipher := x\<rparr>, s_len := len\<rparr>"
  have s1: "plain_receiver s1" "in_ok (dir_in s1)" "etm_mode (dir_in s1) = etm_mode ?d" using s p by (simp_all add: s1_def plain_dir same_mode_def plain_receiver_def)
  let ?k = "if len < 0 \<or> len > int OUR_V2_PACKETLIMIT \<or> (len + 4) mod int ?u \<noteq> 0 then ssh_sw_abort s1 ''Incoming packet was garbled on decryption''
     else Inr (True, s1\<lparr>s_packetlen := nat len + 4, s_maxlen := nat len + 4 + s_maclen s, s_data := map Some p @ drop ?u (replicate (nat len + 4 + s_maclen s) None), crState := Rest\<rparr>)"
  have "fine (etm_mode ?d) ?k"
  proof (cases "len < 0 \<or> len > int OUR_V2_PACKETLIMIT \<or> (len + 4) mod int ?u \<noteq> 0")
    case True
    then show ?thesis using sw_abort_fine [OF s1(1,2)] s1(3) by simp
  next
    case False
    then have "int ?u dvd int (nat len + 4)" by auto
    then have dv: "?u dvd nat len + 4" by (simp only: int_dvd_int_iff)
    then show ?thesis using False s1 p(2,4) s(3,4) u
      by (auto intro!: fineI simp: sound_def place_ok_def sized_def measured_def s1_def same_mode_def)
  qed
  moreover have "mem_write (replicate (nat len + 4 + s_maclen s) None) 0 (map Some p) = Inr (map Some p @ drop ?u (replicate (nat len + 4 + s_maclen s) None))"
    if "\<not> (len < 0 \<or> len > int OUR_V2_PACKETLIMIT \<or> (len + 4) mod int ?u \<noteq> 0)"
  proof -
    have "int ?u dvd int (nat len + 4)" using that by auto
    then have "?u \<le> nat len + 4" by (simp only: int_dvd_int_iff) (simp add: dvd_imp_le)
    then show ?thesis using mem_write_front [of p "replicate (nat len + 4 + s_maclen s) None"] p(2) by simp
  qed
  ultimately show ?case
    using w rd p(1) w2 r2 by (auto simp: Let_def len_def [symmetric] s1_def split: if_splits)
qed

lemma read_rest_fine:
  assumes "sound s" "crState s = Rest"
  shows "fine (etm_mode (dir_in s)) (read_rest s)"
  unfolding read_rest_def
proof (rule read_fine [OF assms(1)], goal_cases)
  case (1 bs r)
  let ?u = "s_cipherblk s" and ?d = "dir_in s" and ?n = "s_packetlen s" and ?m = "s_maclen s"
  have "sized s" "measured s" "?u dvd ?n" "\<exists>blk. s_data s = map Some blk @ replicate (?n + ?m - ?u) None \<and> length blk = ?u"
    using assms by (simp_all add: sound_def place_ok_def)
  then obtain blk where s: "?u = dir_cipherblk ?d" "?m = dir_maclen ?d" "measured s" "?u dvd ?n"
    "s_data s = map Some blk @ replicate (?n + ?m - ?u) None" "length blk = ?u" by (auto simp: sized_def)
  have u: "?u \<le> ?n" "4 < ?n" "?n < 2 ^ 32" "nat (s_len s) + 4 = ?n"
    using s(3,4) dvd_imp_le [of ?u ?n] dir_cipherblk_pos [of ?d] s(1) by (auto simp: measured_def OUR_V2_PACKETLIMIT_def)
  have lb: "length (blk @ bs) = ?n + ?m" using 1 u s(6) by simp
  have w: "mem_write (s_data s) ?u (map Some bs) = Inr (map Some (blk @ bs) @ [])"
    unfolding s(5) using 1 u s(6) by (subst mem_write_Some [where bs = blk]) simp_all
  let ?c = "take (?n - ?u) bs"
  have r1: "mem_read (map Some (blk @ bs) @ []) ?u (?n - ?u) = Inr ?c" using s(6) lb u by (subst mem_read_Some) simp_all
  obtain x p where p: "dir_decrypt ?d ?c = Inr (?d\<lparr>cipher := x\<rparr>, p)" "length p = length ?c" "in_ok (?d\<lparr>cipher := x\<rparr>)" "same_mode ?d (?d\<lparr>cipher := x\<rparr>)"
    using decrypt_safe [of ?d ?c] assms(1) 1 s(1,4) u by (auto simp: sound_def)
  let ?b = "blk @ p @ drop (?n - ?u) bs"
  have lp: "length p = ?n - ?u" using p(2) 1 u by simp
  have w2: "mem_write (map Some (blk @ bs) @ []) ?u (map Some p) = Inr (map Some ?b @ [])"
    using s(6) lp lb by (subst mem_write_Some [where bs = blk]) (simp_all add: drop_map)
  have lb2: "length ?b = ?n + ?m" using s(6) lp lb u by simp
  have r2: "mem_read (map Some ?b @ []) 0 (?n + ?m) = Inr ?b" using lb2 by (subst mem_read_Some) simp_all
  obtain y ok where v: "dir_mac_verify (?d\<lparr>cipher := x\<rparr>) ?b ?n = Inr (?d\<lparr>cipher := x, mac := y\<rparr>, ok)" "in_ok (?d\<lparr>cipher := x, mac := y\<rparr>)"
    using mac_verify_safe [OF p(3), of ?n ?b] u(3) lb2 s(2) p(4) by (auto simp: same_mode_def)
  define s1 where "s1 = s\<lparr>in_raw := r, s_data := map Some ?b @ [], dir_in := ?d\<lparr>cipher := x, mac := y\<rparr>\<rparr>"
  have s1: "plain_receiver s1" "in_ok (dir_in s1)" "etm_mode (dir_in s1) = etm_mode ?d"
    using assms(1) v(2) by (simp_all add: s1_def plain_dir sound_def)
  have "fine (etm_mode (dir_in s1)) (packet_read s1)"
    by (rule packet_read_fine [OF s1(1,2), of ?b "[]"]) (use lb2 u s(3) in \<open>auto simp: s1_def measured_def\<close>)
  then have "fine (etm_mode ?d) (if \<not> ok then ssh_sw_abort s1 ''Incorrect MAC received on packet'' else packet_read s1)"
    using sw_abort_fine [OF s1(1,2)] s1(3) by simp
  then show ?case using w r1 p(1) w2 r2 v(1) u(4) by (auto simp: Let_def s1_def simp del: map_append append_Nil2 split: if_splits)
qed

lemma read_etm_length_fine:
  assumes "sound s" "crState s = EtmLength"
  shows "fine (etm_mode (dir_in s)) (read_etm_length s)"
  unfolding read_etm_length_def
proof (rule read_fine [OF assms(1)], goal_cases)
  case (1 bs r)
  let ?u = "s_cipherblk s" and ?d = "dir_in s" and ?data = "map Some bs @ replicate (OUR_V2_PACKETLIMIT + s_maclen s - 4) None"
  have s: "sized s" "mac ?d \<noteq> None" "etm_mode ?d" "4 \<le> length (s_buf s)" "plain_receiver s" "in_ok ?d" using assms by (auto simp: sound_def place_ok_def)
  have w: "mem_write (s_buf s) 0 (map Some bs) = Inr (map Some bs @ drop 4 (s_buf s))" using mem_write_front [of bs "s_buf s"] 1 s(4) by simp
  have rd: "mem_read (map Some bs @ drop 4 (s_buf s)) 0 4 = Inr bs" using mem_read_Some [of 0 4 bs "drop 4 (s_buf s)"] 1 by simp
  have e: "etm_length ?d bs = Inr (?d, bs)" using s(6) no_length_cipher by (auto simp: etm_length_def in_ok_alt decrypting_table)
  have w2: "mem_write (replicate (OUR_V2_PACKETLIMIT + s_maclen s) None) 0 (map Some bs) = Inr ?data"
    using mem_write_front [of bs "replicate (OUR_V2_PACKETLIMIT + s_maclen s) None"] 1 by (simp add: OUR_V2_PACKETLIMIT_def)
  define len where "len = toint (GET_32BIT_MSB_FIRST bs)"
  define s1 where "s1 = s\<lparr>in_raw := r, s_buf := map Some bs @ drop 4 (s_buf s), s_len := len\<rparr>"
  have s1: "plain_receiver s1" "in_ok (dir_in s1)" "etm_mode (dir_in s1) = etm_mode ?d" using s by (simp_all add: s1_def plain_dir)
  have "fine (etm_mode ?d) (if len < 0 \<or> len > int OUR_V2_PACKETLIMIT \<or> len mod int ?u \<noteq> 0
     then ssh_sw_abort s1 ''Incoming packet length field was garbled''
     else Inr (True, s1\<lparr>s_packetlen := nat len + 4, s_data := ?data, crState := EtmRest\<rparr>))"
  proof (cases "len < 0 \<or> len > int OUR_V2_PACKETLIMIT \<or> len mod int ?u \<noteq> 0")
    case True
    then show ?thesis using sw_abort_fine [OF s1(1,2)] s1(3) by simp
  next
    case False
    then have "int ?u dvd int (nat len)" by auto
    then have "?u dvd nat len" by (simp only: int_dvd_int_iff)
    then show ?thesis using False s1 s 1 by (auto intro!: fineI simp: sound_def place_ok_def sized_def measured_def s1_def)
  qed
  then show ?case using w rd e w2 by (auto simp: Let_def len_def [symmetric] s1_def split: if_splits)
qed

text \<open>
  In encrypt-then-MAC mode the block for the packet is allocated four bytes too short for the longest
  length that is accepted.
\<close>

lemma etm_rest_room:
  assumes "sound s" "crState s = EtmRest" "s_len s \<noteq> int OUR_V2_PACKETLIMIT"
  shows "s_packetlen s \<le> OUR_V2_PACKETLIMIT"
proof -
  have s: "sized s" "measured s" "s_cipherblk s dvd nat (s_len s)" "in_ok (dir_in s)" using assms by (simp_all add: sound_def place_ok_def)
  have "s_cipherblk s dvd OUR_V2_PACKETLIMIT" using in_ok_blocks [OF s(4)] s(1) by (simp add: sized_def)
  then have "s_cipherblk s dvd OUR_V2_PACKETLIMIT - nat (s_len s)" using s(3) by (rule dvd_diff_nat)
  moreover have "0 < OUR_V2_PACKETLIMIT - nat (s_len s)" using s(2) assms(3) by (auto simp: measured_def)
  ultimately have "s_cipherblk s \<le> OUR_V2_PACKETLIMIT - nat (s_len s)" by (rule dvd_imp_le)
  then have "8 \<le> OUR_V2_PACKETLIMIT - nat (s_len s)" using dir_cipherblk_pos [of "dir_in s"] s(1) by (simp add: sized_def)
  then show ?thesis using s(2) by (auto simp: measured_def)
qed

lemma read_etm_rest_fine:
  assumes "sound s" "crState s = EtmRest" "s_len s \<noteq> int OUR_V2_PACKETLIMIT"
  shows "fine (etm_mode (dir_in s)) (read_etm_rest s)"
  unfolding read_etm_rest_def
proof (rule read_fine [OF assms(1)], goal_cases)
  case (1 bs r)
  let ?u = "s_cipherblk s" and ?d = "dir_in s" and ?n = "s_packetlen s" and ?m = "s_maclen s"
  have "sized s" "measured s" "?u dvd nat (s_len s)" "mac ?d \<noteq> None" "plain_receiver s" "in_ok ?d"
    "\<exists>four. s_data s = map Some four @ replicate (OUR_V2_PACKETLIMIT + ?m - 4) None \<and> length four = 4"
    using assms by (simp_all add: sound_def place_ok_def)
  then obtain four where s: "?u = dir_cipherblk ?d" "?m = dir_maclen ?d" "measured s" "?u dvd nat (s_len s)" "mac ?d \<noteq> None" "plain_receiver s" "in_ok ?d"
    "s_data s = map Some four @ replicate (OUR_V2_PACKETLIMIT + ?m - 4) None" "length four = 4" by (auto simp: sized_def)
  have room: "?n \<le> OUR_V2_PACKETLIMIT" by (rule etm_rest_room [OF assms])
  have n: "?n = nat (s_len s) + 4" "?n < 2 ^ 32" "int ?n = s_len s + 4" using s(3) by (auto simp: measured_def OUR_V2_PACKETLIMIT_def)
  have m: "0 < ?m" using s(2,5,7) tag_pos same_mac(1) by (auto simp: in_ok_alt dir_maclen_def)
  let ?rest = "replicate (OUR_V2_PACKETLIMIT - ?n) None"
  have lb: "length bs = ?n + ?m - 4" using 1 by simp
  have w: "mem_write (s_data s) 4 (map Some bs) = Inr (map Some (four @ bs) @ ?rest)"
    unfolding s(8) using lb room n(1) s(9) by (subst mem_write_Some [where bs = four]) simp_all
  have r1: "mem_read (map Some (four @ bs) @ ?rest) 0 (?n + ?m) = Inr (four @ bs)" using lb n(1) s(9) by (subst mem_read_Some) simp_all
  obtain y ok where v: "dir_mac_verify ?d (four @ bs) ?n = Inr (?d\<lparr>mac := y\<rparr>, ok)" "in_ok (?d\<lparr>mac := y\<rparr>)" "same_mode ?d (?d\<lparr>mac := y\<rparr>)"
    using mac_verify_safe [OF s(7) n(2), of "four @ bs"] lb s(2,9) n(1) by auto
  define s1 where "s1 = s\<lparr>in_raw := r, s_data := map Some (four @ bs) @ ?rest, dir_in := ?d\<lparr>mac := y\<rparr>\<rparr>"
  have s1: "plain_receiver s1" "in_ok (dir_in s1)" "etm_mode (dir_in s1) = etm_mode ?d" using s v(2) by (simp_all add: s1_def plain_dir)
  let ?c = "take (?n - 4) bs"
  have r2: "mem_read (map Some (four @ bs) @ ?rest) 4 (?n - 4) = Inr ?c" using lb n(1) s(9) by (subst mem_read_Some) simp_all
  obtain x p where p: "dir_decrypt (?d\<lparr>mac := y\<rparr>) ?c = Inr (?d\<lparr>mac := y, cipher := x\<rparr>, p)" "length p = length ?c" "in_ok (?d\<lparr>mac := y, cipher := x\<rparr>)"
    using decrypt_safe [OF v(2), of ?c] s(1,4) lb n(1) v(3) by (auto simp: same_mode_def)
  let ?b = "four @ p @ drop (?n - 4) bs"
  have lp: "length p = ?n - 4" using p(2) lb by simp
  have w2: "mem_write (map Some (four @ bs) @ ?rest) 4 (map Some p) = Inr (map Some ?b @ ?rest)"
    using s(9) lp lb by (subst mem_write_Some [where bs = four]) (simp_all add: drop_map)
  define s2 where "s2 = s1\<lparr>s_data := map Some ?b @ ?rest, dir_in := ?d\<lparr>mac := y, cipher := x\<rparr>\<rparr>"
  have s2: "plain_receiver s2" "in_ok (dir_in s2)" "etm_mode (dir_in s2) = etm_mode ?d" using s1 p(3) by (simp_all add: s2_def plain_dir)
  have "fine (etm_mode (dir_in s2)) (packet_read s2)"
    by (rule packet_read_fine [OF s2(1,2), of ?b ?rest]) (use lp lb s(9) m n in \<open>simp_all add: s2_def s1_def\<close>)
  then have "fine (etm_mode ?d) (if \<not> ok then ssh_sw_abort s1 ''Incorrect MAC received on packet'' else packet_read s2)"
    using sw_abort_fine [OF s1(1,2)] s1(3) s2(3) by simp
  then show ?case using w r1 v(1) r2 p(1) w2 n(1) by (auto simp: Let_def s1_def s2_def simp del: map_append split: if_splits)
qed

text \<open>A MAC context in the middle of a message.\<close>

lemma live_write:
  assumes "rep (h_live m) x" "length d < 2 ^ 32" "rx.keyed key m"
  shows "\<exists>m'. hmac_write (mac_hash malg') m d = Inr m' \<and> rep (h_live m') (x @ d) \<and> rx.keyed key m'"
  using rx.write_rep [OF assms(1,2)] assms(3) by (auto simp: hmac_write_def rx.keyed_def)

lemma live_verify:
  assumes "rep (h_live m) x" "rx.keyed key m" "length cand = mac_len malg'"
  shows "\<exists>ok. ssh2_mac_verresult (mac_hash malg') (mac_len malg') m cand = Inr ok"
proof -
  obtain y where "rep (h_outer m) y" using assms(2) by (auto simp: rx.keyed_def Let_def)
  moreover have "length (H x) < 2 ^ 32" using rx.H_length rx.sizes by (metis le_less_trans)
  ultimately obtain s where "hash_write (mac_hash malg') (h_outer m) (H x) = Inr s" "rep s (y @ H x)" using rx.write_rep by blast
  then show ?thesis using rx.digest_rep assms(1,3) rx.H_length mac_sizes(1,2) same_mac(1) hlen'
    by (auto simp: ssh2_mac_verresult_def hmac_genresult_def ssh_hash_digest_nondestructive_def)
qed

lemma read_cbc_mac_fine:
  assumes "sound s" "crState s = CbcMac"
  shows "fine (etm_mode (dir_in s)) (read_cbc_mac s)"
  unfolding read_cbc_mac_def
proof (rule read_fine [OF assms(1)], goal_cases)
  case (1 bs r)
  let ?d = "dir_in s"
  have s: "sized s" "mac ?d \<noteq> None" "OUR_V2_PACKETLIMIT + s_maclen s \<le> length (s_buf s)" "plain_receiver s" "in_ok ?d" using assms by (auto simp: sound_def place_ok_def)
  obtain key m0 m where m: "mac ?d = Some (malg', m)" "tx.keyed key m0" "rx.keyed key m" using s(2,5) by (auto simp: in_ok_alt)
  have w: "mem_write (s_buf s) 0 (map Some bs) = Inr (map Some bs @ drop (s_maclen s) (s_buf s))" using mem_write_front [of bs "s_buf s"] 1 s(3) by simp
  have "\<exists>x. rep (h_live (hmac_start m)) x" "rx.keyed key (hmac_start m)" using m(3) by (auto simp: rx.keyed_def hmac_start_def Let_def)
  then obtain m1 x where m1: "hmac_write (mac_hash malg') (hmac_start m) (PUT_32BIT_MSB_FIRST (ucast (sequence ?d))) = Inr m1" "rep (h_live m1) x" "rx.keyed key m1"
    using live_write [of "hmac_start m" _ "PUT_32BIT_MSB_FIRST (ucast (sequence ?d))" key] by fastforce
  have ok: "in_ok (?d\<lparr>mac := Some (malg', m1)\<rparr>)" using s(5) m(2) m1(3) by (auto simp: in_ok_alt)
  define s1 where "s1 = s\<lparr>in_raw := r, s_buf := map Some bs @ drop (s_maclen s) (s_buf s), s_packetlen := 0, dir_in := ?d\<lparr>mac := Some (malg', m1)\<rparr>, crState := CbcBlock\<rparr>"
  have "sized s1" using s(1) m(1) by (simp add: s1_def sized_def dir_cipherblk_def dir_maclen_def)
  then have "sound s1" using s(3,4) ok 1 m1(2) plain_dir [OF ok s(4)]
    by (auto simp: sound_def place_ok_def s1_def plain_receiver_def OUR_V2_PACKETLIMIT_def)
  then show ?case using w m(1) m1(1) by (simp add: s1_def fineI)
qed

lemma read_cbc_block_fine:
  assumes "sound s" "crState s = CbcBlock"
  shows "fine (etm_mode (dir_in s)) (read_cbc_block s)"
  unfolding read_cbc_block_def
proof (rule read_fine [OF assms(1)], goal_cases)
  case (1 blk r)
  let ?u = "s_cipherblk s" and ?d = "dir_in s" and ?k = "s_packetlen s" and ?L = "s_maclen s"
  have "sized s" "OUR_V2_PACKETLIMIT + ?L \<le> length (s_buf s)" "?u dvd ?k" "?k < OUR_V2_PACKETLIMIT" "plain_receiver s" "in_ok ?d"
    "\<exists>bs junk. s_buf s = map Some bs @ junk \<and> length bs = ?k + ?L" "\<exists>m x. mac ?d = Some (malg', m) \<and> rep (h_live m) x"
    using assms by (simp_all add: sound_def place_ok_def)
  then obtain bs junk m x where s: "?u = dir_cipherblk ?d" "?L = dir_maclen ?d" "OUR_V2_PACKETLIMIT + ?L \<le> length (s_buf s)" "?u dvd ?k"
    "?k < OUR_V2_PACKETLIMIT" "plain_receiver s" "in_ok ?d" "s_buf s = map Some bs @ junk" "length bs = ?k + ?L" "mac ?d = Some (malg', m)" "rep (h_live m) x"
    by (auto simp: sized_def)
  obtain key m0 where key: "rx.keyed key m" "tx.keyed key m0" using s(7,10) by (auto simp: in_ok_alt)
  have L: "?L = mac_len malg'" using s(2,10) by (simp add: dir_maclen_def)
  have "?u dvd OUR_V2_PACKETLIMIT - ?k" using in_ok_blocks [OF s(7)] s(1,4) by (simp add: dvd_diff_nat)
  then have ku: "?k + ?u \<le> OUR_V2_PACKETLIMIT" "8 \<le> ?u" using s(1,5) dvd_imp_le [of ?u "OUR_V2_PACKETLIMIT - ?k"] dir_cipherblk_pos [of ?d] by auto
  have lj: "?u \<le> length junk" using s(3,8,9) ku by simp
  let ?j = "drop ?u junk" and ?all = "bs @ blk"
  have w: "mem_write (s_buf s) (?k + ?L) (map Some blk) = Inr (map Some ?all @ ?j)"
    unfolding s(8) using 1 s(9) lj by (subst mem_write_Some [where bs = bs]) simp_all
  let ?c = "take ?u (drop ?k ?all)"
  have lc: "length ?c = ?u" using s(9) 1 by simp
  have r1: "mem_read (map Some ?all @ ?j) ?k ?u = Inr ?c" using s(9) 1 by (subst mem_read_Some) simp_all
  obtain y p where p: "dir_decrypt ?d ?c = Inr (?d\<lparr>cipher := y\<rparr>, p)" "length p = ?u" "in_ok (?d\<lparr>cipher := y\<rparr>)" "same_mode ?d (?d\<lparr>cipher := y\<rparr>)"
    using decrypt_safe [OF s(7), of ?c] lc s(1) by auto
  define b where "b = take ?k ?all @ p @ drop (?k + ?u) ?all"
  have lb: "length b = ?k + ?u + ?L" using s(9) 1 p(2) by (simp add: b_def)
  have w2: "mem_write (map Some ?all @ ?j) ?k (map Some p) = Inr (map Some b @ ?j)"
    using s(9) 1 p(2) by (subst mem_write_Some [where bs = "take ?k ?all"]) (simp_all add: b_def drop_map take_map)
  obtain m1 where m1: "hmac_write (mac_hash malg') m p = Inr m1" "rep (h_live m1) (x @ p)" "rx.keyed key m1"
    using live_write [OF s(11) _ key(1), of p] p(2) ku by (auto simp: OUR_V2_PACKETLIMIT_def)
  have r2: "mem_read (map Some b @ ?j) (?k + ?u) ?L = Inr (take ?L (drop (?k + ?u) b))" using lb by (subst mem_read_Some) simp_all
  obtain ok where v: "ssh2_mac_verresult (mac_hash malg') ?L m1 (take ?L (drop (?k + ?u) b)) = Inr ok"
    using live_verify [OF m1(2,3), of "take ?L (drop (?k + ?u) b)"] lb L by auto
  have r3: "mem_read (map Some b @ ?j) 0 4 = Inr (take 4 b)" using lb ku by (subst mem_read_Some) simp_all
  define d1 where "d1 = ?d\<lparr>cipher := y, mac := Some (malg', m1)\<rparr>"
  have d1: "in_ok d1" "same_mode ?d d1" "mac d1 = Some (malg', m1)"
    using p(3,4) key(2) m1(3) s(10) by (auto simp: d1_def in_ok_alt same_mode_def dir_cipherblk_def dir_maclen_def)
  define l where "l = (if ok then toint (GET_32BIT_MSB_FIRST (take 4 b)) else s_len s)"
  define s1 where "s1 = s\<lparr>in_raw := r, s_buf := map Some b @ ?j, dir_in := d1, s_packetlen := ?k + ?u, s_len := l\<rparr>"
  have s1: "plain_receiver s1" "in_ok (dir_in s1)" "etm_mode (dir_in s1) = etm_mode ?d" "s_packetlen s1 = ?k + ?u" "s_len s1 = l"
    using s(6) d1 by (simp_all add: s1_def plain_dir same_mode_def)
  let ?n = "?k + ?u + ?L"
  define s2 where "s2 = s1\<lparr>s_maxlen := ?n, s_data := take ?n (map Some b @ ?j)\<rparr>"
  have dat: "take ?n (map Some b @ ?j) = map Some b @ []" using lb by simp
  have one: "fine (etm_mode ?d) (packet_read s2)" if "l = int (?k + ?u) - 4"
    using packet_read_fine [of s2 b "[]"] s1 that lb ku dat by (simp add: s2_def del: take_append)
  have two: "sound s1" if "?k + ?u < OUR_V2_PACKETLIMIT"
  proof -
    have "length (map Some b @ ?j) = length (s_buf s)" using s(8,9) lb lj by simp
    then show ?thesis using s1(1,2) that assms(2) s(1-4) d1 m1(2) lb
      by (auto simp: sound_def place_ok_def s1_def sized_def same_mode_def simp del: length_append length_map)
  qed
  have "fine (etm_mode ?d) (if ok \<and> l = int (?k + ?u) - 4 then packet_read s2
      else if ?k + ?u \<ge> OUR_V2_PACKETLIMIT then ssh_sw_abort s1 ''No valid incoming packet found'' else Inr (True, s1))"
    using one two sw_abort_fine [OF s1(1,2)] s1(3) by (auto intro: fineI)
  moreover have "?n \<le> length (map Some b @ ?j)" using lb by simp
  ultimately show ?case
    using w r1 p(1) w2 m1(1) r2 v r3
    by (cases ok) (auto simp: Let_def s(10) L [symmetric] s1_def s2_def d1_def l_def simp del: map_append take_append length_append length_map split: if_splits)
qed

section \<open>The coroutine\<close>

text \<open>The one place and length where a peer can provoke a fault.\<close>

definition overlong :: "('c, 'h, 'z) ssh2_bpp_state \<Rightarrow> bool" where
  "overlong s \<longleftrightarrow> crState s = EtmRest \<and> s_len s = int OUR_V2_PACKETLIMIT"

lemma bpp_step_fine:
  assumes "sound s" "\<not> overlong s"
  shows "fine (etm_mode (dir_in s)) (bpp_step s)"
proof (cases "crState s")
  case WaitNewkeys
  then have "sound (s\<lparr>crState := Top\<rparr>)" using assms(1) by (simp add: sound_def place_ok_def)
  then show ?thesis using WaitNewkeys assms(1) by (simp add: bpp_step_def fineI)
next
  case EtmRest
  then show ?thesis using read_etm_rest_fine [OF assms(1) EtmRest] assms(2) by (simp add: bpp_step_def overlong_def)
next
  case Eof
  then show ?thesis using assms(1) by (simp add: sound_def place_ok_def)
next
  case Freed
  then show ?thesis using assms(1) by (simp add: sound_def place_ok_def)
qed (use read_top_fine [OF assms(1)] read_cbc_mac_fine [OF assms(1)] read_cbc_block_fine [OF assms(1)] read_etm_length_fine [OF assms(1)]
  read_first_block_fine [OF assms(1)] read_rest_fine [OF assms(1)] in \<open>simp_all add: bpp_step_def\<close>)

lemma overlong_step:
  assumes "sound s" "overlong s"
  shows "etm_mode (dir_in s)" "bpp_step s = (if wanted s \<le> length (in_raw s) then Inl OutOfBounds else Inr (False, s))"
proof -
  have st: "crState s = EtmRest" "s_len s = int OUR_V2_PACKETLIMIT" using assms(2) by (simp_all add: overlong_def)
  then have "s_packetlen s = OUR_V2_PACKETLIMIT + 4" "length (s_data s) = OUR_V2_PACKETLIMIT + s_maclen s" "\<not> input_eof s"
    using assms(1) by (auto simp: sound_def place_ok_def measured_def plain_receiver_def OUR_V2_PACKETLIMIT_def)
  then show "bpp_step s = (if wanted s \<le> length (in_raw s) then Inl OutOfBounds else Inr (False, s))"
    using read_etm_rest_overflow [of s] st by (auto simp: bpp_step_def read_etm_rest_def BPP_READ_def)
  show "etm_mode (dir_in s)" using st assms(1) by (simp add: sound_def place_ok_def)
qed

lemma bpp_step_sound:
  assumes "sound s" "bpp_step s = Inr (go, s')"
  shows "sound s' \<and> etm_mode (dir_in s') = etm_mode (dir_in s)"
proof (cases "overlong s")
  case True
  then show ?thesis using overlong_step(2) [OF assms(1)] assms by (auto split: if_splits)
next
  case False
  then show ?thesis using bpp_step_fine [OF assms(1)] assms(2) by (auto simp: fine_def)
qed

lemma bpp_step_fault: "sound s \<Longrightarrow> bpp_step s = Inl e \<Longrightarrow> overlong s \<and> e = OutOfBounds"
  using bpp_step_fine [of s] overlong_step(2) [of s] by (cases "overlong s") (simp_all add: fine_def split: if_splits del: wanted.simps)

lemma handle_input_sound:
  "sound s \<Longrightarrow> live s \<Longrightarrow>
     (\<exists>s'. ssh2_bpp_handle_input s = Some (Inr s') \<and> sound s' \<and> live s' \<and> etm_mode (dir_in s') = etm_mode (dir_in s)) \<or>
     etm_mode (dir_in s) \<and> ssh2_bpp_handle_input s = Some (Inl OutOfBounds)"
proof (induction "work_left s" arbitrary: s rule: less_induct)
  case less
  show ?case
  proof (cases "bpp_step s")
    case (Inl e)
    then have "overlong s" "e = OutOfBounds" using bpp_step_fault [OF less.prems(1)] by auto
    then show ?thesis using Inl overlong_step(1) [OF less.prems(1)] by (simp add: ssh2_bpp_handle_input.simps)
  next
    case (Inr a)
    then obtain go s' where st: "bpp_step s = Inr (go, s')" by (cases a) auto
    note kept = bpp_step_sound [OF less.prems(1) st] bpp_step_progress [OF less.prems(2) st]
    show ?thesis
    proof (cases go)
      case True
      then show ?thesis using less.hyps [of s'] kept st handle_input_step [of s s'] by auto
    next
      case False
      then show ?thesis using kept st handle_input_stop [of s s'] by auto
    qed
  qed
qed

text \<open>Installing keys makes a sound state of any state that has delivered a packet.\<close>

lemma new_incoming_sound:
  fixes R :: "('c, 'h, 'z) ssh2_bpp_state"
  assumes "sound R" "crState R = WaitNewkeys" "keys_ok calg malg (ckey, iv, etm, mac_key)"
  shows "\<exists>R'. ssh2_bpp_new_incoming_crypto R (Some calg') ckey iv (Some malg') etm mac_key ssh_comp_none False = Inr R' \<and> sound R' \<and>
    etm_mode (dir_in R') = etm"
proof -
  obtain key e where R: "plain_receiver R" "dir_pair key e (dir_in R)" using assms(1) by (auto simp: sound_def in_ok_def)
  define S where "S = R\<lparr>dir_out := e, out_comp := None, cbc_ignore_workaround := False, pending_compression := False\<rparr>"
  have "plain_sender S" using R by (simp add: S_def plain_sender_def dir_pair_def)
  from change_keys [OF this assms(3), of key] obtain S' :: "('c, 'h, 'z) ssh2_bpp_state" where S': "\<forall>R :: ('c, 'h, 'z) ssh2_bpp_state. dir_pair key (dir_out S) (dir_in R) \<and> plain_receiver R \<longrightarrow>
      (\<exists>R'. ssh2_bpp_new_incoming_crypto R (Some calg') ckey iv (Some malg') etm mac_key ssh_comp_none False = Inr R' \<and> plain_receiver R' \<and>
        dir_pair (take (mac_keylen malg) mac_key) (dir_out S') (dir_in R'))" by blast
  moreover have "dir_pair key (dir_out S) (dir_in R)" using R(2) by (simp add: S_def)
  ultimately obtain R' where
    R': "ssh2_bpp_new_incoming_crypto R (Some calg') ckey iv (Some malg') etm mac_key ssh_comp_none False = Inr R'" "plain_receiver R'"
    "dir_pair (take (mac_keylen malg) mac_key) (dir_out S') (dir_in R')" using R(1) by blast
  then have "in_ok (dir_in R')" by (auto simp: in_ok_def)
  moreover have "etm_mode (dir_in R') = etm" using R'(1) by (auto simp: ssh2_bpp_new_incoming_crypto_def Let_def elim!: res_bindE)
  ultimately show ?thesis using R'(1,2) new_incoming_kept(4) [OF R'(1)] assms(2) sound_top by auto
qed

lemma take_input_sound:
  "sound s \<Longrightarrow> live s \<Longrightarrow> list_all (keys_ok calg malg) ks \<Longrightarrow>
     (\<exists>s' ks'. take_input calg' malg' s ks = Some (Inr (s', ks')) \<and> sound s' \<and> live s' \<and> list_all (keys_ok calg malg) ks' \<and>
        (etm_mode (dir_in s') \<or> list_ex etm_of ks' \<longrightarrow> etm_mode (dir_in s) \<or> list_ex etm_of ks)) \<or>
     (etm_mode (dir_in s) \<or> list_ex etm_of ks) \<and> take_input calg' malg' s ks = Some (Inl OutOfBounds)"
proof (induction ks arbitrary: s)
  case Nil
  then show ?case using handle_input_sound [of s] by auto
next
  case (Cons k ks)
  obtain ckey iv etm mac_key where k: "k = (ckey, iv, etm, mac_key)" by (metis prod.exhaust)
  consider (ok) s1 where "ssh2_bpp_handle_input s = Some (Inr s1)" "sound s1" "live s1" "etm_mode (dir_in s1) = etm_mode (dir_in s)"
    | (fault) "etm_mode (dir_in s)" "ssh2_bpp_handle_input s = Some (Inl OutOfBounds)" using handle_input_sound [OF Cons.prems(1,2)] by auto
  then show ?case
  proof cases
    case ok
    show ?thesis
    proof (cases "awaits_keys s1")
      case True
      have "keys_ok calg malg (ckey, iv, etm, mac_key)" using Cons.prems(3) k by simp
      with True obtain s2 where s2: "ssh2_bpp_new_incoming_crypto s1 (Some calg') ckey iv (Some malg') etm mac_key ssh_comp_none False = Inr s2" "sound s2" "etm_mode (dir_in s2) = etm"
        using new_incoming_sound [OF ok(2), of ckey iv etm mac_key] by (auto simp: awaits_keys_def)
      have "live s2" using new_incoming_kept(2) [OF s2(1)] ok(3) by simp
      moreover have "take_input calg' malg' s (k # ks) = take_input calg' malg' s2 ks" using ok(1) True s2(1) k by simp
      ultimately show ?thesis using Cons.IH [OF s2(2)] Cons.prems(3) s2(3) k by (auto simp: etm_of_def)
    next
      case False
      then show ?thesis using ok Cons.prems(3) k by simp
    qed
  qed (simp add: k)
qed

lemma sound_feed [simp]: "sound (feed x s) = sound s"
  by (simp add: sound_def place_ok_def sized_def measured_def feed_def split: resume.split)

lemma receive_session_sound:
  "sound s \<Longrightarrow> live s \<Longrightarrow> list_all (keys_ok calg malg) ks \<Longrightarrow>
     (\<exists>s' ks'. receive_session calg' malg' s ks cs = Some (Inr (s', ks'))) \<or>
     (etm_mode (dir_in s) \<or> list_ex etm_of ks) \<and> receive_session calg' malg' s ks cs = Some (Inl OutOfBounds)"
proof (induction cs arbitrary: s ks)
  case (Cons c cs)
  consider (ok) s' ks' where "take_input calg' malg' (feed c s) ks = Some (Inr (s', ks'))" "sound s'" "live s'" "list_all (keys_ok calg malg) ks'"
      "etm_mode (dir_in s') \<or> list_ex etm_of ks' \<longrightarrow> etm_mode (dir_in s) \<or> list_ex etm_of ks"
    | (fault) "etm_mode (dir_in s) \<or> list_ex etm_of ks" "take_input calg' malg' (feed c s) ks = Some (Inl OutOfBounds)"
    using take_input_sound [of "feed c s" ks] Cons.prems by auto
  then show ?case
  proof cases
    case ok
    then show ?thesis using Cons.IH [OF ok(2-4)] by auto
  qed simp
qed simp

text \<open>A new layer, against any stream.\<close>

theorem new_layer_withstands:
  fixes R :: "('c, 'h, 'z) ssh2_bpp_state"
  assumes "R = ssh2_bpp_new stats server pool raw []" "list_all (keys_ok calg malg) ks"
  shows "(\<exists>R' ks'. receive_session calg' malg' R ks cs = Some (Inr (R', ks'))) \<or>
    list_ex etm_of ks \<and> receive_session calg' malg' R ks cs = Some (Inl OutOfBounds)"
proof -
  have "sound R" "live R" "\<not> etm_mode (dir_in R)"
    using assms(1) by (simp_all add: ssh2_bpp_new_def new_direction_def sound_def place_ok_def plain_receiver_def in_ok_alt live_def)
  then show ?thesis using receive_session_sound [of R ks cs] assms(2) by auto
qed

end

section \<open>Properties\<close>

text \<open>
  C13.  The input coroutine returns to its caller from every state its owner can bring it to, whatever ciphers,
  MACs and compressors are installed and whatever bytes have arrived; its loops cannot run for ever.
\<close>

theorem handle_input_terminates:
  assumes "reachable s"
  shows "\<exists>r. ssh2_bpp_handle_input s = Some r"
  using handle_input_returns [OF reachable_live [OF assms]] by blast

theorem handle_input_terminates_witness:
  "\<exists>r. ssh2_bpp_handle_input (feed [0, 0, 0, 12] (ssh2_bpp_new (\<lparr>running = False, expired = False, remaining = 0\<rparr>,
     \<lparr>running = False, expired = False, remaining = 0\<rparr>) False (\<lambda>_. 5) [] [] :: (nat, nat, nat) ssh2_bpp_state)) = Some r"
  by (rule handle_input_terminates) (intro reach_feed reach_new)

end
