(* ===== verification/Arcfour.thy ===== *)
theory Arcfour
  imports Cipher "HOL-Library.Multiset"
begin

text \<open>
  The Arcfour stream cipher (\<open>ssharcf.c\<close>): key schedule, stirring and encryption.  The type
  invariant of the array \<open>s\<close> is that it is a permutation of all bytes.  Sums of bytes are computed in a wider type, as C
  promotes them, and index \<open>s\<close> only after the mask; an index of 256 or more is a fault.
\<close>

section \<open>The code\<close>

record ArcfourContext =
  arc_i :: byte
  arc_j :: byte
  arc_s :: "byte list"

definition swap :: "byte list \<Rightarrow> nat \<Rightarrow> nat \<Rightarrow> byte list" where
  "swap s i j = s[i := s ! j, j := s ! i]"

definition sbox :: "byte list \<Rightarrow> nat \<Rightarrow> byte res" where
  "sbox s i = (if i < length s then Inr (s ! i) else Inl OutOfBounds)"

fun arcfour_loop :: "byte \<Rightarrow> byte \<Rightarrow> byte list \<Rightarrow> byte list \<Rightarrow> (byte \<times> byte \<times> byte list \<times> byte list) res" where
  "arcfour_loop i j s [] = Inr (i, j, s, [])"
| "arcfour_loop i j s (b # blk) =
     (let i = of_nat ((unat i + 1) AND 0xff) in
      res_bind (sbox s (unat i)) (\<lambda>si.
      let j = of_nat ((unat j + unat si) AND 0xff) in
      res_bind (sbox s (unat j)) (\<lambda>_.
      let s = swap s (unat i) (unat j) in
      res_bind (sbox s ((unat (s ! unat i) + unat (s ! unat j)) AND 0xff)) (\<lambda>k.
      res_bind (arcfour_loop i j s blk) (\<lambda>(i, j, s, out). Inr (i, j, s, (b XOR k) # out))))))"

definition arcfour_block :: "ArcfourContext \<Rightarrow> byte list \<Rightarrow> (ArcfourContext \<times> byte list) res" where
  "arcfour_block ctx blk =
     res_bind (arcfour_loop (arc_i ctx) (arc_j ctx) (arc_s ctx) blk) (\<lambda>(i, j, s, out).
     Inr (ctx\<lparr>arc_i := i, arc_j := j, arc_s := s\<rparr>, out))"

text \<open>In the key schedule \<open>i\<close> and \<open>j\<close> are \<open>unsigned\<close>.\<close>

fun setkey_loop :: "nat list \<Rightarrow> u32 \<Rightarrow> byte list \<Rightarrow> byte list \<Rightarrow> byte list res" where
  "setkey_loop [] j k s = Inr s"
| "setkey_loop (i # is) j k s =
     res_bind (sbox s i) (\<lambda>si.
     res_bind (sbox k i) (\<lambda>ki.
     let j = (j + ucast si + ucast ki) AND 0xff in
     res_bind (sbox s (unat j)) (\<lambda>_. setkey_loop is j k (swap s i (unat j)))))"

definition arcfour_setkey :: "ArcfourContext \<Rightarrow> byte list \<Rightarrow> nat \<Rightarrow> ArcfourContext res" where
  "arcfour_setkey ctx key keybytes =
     res_bind (assert_res (keybytes \<le> 256)) (\<lambda>_.
     if keybytes = 0 then Inl DivideByZero
     else if length key < keybytes then Inl OutOfBounds
     else if length (arc_s ctx) \<noteq> 256 then Inl OutOfBounds
     else let s = map of_nat [0..<256]; k = map (\<lambda>i. key ! (i mod keybytes)) [0..<256] in
       res_bind (setkey_loop [0..<256] 0 k s) (\<lambda>s. Inr (ctx\<lparr>arc_i := 0, arc_j := 0, arc_s := s\<rparr>)))"

definition arcfour_stir :: "ArcfourContext \<Rightarrow> ArcfourContext res" where
  "arcfour_stir ctx = res_bind (arcfour_block ctx (replicate 1536 0)) (\<lambda>(ctx, junk). Inr ctx)"

definition arcfour_new :: "(nat \<Rightarrow> byte) \<Rightarrow> ArcfourContext" where
  "arcfour_new junk = \<lparr>arc_i = junk 256, arc_j = junk 257, arc_s = map junk [0..<256]\<rparr>"

definition arcfour_ssh2_setiv :: "ArcfourContext \<Rightarrow> byte list \<Rightarrow> ArcfourContext" where
  "arcfour_ssh2_setiv ctx iv = ctx"

definition arcfour_ssh2_setkey :: "nat \<Rightarrow> ArcfourContext \<Rightarrow> byte list \<Rightarrow> ArcfourContext res" where
  "arcfour_ssh2_setkey keybytes ctx key =
     res_bind (arcfour_setkey ctx key keybytes) arcfour_stir"

definition arcfour_ssh2_block :: "ArcfourContext \<Rightarrow> byte list \<Rightarrow> (ArcfourContext \<times> byte list) res" where
  "arcfour_ssh2_block ctx blk = arcfour_block ctx blk"

definition ssh_arcfour128_ssh2 :: "(nat \<Rightarrow> byte) \<Rightarrow> ArcfourContext ssh_cipheralg" where
  "ssh_arcfour128_ssh2 junk = \<lparr>cipher_new = arcfour_new junk, cipher_setiv = \<lambda>c iv. Inr (arcfour_ssh2_setiv c iv),
     cipher_setkey = arcfour_ssh2_setkey 16, cipher_encrypt = arcfour_ssh2_block, cipher_decrypt = arcfour_ssh2_block,
     cipher_encrypt_length = no_length_crypt, cipher_decrypt_length = no_length_crypt,
     blksize = 1, padded_keybytes = 16, is_cbc = False, separate_length = False\<rparr>"

definition ssh_arcfour256_ssh2 :: "(nat \<Rightarrow> byte) \<Rightarrow> ArcfourContext ssh_cipheralg" where
  "ssh_arcfour256_ssh2 junk = \<lparr>cipher_new = arcfour_new junk, cipher_setiv = \<lambda>c iv. Inr (arcfour_ssh2_setiv c iv),
     cipher_setkey = arcfour_ssh2_setkey 32, cipher_encrypt = arcfour_ssh2_block, cipher_decrypt = arcfour_ssh2_block,
     cipher_encrypt_length = no_length_crypt, cipher_decrypt_length = no_length_crypt,
     blksize = 1, padded_keybytes = 32, is_cbc = False, separate_length = False\<rparr>"

section \<open>The type invariant\<close>

definition permutation :: "byte list \<Rightarrow> bool" where
  "permutation s \<longleftrightarrow> length s = 256 \<and> distinct s"

lemma unat_byte_256: "unat (b :: byte) < 256"
  using unsigned_less [of b] by simp

lemma swap_permutation: "permutation s \<Longrightarrow> i < 256 \<Longrightarrow> j < 256 \<Longrightarrow> permutation (swap s i j)"
proof -
  assume p: "permutation s" and "i < 256" "j < 256"
  then have "mset (swap s i j) = mset s" by (simp add: swap_def permutation_def mset_swap)
  then show ?thesis using p mset_eq_imp_distinct_iff [of "swap s i j" s] mset_eq_length [of "swap s i j" s]
    by (simp add: permutation_def)
qed

lemma swap_bytes: "permutation s \<Longrightarrow> permutation (swap s (unat (a :: byte)) (unat (b :: byte)))"
  by (simp add: swap_permutation unat_byte_256)

lemma sbox_permutation: "permutation s \<Longrightarrow> i < 256 \<Longrightarrow> sbox s i = Inr (s ! i)"
  by (simp add: sbox_def permutation_def)

text \<open>The mask takes a promoted sum back to the sum of bytes.\<close>

lemma nat_mask: "(n :: nat) AND 0xff = n mod 256"
  using take_bit_eq_mask [of 8 n] by (simp add: take_bit_eq_mod mask_eq_exp_minus_1)

lemma masked_sum: "(of_nat ((unat a + unat b) AND 0xff) :: byte) = a + b" "(unat a + unat b) AND 0xff = unat (a + b)" for a b :: byte
proof -
  show "(unat a + unat b) AND 0xff = unat (a + b)" by (simp add: nat_mask unat_word_ariths(1))
  then show "(of_nat ((unat a + unat b) AND 0xff) :: byte) = a + b" by simp
qed

lemma masked_succ: "(of_nat ((unat a + 1) AND 0xff) :: byte) = a + 1" for a :: byte
  using masked_sum(1) [of a 1] by simp

text \<open>The keystream, as a function of the state only.\<close>

fun keystream :: "byte \<Rightarrow> byte \<Rightarrow> byte list \<Rightarrow> nat \<Rightarrow> byte list" where
  "keystream i j s 0 = []"
| "keystream i j s (Suc n) =
     (let i = i + 1; j = j + s ! unat i; s = swap s (unat i) (unat j) in s ! unat (s ! unat i + s ! unat j) # keystream i j s n)"

fun advance :: "byte \<Rightarrow> byte \<Rightarrow> byte list \<Rightarrow> nat \<Rightarrow> byte \<times> byte \<times> byte list" where
  "advance i j s 0 = (i, j, s)"
| "advance i j s (Suc n) = (let i = i + 1; j = j + s ! unat i; s = swap s (unat i) (unat j) in advance i j s n)"

lemma advance_permutation: "permutation s \<Longrightarrow> advance i j s n = (i', j', s') \<Longrightarrow> permutation s'"
  by (induction i j s n rule: advance.induct) (auto simp: Let_def swap_bytes)

lemma keystream_length [simp]: "length (keystream i j s n) = n"
  by (induction i j s n rule: keystream.induct) (simp_all add: Let_def)

lemma arcfour_loop_keystream:
  "permutation s \<Longrightarrow> arcfour_loop i j s blk =
     (case advance i j s (length blk) of (i', j', s') \<Rightarrow> Inr (i', j', s', map2 (XOR) blk (keystream i j s (length blk))))"
proof (induction blk arbitrary: i j s)
  case (Cons b blk)
  let ?j = "j + s ! unat (i + 1)"
  let ?s = "swap s (unat (i + 1)) (unat ?j)"
  have p: "permutation ?s" by (rule swap_bytes [OF Cons.prems])
  have "arcfour_loop i j s (b # blk) = res_bind (arcfour_loop (i + 1) ?j ?s blk)
      (\<lambda>(i', j', s', out). Inr (i', j', s', (b XOR ?s ! unat (?s ! unat (i + 1) + ?s ! unat ?j)) # out))"
    unfolding arcfour_loop.simps masked_succ Let_def masked_sum(2)
    using sbox_permutation [OF Cons.prems unat_byte_256, of "i + 1"] sbox_permutation [OF Cons.prems unat_byte_256, of ?j]
      sbox_permutation [OF p unat_byte_256, of "?s ! unat (i + 1) + ?s ! unat ?j"] by (simp add: case_prod_beta)
  then show ?case using Cons.IH [OF p] by (simp add: Let_def split: prod.split)
qed simp

lemma masked_index: "unat (w AND 0xff :: u32) < 256"
proof -
  have "unat (w AND 0xff) = unat w AND 0xff" by (simp add: unsigned_and_eq)
  then show ?thesis by (simp add: nat_mask)
qed

lemma setkey_loop_permutation:
  "permutation s \<Longrightarrow> length k = 256 \<Longrightarrow> \<forall>i \<in> set is. i < 256 \<Longrightarrow> \<exists>s'. setkey_loop is j k s = Inr s' \<and> permutation s'"
proof (induction "is" arbitrary: j s)
  case (Cons i "is")
  then have ki: "sbox k i = Inr (k ! i)" "sbox s i = Inr (s ! i)" by (simp_all add: sbox_def permutation_def)
  let ?j = "(j + ucast (s ! i) + ucast (k ! i)) AND 0xff"
  have "permutation (swap s i (unat ?j))" using Cons.prems masked_index by (intro swap_permutation) simp_all
  then show ?case using Cons ki sbox_permutation [OF Cons.prems(1) masked_index] by (simp add: Let_def)
qed simp

lemma initial_permutation: "permutation (map of_nat [0..<256])"
proof -
  have u: "unat (of_nat n :: byte) = n" if "n < 256" for n using that by (simp add: unat_of_nat)
  have "inj_on (of_nat :: nat \<Rightarrow> byte) (set [0..<256])"
  proof (rule inj_onI)
    fix m n assume "m \<in> set [0..<256]" "n \<in> set [0..<256]" "(of_nat m :: byte) = of_nat n"
    then show "m = n" by (metis u atLeastLessThan_iff set_upt)
  qed
  then show ?thesis by (simp add: permutation_def distinct_map del: upt_rec_numeral)
qed

lemma block_keystream:
  assumes "permutation (arc_s ctx)"
  shows "\<exists>ctx'. arcfour_block ctx blk = Inr (ctx', map2 (XOR) blk (keystream (arc_i ctx) (arc_j ctx) (arc_s ctx) (length blk))) \<and>
    advance (arc_i ctx) (arc_j ctx) (arc_s ctx) (length blk) = (arc_i ctx', arc_j ctx', arc_s ctx') \<and> permutation (arc_s ctx')"
proof -
  obtain i j s where a: "advance (arc_i ctx) (arc_j ctx) (arc_s ctx) (length blk) = (i, j, s)" by (metis prod.exhaust)
  then show ?thesis using arcfour_loop_keystream [OF assms] advance_permutation [OF assms a]
    by (intro exI [of _ "ctx\<lparr>arc_i := i, arc_j := j, arc_s := s\<rparr>"]) (simp add: arcfour_block_def)
qed

lemma setkey_permutation:
  assumes "length key = n" "0 < n" "n \<le> 256" "length (arc_s ctx) = 256"
  shows "\<exists>ctx'. arcfour_ssh2_setkey n ctx key = Inr ctx' \<and> permutation (arc_s ctx')"
proof -
  obtain s where s: "setkey_loop [0..<256] 0 (map (\<lambda>i. key ! (i mod n)) [0..<256]) (map of_nat [0..<256]) = Inr s" "permutation s"
    using setkey_loop_permutation [OF initial_permutation, of "map (\<lambda>i. key ! (i mod n)) [0..<256]" "[0..<256]" 0] by (auto simp del: upt_rec_numeral)
  let ?c = "ctx\<lparr>arc_i := 0, arc_j := 0, arc_s := s\<rparr>"
  have "arcfour_setkey ctx key n = Inr ?c" using s(1) assms by (simp add: arcfour_setkey_def Let_def del: upt_rec_numeral)
  then show ?thesis using block_keystream [of ?c "replicate 1536 0"] s(2)
    by (auto simp: arcfour_ssh2_setkey_def arcfour_stir_def)
qed

text \<open>A sequence of calls on one context, with the concatenation of what they leave in their buffers.\<close>

fun arc_blocks :: "ArcfourContext \<Rightarrow> byte list list \<Rightarrow> (ArcfourContext \<times> byte list) res" where
  "arc_blocks ctx [] = Inr (ctx, [])"
| "arc_blocks ctx (d # ds) =
     res_bind (arcfour_ssh2_block ctx d) (\<lambda>(ctx, out). res_bind (arc_blocks ctx ds) (\<lambda>(ctx, outs). Inr (ctx, out @ outs)))"

lemma keystream_add:
  "advance i j s m = (i', j', s') \<Longrightarrow> keystream i j s (m + n) = keystream i j s m @ keystream i' j' s' n"
  by (induction i j s m rule: advance.induct) (auto simp: Let_def)

lemma blocks_keystream:
  "permutation (arc_s ctx) \<Longrightarrow> \<exists>ctx'. arc_blocks ctx ds =
     Inr (ctx', map2 (XOR) (concat ds) (keystream (arc_i ctx) (arc_j ctx) (arc_s ctx) (length (concat ds)))) \<and> permutation (arc_s ctx')"
proof (induction ds arbitrary: ctx)
  case (Cons d ds)
  obtain c1 where c1: "arcfour_block ctx d = Inr (c1, map2 (XOR) d (keystream (arc_i ctx) (arc_j ctx) (arc_s ctx) (length d)))"
    "advance (arc_i ctx) (arc_j ctx) (arc_s ctx) (length d) = (arc_i c1, arc_j c1, arc_s c1)" "permutation (arc_s c1)"
    using block_keystream [OF Cons.prems] by blast
  obtain c2 where c2: "arc_blocks c1 ds =
      Inr (c2, map2 (XOR) (concat ds) (keystream (arc_i c1) (arc_j c1) (arc_s c1) (length (concat ds))))" "permutation (arc_s c2)"
    using Cons.IH [OF c1(3)] by blast
  have "map2 (XOR) (d @ concat ds) (keystream (arc_i ctx) (arc_j ctx) (arc_s ctx) (length d + length (concat ds))) =
      map2 (XOR) d (keystream (arc_i ctx) (arc_j ctx) (arc_s ctx) (length d)) @
      map2 (XOR) (concat ds) (keystream (arc_i c1) (arc_j c1) (arc_s c1) (length (concat ds)))"
    using keystream_add [OF c1(2)] by (simp add: zip_append del: length_concat)
  then show ?case using c1(1) c2 by (simp add: arcfour_ssh2_block_def del: length_concat)
qed simp

lemma xor_twice: "length xs = length ks \<Longrightarrow> map2 (XOR) (map2 (XOR) xs ks) ks = xs" for ks :: "byte list"
  by (induction xs ks rule: list_induct2) (simp_all add: xor.assoc)

section \<open>The cipher interface\<close>

definition arc_sync :: "ArcfourContext \<Rightarrow> ArcfourContext \<Rightarrow> bool" where
  "arc_sync e d \<longleftrightarrow> e = d \<and> permutation (arc_s e)"

lemma arcfour_loop_append:
  "arcfour_loop i j s (a @ b) = res_bind (arcfour_loop i j s a) (\<lambda>(i, j, s, p).
     res_bind (arcfour_loop i j s b) (\<lambda>(i, j, s, q). Inr (i, j, s, p @ q)))"
proof (induction a arbitrary: i j s)
  case Nil
  show ?case by (cases "arcfour_loop i j s b") auto
next
  case (Cons x a)
  then show ?case by (auto simp: Let_def res_bind_def split: sum.splits)
qed

lemma arcfour_loop_length: "arcfour_loop i j s a = Inr (i', j', s', p) \<Longrightarrow> length p = length a"
  by (induction a arbitrary: i j s p) (auto simp: Let_def res_bind_eq_Inr)

lemma arc_encrypt_sync:
  assumes "arc_sync e d"
  shows "\<exists>e' d' c. arcfour_ssh2_block e p = Inr (e', c) \<and> length c = length p \<and> arcfour_ssh2_block d c = Inr (d', p) \<and> arc_sync e' d'"
proof -
  let ?ks = "keystream (arc_i e) (arc_j e) (arc_s e) (length p)"
  have d: "d = e" and perm: "permutation (arc_s e)" using assms by (auto simp: arc_sync_def)
  obtain e1 where e1: "arcfour_block e p = Inr (e1, map2 (XOR) p ?ks)"
    "advance (arc_i e) (arc_j e) (arc_s e) (length p) = (arc_i e1, arc_j e1, arc_s e1)" "permutation (arc_s e1)"
    using block_keystream [OF perm] by blast
  obtain e2 where e2: "arcfour_block e (map2 (XOR) p ?ks) = Inr (e2, map2 (XOR) (map2 (XOR) p ?ks) ?ks)"
    "advance (arc_i e) (arc_j e) (arc_s e) (length p) = (arc_i e2, arc_j e2, arc_s e2)"
    using block_keystream [OF perm, of "map2 (XOR) p ?ks"] by auto
  have "e2 = e1" using e1(2) e2(2) by (cases e1, cases e2) simp
  then show ?thesis using e1 e2 d xor_twice [of p ?ks] by (auto simp: arcfour_ssh2_block_def arc_sync_def)
qed

lemma arc_decrypt_append:
  "arcfour_ssh2_block d (a @ b) = res_bind (arcfour_ssh2_block d a) (\<lambda>(d, p). res_bind (arcfour_ssh2_block d b) (\<lambda>(d, q). Inr (d, p @ q)))"
  by (auto simp: arcfour_ssh2_block_def arcfour_block_def arcfour_loop_append res_bind_def split: sum.splits prod.splits)

lemma arc_decrypt_length: "arcfour_ssh2_block d c = Inr (d', p) \<Longrightarrow> length p = length c"
  by (auto simp: arcfour_ssh2_block_def arcfour_block_def res_bind_eq_Inr dest: arcfour_loop_length)

lemma arc_decrypt_total: "arc_sync e d \<Longrightarrow> \<exists>e' d' p. arcfour_ssh2_block d c = Inr (d', p) \<and> arc_sync e' d'"
  using block_keystream [of d c] by (auto simp: arc_sync_def arcfour_ssh2_block_def)

lemma arc_decrypt_empty: "arcfour_ssh2_block d [] = Inr (d, [])"
  by (simp add: arcfour_ssh2_block_def arcfour_block_def)

lemma arc_setup:
  assumes "length key = n" "0 < n" "n \<le> 256" "cipher_new alg = arcfour_new junk" "cipher_new alg' = arcfour_new junk'"
    "cipher_setkey alg = arcfour_ssh2_setkey n" "cipher_setiv alg = (\<lambda>c iv. Inr (arcfour_ssh2_setiv c iv))"
    "alg' = alg\<lparr>cipher_new := cipher_new alg'\<rparr>"
  shows "\<exists>e d. cipher_setup alg key iv = Inr e \<and> cipher_setup alg' key iv = Inr d \<and> arc_sync e d"
proof -
  obtain c where c: "arcfour_ssh2_setkey n (arcfour_new junk) key = Inr c" "permutation (arc_s c)"
    using setkey_permutation [OF assms(1-3), of "arcfour_new junk"] by (auto simp: arcfour_new_def)
  have "arcfour_setkey (arcfour_new junk') key n = arcfour_setkey (arcfour_new junk) key n"
    by (simp add: arcfour_setkey_def arcfour_new_def Let_def)
  then have "arcfour_ssh2_setkey n (arcfour_new junk') key = Inr c" using c(1) by (simp add: arcfour_ssh2_setkey_def)
  moreover have "cipher_setkey alg' = cipher_setkey alg" "cipher_setiv alg' = cipher_setiv alg" by (subst assms(8), simp)+
  ultimately show ?thesis using assms c by (simp add: cipher_setup_def arc_sync_def arcfour_ssh2_setiv_def)
qed

lemmas arc_tables = ssh_arcfour128_ssh2_def ssh_arcfour256_ssh2_def

interpretation arcfour128: cipher_provider "ssh_arcfour128_ssh2 junk" "ssh_arcfour128_ssh2 junk'" arc_sync for junk junk'
proof (unfold_locales, goal_cases)
  case (3 key iv)
  show ?case by (rule arc_setup [where n = 16]) (use 3 in \<open>simp_all add: arc_tables\<close>)
qed (use arc_encrypt_sync arc_decrypt_append arc_decrypt_length arc_decrypt_total arc_decrypt_empty in \<open>auto simp: arc_tables\<close>)

interpretation arcfour256: cipher_provider "ssh_arcfour256_ssh2 junk" "ssh_arcfour256_ssh2 junk'" arc_sync for junk junk'
proof (unfold_locales, goal_cases)
  case (3 key iv)
  show ?case by (rule arc_setup [where n = 32]) (use 3 in \<open>simp_all add: arc_tables\<close>)
qed (use arc_encrypt_sync arc_decrypt_append arc_decrypt_length arc_decrypt_total arc_decrypt_empty in \<open>auto simp: arc_tables\<close>)

section \<open>Properties\<close>

text \<open>
  C26.  Keying a freshly allocated context, whatever its memory held, makes \<open>s\<close> a permutation of the 256 bytes, and it
  stays one through any sequence of blocks.  No access to \<open>s\<close> is out of bounds: the sums of up to three bytes that select
  its elements are below 256 once masked.
\<close>

theorem arcfour_state_is_permutation:
  assumes "length key = 16 \<or> length key = 32"
  shows "\<exists>ctx. arcfour_ssh2_setkey (length key) (arcfour_new junk) key = Inr ctx \<and> permutation (arc_s ctx) \<and>
    (\<forall>ds. \<exists>ctx' out. arc_blocks ctx ds = Inr (ctx', out) \<and> permutation (arc_s ctx') \<and> length out = length (concat ds))"
proof -
  have n: "0 < length key" "length key \<le> 256" using assms by auto
  obtain ctx where ctx: "arcfour_ssh2_setkey (length key) (arcfour_new junk) key = Inr ctx" "permutation (arc_s ctx)"
    using setkey_permutation [OF refl n, of "arcfour_new junk"] by (auto simp: arcfour_new_def)
  have "\<exists>ctx' out. arc_blocks ctx ds = Inr (ctx', out) \<and> permutation (arc_s ctx') \<and> length out = length (concat ds)" for ds
    using blocks_keystream [OF ctx(2), of ds] by (auto simp del: length_concat)
  then show ?thesis using ctx by blast
qed

theorem arcfour_state_is_permutation_witness:
  "\<exists>ctx. arcfour_ssh2_setkey 16 (arcfour_new (\<lambda>_. 7)) (replicate 16 1) = Inr ctx \<and> permutation (arc_s ctx)"
  using arcfour_state_is_permutation [of "replicate 16 1" "\<lambda>_. 7"] by auto

text \<open>
  What one context encrypts, cut into blocks in any way, another context with the same key decrypts to the
  same bytes, cut into blocks in any other way.
\<close>

theorem arcfour_roundtrip:
  assumes "length key = 16 \<or> length key = 32"
  shows "\<exists>e d c. arcfour_ssh2_setkey (length key) (arcfour_new junk) key = Inr e \<and>
    arcfour_ssh2_setkey (length key) (arcfour_new junk') key = Inr d \<and>
    arc_blocks e plain = Inr c \<and>
    (\<forall>cipher. concat cipher = snd c \<longrightarrow> (\<exists>d'. arc_blocks d cipher = Inr (d', concat plain)))"
proof -
  have n: "0 < length key" "length key \<le> 256" using assms by auto
  obtain e where e: "arcfour_ssh2_setkey (length key) (arcfour_new junk) key = Inr e" "permutation (arc_s e)"
    using setkey_permutation [OF refl n, of "arcfour_new junk"] by (auto simp: arcfour_new_def)
  have same: "arcfour_ssh2_setkey (length key) (arcfour_new junk') key = Inr e"
  proof -
    have "arcfour_setkey (arcfour_new junk') key (length key) = arcfour_setkey (arcfour_new junk) key (length key)"
      by (simp add: arcfour_setkey_def arcfour_new_def Let_def)
    then show ?thesis using e(1) by (simp add: arcfour_ssh2_setkey_def)
  qed
  let ?ks = "keystream (arc_i e) (arc_j e) (arc_s e) (length (concat plain))"
  obtain e' where e': "arc_blocks e plain = Inr (e', map2 (XOR) (concat plain) ?ks)"
    using blocks_keystream [OF e(2), of plain] by blast
  have "\<exists>d'. arc_blocks e cipher = Inr (d', concat plain)" if "concat cipher = map2 (XOR) (concat plain) ?ks" for cipher
  proof -
    have "length (concat cipher) = length (concat plain)" unfolding that by (simp del: length_concat)
    then show ?thesis using blocks_keystream [OF e(2), of cipher] xor_twice [of "concat plain" ?ks]
      unfolding that by (auto simp del: length_concat)
  qed
  then show ?thesis using e(1) same e' by (intro exI [of _ e] exI [of _ "(e', map2 (XOR) (concat plain) ?ks)"]) simp
qed

theorem arcfour_roundtrip_witness:
  "\<exists>e d c. arcfour_ssh2_setkey 16 (arcfour_new (\<lambda>_. 7)) (replicate 16 1) = Inr e \<and>
    arcfour_ssh2_setkey 16 (arcfour_new (\<lambda>_. 9)) (replicate 16 1) = Inr d \<and> arc_blocks e [[104, 105]] = Inr c \<and>
    (\<forall>cipher. concat cipher = snd c \<longrightarrow> (\<exists>d'. arc_blocks d cipher = Inr (d', [104, 105])))"
  using arcfour_roundtrip [of "replicate 16 1" "\<lambda>_. 7" "\<lambda>_. 9" "[[104, 105]]"] by simp

end
