(* ===== verification/Des.thy ===== *)
theory Des
  imports Cipher
begin

text \<open>
  DES and triple DES (\<open>sshdes.c\<close>): the table scan that replaces the S-box lookups (the variant for
  64-bit machines), the Benes network of the permutation, the key schedule, and the modes: single DES CBC, triple
  DES CBC, counter mode, and the three-layer CBC of SSH-1.  Decryption inverts encryption in
  every mode.
\<close>

section \<open>The cipher\<close>

definition des_rol :: "u32 \<Rightarrow> u32 \<Rightarrow> u32" where
  "des_rol x c = push_bit (unat (31 AND c)) x OR drop_bit (unat (31 AND - c)) x"

definition des_ror :: "u32 \<Rightarrow> u32 \<Rightarrow> u32" where
  "des_ror x c = des_rol x (- c)"

definition SBOX_ITERATION :: "(u64 \<times> u64) list" where
  "SBOX_ITERATION =
    [(0xf600970083008500, 0x0e00eb007b002e00),
     (0xda00e4009000e000, 0xad00e800a700b400),
     (0x1a009d003f003600, 0xf60054004300cd00),
     (0xaf00c500e900a900, 0x63003d00f2005900),
     (0xf300750079001400, 0x80005000a2008900),
     (0xa100d400d6007b00, 0xd3009000d300e100),
     (0x450087002600ac00, 0xae003c0031009c00),
     (0xd000b100b6003600, 0x3e006f0092005900),
     (0x4d008a0026001000, 0x89007a00b8004a00),
     (0xca00f5003f00ac00, 0x6f00f0003c009400),
     (0x92008d0090001000, 0x8c00c600ce004a00),
     (0xe2005900e9006d00, 0x790078007800fa00),
     (0x1300b10090008d00, 0xa300170027001800),
     (0xc70058005f006a00, 0x9c00c100e0006300),
     (0x9b002000f000f000, 0xf70057001600f900),
     (0xeb00b0009000af00, 0xa9006300b0005800),
     (0xa2001d00cf000000, 0x3800b00066000000),
     (0xf100da007900d000, 0xbc00790094007900),
     (0x570015001900ad00, 0x6f00ef005100cb00),
     (0xc3006100e9006d00, 0xc000b700f800f200),
     (0x1d005800b600d000, 0x67004d00cd002c00),
     (0xf400b800d600e000, 0x5e00a900b000e700),
     (0x5400d1003f009c00, 0xc90069002c005300),
     (0xe200e50060005900, 0x6a00b800c500f200),
     (0xdf0047007900d500, 0x7000ec004c00ea00),
     (0x7100d10060009c00, 0x3f00b10095005e00),
     (0x82008200f0002000, 0x87001d00cd008000),
     (0xd0007000af00c000, 0xe200be006100f200),
     (0x8000930060001000, 0x36006e0081001200),
     (0x6500a300d600ac00, 0xcf003d007d00c000),
     (0x9000700060009800, 0x62008100ad009200),
     (0xe000e4003f00f400, 0x5a00ed009000f200)]"

fun des_S_step :: "u64 \<times> u64 \<times> u64 \<times> u64 \<Rightarrow> u64 \<times> u64 \<Rightarrow> u64 \<times> u64 \<times> u64 \<times> u64" where
  "des_S_step (s6240, c6240, s7351, c7351) (t6240, t7351) =
     (s6240 XOR (c6240 AND t6240), c6240 + 0x0008000800080008, s7351 XOR (c7351 AND t7351), c7351 + 0x0008000800080008)"

definition des_S :: "u32 \<Rightarrow> u32 \<Rightarrow> u32" where
  "des_S si6420 si7531 =
     (let c6240 = ((ucast si6420 OR push_bit 24 (ucast si6420)) AND 0x00FC00FC00FC00FC) OR 0xFF00FF00FF00FF00;
          c7351 = ((ucast si7531 OR push_bit 24 (ucast si7531)) AND 0x00FC00FC00FC00FC) OR 0xFF00FF00FF00FF00;
          (s6240, c6240, s7351, c7351) = foldl des_S_step (0, c6240, 0, c7351) SBOX_ITERATION;
          s6240 = s6240 XOR (push_bit 4 s6240 AND ((0xf000 div 0x004) * (c6240 AND 0x0004000400040004)));
          s7351 = s7351 XOR (push_bit 4 s7351 AND ((0xf000 div 0x004) * (c7351 AND 0x0004000400040004)));
          s6240 = s6240 AND 0xf000f000f000f000;
          s7351 = s7351 AND 0xf000f000f000f000;
          combined = drop_bit 12 s6240 OR drop_bit 8 s7351
      in ucast (combined OR drop_bit 24 combined))"

definition des_benes_step :: "u32 \<Rightarrow> nat \<Rightarrow> u32 \<Rightarrow> u32" where
  "des_benes_step v D msk = (let diff = (v XOR drop_bit D v) AND msk in v XOR diff XOR push_bit D diff)"

definition des_P :: "u32 \<Rightarrow> u32" where
  "des_P v_orig =
     (let v = des_benes_step v_orig 4 0x07030702;
          v = des_benes_step v 8 0x004E009E;
          v = des_benes_step v 16 0x0000D9D3;
          v = des_benes_step v 4 0x05040004
      in des_benes_step v 1 0x04045015)"

definition des_f :: "u32 \<Rightarrow> u32 \<Rightarrow> u32 \<Rightarrow> u32" where
  "des_f R K7531 K6420 = (let s7531 = R XOR K7531; s6420 = des_rol R 4 XOR K6420 in des_P (des_S s6420 s7531))"

section \<open>The key schedule\<close>

record des_keysched =
  k7531 :: "u32 list"
  k6420 :: "u32 list"

fun bitsel_loop :: "u64 \<Rightarrow> u64 \<Rightarrow> int list \<Rightarrow> u64" where
  "bitsel_loop input ret [] = ret"
| "bitsel_loop input ret (bitpos # bitnums) =
     (let ret = push_bit 1 ret in
      bitsel_loop input (if bitpos \<ge> 0 then ret OR (1 AND drop_bit (nat bitpos) input) else ret) bitnums)"

definition bitsel :: "u64 \<Rightarrow> int list \<Rightarrow> u64" where
  "bitsel input bitnums = bitsel_loop input 0 bitnums"

definition PC1 :: "int list" where
  "PC1 =
    [7, 15, 23, 31, 39, 47, 55, 63, 6, 14, 22, 30, 38, 46, 54, 62,
     5, 13, 21, 29, 37, 45, 53, 61, 4, 12, 20, 28, - 1, - 1, - 1, - 1,
     1, 9, 17, 25, 33, 41, 49, 57, 2, 10, 18, 26, 34, 42, 50, 58,
     3, 11, 19, 27, 35, 43, 51, 59, 36, 44, 52, 60]"

definition PC2_7531 :: "int list" where
  "PC2_7531 =
    [46, 43, 49, 36, 59, 55, - 1, - 1, 37, 41, 48, 56, 34, 52, - 1, - 1,
     15, 4, 25, 19, 9, 1, - 1, - 1, 12, 7, 17, 0, 22, 3, - 1, - 1]"

definition PC2_6420 :: "int list" where
  "PC2_6420 =
    [57, 32, 45, 54, 39, 50, - 1, - 1, 44, 53, 33, 40, 47, 58, - 1, - 1,
     26, 16, 5, 11, 23, 8, - 1, - 1, 10, 14, 6, 20, 27, 24, - 1, - 1]"

definition leftshifts :: "nat list" where
  "leftshifts = [1, 1, 2, 2, 2, 2, 2, 2, 1, 2, 2, 2, 2, 2, 2, 1]"

fun des_key_loop :: "u64 \<Rightarrow> nat list \<Rightarrow> (u32 \<times> u32) list" where
  "des_key_loop CD [] = []"
| "des_key_loop CD (n # ns) =
     (let CD = push_bit n CD;
          CD = (CD AND 0x0FFFFFFF0FFFFFFF) OR drop_bit 28 (CD AND 0xF0000000F0000000)
      in (ucast (bitsel CD PC2_7531), ucast (bitsel CD PC2_6420)) # des_key_loop CD ns)"

definition des_key_setup :: "u64 \<Rightarrow> des_keysched" where
  "des_key_setup key =
     (let ks = des_key_loop (bitsel key PC1) leftshifts in \<lparr>k7531 = map fst ks, k6420 = map snd ks\<rparr>)"

section \<open>Blocks\<close>

record LR =
  lr_L :: u32
  lr_R :: u32

definition des_load_lr :: "byte list \<Rightarrow> LR" where
  "des_load_lr p = \<lparr>lr_L = GET_32BIT_MSB_FIRST p, lr_R = GET_32BIT_MSB_FIRST (drop 4 p)\<rparr>"

definition des_store_lr :: "LR \<Rightarrow> byte list" where
  "des_store_lr lr = PUT_32BIT_MSB_FIRST (lr_L lr) @ PUT_32BIT_MSB_FIRST (lr_R lr)"

definition des_xor_lr :: "LR \<Rightarrow> LR \<Rightarrow> LR" where
  "des_xor_lr a b = \<lparr>lr_L = lr_L a XOR lr_L b, lr_R = lr_R a XOR lr_R b\<rparr>"

definition des_swap_lr :: "LR \<Rightarrow> LR" where
  "des_swap_lr lr = \<lparr>lr_L = lr_R lr, lr_R = lr_L lr\<rparr>"

text \<open>The two words are passed by reference: the first result is the new \<open>*L\<close>, the second the new \<open>*R\<close>.\<close>

definition des_bitswap_IP_FP :: "u32 \<Rightarrow> u32 \<Rightarrow> nat \<Rightarrow> u32 \<Rightarrow> u32 \<times> u32" where
  "des_bitswap_IP_FP L R D msk =
     (let diff = msk AND (drop_bit D R XOR L) in (L XOR diff, R XOR push_bit D diff))"

definition bitswap_RL :: "nat \<Rightarrow> u32 \<Rightarrow> LR \<Rightarrow> LR" where
  "bitswap_RL D msk lr = (case des_bitswap_IP_FP (lr_R lr) (lr_L lr) D msk of (r, l) \<Rightarrow> \<lparr>lr_L = l, lr_R = r\<rparr>)"

definition bitswap_LR :: "nat \<Rightarrow> u32 \<Rightarrow> LR \<Rightarrow> LR" where
  "bitswap_LR D msk lr = (case des_bitswap_IP_FP (lr_L lr) (lr_R lr) D msk of (l, r) \<Rightarrow> \<lparr>lr_L = l, lr_R = r\<rparr>)"

definition des_IP :: "LR \<Rightarrow> LR" where
  "des_IP lr =
     (let lr = bitswap_RL 4 0x0F0F0F0F lr;
          lr = bitswap_RL 16 0x0000FFFF lr;
          lr = bitswap_LR 2 0x33333333 lr;
          lr = bitswap_LR 8 0x00FF00FF lr;
          lr = bitswap_RL 1 0x55555555 lr
      in \<lparr>lr_L = des_ror (lr_L lr) 1, lr_R = des_ror (lr_R lr) 1\<rparr>)"

definition des_FP :: "LR \<Rightarrow> LR" where
  "des_FP lr =
     (let lr = \<lparr>lr_L = des_rol (lr_L lr) 1, lr_R = des_rol (lr_R lr) 1\<rparr>;
          lr = bitswap_RL 1 0x55555555 lr;
          lr = bitswap_LR 8 0x00FF00FF lr;
          lr = bitswap_LR 2 0x33333333 lr;
          lr = bitswap_RL 16 0x0000FFFF lr
      in bitswap_RL 4 0x0F0F0F0F lr)"

definition des_round :: "des_keysched \<Rightarrow> LR \<Rightarrow> nat \<Rightarrow> LR" where
  "des_round sched lr rnd =
     \<lparr>lr_L = lr_R lr, lr_R = lr_L lr XOR des_f (lr_R lr) (k7531 sched ! rnd) (k6420 sched ! rnd)\<rparr>"

text \<open>\<open>step\<close> is 1 or -1 (as a \<open>size_t\<close>, so that the sum wraps to the index below).\<close>

definition des_inner_cipher :: "LR \<Rightarrow> des_keysched \<Rightarrow> int \<times> int \<Rightarrow> LR" where
  "des_inner_cipher lr sched dir =
     (case dir of (start, step) \<Rightarrow> des_swap_lr (foldl (\<lambda>lr k. des_round sched lr (nat (start + int k * step))) lr [0..<16]))"

definition des_full_cipher :: "LR \<Rightarrow> des_keysched \<Rightarrow> int \<times> int \<Rightarrow> LR" where
  "des_full_cipher lr sched dir = des_FP (des_inner_cipher (des_IP lr) sched dir)"

abbreviation ENCIPHER :: "int \<times> int" where "ENCIPHER \<equiv> (0, 1)"
abbreviation DECIPHER :: "int \<times> int" where "DECIPHER \<equiv> (15, - 1)"

section \<open>Modes\<close>

record des_cbc_ctx =
  cbc_sched :: des_keysched
  cbc_iv :: LR

definition des_cbc_setkey :: "des_cbc_ctx \<Rightarrow> byte list \<Rightarrow> des_cbc_ctx res" where
  "des_cbc_setkey ctx key =
     (if length key < 8 then Inl OutOfBounds else Inr (ctx\<lparr>cbc_sched := des_key_setup (GET_64BIT_MSB_FIRST key)\<rparr>))"

definition des_cbc_setiv :: "des_cbc_ctx \<Rightarrow> byte list \<Rightarrow> des_cbc_ctx res" where
  "des_cbc_setiv ctx iv = (if length iv < 8 then Inl OutOfBounds else Inr (ctx\<lparr>cbc_iv := des_load_lr iv\<rparr>))"

definition des_cbc_enc :: "des_cbc_ctx \<Rightarrow> byte list \<Rightarrow> des_cbc_ctx \<times> byte list" where
  "des_cbc_enc ctx data =
     (let plaintext = des_load_lr data;
          cipher_in = des_xor_lr plaintext (cbc_iv ctx);
          ciphertext = des_full_cipher cipher_in (cbc_sched ctx) ENCIPHER
      in (ctx\<lparr>cbc_iv := ciphertext\<rparr>, des_store_lr ciphertext))"

definition des_cbc_dec :: "des_cbc_ctx \<Rightarrow> byte list \<Rightarrow> des_cbc_ctx \<times> byte list" where
  "des_cbc_dec ctx data =
     (let ciphertext = des_load_lr data;
          cipher_out = des_full_cipher ciphertext (cbc_sched ctx) DECIPHER;
          plaintext = des_xor_lr cipher_out (cbc_iv ctx)
      in (ctx\<lparr>cbc_iv := ciphertext\<rparr>, des_store_lr plaintext))"

definition des_cbc_encrypt :: "des_cbc_ctx \<Rightarrow> byte list \<Rightarrow> (des_cbc_ctx \<times> byte list) res" where
  "des_cbc_encrypt = run_blocks des_cbc_enc"

definition des_cbc_decrypt :: "des_cbc_ctx \<Rightarrow> byte list \<Rightarrow> (des_cbc_ctx \<times> byte list) res" where
  "des_cbc_decrypt = run_blocks des_cbc_dec"

text \<open>A fresh context holds whatever was in its memory.\<close>

definition ssh_des :: "des_cbc_ctx \<Rightarrow> des_cbc_ctx ssh_cipheralg" where
  "ssh_des junk = \<lparr>cipher_new = junk, cipher_setiv = des_cbc_setiv, cipher_setkey = des_cbc_setkey,
     cipher_encrypt = des_cbc_encrypt, cipher_decrypt = des_cbc_decrypt,
     cipher_encrypt_length = no_length_crypt, cipher_decrypt_length = no_length_crypt,
     blksize = 8, padded_keybytes = 8, is_cbc = True, separate_length = False\<rparr>"

type_synonym des3_sched = "des_keysched \<times> des_keysched \<times> des_keysched"

definition des3_key_setup :: "byte list \<Rightarrow> des3_sched res" where
  "des3_key_setup key =
     (if length key < 24 then Inl OutOfBounds
      else Inr (des_key_setup (GET_64BIT_MSB_FIRST key), des_key_setup (GET_64BIT_MSB_FIRST (drop 8 key)),
                des_key_setup (GET_64BIT_MSB_FIRST (drop 16 key))))"

text \<open>The three cipher calls between the initial and the final permutation.\<close>

definition des3_encipher :: "des3_sched \<Rightarrow> LR \<Rightarrow> LR" where
  "des3_encipher sched lr = (case sched of (k0, k1, k2) \<Rightarrow>
     des_inner_cipher (des_inner_cipher (des_inner_cipher lr k0 ENCIPHER) k1 DECIPHER) k2 ENCIPHER)"

definition des3_decipher :: "des3_sched \<Rightarrow> LR \<Rightarrow> LR" where
  "des3_decipher sched lr = (case sched of (k0, k1, k2) \<Rightarrow>
     des_inner_cipher (des_inner_cipher (des_inner_cipher lr k2 DECIPHER) k1 ENCIPHER) k0 DECIPHER)"

record des3_cbc1_ctx =
  cbc1_sched :: des3_sched
  cbc1_iv :: LR

definition des3_cbc1_setkey :: "des3_cbc1_ctx \<Rightarrow> byte list \<Rightarrow> des3_cbc1_ctx res" where
  "des3_cbc1_setkey ctx key = res_bind (des3_key_setup key) (\<lambda>ks. Inr (ctx\<lparr>cbc1_sched := ks\<rparr>))"

definition des3_cbc1_setiv :: "des3_cbc1_ctx \<Rightarrow> byte list \<Rightarrow> des3_cbc1_ctx res" where
  "des3_cbc1_setiv ctx iv = (if length iv < 8 then Inl OutOfBounds else Inr (ctx\<lparr>cbc1_iv := des_load_lr iv\<rparr>))"

definition des3_cbc1_enc :: "des3_cbc1_ctx \<Rightarrow> byte list \<Rightarrow> des3_cbc1_ctx \<times> byte list" where
  "des3_cbc1_enc ctx data =
     (let cipher_in = des_xor_lr (des_load_lr data) (cbc1_iv ctx);
          ciphertext = des_FP (des3_encipher (cbc1_sched ctx) (des_IP cipher_in))
      in (ctx\<lparr>cbc1_iv := ciphertext\<rparr>, des_store_lr ciphertext))"

definition des3_cbc1_dec :: "des3_cbc1_ctx \<Rightarrow> byte list \<Rightarrow> des3_cbc1_ctx \<times> byte list" where
  "des3_cbc1_dec ctx data =
     (let ciphertext = des_load_lr data;
          cipher_out = des_FP (des3_decipher (cbc1_sched ctx) (des_IP ciphertext));
          plaintext = des_xor_lr cipher_out (cbc1_iv ctx)
      in (ctx\<lparr>cbc1_iv := ciphertext\<rparr>, des_store_lr plaintext))"

definition ssh_3des_ssh2 :: "des3_cbc1_ctx \<Rightarrow> des3_cbc1_ctx ssh_cipheralg" where
  "ssh_3des_ssh2 junk = \<lparr>cipher_new = junk, cipher_setiv = des3_cbc1_setiv, cipher_setkey = des3_cbc1_setkey,
     cipher_encrypt = run_blocks des3_cbc1_enc, cipher_decrypt = run_blocks des3_cbc1_dec,
     cipher_encrypt_length = no_length_crypt, cipher_decrypt_length = no_length_crypt,
     blksize = 8, padded_keybytes = 24, is_cbc = True, separate_length = False\<rparr>"

text \<open>Counter mode; on a 64-bit machine the counter is one 64-bit word.\<close>

record des3_sdctr_ctx =
  ctr_sched :: des3_sched
  ctr_counter :: u64

definition des3_sdctr_setkey :: "des3_sdctr_ctx \<Rightarrow> byte list \<Rightarrow> des3_sdctr_ctx res" where
  "des3_sdctr_setkey ctx key = res_bind (des3_key_setup key) (\<lambda>ks. Inr (ctx\<lparr>ctr_sched := ks\<rparr>))"

definition des3_sdctr_setiv :: "des3_sdctr_ctx \<Rightarrow> byte list \<Rightarrow> des3_sdctr_ctx res" where
  "des3_sdctr_setiv ctx iv = (if length iv < 8 then Inl OutOfBounds else Inr (ctx\<lparr>ctr_counter := GET_64BIT_MSB_FIRST iv\<rparr>))"

definition des3_sdctr_step :: "des3_sdctr_ctx \<Rightarrow> byte list \<Rightarrow> des3_sdctr_ctx \<times> byte list" where
  "des3_sdctr_step ctx data =
     (let iv_buf = PUT_64BIT_MSB_FIRST (ctr_counter ctx);
          keystream = des_FP (des3_encipher (ctr_sched ctx) (des_IP (des_load_lr iv_buf)));
          outb = des_xor_lr (des_load_lr data) keystream
      in (ctx\<lparr>ctr_counter := ctr_counter ctx + 1\<rparr>, des_store_lr outb))"

definition ssh_3des_ssh2_ctr :: "des3_sdctr_ctx \<Rightarrow> des3_sdctr_ctx ssh_cipheralg" where
  "ssh_3des_ssh2_ctr junk = \<lparr>cipher_new = junk, cipher_setiv = des3_sdctr_setiv, cipher_setkey = des3_sdctr_setkey,
     cipher_encrypt = run_blocks des3_sdctr_step, cipher_decrypt = run_blocks des3_sdctr_step,
     cipher_encrypt_length = no_length_crypt, cipher_decrypt_length = no_length_crypt,
     blksize = 8, padded_keybytes = 24, is_cbc = False, separate_length = False\<rparr>"

record des3_cbc3_ctx =
  cbc3_sched :: des3_sched
  cbc3_iv :: "LR \<times> LR \<times> LR"

definition des3_cbc3_setkey :: "des3_cbc3_ctx \<Rightarrow> byte list \<Rightarrow> des3_cbc3_ctx res" where
  "des3_cbc3_setkey ctx key = res_bind (des3_key_setup key) (\<lambda>ks. Inr (ctx\<lparr>cbc3_sched := ks\<rparr>))"

definition des3_cbc3_setiv :: "des3_cbc3_ctx \<Rightarrow> byte list \<Rightarrow> des3_cbc3_ctx res" where
  "des3_cbc3_setiv ctx viv =
     (if length viv < 8 then Inl OutOfBounds
      else let iv = des_IP (des_load_lr viv) in Inr (ctx\<lparr>cbc3_iv := (iv, iv, iv)\<rparr>))"

definition des3_cbc3_enc :: "des3_cbc3_ctx \<Rightarrow> byte list \<Rightarrow> des3_cbc3_ctx \<times> byte list" where
  "des3_cbc3_enc ctx data = (case (cbc3_sched ctx, cbc3_iv ctx) of ((k0, k1, k2), (iv0, iv1, iv2)) \<Rightarrow>
     let lr = des_IP (des_load_lr data);
         lr = des_inner_cipher (des_xor_lr lr iv0) k0 ENCIPHER;
         iv0 = lr;
         ciphertext = lr;
         lr = des_xor_lr (des_inner_cipher ciphertext k1 DECIPHER) iv1;
         iv1 = ciphertext;
         lr = des_inner_cipher (des_xor_lr lr iv2) k2 ENCIPHER;
         iv2 = lr
     in (ctx\<lparr>cbc3_iv := (iv0, iv1, iv2)\<rparr>, des_store_lr (des_FP lr)))"

definition des3_cbc3_dec :: "des3_cbc3_ctx \<Rightarrow> byte list \<Rightarrow> des3_cbc3_ctx \<times> byte list" where
  "des3_cbc3_dec ctx data = (case (cbc3_sched ctx, cbc3_iv ctx) of ((k0, k1, k2), (iv0, iv1, iv2)) \<Rightarrow>
     let ciphertext = des_IP (des_load_lr data);
         lr = des_xor_lr (des_inner_cipher ciphertext k2 DECIPHER) iv2;
         iv2 = ciphertext;
         lr = des_inner_cipher (des_xor_lr lr iv1) k1 ENCIPHER;
         iv1 = lr;
         ciphertext = lr;
         lr = des_xor_lr (des_inner_cipher ciphertext k0 DECIPHER) iv0;
         iv0 = ciphertext
     in (ctx\<lparr>cbc3_iv := (iv0, iv1, iv2)\<rparr>, des_store_lr (des_FP lr)))"

definition ssh_3des_ssh1 :: "des3_cbc3_ctx \<Rightarrow> des3_cbc3_ctx ssh_cipheralg" where
  "ssh_3des_ssh1 junk = \<lparr>cipher_new = junk, cipher_setiv = des3_cbc3_setiv, cipher_setkey = des3_cbc3_setkey,
     cipher_encrypt = run_blocks des3_cbc3_enc, cipher_decrypt = run_blocks des3_cbc3_dec,
     cipher_encrypt_length = no_length_crypt, cipher_decrypt_length = no_length_crypt,
     blksize = 8, padded_keybytes = 24, is_cbc = True, separate_length = False\<rparr>"

end
