(* ===== verification/Des_Correct.thy ===== *)
theory Des_Correct
  imports Des Rotations
begin

text \<open>Decryption inverts encryption in every DES mode, through the cipher interface.\<close>

section \<open>Permutations\<close>

lemma rol_ror_1: "des_rol (des_ror x 1) 1 = x" "des_ror (des_rol x 1) 1 = x"
proof -
  have e: "des_rol y 1 = push_bit 1 y OR drop_bit 31 y" "des_ror y 1 = push_bit 31 y OR drop_bit 1 y" for y
    by (simp_all add: des_rol_def des_ror_def)
  have r: "des_ror y 1 = word_rotr 1 y" "des_rol y 1 = word_rotl 1 y" for y
    unfolding e using ror_rotr [of 1 y] rol_rotl [of 1 y] by simp_all
  show "des_rol (des_ror x 1) 1 = x" "des_ror (des_rol x 1) 1 = x" unfolding r by simp_all
qed

lemma bitswap_involution:
  assumes "drop_bit D (push_bit D m) = m" "des_bitswap_IP_FP l r D m = (l', r')"
  shows "des_bitswap_IP_FP l' r' D m = (l, r)"
proof -
  define diff where "diff = m AND (drop_bit D r XOR l)"
  have lr: "l' = l XOR diff" "r' = r XOR push_bit D diff"
    using assms(2) by (simp_all add: des_bitswap_IP_FP_def diff_def Let_def)
  have "drop_bit D (push_bit D diff) = diff"
  proof (rule bit_word_eqI)
    fix i assume "i < LENGTH(32)"
    have "bit m i \<longleftrightarrow> bit (drop_bit D (push_bit D m)) i" using assms(1) by simp
    then show "bit (drop_bit D (push_bit D diff)) i \<longleftrightarrow> bit diff i"
      by (auto simp: diff_def bit_simps)
  qed
  then have "m AND (drop_bit D r' XOR l') = diff" unfolding lr
    by (simp add: drop_bit_xor diff_def) (metis (no_types, opaque_lifting) xor.assoc xor.commute xor.left_neutral xor_self_eq)
  then show ?thesis by (simp add: des_bitswap_IP_FP_def lr Let_def xor.assoc)
qed

lemma bitswap_RL_twice: "drop_bit D (push_bit D m) = m \<Longrightarrow> bitswap_RL D m (bitswap_RL D m lr) = lr"
  using bitswap_involution [of D m "lr_R lr" "lr_L lr"]
  by (cases "des_bitswap_IP_FP (lr_R lr) (lr_L lr) D m") (simp add: bitswap_RL_def)

lemma bitswap_LR_twice: "drop_bit D (push_bit D m) = m \<Longrightarrow> bitswap_LR D m (bitswap_LR D m lr) = lr"
  using bitswap_involution [of D m "lr_L lr" "lr_R lr"]
  by (cases "des_bitswap_IP_FP (lr_L lr) (lr_R lr) D m") (simp add: bitswap_LR_def)

lemma swap_masks:
  "drop_bit 4 (push_bit 4 (0x0F0F0F0F :: u32)) = 0x0F0F0F0F" "drop_bit 16 (push_bit 16 (0x0000FFFF :: u32)) = 0x0000FFFF"
  "drop_bit 2 (push_bit 2 (0x33333333 :: u32)) = 0x33333333" "drop_bit 8 (push_bit 8 (0x00FF00FF :: u32)) = 0x00FF00FF"
  "drop_bit 1 (push_bit 1 (0x55555555 :: u32)) = 0x55555555"
  by simp_all

lemmas bitswaps = bitswap_RL_twice [OF swap_masks(1)] bitswap_RL_twice [OF swap_masks(2)]
  bitswap_LR_twice [OF swap_masks(3)] bitswap_LR_twice [OF swap_masks(4)] bitswap_RL_twice [OF swap_masks(5)]

lemma LR_eta: "\<lparr>lr_L = lr_L x, lr_R = lr_R x\<rparr> = (x :: LR)"
  by simp

lemma FP_IP: "des_FP (des_IP lr) = lr"
  unfolding des_FP_def des_IP_def Let_def LR.simps rol_ror_1 LR_eta bitswaps ..

lemma IP_FP: "des_IP (des_FP lr) = lr"
  unfolding des_FP_def des_IP_def Let_def bitswaps LR.simps rol_ror_1 LR_eta ..

section \<open>The Feistel network\<close>

lemma round_inverse: "des_swap_lr (des_round k (des_swap_lr (des_round k lr r)) r) = lr"
  by (simp add: des_round_def des_swap_lr_def xor.assoc)

lemma swap_swap [simp]: "des_swap_lr (des_swap_lr lr) = lr"
  by (simp add: des_swap_lr_def)

lemma feistel: "des_swap_lr (foldl (des_round k) (des_swap_lr (foldl (des_round k) lr rs)) (rev rs)) = lr"
proof (induction rs arbitrary: lr)
  case (Cons r rs)
  let ?x = "foldl (des_round k) (des_round k lr r) rs"
  have "foldl (des_round k) (des_swap_lr ?x) (rev rs) = des_swap_lr (des_round k lr r)"
    using Cons.IH [of "des_round k lr r"] by (metis swap_swap)
  then show ?case using round_inverse [of k lr r] by simp
qed simp

lemma foldl_map: "foldl (\<lambda>x k. f x (g k)) a ks = foldl f a (map g ks)"
  by (induction ks arbitrary: a) simp_all

lemma inner_rounds:
  "des_inner_cipher lr k ENCIPHER = des_swap_lr (foldl (des_round k) lr [0..<16])"
  "des_inner_cipher lr k DECIPHER = des_swap_lr (foldl (des_round k) lr (rev [0..<16]))"
proof -
  have "map (\<lambda>i. nat (0 + int i * 1)) [0..<16] = [0..<16]" by (simp add: map_idI del: upt_rec_numeral)
  then show "des_inner_cipher lr k ENCIPHER = des_swap_lr (foldl (des_round k) lr [0..<16])"
    using foldl_map [of "des_round k" "\<lambda>i. nat (0 + int i * 1)" lr "[0..<16]"]
    by (simp add: des_inner_cipher_def del: upt_rec_numeral)
  have "map (\<lambda>i. nat (15 + int i * - 1)) [0..<16] = rev [0..<16]"
    by (rule nth_equalityI) (simp_all add: rev_nth del: upt_rec_numeral)
  then show "des_inner_cipher lr k DECIPHER = des_swap_lr (foldl (des_round k) lr (rev [0..<16]))"
    using foldl_map [of "des_round k" "\<lambda>i. nat (15 + int i * - 1)" lr "[0..<16]"]
    by (simp add: des_inner_cipher_def del: upt_rec_numeral)
qed

lemma inner_inverse:
  "des_inner_cipher (des_inner_cipher lr k ENCIPHER) k DECIPHER = lr"
  "des_inner_cipher (des_inner_cipher lr k DECIPHER) k ENCIPHER = lr"
  unfolding inner_rounds using feistel [of k lr "[0..<16]"] feistel [of k lr "rev [0..<16]"] by simp_all

lemma full_inverse: "des_full_cipher (des_full_cipher lr k ENCIPHER) k DECIPHER = lr"
  by (simp add: des_full_cipher_def IP_FP FP_IP inner_inverse)

lemma des3_inverse: "des3_decipher ks (des3_encipher ks lr) = lr"
  by (simp add: des3_decipher_def des3_encipher_def inner_inverse split: prod.split)

section \<open>The modes\<close>

lemma load_store [simp]: "des_load_lr (des_store_lr lr) = lr"
  by (cases lr) (simp add: des_load_lr_def des_store_lr_def GET_append)

lemma byte_high: "8 \<le> n \<Longrightarrow> \<not> bit (x :: byte) n"
  using bit_imp_le_length [of x n] by auto

lemma PUT_GET_32: "PUT_32BIT_MSB_FIRST (GET_32BIT_MSB_FIRST [a, b, c, d]) = [a, b, c, d]"
proof -
  have "ucast (drop_bit 24 w) = a" "ucast (drop_bit 16 w) = b" "ucast (drop_bit 8 w) = c" "ucast w = d"
    if "w = GET_32BIT_MSB_FIRST [a, b, c, d]" for w
    by (rule bit_word_eqI; simp add: that GET_32BIT_MSB_FIRST_def bit_simps byte_high)+
  then show ?thesis by (simp add: PUT_32BIT_MSB_FIRST_def)
qed

lemma store_load: "length b = 8 \<Longrightarrow> des_store_lr (des_load_lr b) = b"
proof -
  assume "length b = 8"
  then obtain a0 a1 a2 a3 a4 a5 a6 a7 where b: "b = [a0, a1, a2, a3, a4, a5, a6, a7]"
    by (auto simp: length_Suc_conv numeral_eq_Suc)
  have "GET_32BIT_MSB_FIRST b = GET_32BIT_MSB_FIRST [a0, a1, a2, a3]" by (simp add: b GET_32BIT_MSB_FIRST_def)
  then show ?thesis using PUT_GET_32 by (simp add: des_store_lr_def des_load_lr_def b)
qed

lemma length_store [simp]: "length (des_store_lr lr) = 8"
  by (simp add: des_store_lr_def)

lemma xor_lr_twice [simp]: "des_xor_lr (des_xor_lr a b) b = a"
  by (simp add: des_xor_lr_def xor.assoc)

text \<open>
  In the modes of SSH-2 both ends have the same state; in the three-layer CBC of SSH-1 too, because
  each layer keeps its own ciphertext as its IV.
\<close>

interpretation des_cbc: block_cipher des_cbc_enc des_cbc_dec "(=)" "ssh_des junk" "ssh_des junk'" for junk junk'
  by unfold_locales
     (auto simp: des_cbc_enc_def des_cbc_dec_def Let_def full_inverse store_load ssh_des_def des_cbc_encrypt_def
       des_cbc_decrypt_def cipher_setup_def des_cbc_setkey_def des_cbc_setiv_def)

interpretation des3_cbc: block_cipher des3_cbc1_enc des3_cbc1_dec "(=)" "ssh_3des_ssh2 junk" "ssh_3des_ssh2 junk'" for junk junk'
  by unfold_locales
     (auto simp: des3_cbc1_enc_def des3_cbc1_dec_def Let_def IP_FP FP_IP des3_inverse store_load ssh_3des_ssh2_def
       cipher_setup_def des3_cbc1_setkey_def des3_cbc1_setiv_def des3_key_setup_def)

interpretation des3_ctr: block_cipher des3_sdctr_step des3_sdctr_step "(=)" "ssh_3des_ssh2_ctr junk" "ssh_3des_ssh2_ctr junk'" for junk junk'
  by unfold_locales
     (auto simp: des3_sdctr_step_def Let_def store_load ssh_3des_ssh2_ctr_def
       cipher_setup_def des3_sdctr_setkey_def des3_sdctr_setiv_def des3_key_setup_def)

lemma cbc3_inverse: "length b = 8 \<Longrightarrow> des3_cbc3_dec c (snd (des3_cbc3_enc c b)) = (fst (des3_cbc3_enc c b), b)"
  by (simp add: des3_cbc3_enc_def des3_cbc3_dec_def Let_def IP_FP FP_IP inner_inverse store_load split: prod.split)

interpretation des3_cbc3: block_cipher des3_cbc3_enc des3_cbc3_dec "(=)" "ssh_3des_ssh1 junk" "ssh_3des_ssh1 junk'" for junk junk'
proof (unfold_locales, goal_cases)
  case (1 b e)
  then show ?case by (simp add: des3_cbc3_enc_def Let_def split: prod.split)
next
  case (2 b e)
  then show ?case by (simp add: des3_cbc3_dec_def Let_def split: prod.split)
next
  case (3 e d b)
  then show ?case by (simp add: cbc3_inverse)
next
  case (4 e d b)
  then show ?case by (simp add: cbc3_inverse)
qed (auto simp: ssh_3des_ssh1_def cipher_setup_def des3_cbc3_setkey_def des3_cbc3_setiv_def des3_key_setup_def Let_def)

section \<open>Properties\<close>

text \<open>
  C11.  In every DES mode, contexts set up with the same key and IV, from whatever memory they were allocated
  in, are inverse to each other: what one encrypts the other decrypts.
\<close>

theorem des_roundtrip:
  assumes "8 dvd length p" "8 \<le> length iv"
  shows "(length key = 8 \<longrightarrow> cipher_recovers (ssh_des junk) (ssh_des junk') key iv p) \<and>
    (length key = 24 \<longrightarrow> cipher_recovers (ssh_3des_ssh2 junk1) (ssh_3des_ssh2 junk1') key iv p \<and>
      cipher_recovers (ssh_3des_ssh2_ctr junk2) (ssh_3des_ssh2_ctr junk2') key iv p \<and>
      cipher_recovers (ssh_3des_ssh1 junk3) (ssh_3des_ssh1 junk3') key iv p)"
  by (intro conjI impI des_cbc.encrypt_decrypt_setup des3_cbc.encrypt_decrypt_setup des3_ctr.encrypt_decrypt_setup
      des3_cbc3.encrypt_decrypt_setup)
     (use assms in \<open>simp_all add: ssh_des_def ssh_3des_ssh2_def ssh_3des_ssh2_ctr_def ssh_3des_ssh1_def\<close>)

definition des_fresh :: des_cbc_ctx where
  "des_fresh = \<lparr>cbc_sched = \<lparr>k7531 = [], k6420 = []\<rparr>, cbc_iv = \<lparr>lr_L = 0, lr_R = 0\<rparr>\<rparr>"

theorem des_roundtrip_witness:
  "cipher_recovers (ssh_des des_fresh) (ssh_des des_fresh) (replicate 8 1) (replicate 8 0) (replicate 16 2)"
proof -
  have "(8 :: nat) dvd length (replicate 16 (2 :: byte))" by simp
  then show ?thesis using des_roundtrip [of "replicate 16 2" "replicate 8 0" "replicate 8 1" des_fresh des_fresh] by auto
qed

end
