(* ===== verification/Ssh2_Suite.thy ===== *)
theory Ssh2_Suite
  imports Ssh2_Bpp_Safety Hash_Suite Arcfour Des_Correct
begin

text \<open>
  The binary packet protocol over the program's own ciphers and MACs: the interface of the two ends is
  interpreted on each SSH-2 cipher that is modelled, with each family of MACs.
\<close>

section \<open>Ciphers with MACs\<close>

lemmas cipher_tables = ssh_des_def ssh_3des_ssh2_def ssh_3des_ssh2_ctr_def ssh_arcfour128_ssh2_def ssh_arcfour256_ssh2_def

lemmas suite_sizes = cipher_tables mac_tables rounded_def OUR_V2_PACKETLIMIT_def

lemma suite_pair:
  assumes "cipher_provider calg calg' sync" "hash_provider (mac_hash malg) good rep H" "hash_provider (mac_hash malg') good rep H"
    "blksize calg \<in> {1, 8}"
    "mac_len malg' = mac_len malg" "mac_keylen malg' = mac_keylen malg" "blocklen (mac_hash malg') = blocklen (mac_hash malg)"
    "0 < mac_len malg" "mac_len malg \<le> hlen (mac_hash malg)" "mac_len malg \<le> 64" "mac_keylen malg < 2 ^ 32"
  shows "bpp_session calg calg' sync malg malg' good rep H"
proof (intro bpp_session.intro bpp_crypto.intro bpp_session_axioms.intro bpp_crypto_axioms.intro)
qed (use assms in \<open>auto simp: rounded_def OUR_V2_PACKETLIMIT_def\<close>)

lemma suite_defence:
  assumes "bpp_session calg calg' sync malg malg' good rep H" "\<not> separate_length calg"
  shows "bpp_defence calg calg' sync malg malg' good rep H"
  using assms by (intro bpp_defence.intro bpp_defence_axioms.intro)

interpretation des3_cbc_sha256: bpp_defence "ssh_3des_ssh2 cj" "ssh_3des_ssh2 cj'" "(=)" "ssh_hmac_sha256 mj" "ssh_hmac_sha256 mj'"
    sw_good "sw_rep sha256_compress sha256_initial_state" sha256 for cj cj' mj mj'
proof (intro suite_defence suite_pair)
  show "cipher_provider (ssh_3des_ssh2 cj) (ssh_3des_ssh2 cj') (=)" by (rule des3_cbc.cipher_provider_axioms)
qed (use sha256.hash_provider_axioms in \<open>simp_all add: suite_sizes\<close>)

text \<open>
  Every connection between two new layers that use this cipher and this MAC, whatever the statistics,
  roles, random numbers and bug flags of the two ends; no compressor is made, so its type is immaterial.
\<close>

definition connects :: "'c ssh_cipheralg \<Rightarrow> 'c ssh_cipheralg \<Rightarrow> 'h ssh2_macalg \<Rightarrow> 'h ssh2_macalg \<Rightarrow> bool" where
  "connects calg calg' malg malg' \<longleftrightarrow>
     (\<forall>stats server pool choke stats' server' pool' bs es. session_ok calg malg bs es \<longrightarrow>
        session_delivered calg calg' malg malg'
          ((ssh2_bpp_new stats server pool [] [] :: ('c, 'h, unit) ssh2_bpp_state)\<lparr>chokes_on_ignore := choke\<rparr>)
          (ssh2_bpp_new stats' server' pool' [] []) bs es)"

definition connects_with_macs :: "'c ssh_cipheralg \<Rightarrow> 'c ssh_cipheralg \<Rightarrow> (nat \<Rightarrow> byte) \<Rightarrow> (nat \<Rightarrow> byte) \<Rightarrow> bool" where
  "connects_with_macs calg calg' mj mj' \<longleftrightarrow>
     connects calg calg' (ssh_hmac_sha256 mj) (ssh_hmac_sha256 mj') \<and> connects calg calg' (ssh_hmac_sha1 mj) (ssh_hmac_sha1 mj') \<and>
     connects calg calg' (ssh_hmac_sha1_96 mj) (ssh_hmac_sha1_96 mj') \<and> connects calg calg' (ssh_hmac_sha1_buggy mj) (ssh_hmac_sha1_buggy mj') \<and>
     connects calg calg' (ssh_hmac_sha1_96_buggy mj) (ssh_hmac_sha1_96_buggy mj') \<and> connects calg calg' (ssh_hmac_md5 mj) (ssh_hmac_md5 mj')"

text \<open>
  A new layer that uses this cipher and this MAC takes whatever bytes arrive, in whatever pieces, under whatever
  keys are installed, and returns each time without a fault, unless encrypt-then-MAC keys are among them.
\<close>

definition withstands :: "'c ssh_cipheralg \<Rightarrow> 'h ssh2_macalg \<Rightarrow> bool" where
  "withstands calg malg \<longleftrightarrow>
     (\<forall>stats server pool raw ks cs. list_all (keys_ok calg malg) ks \<longrightarrow>
        (let r = receive_session calg malg (ssh2_bpp_new stats server pool raw [] :: ('c, 'h, unit) ssh2_bpp_state) ks cs
         in (\<exists>R ks'. r = Some (Inr (R, ks'))) \<or> list_ex etm_of ks \<and> r = Some (Inl OutOfBounds)))"

definition withstands_with_macs :: "'c ssh_cipheralg \<Rightarrow> (nat \<Rightarrow> byte) \<Rightarrow> bool" where
  "withstands_with_macs calg mj \<longleftrightarrow>
     withstands calg (ssh_hmac_sha256 mj) \<and> withstands calg (ssh_hmac_sha1 mj) \<and> withstands calg (ssh_hmac_sha1_96 mj) \<and>
     withstands calg (ssh_hmac_sha1_buggy mj) \<and> withstands calg (ssh_hmac_sha1_96_buggy mj) \<and> withstands calg (ssh_hmac_md5 mj)"

lemma session_connects: "bpp_session calg calg' sync malg malg' good rep H \<Longrightarrow> connects calg calg' malg malg'"
  unfolding connects_def by (intro allI impI bpp_session.session_goes_through [OF _ _ refl refl])

lemma session_withstands: "bpp_session calg calg sync malg malg good rep H \<Longrightarrow> \<not> separate_length calg \<Longrightarrow> withstands calg malg"
  unfolding withstands_def Let_def by (intro allI impI bpp_defence.new_layer_withstands [OF suite_defence refl])

text \<open>The interface for a cipher with each of the MACs.\<close>

lemma cipher_sessions:
  assumes "cipher_provider calg calg' sync" "blksize calg \<in> {1, 8}"
  defines "session \<equiv> \<lambda>malg malg'. bpp_session calg calg' sync malg malg'"
  shows "session (ssh_hmac_sha256 mj) (ssh_hmac_sha256 mj') sw_good (sw_rep sha256_compress sha256_initial_state) sha256"
    "session (ssh_hmac_sha1 mj) (ssh_hmac_sha1 mj') sw_good (sw_rep sha1_compress sha1_initial_state) sha1"
    "session (ssh_hmac_sha1_96 mj) (ssh_hmac_sha1_96 mj') sw_good (sw_rep sha1_compress sha1_initial_state) sha1"
    "session (ssh_hmac_sha1_buggy mj) (ssh_hmac_sha1_buggy mj') sw_good (sw_rep sha1_compress sha1_initial_state) sha1"
    "session (ssh_hmac_sha1_96_buggy mj) (ssh_hmac_sha1_96_buggy mj') sw_good (sw_rep sha1_compress sha1_initial_state) sha1"
    "bpp_session calg calg' sync (ssh_hmac_md5 mj) (ssh_hmac_md5 mj') md5_good md5_rep md5"
  unfolding session_def
  by (rule suite_pair [OF assms(1) _ _ assms(2)];
      use sha256.hash_provider_axioms sha1.hash_provider_axioms md5.hash_provider_axioms in \<open>simp add: mac_tables\<close>)+

lemma cipher_connects: "cipher_provider calg calg' sync \<Longrightarrow> blksize calg \<in> {1, 8} \<Longrightarrow> connects_with_macs calg calg' mj mj'"
  unfolding connects_with_macs_def by (intro conjI cipher_sessions [THEN session_connects])

lemma cipher_withstands:
  "cipher_provider calg calg sync \<Longrightarrow> blksize calg \<in> {1, 8} \<Longrightarrow> \<not> separate_length calg \<Longrightarrow> withstands_with_macs calg mj"
  unfolding withstands_with_macs_def by (intro conjI cipher_sessions [THEN session_withstands])

section \<open>Properties\<close>

text \<open>
  C1.  The binary packet protocol delivers every connection.  For each modelled SSH-2 cipher and MAC, in
  encrypt-and-MAC and encrypt-then-MAC mode, from two new layers: whatever batches of messages are
  sent, under whatever sequence of keys, the sender does not fail; and however the stream is cut on
  its way, the receiver returns from every call, reports no error, and ends with exactly the messages
  sent, in order, apart from \<open>IGNORE\<close> messages.
\<close>

theorem ssh2_bpp_delivers:
  "connects_with_macs (ssh_3des_ssh2 j1) (ssh_3des_ssh2 j1') mj mj' \<and>
   connects_with_macs (ssh_3des_ssh2_ctr j2) (ssh_3des_ssh2_ctr j2') mj mj' \<and>
   connects_with_macs (ssh_des j3) (ssh_des j3') mj mj' \<and>
   connects_with_macs (ssh_arcfour128_ssh2 j4) (ssh_arcfour128_ssh2 j4') mj mj' \<and>
   connects_with_macs (ssh_arcfour256_ssh2 j4) (ssh_arcfour256_ssh2 j4') mj mj'"
  by (intro conjI cipher_connects [OF des3_cbc.cipher_provider_axioms] cipher_connects [OF des3_ctr.cipher_provider_axioms]
      cipher_connects [OF des_cbc.cipher_provider_axioms] cipher_connects [OF arcfour128.cipher_provider_axioms]
      cipher_connects [OF arcfour256.cipher_provider_axioms]) (simp_all add: cipher_tables)

lemma valid_type_CHANNEL_DATA: "valid_type 94"
  by code_simp

text \<open>A message in clear, a change to keys in encrypt-then-MAC mode, and two messages in one batch under them.\<close>

theorem ssh2_bpp_delivers_witness:
  "session_ok (ssh_arcfour128_ssh2 (\<lambda>_. 7)) (ssh_hmac_sha1 (\<lambda>_. 7)) [[(94, [1, 2, 3], 0)]]
     [((replicate 16 1, [0], True, replicate 20 2), [[(94, [4], 0), (94, [], 100)]])] \<and>
   session_delivered (ssh_arcfour128_ssh2 (\<lambda>_. 7)) (ssh_arcfour128_ssh2 (\<lambda>_. 8)) (ssh_hmac_sha1 (\<lambda>_. 7)) (ssh_hmac_sha1 (\<lambda>_. 8))
     ((ssh2_bpp_new (\<lparr>running = False, expired = False, remaining = 0\<rparr>, \<lparr>running = False, expired = False, remaining = 0\<rparr>) False (\<lambda>_. 5) [] []
        :: (ArcfourContext, sha_sw, unit) ssh2_bpp_state)\<lparr>chokes_on_ignore := False\<rparr>)
     (ssh2_bpp_new (\<lparr>running = False, expired = False, remaining = 0\<rparr>, \<lparr>running = False, expired = False, remaining = 0\<rparr>) True (\<lambda>_. 6) [] [])
     [[(94, [1, 2, 3], 0)]] [((replicate 16 1, [0], True, replicate 20 2), [[(94, [4], 0), (94, [], 100)]])]"
proof -
  have ok: "session_ok (ssh_arcfour128_ssh2 (\<lambda>_. 7)) (ssh_hmac_sha1 (\<lambda>_. 7)) [[(94, [1, 2, 3], 0)]]
     [((replicate 16 1, [0], True, replicate 20 2), [[(94, [4], 0), (94, [], 100)]])]"
    by (simp add: session_ok_def keys_ok_def message_ok_def valid_type_CHANNEL_DATA suite_sizes)
  have "connects (ssh_arcfour128_ssh2 (\<lambda>_. 7)) (ssh_arcfour128_ssh2 (\<lambda>_. 8)) (ssh_hmac_sha1 (\<lambda>_. 7)) (ssh_hmac_sha1 (\<lambda>_. 8))"
    using ssh2_bpp_delivers [of undefined undefined "\<lambda>_. 7" "\<lambda>_. 8" undefined undefined undefined undefined "\<lambda>_. 7" "\<lambda>_. 8"]
    by (simp only: connects_with_macs_def)
  then show ?thesis using ok unfolding connects_def by blast
qed

text \<open>
  C2.  No peer can make the receiving layer fault outside encrypt-then-MAC mode: for each modelled cipher and
  MAC, whatever bytes arrive, in whatever pieces, and however often the keys are changed, every
  access stays inside its block, no indeterminate byte is read, no assertion fails, and every call returns.
  With encrypt-then-MAC keys the only possible fault is an access outside a block.
\<close>

theorem ssh2_bpp_withstands_any_peer:
  "withstands_with_macs (ssh_3des_ssh2 j1) mj \<and> withstands_with_macs (ssh_3des_ssh2_ctr j2) mj \<and> withstands_with_macs (ssh_des j3) mj \<and>
   withstands_with_macs (ssh_arcfour128_ssh2 j4) mj \<and> withstands_with_macs (ssh_arcfour256_ssh2 j4) mj"
  by (intro conjI cipher_withstands [OF des3_cbc.cipher_provider_axioms] cipher_withstands [OF des3_ctr.cipher_provider_axioms]
      cipher_withstands [OF des_cbc.cipher_provider_axioms] cipher_withstands [OF arcfour128.cipher_provider_axioms]
      cipher_withstands [OF arcfour256.cipher_provider_axioms]) (simp_all add: cipher_tables)

theorem ssh2_bpp_withstands_any_peer_witness:
  "\<exists>R ks'. receive_session (ssh_arcfour128_ssh2 (\<lambda>_. 7)) (ssh_hmac_sha1 (\<lambda>_. 7))
     (ssh2_bpp_new (\<lparr>running = False, expired = False, remaining = 0\<rparr>, \<lparr>running = False, expired = False, remaining = 0\<rparr>) False (\<lambda>_. 5) [] []
       :: (ArcfourContext, sha_sw, unit) ssh2_bpp_state)
     [(replicate 16 1, [0], False, replicate 20 2)] [[0, 0, 0, 12, 10], [21] @ replicate 10 0, replicate 200 77] = Some (Inr (R, ks'))"
proof -
  have "withstands (ssh_arcfour128_ssh2 (\<lambda>_. 7)) (ssh_hmac_sha1 (\<lambda>_. 7))"
    using ssh2_bpp_withstands_any_peer [of undefined "\<lambda>_. 7" undefined undefined "\<lambda>_. 7"] by (simp only: withstands_with_macs_def)
  moreover have "list_all (keys_ok (ssh_arcfour128_ssh2 (\<lambda>_. 7)) (ssh_hmac_sha1 (\<lambda>_. 7))) [(replicate 16 1, [0], False, replicate 20 2)]"
    by (simp add: keys_ok_def suite_sizes)
  moreover have "\<not> list_ex etm_of [(replicate 16 1, [0], False, replicate 20 2)]" by (simp add: etm_of_def)
  ultimately show ?thesis unfolding withstands_def Let_def by blast
qed

text \<open>
  C20.  In encrypt-then-MAC mode the length field \<open>OUR_V2_PACKETLIMIT\<close> is accepted, but the packet's memory is four bytes
  shorter than a packet of that length with its MAC: reading the rest of the packet writes beyond it, before the MAC has
  been checked, so any peer in this mode can provoke it.
\<close>

theorem etm_packet_overflow:
  assumes "crState s = Top" "mac (dir_in s) \<noteq> None" "etm_mode (dir_in s)"
    "\<forall>a c. cipher (dir_in s) = Some (a, c) \<longrightarrow> \<not> separate_length a" "dir_cipherblk (dir_in s) dvd OUR_V2_PACKETLIMIT"
    "in_raw s = PUT_32BIT_MSB_FIRST (of_nat OUR_V2_PACKETLIMIT) @ body" "OUR_V2_PACKETLIMIT + dir_maclen (dir_in s) \<le> length body"
  shows "ssh2_bpp_handle_input s = Some (Inl OutOfBounds)"
proof -
  let ?d = "dir_in s" and ?four = "PUT_32BIT_MSB_FIRST (of_nat OUR_V2_PACKETLIMIT)" and ?L = "dir_maclen (dir_in s)"
  define s1 where "s1 = s\<lparr>s_maxlen := 0, s_length := 0, s_cipherblk := dir_cipherblk ?d, s_maclen := ?L, s_buf := ensure_buf (s_buf s) 4, crState := EtmLength\<rparr>"
  have s1: "bpp_step s = Inr (True, s1)" using assms(1-3) by (auto simp: bpp_step_def read_top_def Let_def s1_def)
  define b where "b = map Some ?four @ drop 4 (s_buf s1)"
  have len: "toint (of_nat OUR_V2_PACKETLIMIT) = int OUR_V2_PACKETLIMIT" by (rule toint_of_nat) (simp add: OUR_V2_PACKETLIMIT_def)
  define s2 where "s2 = s1\<lparr>in_raw := body, s_buf := b, s_len := int OUR_V2_PACKETLIMIT, s_packetlen := OUR_V2_PACKETLIMIT + 4,
    s_data := map Some ?four @ replicate (OUR_V2_PACKETLIMIT + ?L - 4) None, crState := EtmRest\<rparr>"
  have w: "mem_write (s_buf s1) 0 (map Some ?four) = Inr b" "mem_read b 0 4 = Inr ?four" "etm_length ?d ?four = Inr (?d, ?four)"
    "mem_write (replicate (OUR_V2_PACKETLIMIT + ?L) None) 0 (map Some ?four) = Inr (map Some ?four @ replicate (OUR_V2_PACKETLIMIT + ?L - 4) None)"
    using mem_read_Some [of 0 4 ?four "drop 4 (s_buf s1)"] assms(4)
    by (auto simp: b_def s1_def ensure_buf_def mem_write_def etm_length_def OUR_V2_PACKETLIMIT_def split: option.split)
  have r: "BPP_READ s1 4 k = k ?four (s1\<lparr>in_raw := body\<rparr>)" for k by (rule BPP_READ_exact) (simp_all add: s1_def assms(6))
  have sel: "crState s1 = EtmLength" "dir_in s1 = ?d" "s_maclen s1 = ?L" "s_cipherblk s1 = dir_cipherblk ?d" by (simp_all add: s1_def)
  have "bpp_step s1 = Inr (True, s2)"
    using w len assms(5) by (simp add: bpp_step_def read_etm_length_def r sel Let_def s2_def flip: of_nat_mod)
  moreover have "bpp_step s2 = Inl OutOfBounds"
    using read_etm_rest_overflow [of s2] assms(7) by (simp add: s2_def s1_def bpp_step_def OUR_V2_PACKETLIMIT_def)
  ultimately show ?thesis using handle_input_step [OF s1] handle_input_step [of s1 s2] by (simp add: ssh2_bpp_handle_input.simps [of s2])
qed

definition etm_sample :: "(ArcfourContext, sha_sw, unit) ssh2_bpp_state" where
  "etm_sample = (let a = ssh_hmac_sha1 (\<lambda>_. 7); h = hash_new (mac_hash a) in
     (ssh2_bpp_new (\<lparr>running = False, expired = False, remaining = 0\<rparr>, \<lparr>running = False, expired = False, remaining = 0\<rparr>) False (\<lambda>_. 5)
        (PUT_32BIT_MSB_FIRST (of_nat OUR_V2_PACKETLIMIT) @ replicate (OUR_V2_PACKETLIMIT + 20) 0) [])
     \<lparr>dir_in := new_direction\<lparr>mac := Some (a, \<lparr>h_outer = h, h_inner = h, h_live = h\<rparr>), etm_mode := True\<rparr>\<rparr>)"

theorem etm_packet_overflow_witness: "ssh2_bpp_handle_input etm_sample = Some (Inl OutOfBounds)"
  by (rule etm_packet_overflow [where body = "replicate (OUR_V2_PACKETLIMIT + 20) 0"])
     (simp_all add: etm_sample_def Let_def ssh2_bpp_new_def new_direction_def dir_cipherblk_def dir_maclen_def suite_sizes)

end
