(* ===== verification/Mpint.thy ===== *)
theory Mpint
  imports Prelude
begin

unbundle bit_operations_syntax

text \<open>
  Multiprecision integers (\<open>mpint.c\<close>, \<open>mpint_i.h\<close>) with 64-bit words: storage and selection, addition and comparison,
  multiplication by the simple method and by Karatsuba's, and shifts.

  An \<open>mp_int\<close> is the list of its words, least significant first.  A function that writes to an output number takes the
  number of its words and returns its new words.  Within each loop the words of the inputs are read before the output
  word of the same or a later index is written (in loops that run downwards, of the same or an earlier one), so that
  the output may be one of the inputs, as the callers make it; multiplication first clears its output, which its callers
  keep apart from the inputs.  Sizes and shift distances are below the range of \<open>size_t\<close>.  Scratch space counts: what matters is
  its size, which is checked where the code checks it.
\<close>

type_synonym mp_int = "u64 list"

abbreviation BIGNUM_INT_BITS :: nat where "BIGNUM_INT_BITS \<equiv> 64"
abbreviation BIGNUM_INT_BYTES :: nat where "BIGNUM_INT_BYTES \<equiv> 8"

section \<open>Double-word arithmetic\<close>

definition BignumADC :: "u64 \<Rightarrow> u64 \<Rightarrow> u64 \<Rightarrow> u64 \<times> u64" where
  "BignumADC a b c = (let t = (ucast a :: 128 word) + ucast b + ucast c in (ucast t, ucast (drop_bit BIGNUM_INT_BITS t)))"

definition BignumMULADD :: "u64 \<Rightarrow> u64 \<Rightarrow> u64 \<Rightarrow> u64 \<times> u64" where
  "BignumMULADD a b addend = (let t = (ucast a :: 128 word) * ucast b + ucast addend in (ucast (drop_bit BIGNUM_INT_BITS t), ucast t))"

definition BignumMULADD2 :: "u64 \<Rightarrow> u64 \<Rightarrow> u64 \<Rightarrow> u64 \<Rightarrow> u64 \<times> u64" where
  "BignumMULADD2 a b addend1 addend2 =
     (let t = (ucast a :: 128 word) * ucast b + ucast addend1 + ucast addend2 in (ucast (drop_bit BIGNUM_INT_BITS t), ucast t))"

section \<open>Storage\<close>

definition mp_word :: "mp_int \<Rightarrow> nat \<Rightarrow> u64" where
  "mp_word x i = (if i < length x then x ! i else 0)"

definition shift_right_by_one_word :: "u64 \<Rightarrow> u64" where
  "shift_right_by_one_word n =
     (let shift_too_big = (BIGNUM_INT_BYTES \<ge> 8) in if shift_too_big then 0 else drop_bit (if shift_too_big then 0 else BIGNUM_INT_BITS) n)"

definition shift_left_by_one_word :: "u64 \<Rightarrow> u64" where
  "shift_left_by_one_word n =
     (let shift_too_big = (BIGNUM_INT_BYTES \<ge> 8) in if shift_too_big then 0 else push_bit (if shift_too_big then 0 else BIGNUM_INT_BITS) n)"

definition mp_make_sized :: "nat \<Rightarrow> mp_int res" where
  "mp_make_sized nw = res_bind (assert_res (nw \<noteq> 0)) (\<lambda>_. Inr (replicate nw 0))"

definition mp_new :: "nat \<Rightarrow> mp_int res" where
  "mp_new maxbits = mp_make_sized ((maxbits + BIGNUM_INT_BITS - 1) div BIGNUM_INT_BITS)"

definition mp_from_integer :: "u64 \<Rightarrow> mp_int" where
  "mp_from_integer n = map (\<lambda>i. drop_bit (i * BIGNUM_INT_BITS) n) [0..<(8 + BIGNUM_INT_BYTES - 1) div BIGNUM_INT_BYTES]"

definition mp_max_bytes :: "mp_int \<Rightarrow> nat" where
  "mp_max_bytes x = length x * BIGNUM_INT_BYTES"

definition mp_max_bits :: "mp_int \<Rightarrow> nat" where
  "mp_max_bits x = length x * BIGNUM_INT_BITS"

definition mp_copy_into :: "nat \<Rightarrow> mp_int \<Rightarrow> mp_int" where
  "mp_copy_into nw src = (let copy_nw = min nw (length src) in take copy_nw src @ replicate (nw - copy_nw) 0)"

fun mp_copy_integer_into :: "nat \<Rightarrow> u64 \<Rightarrow> mp_int" where
  "mp_copy_integer_into 0 n = []"
| "mp_copy_integer_into (Suc nw) n = n # mp_copy_integer_into nw (shift_right_by_one_word n)"

definition mp_select_into :: "nat \<Rightarrow> mp_int \<Rightarrow> mp_int \<Rightarrow> u64 \<Rightarrow> mp_int" where
  "mp_select_into nw src0 src1 which =
     (let mask = - (1 AND which) in map (\<lambda>i. mp_word src0 i XOR ((mp_word src1 i XOR mp_word src0 i) AND mask)) [0..<nw])"

definition mp_cond_swap :: "mp_int \<Rightarrow> mp_int \<Rightarrow> u64 \<Rightarrow> (mp_int \<times> mp_int) res" where
  "mp_cond_swap x0 x1 swap =
     res_bind (assert_res (length x0 = length x1)) (\<lambda>_.
     let mask = - (1 AND swap); diff = map2 (\<lambda>a b. (a XOR b) AND mask) x0 x1
     in Inr (map2 (XOR) x0 diff, map2 (XOR) x1 diff))"

definition mp_clear :: "mp_int \<Rightarrow> mp_int" where
  "mp_clear x = replicate (length x) 0"

definition mp_cond_clear :: "mp_int \<Rightarrow> u64 \<Rightarrow> mp_int" where
  "mp_cond_clear x clr = (let mask = NOT (- (1 AND clr)) in map (\<lambda>w. w AND mask) x)"

text \<open>Bytes in an arithmetic progression: byte \<open>i\<close> of the number is byte \<open>m * i + c\<close> of the input.\<close>

definition mp_from_bytes_int :: "byte list \<Rightarrow> int \<Rightarrow> int \<Rightarrow> mp_int" where
  "mp_from_bytes_int bytes m c =
     (let nw = max ((length bytes + BIGNUM_INT_BYTES - 1) div BIGNUM_INT_BYTES) 1
      in foldl (\<lambda>n i. n[i div BIGNUM_INT_BYTES := n ! (i div BIGNUM_INT_BYTES) OR
                 push_bit (8 * (i mod BIGNUM_INT_BYTES)) (ucast (bytes ! nat (m * int i + c)))])
           (replicate nw 0) [0..<length bytes])"

definition mp_from_bytes_le :: "byte list \<Rightarrow> mp_int" where
  "mp_from_bytes_le bytes = mp_from_bytes_int bytes 1 0"

definition mp_from_bytes_be :: "byte list \<Rightarrow> mp_int" where
  "mp_from_bytes_be bytes = mp_from_bytes_int bytes (- 1) (int (length bytes) - 1)"

definition mp_copy :: "mp_int \<Rightarrow> mp_int" where
  "mp_copy x = x"

definition mp_get_byte :: "mp_int \<Rightarrow> nat \<Rightarrow> byte" where
  "mp_get_byte x i = ucast (0xFF AND drop_bit (8 * (i mod BIGNUM_INT_BYTES)) (mp_word x (i div BIGNUM_INT_BYTES)))"

definition mp_get_bit :: "mp_int \<Rightarrow> nat \<Rightarrow> u64" where
  "mp_get_bit x i = 1 AND drop_bit (i mod BIGNUM_INT_BITS) (mp_word x (i div BIGNUM_INT_BITS))"

definition mp_get_integer :: "mp_int \<Rightarrow> u64" where
  "mp_get_integer x = foldl (\<lambda>toret w. shift_left_by_one_word toret OR w) 0 (rev x)"

definition mp_set_bit :: "mp_int \<Rightarrow> nat \<Rightarrow> u64 \<Rightarrow> mp_int res" where
  "mp_set_bit x i v =
     (let wd = i div BIGNUM_INT_BITS; sh = i mod BIGNUM_INT_BITS
      in res_bind (assert_res (wd < length x)) (\<lambda>_.
         Inr (x[wd := (x ! wd AND NOT (push_bit sh 1)) OR push_bit sh (v AND 1)])))"

definition normalise_to_1 :: "u64 \<Rightarrow> u64" where
  "normalise_to_1 n = (let n = drop_bit 1 n OR (n AND 1) in drop_bit (BIGNUM_INT_BITS - 1) (- n))"

section \<open>Addition, subtraction, comparison\<close>

text \<open>A loop that adds word by word, from word \<open>i\<close> on.\<close>

fun adc_loop :: "(nat \<Rightarrow> u64) \<Rightarrow> (nat \<Rightarrow> u64) \<Rightarrow> nat \<Rightarrow> nat \<Rightarrow> u64 \<Rightarrow> u64 list \<times> u64" where
  "adc_loop a b i 0 carry = ([], carry)"
| "adc_loop a b i (Suc k) carry =
     (case BignumADC (a i) (b i) carry of (out, carry) \<Rightarrow>
      case adc_loop a b (Suc i) k carry of (rest, carry) \<Rightarrow> (out # rest, carry))"

definition mp_add_masked_into :: "nat \<Rightarrow> mp_int \<Rightarrow> mp_int \<Rightarrow> u64 \<Rightarrow> u64 \<Rightarrow> u64 \<Rightarrow> mp_int \<times> u64" where
  "mp_add_masked_into rw a b b_and b_xor carry = adc_loop (mp_word a) (\<lambda>i. (mp_word b i AND b_and) XOR b_xor) 0 rw carry"

definition mp_add_into :: "nat \<Rightarrow> mp_int \<Rightarrow> mp_int \<Rightarrow> mp_int" where
  "mp_add_into rw a b = fst (mp_add_masked_into rw a b (NOT 0) 0 0)"

definition mp_sub_into :: "nat \<Rightarrow> mp_int \<Rightarrow> mp_int \<Rightarrow> mp_int" where
  "mp_sub_into rw a b = fst (mp_add_masked_into rw a b (NOT 0) (NOT 0) 1)"

definition mp_and_into :: "nat \<Rightarrow> mp_int \<Rightarrow> mp_int \<Rightarrow> mp_int" where
  "mp_and_into rw a b = map (\<lambda>i. mp_word a i AND mp_word b i) [0..<rw]"

definition mp_or_into :: "nat \<Rightarrow> mp_int \<Rightarrow> mp_int \<Rightarrow> mp_int" where
  "mp_or_into rw a b = map (\<lambda>i. mp_word a i OR mp_word b i) [0..<rw]"

definition mp_xor_into :: "nat \<Rightarrow> mp_int \<Rightarrow> mp_int \<Rightarrow> mp_int" where
  "mp_xor_into rw a b = map (\<lambda>i. mp_word a i XOR mp_word b i) [0..<rw]"

definition mp_bic_into :: "nat \<Rightarrow> mp_int \<Rightarrow> mp_int \<Rightarrow> mp_int" where
  "mp_bic_into rw a b = map (\<lambda>i. mp_word a i AND NOT (mp_word b i)) [0..<rw]"

definition mp_cond_negate :: "nat \<Rightarrow> mp_int \<Rightarrow> u64 \<Rightarrow> mp_int" where
  "mp_cond_negate rw x yes = fst (adc_loop (\<lambda>i. 0) (\<lambda>i. mp_word x i XOR - yes) 0 rw yes)"

text \<open>The words of a C integer, as the loops shift it down.\<close>

fun integer_word :: "u64 \<Rightarrow> nat \<Rightarrow> u64" where
  "integer_word n 0 = n"
| "integer_word n (Suc i) = integer_word (shift_right_by_one_word n) i"

definition mp_add_masked_integer_into :: "nat \<Rightarrow> mp_int \<Rightarrow> u64 \<Rightarrow> u64 \<Rightarrow> u64 \<Rightarrow> u64 \<Rightarrow> mp_int \<times> u64" where
  "mp_add_masked_integer_into rw a b b_and b_xor carry =
     adc_loop (mp_word a) (\<lambda>i. (integer_word b i XOR b_xor) AND b_and) 0 rw carry"

definition mp_add_integer_into :: "nat \<Rightarrow> mp_int \<Rightarrow> u64 \<Rightarrow> mp_int" where
  "mp_add_integer_into rw a n = fst (mp_add_masked_integer_into rw a n (NOT 0) 0 0)"

definition mp_sub_integer_into :: "nat \<Rightarrow> mp_int \<Rightarrow> u64 \<Rightarrow> mp_int" where
  "mp_sub_integer_into rw a n = fst (mp_add_masked_integer_into rw a n (NOT 0) (NOT 0) 1)"

definition mp_cond_add_into :: "nat \<Rightarrow> mp_int \<Rightarrow> mp_int \<Rightarrow> u64 \<Rightarrow> mp_int" where
  "mp_cond_add_into rw a b yes = (let mask = - (yes AND 1) in fst (mp_add_masked_into rw a b mask 0 0))"

definition mp_cond_sub_into :: "nat \<Rightarrow> mp_int \<Rightarrow> mp_int \<Rightarrow> u64 \<Rightarrow> mp_int" where
  "mp_cond_sub_into rw a b yes = (let mask = - (yes AND 1) in fst (mp_add_masked_into rw a b mask mask (1 AND mask)))"

definition mp_cmp_hs :: "mp_int \<Rightarrow> mp_int \<Rightarrow> u64" where
  "mp_cmp_hs a b = (let rw = max (length a) (length b) in snd (mp_add_masked_into rw a b (NOT 0) (NOT 0) 1))"

definition mp_hs_integer :: "mp_int \<Rightarrow> u64 \<Rightarrow> u64" where
  "mp_hs_integer x n = (let nwords = 8 div BIGNUM_INT_BYTES
     in snd (adc_loop (mp_word x) (\<lambda>i. NOT (integer_word n i)) 0 (max (length x) nwords) 1))"

definition mp_cmp_eq :: "mp_int \<Rightarrow> mp_int \<Rightarrow> u64" where
  "mp_cmp_eq a b = 1 XOR normalise_to_1 (foldl (\<lambda>diff i. diff OR (mp_word a i XOR mp_word b i)) 0 [0..<max (length a) (length b)])"

definition mp_eq_integer :: "mp_int \<Rightarrow> u64 \<Rightarrow> u64" where
  "mp_eq_integer x n = (let nwords = 8 div BIGNUM_INT_BYTES
     in 1 XOR normalise_to_1 (foldl (\<lambda>diff i. diff OR (mp_word x i XOR integer_word n i)) 0 [0..<max (length x) nwords]))"

definition mp_neg_into :: "nat \<Rightarrow> mp_int \<Rightarrow> mp_int" where
  "mp_neg_into rw a = mp_sub_into rw [] a"

definition mp_add :: "mp_int \<Rightarrow> mp_int \<Rightarrow> mp_int res" where
  "mp_add x y = res_bind (mp_make_sized (max (length x) (length y) + 1)) (\<lambda>r. Inr (mp_add_into (length r) x y))"

definition mp_sub :: "mp_int \<Rightarrow> mp_int \<Rightarrow> mp_int res" where
  "mp_sub x y = res_bind (mp_make_sized (max (length x) (length y))) (\<lambda>r. Inr (mp_sub_into (length r) x y))"

section \<open>Multiplication\<close>

text \<open>Multiplication by a small integer; the code asserts that the last carry is zero.\<close>

fun mul_integer_loop :: "mp_int \<Rightarrow> u64 \<Rightarrow> nat \<Rightarrow> nat \<Rightarrow> u64 \<Rightarrow> u64 list \<times> u64" where
  "mul_integer_loop a mult i 0 carry = ([], carry)"
| "mul_integer_loop a mult i (Suc k) carry =
     (case BignumMULADD (mp_word a i) mult carry of (carry, out) \<Rightarrow>
      case mul_integer_loop a mult (Suc i) k carry of (rest, carry) \<Rightarrow> (out # rest, carry))"

definition mp_mul_integer_into :: "nat \<Rightarrow> mp_int \<Rightarrow> 16 word \<Rightarrow> mp_int res" where
  "mp_mul_integer_into rw a n =
     (case mul_integer_loop a (ucast n) 0 rw 0 of (r, carry) \<Rightarrow> res_bind (assert_res (carry = 0)) (\<lambda>_. Inr r))"

text \<open>The inner loops of the simple method: add a multiple of \<open>b\<close> to the rest of \<open>r\<close>, then the carry.\<close>

fun carry_row :: "u64 \<Rightarrow> mp_int \<Rightarrow> mp_int" where
  "carry_row carry [] = []"
| "carry_row carry (r # rs) = (case BignumADC carry r 0 of (out, carry) \<Rightarrow> out # carry_row carry rs)"

fun mul_row :: "u64 \<Rightarrow> u64 \<Rightarrow> mp_int \<Rightarrow> mp_int \<Rightarrow> mp_int" where
  "mul_row adata carry (b # bs) (r # rs) = (case BignumMULADD2 adata b r carry of (carry, out) \<Rightarrow> out # mul_row adata carry bs rs)"
| "mul_row adata carry [] rs = carry_row carry rs"
| "mul_row adata carry bs [] = []"

fun mp_mul_add_simple :: "mp_int \<Rightarrow> mp_int \<Rightarrow> mp_int \<Rightarrow> mp_int" where
  "mp_mul_add_simple (r # rs) (a # as) b =
     (case mul_row a 0 b (r # rs) of [] \<Rightarrow> [] | x # xs \<Rightarrow> x # mp_mul_add_simple xs as b)"
| "mp_mul_add_simple rs as b = rs"

abbreviation KARATSUBA_THRESHOLD :: nat where "KARATSUBA_THRESHOLD \<equiv> 24"

definition mp_mul_scratchspace_unary :: "nat \<Rightarrow> nat" where
  "mp_mul_scratchspace_unary n = n * 6"

definition mp_mul_scratchspace :: "nat \<Rightarrow> nat \<Rightarrow> nat \<Rightarrow> nat" where
  "mp_mul_scratchspace rw aw bw = mp_mul_scratchspace_unary (min rw (max aw bw))"

definition mp_make_alias :: "mp_int \<Rightarrow> nat \<Rightarrow> nat \<Rightarrow> mp_int" where
  "mp_make_alias x offset len =
     (let offset = min offset (length x); len = min len (length x - offset) in take len (drop offset x))"

text \<open>What is left of a pool of scratch space after an allocation.\<close>

definition mp_alloc_from_scratch :: "nat \<Rightarrow> nat \<Rightarrow> nat res" where
  "mp_alloc_from_scratch pool len = res_bind (assert_res (len \<le> pool)) (\<lambda>_. Inr (pool - len))"

lemma length_adc_loop [simp]: "length (fst (adc_loop a b i k carry)) = k"
  by (induction k arbitrary: i carry) (auto split: prod.splits simp: case_prod_beta)

lemma length_add_sub [simp]: "length (mp_add_into rw a b) = rw" "length (mp_sub_into rw a b) = rw"
  by (simp_all add: mp_add_into_def mp_sub_into_def mp_add_masked_into_def)

lemma length_alias [simp]: "length (mp_make_alias x offset len) = min len (length x - offset)"
  by (simp add: mp_make_alias_def Let_def)

lemma pieces_less:
  assumes "x = min rw (max la lb)" "t = x div 2" "b = x - t" "\<not> (x < KARATSUBA_THRESHOLD \<or> ka = 0 \<or> kb = 0)" "p \<le> b + 1" "q \<le> b + 1"
  shows "min u (max p q) < min rw (max la lb)"
proof -
  have "b + 1 < x" using assms(2-4) by linarith
  then show ?thesis unfolding assms(1) [symmetric] using assms(5,6) by (simp add: min_less_iff_disj)
qed

text \<open>
  The pieces \<open>r0\<close> and \<open>r2\<close> of the output are its first \<open>2 * botlen\<close> words and the others; \<open>r1\<close> is the output from
  word \<open>botlen\<close> on.
\<close>

definition add_at :: "mp_int \<Rightarrow> nat \<Rightarrow> mp_int \<Rightarrow> mp_int" where
  "add_at r botlen x = (let r1 = mp_make_alias r botlen (length r) in take botlen r @ mp_add_into (length r1) r1 x)"

function (sequential) mp_mul_internal :: "nat \<Rightarrow> mp_int \<Rightarrow> mp_int \<Rightarrow> nat \<Rightarrow> mp_int res" where
  "mp_mul_internal rw a b scratch =
     (let inlen = min rw (max (length a) (length b)) in
      if scratch < mp_mul_scratchspace_unary inlen then Inl AssertFail
      else if inlen < KARATSUBA_THRESHOLD \<or> length a = 0 \<or> length b = 0 then Inr (mp_mul_add_simple (replicate rw 0) a b)
      else
        let toplen = inlen div 2; botlen = inlen - toplen;
            a0 = mp_make_alias a 0 botlen; b0 = mp_make_alias b 0 botlen;
            a1 = mp_make_alias a botlen toplen; b1 = mp_make_alias b botlen toplen;
            r0w = min (botlen * 2) rw
        in res_bind (mp_mul_internal r0w a0 b0 scratch) (\<lambda>r0.
           res_bind (mp_mul_internal (rw - r0w) a1 b1 scratch) (\<lambda>r2.
           let r = r0 @ r2 in
           if rw < inlen * 2 then
             let sw = min (botlen + toplen) (rw - botlen) in
             res_bind (mp_alloc_from_scratch scratch sw) (\<lambda>scratch.
             res_bind (mp_mul_internal sw a0 b1 scratch) (\<lambda>s.
             let r = add_at r botlen s in
             res_bind (mp_mul_internal sw a1 b0 scratch) (\<lambda>s.
             Inr (add_at r botlen s))))
           else
             res_bind (mp_alloc_from_scratch scratch (botlen + 1)) (\<lambda>scratch.
             res_bind (mp_alloc_from_scratch scratch (botlen + 1)) (\<lambda>scratch.
             let asum = mp_add_into (botlen + 1) a0 a1; bsum = mp_add_into (botlen + 1) b0 b1 in
             res_bind (mp_alloc_from_scratch scratch (botlen * 2 + 1)) (\<lambda>scratch.
             res_bind (mp_mul_internal (botlen * 2 + 1) asum bsum scratch) (\<lambda>product.
             let product = mp_sub_into (botlen * 2 + 1) product r0;
                 product = mp_sub_into (botlen * 2 + 1) product r2
             in Inr (add_at r botlen product))))))))"
  by pat_completeness auto

termination
proof (relation "measure (\<lambda>(rw, a, b, scratch). min rw (max (length a) (length b)))", goal_cases)
  case (2 rw a b scratch x xa xb xc xd xe xf xg)
  show ?case unfolding in_measure case_prod_conv by (rule pieces_less [OF 2(1,4,5,3)]) (simp_all add: 2(6,7))
next
  case (3 rw a b scratch x xa xb xc xd xe xf xg xh)
  have "xa \<le> xb + 1" using 3(4,5) by linarith
  then show ?case unfolding in_measure case_prod_conv by (intro pieces_less [OF 3(1,4,5,3)]) (simp_all add: 3(8,9) min.coboundedI1)
next
  case (4 rw a b scratch x xa xb xc xd xe xf xg xh xga xgb xi xj)
  have "xa \<le> xb + 1" using 4(4,5) by linarith
  then show ?case unfolding in_measure case_prod_conv by (intro pieces_less [OF 4(1,4,5,3)]) (simp_all add: 4(6,9) min.coboundedI1)
next
  case (5 rw a b scratch x xa xb xc xd xe xf xg xh xga xgb xi xj xk xl)
  have "xa \<le> xb + 1" using 5(4,5) by linarith
  then show ?case unfolding in_measure case_prod_conv by (intro pieces_less [OF 5(1,4,5,3)]) (simp_all add: 5(7,8) min.coboundedI1)
next
  case (6 rw a b scratch x xa xb xc xd xe xf xg xh xga xgb xi xj xk xl xm)
  show ?case unfolding in_measure case_prod_conv by (rule pieces_less [OF 6(1,4,5,3)]) (simp_all add: 6(13,14))
qed simp

declare mp_mul_internal.simps [simp del]

definition mp_mul_into :: "nat \<Rightarrow> mp_int \<Rightarrow> mp_int \<Rightarrow> mp_int res" where
  "mp_mul_into rw a b =
     res_bind (mp_make_sized (mp_mul_scratchspace rw (length a) (length b))) (\<lambda>scratch. mp_mul_internal rw a b (length scratch))"

definition mp_mul :: "mp_int \<Rightarrow> mp_int \<Rightarrow> mp_int res" where
  "mp_mul x y = res_bind (mp_make_sized (length x + length y)) (\<lambda>r. mp_mul_into (length r) x y)"

section \<open>Shifts\<close>

definition mp_lshift_fixed_into :: "nat \<Rightarrow> mp_int \<Rightarrow> nat \<Rightarrow> mp_int" where
  "mp_lshift_fixed_into rw a bits =
     (let words = bits div BIGNUM_INT_BITS; bitoff = bits mod BIGNUM_INT_BITS
      in map (\<lambda>i. if i < words then 0
                else if bitoff = 0 then mp_word a (i - words)
                else push_bit bitoff (mp_word a (i - words)) OR
                     (if i > words then drop_bit (BIGNUM_INT_BITS - bitoff) (mp_word a (i - words - 1)) else 0)) [0..<rw])"

definition mp_rshift_fixed_into :: "nat \<Rightarrow> mp_int \<Rightarrow> nat \<Rightarrow> mp_int" where
  "mp_rshift_fixed_into rw a bits =
     (let words = bits div BIGNUM_INT_BITS; bitoff = bits mod BIGNUM_INT_BITS
      in map (\<lambda>i. if bitoff = 0 then mp_word a (i + words)
                else drop_bit bitoff (mp_word a (i + words)) OR push_bit (BIGNUM_INT_BITS - bitoff) (mp_word a (i + words + 1))) [0..<rw])"

definition mp_lshift_fixed :: "mp_int \<Rightarrow> nat \<Rightarrow> mp_int res" where
  "mp_lshift_fixed x bits =
     res_bind (mp_make_sized (length x + (bits + BIGNUM_INT_BITS - 1) div BIGNUM_INT_BITS)) (\<lambda>r. Inr (mp_lshift_fixed_into (length r) x bits))"

definition mp_rshift_fixed :: "mp_int \<Rightarrow> nat \<Rightarrow> mp_int res" where
  "mp_rshift_fixed x bits =
     (let words = bits div BIGNUM_INT_BITS; nw = length x - min (length x) words
      in res_bind (mp_make_sized (max nw 1)) (\<lambda>r. Inr (mp_rshift_fixed_into (length r) x bits)))"

text \<open>Reduction modulo a power of two masks one word and clears those above it.\<close>

definition mp_reduce_mod_2to :: "mp_int \<Rightarrow> nat \<Rightarrow> mp_int" where
  "mp_reduce_mod_2to x p =
     (let wd = p div BIGNUM_INT_BITS; mask = push_bit (p mod BIGNUM_INT_BITS) 1 - 1
      in map (\<lambda>i. if i < wd then x ! i else x ! i AND (if i = wd then mask else 0)) [0..<length x])"

end
