(* ===== verification/Mpint_Correct.thy ===== *)
theory Mpint_Correct
  imports Mpint
begin

unbundle bit_operations_syntax

text \<open>
  The value of a multiprecision integer, and what the arithmetic of \<open>mpint.c\<close> does to it.
\<close>

section \<open>Values\<close>

definition B :: nat where
  "B = 2 ^ 64"

lemma B_pos [simp]: "0 < B" "B \<noteq> 0" "1 < B" "Suc 0 < B"
  by (simp_all add: B_def)

lemma B_power: "2 ^ (64 * n) = B ^ n"
  by (simp add: power_mult B_def)

lemma unat_lt_B: "unat (w :: u64) < B"
  unfolding B_def using unsigned_less [of w] by simp

primrec mp_val :: "mp_int \<Rightarrow> nat" where
  "mp_val [] = 0"
| "mp_val (w # ws) = unat w + B * mp_val ws"

lemma mp_val_append: "mp_val (xs @ ys) = mp_val xs + B ^ length xs * mp_val ys"
  by (induction xs) (simp_all add: algebra_simps)

lemma mp_val_less: "mp_val xs < B ^ length xs"
proof (induction xs)
  case (Cons w ws)
  then have "mp_val ws + 1 \<le> B ^ length ws" by simp
  then have "B * (mp_val ws + 1) \<le> B * B ^ length ws" by (rule mult_le_mono2)
  then show ?case using unat_lt_B [of w] by simp
qed simp

lemma mp_val_less_power: "length x \<le> n \<Longrightarrow> mp_val x < B ^ n"
  using mp_val_less [of x] power_increasing [of "length x" n B] by (meson B_pos(3) less_imp_le less_le_trans)

lemma mp_val_replicate [simp]: "mp_val (replicate n 0) = 0"
  by (induction n) simp_all

lemma mp_val_take_drop: "mp_val x = mp_val (take n x) + B ^ min n (length x) * mp_val (drop n x)"
  using mp_val_append [of "take n x" "drop n x"] by (simp add: min.commute)

lemma mp_val_take: "mp_val (take n x) = mp_val x mod B ^ n"
proof (cases "n \<le> length x")
  case True
  then have "mp_val x = mp_val (take n x) + B ^ n * mp_val (drop n x)" using mp_val_take_drop [of x n] by simp
  moreover have "mp_val (take n x) < B ^ n" using mp_val_less [of "take n x"] True by simp
  ultimately show ?thesis by simp
next
  case False
  then have "mp_val x < B ^ n" using mp_val_less_power [of x n] by simp
  then show ?thesis using False by simp
qed

lemma mp_val_drop: "mp_val (drop n x) = mp_val x div B ^ n"
proof (cases "n \<le> length x")
  case True
  then have "mp_val x = mp_val (take n x) + B ^ n * mp_val (drop n x)" using mp_val_take_drop [of x n] by simp
  moreover have "mp_val (take n x) < B ^ n" using mp_val_less [of "take n x"] True by simp
  ultimately show ?thesis by simp
next
  case False
  then have "mp_val x < B ^ n" using mp_val_less_power [of x n] by simp
  then show ?thesis using False by simp
qed

text \<open>The words a loop reads.\<close>

abbreviation digits :: "(nat \<Rightarrow> u64) \<Rightarrow> nat \<Rightarrow> nat \<Rightarrow> nat" where
  "digits f i k \<equiv> mp_val (map f [i..<i + k])"

lemma map_mp_word: "map (mp_word x) [0..<n] = take n x @ replicate (n - length x) 0"
  by (rule nth_equalityI) (auto simp: mp_word_def nth_append)

lemma digits_mp_word: "digits (mp_word x) 0 n = mp_val x mod B ^ n"
  by (simp add: map_mp_word mp_val_append mp_val_take)

lemma unat_not: "unat (NOT x) + unat x + 1 = B" for x :: u64
proof -
  have "NOT x = - 1 - x" by (simp add: not_eq_complement)
  then have "unat (NOT x) = unat (- 1 :: u64) - unat x" by (simp only: unat_sub [OF word_n1_ge])
  moreover have "unat (- 1 :: u64) = B - 1" by (simp add: B_def unsigned_minus_1_eq_mask mask_eq_exp_minus_1)
  ultimately show ?thesis using unat_lt_B [of x] by simp
qed

lemma mp_val_not: "mp_val (map (\<lambda>i. NOT (f i)) is) + mp_val (map f is) + 1 = B ^ length is"
proof (induction "is")
  case (Cons i "is")
  have "mp_val (map (\<lambda>i. NOT (f i)) (i # is)) + mp_val (map f (i # is)) + 1 =
      unat (NOT (f i)) + unat (f i) + 1 + B * (mp_val (map (\<lambda>i. NOT (f i)) is) + mp_val (map f is))" by (simp add: algebra_simps)
  also have "\<dots> = B * (mp_val (map (\<lambda>i. NOT (f i)) is) + mp_val (map f is) + 1)" using unat_not [of "f i"] by (simp add: algebra_simps)
  also have "\<dots> = B ^ length (i # is)" using Cons by simp
  finally show ?case .
qed simp

lemma digit_mod:
  assumes "w < B"
  shows "w + B * (x mod B ^ n) = (w + B * x) mod (B * B ^ n)"
proof -
  have "(w + B * x) div B = x" "(w + B * x) mod B = w" using assms by simp_all
  then show ?thesis by (simp add: mod_mult2_eq)
qed

section \<open>Double-word arithmetic\<close>

lemma double_parts:
  fixes t :: "128 word"
  shows "unat (ucast t :: u64) = unat t mod B" "unat (ucast (drop_bit 64 t) :: u64) = unat t div B"
proof -
  show *: "unat (ucast t :: u64) = unat t mod B" for t :: "128 word" by (simp add: unsigned_ucast_eq take_bit_eq_mod B_def)
  have "unat t < B * B" using unsigned_less [of t] by (simp add: B_def)
  then have "unat t div B < B" by (simp add: less_mult_imp_div_less)
  moreover have "unat (drop_bit 64 t) = unat t div B" by (subst unat_drop_bit_eq) (simp add: drop_bit_eq_div B_def)
  ultimately show "unat (ucast (drop_bit 64 t) :: u64) = unat t div B" using * [of "drop_bit 64 t"] by simp
qed

lemma wide_less: "n < B * B \<Longrightarrow> unat (of_nat n :: 128 word) = n"
  by (simp add: unat_of_nat B_def)

lemma ADC_value:
  assumes "BignumADC a b c = (out, carry)"
  shows "unat out + B * unat carry = unat a + unat b + unat c"
proof -
  let ?n = "unat a + unat b + unat c"
  have "?n < B * B" using unat_lt_B [of a] unat_lt_B [of b] unat_lt_B [of c] by (simp add: B_def)
  then have n: "unat (of_nat ?n :: 128 word) = ?n" by (rule wide_less)
  have eq: "(ucast a :: 128 word) + ucast b + ucast c = of_nat ?n" by simp
  have "out = ucast (of_nat ?n :: 128 word) \<and> carry = ucast (drop_bit 64 (of_nat ?n :: 128 word))"
    using assms unfolding BignumADC_def Let_def eq by blast
  then have "unat out = ?n mod B" "unat carry = ?n div B" using double_parts [of "of_nat ?n"] n by (simp_all only:)
  then show ?thesis by simp
qed

lemma product_less: "x < B \<Longrightarrow> y < B \<Longrightarrow> x * y + 2 * (B - 1) < B * B"
proof -
  assume "x < B" "y < B"
  then have "x * y \<le> (B - 1) * (B - 1)" by (intro mult_le_mono) simp_all
  then show ?thesis by (simp add: B_def)
qed

lemma MULADD2_value:
  assumes "BignumMULADD2 a b c d = (carry, out)"
  shows "unat out + B * unat carry = unat a * unat b + unat c + unat d"
proof -
  let ?n = "unat a * unat b + unat c + unat d"
  have "?n < B * B" using product_less [of "unat a" "unat b"] unat_lt_B [of a] unat_lt_B [of b] unat_lt_B [of c] unat_lt_B [of d] by linarith
  then have n: "unat (of_nat ?n :: 128 word) = ?n" by (rule wide_less)
  have eq: "(ucast a :: 128 word) * ucast b + ucast c + ucast d = of_nat ?n" by simp
  have "out = ucast (of_nat ?n :: 128 word) \<and> carry = ucast (drop_bit 64 (of_nat ?n :: 128 word))"
    using assms unfolding BignumMULADD2_def Let_def eq by blast
  then have "unat out = ?n mod B" "unat carry = ?n div B" using double_parts [of "of_nat ?n"] n by (simp_all only:)
  then show ?thesis by simp
qed

lemma MULADD_value:
  assumes "BignumMULADD a b c = (carry, out)"
  shows "unat out + B * unat carry = unat a * unat b + unat c"
proof -
  let ?n = "unat a * unat b + unat c"
  have "?n < B * B" using product_less [of "unat a" "unat b"] unat_lt_B [of a] unat_lt_B [of b] unat_lt_B [of c] by linarith
  then have n: "unat (of_nat ?n :: 128 word) = ?n" by (rule wide_less)
  have eq: "(ucast a :: 128 word) * ucast b + ucast c = of_nat ?n" by simp
  have "out = ucast (of_nat ?n :: 128 word) \<and> carry = ucast (drop_bit 64 (of_nat ?n :: 128 word))"
    using assms unfolding BignumMULADD_def Let_def eq by blast
  then have "unat out = ?n mod B" "unat carry = ?n div B" using double_parts [of "of_nat ?n"] n by (simp_all only:)
  then show ?thesis by simp
qed

section \<open>Addition\<close>

lemma adc_loop_value:
  "adc_loop a b i k carry = (out, carry') \<Longrightarrow> mp_val out + B ^ k * unat carry' = digits a i k + digits b i k + unat carry"
proof (induction k arbitrary: i carry out)
  case (Suc k)
  obtain w c rest where w: "BignumADC (a i) (b i) carry = (w, c)" "adc_loop a b (Suc i) k c = (rest, carry')" "out = w # rest"
    using Suc.prems by (auto split: prod.splits)
  have up: "[i..<i + Suc k] = i # [Suc i..<Suc i + k]" by (simp add: upt_rec)
  have "mp_val out + B ^ Suc k * unat carry' = unat w + B * (mp_val rest + B ^ k * unat carry')" using w(3) by (simp add: algebra_simps)
  also have "\<dots> = unat w + B * unat c + B * (digits a (Suc i) k + digits b (Suc i) k)" using Suc.IH [OF w(2)] by (simp add: algebra_simps)
  also have "\<dots> = digits a i (Suc k) + digits b i (Suc k) + unat carry" using ADC_value [OF w(1)] by (simp only: up list.map mp_val.simps) (simp add: algebra_simps)
  finally show ?case .
qed simp

lemma adc_length: "adc_loop a b i k carry = (out, c) \<Longrightarrow> length out = k"
  using length_adc_loop [of a b i k carry] by simp

lemma adc_fst: "mp_val (fst (adc_loop a b i k carry)) = (digits a i k + digits b i k + unat carry) mod B ^ k"
proof -
  obtain out c where r: "adc_loop a b i k carry = (out, c)" by force
  have "mp_val out < B ^ k" using mp_val_less [of out] length_adc_loop [of a b i k carry] r by simp
  then show ?thesis using adc_loop_value [OF r] r by (metis fst_conv mod_less mod_mult_self2)
qed

lemma mp_add_into_val: "mp_val (mp_add_into rw a b) = (mp_val a + mp_val b) mod B ^ rw"
  by (simp add: mp_add_into_def mp_add_masked_into_def adc_fst digits_mp_word [simplified] mod_simps)

lemma digits_not: "digits (\<lambda>i. NOT (mp_word b i)) 0 rw + mp_val b mod B ^ rw + 1 = B ^ rw"
  using mp_val_not [of "mp_word b" "[0..<rw]"] digits_mp_word [of b rw] by simp

lemma mod_complement: "(x + (m - y mod m)) mod m = (x - y) mod m" for x :: int
proof -
  have "x + (m - y mod m) = (x - y mod m) + m" by simp
  then show ?thesis by (metis mod_add_self2 mod_diff_right_eq)
qed

lemma mp_sub_into_val: "int (mp_val (mp_sub_into rw a b)) = (int (mp_val a) - int (mp_val b)) mod int (B ^ rw)"
proof -
  let ?n = "digits (\<lambda>i. NOT (mp_word b i)) 0 rw + 1"
  have "mp_val (mp_sub_into rw a b) = (mp_val a mod B ^ rw + ?n) mod B ^ rw"
    by (simp add: mp_sub_into_def mp_add_masked_into_def adc_fst digits_mp_word [simplified])
  then have "mp_val (mp_sub_into rw a b) = (mp_val a + ?n) mod B ^ rw" by (simp only: mod_add_left_eq)
  moreover have "int (digits (\<lambda>i. NOT (mp_word b i)) 0 rw + 1) = int (B ^ rw) - int (mp_val b mod B ^ rw)"
    using digits_not [of b rw] by linarith
  ultimately have "int (mp_val (mp_sub_into rw a b)) = (int (mp_val a) + (int (B ^ rw) - int (mp_val b) mod int (B ^ rw))) mod int (B ^ rw)"
    by (simp only: zmod_int of_nat_add)
  also have "\<dots> = (int (mp_val a) - int (mp_val b)) mod int (B ^ rw)" by (rule mod_complement)
  finally show ?thesis .
qed

lemma mp_sub_into_le: "mp_val b \<le> mp_val a \<Longrightarrow> mp_val a - mp_val b < B ^ rw \<Longrightarrow> mp_val (mp_sub_into rw a b) = mp_val a - mp_val b"
  using mp_sub_into_val [of rw a b] by (simp add: of_nat_diff [symmetric] flip: of_nat_mod del: of_nat_diff)

lemma mp_cmp_hs_val: "mp_cmp_hs a b = (if mp_val b \<le> mp_val a then 1 else 0)"
proof -
  let ?rw = "max (length a) (length b)"
  have l: "mp_val a < B ^ ?rw" "mp_val b < B ^ ?rw" by (simp_all add: mp_val_less_power)
  obtain out c where r: "mp_add_masked_into ?rw a b (NOT 0) (NOT 0) 1 = (out, c)" by force
  have "mp_val out + B ^ ?rw * unat c = mp_val a + (digits (\<lambda>i. NOT (mp_word b i)) 0 ?rw + 1)"
    using adc_loop_value [OF r [unfolded mp_add_masked_into_def]] digits_mp_word [of a ?rw] l(1) by (simp add: not_eq_complement)
  then have sum: "mp_val out + B ^ ?rw * unat c + mp_val b = mp_val a + B ^ ?rw" using digits_not [of b ?rw] l(2) by simp
  have "mp_val out < B ^ ?rw" using mp_val_less [of out] adc_length [OF r [unfolded mp_add_masked_into_def]] by simp
  then have "unat c = (if mp_val b \<le> mp_val a then 1 else 0)"
  proof -
    assume o: "mp_val out < B ^ ?rw"
    have "unat c < 2"
    proof (rule ccontr)
      assume "\<not> unat c < 2"
      then have "B ^ ?rw * 2 \<le> B ^ ?rw * unat c" by (intro mult_le_mono2) simp
      then show False using sum l by linarith
    qed
    then have "unat c = 0 \<or> unat c = 1" by linarith
    then show ?thesis using sum o l by (auto split: if_splits)
  qed
  then have "c = (if mp_val b \<le> mp_val a then 1 else 0)" by (auto intro: word_unat_eq_iff [THEN iffD2] split: if_splits)
  then show ?thesis using r by (simp add: mp_cmp_hs_def Let_def)
qed

lemma masks [simp]: "(- (1 AND 1) :: u64) = NOT 0" "(- (0 AND 1) :: u64) = 0" "(- (1 AND 0) :: u64) = 0"
  by simp_all

lemma mp_cond_sub_into_val:
  "mp_cond_sub_into rw a b (if c then 1 else 0) = (if c then mp_sub_into rw a b else mp_add_into rw a [])"
  by (auto simp: mp_cond_sub_into_def mp_sub_into_def mp_add_into_def mp_add_masked_into_def mp_word_def Let_def)

section \<open>Multiplication\<close>

lemma carry_row_val: "length (carry_row c rs) = length rs" "mp_val (carry_row c rs) = (mp_val rs + unat c) mod B ^ length rs"
proof (induction rs arbitrary: c)
  case (Cons r rs)
  {
    case 1
    then show ?case using Cons by (simp split: prod.split)
  next
    case 2
    obtain out c' where o: "BignumADC c r 0 = (out, c')" by force
    have "mp_val (carry_row c (r # rs)) = unat out + B * ((mp_val rs + unat c') mod B ^ length rs)" using Cons(2) o by simp
    also have "\<dots> = (unat out + B * (mp_val rs + unat c')) mod (B * B ^ length rs)" by (rule digit_mod [OF unat_lt_B])
    also have "unat out + B * (mp_val rs + unat c') = mp_val (r # rs) + unat c" using ADC_value [OF o] by (simp add: algebra_simps)
    finally show ?case by simp
  }
qed simp_all

lemma mul_row_val: "length (mul_row a c bs rs) = length rs \<and> mp_val (mul_row a c bs rs) = (mp_val rs + unat a * mp_val bs + unat c) mod B ^ length rs"
proof (induction a c bs rs rule: mul_row.induct)
  case (1 a c b bs r rs)
  obtain c' out where o: "BignumMULADD2 a b r c = (c', out)" by force
  have IH: "length (mul_row a c' bs rs) = length rs" "mp_val (mul_row a c' bs rs) = (mp_val rs + unat a * mp_val bs + unat c') mod B ^ length rs"
    using 1 [OF o [symmetric]] by simp_all
  have "mp_val (mul_row a c (b # bs) (r # rs)) = unat out + B * ((mp_val rs + unat a * mp_val bs + unat c') mod B ^ length rs)" using IH o by simp
  also have "\<dots> = (unat out + B * (mp_val rs + unat a * mp_val bs + unat c')) mod (B * B ^ length rs)" by (rule digit_mod [OF unat_lt_B])
  also have "unat out + B * (mp_val rs + unat a * mp_val bs + unat c') = mp_val (r # rs) + unat a * mp_val (b # bs) + unat c"
    using MULADD2_value [OF o] by (simp add: algebra_simps)
  finally show ?case using IH(1) o by simp
qed (simp_all add: carry_row_val)

lemma mul_add_simple_val:
  "length (mp_mul_add_simple rs as b) = length rs \<and> mp_val (mp_mul_add_simple rs as b) = (mp_val rs + mp_val as * mp_val b) mod B ^ length rs"
proof (induction rs as b rule: mp_mul_add_simple.induct)
  case (1 r rs a as b)
  note row = mul_row_val [of a 0 b "r # rs"]
  then obtain x xs where x: "mul_row a 0 b (r # rs) = x # xs" "length xs = length rs" by (cases "mul_row a 0 b (r # rs)") auto
  have IH: "length (mp_mul_add_simple xs as b) = length xs" "mp_val (mp_mul_add_simple xs as b) = (mp_val xs + mp_val as * mp_val b) mod B ^ length xs"
    using 1 [OF x(1)] by simp_all
  have "mp_val (mp_mul_add_simple (r # rs) (a # as) b) = unat x + B * ((mp_val xs + mp_val as * mp_val b) mod B ^ length rs)" using x IH(2) by simp
  also have "\<dots> = (unat x + B * (mp_val xs + mp_val as * mp_val b)) mod (B * B ^ length rs)" by (rule digit_mod [OF unat_lt_B])
  also have "unat x + B * (mp_val xs + mp_val as * mp_val b) = mp_val (mul_row a 0 b (r # rs)) + B * mp_val as * mp_val b" using x(1) by (simp add: algebra_simps)
  also have "(mp_val (mul_row a 0 b (r # rs)) + B * mp_val as * mp_val b) mod (B * B ^ length rs) =
      (mp_val (r # rs) + unat a * mp_val b + B * mp_val as * mp_val b) mod (B * B ^ length rs)"
    using row by (simp add: mod_add_left_eq)
  also have "mp_val (r # rs) + unat a * mp_val b + B * mp_val as * mp_val b = mp_val (r # rs) + mp_val (a # as) * mp_val b" by (simp add: algebra_simps)
  finally show ?case using x IH(1) by simp
qed (simp_all add: mp_val_less)

text \<open>Aliases are the words of an interval.\<close>

lemma alias_val: "mp_val (mp_make_alias x 0 n) = mp_val x mod B ^ n" "mp_val (mp_make_alias x k n) = mp_val x div B ^ k mod B ^ n"
proof -
  have "mp_make_alias x k n = take n (drop k x)" for k by (simp add: mp_make_alias_def Let_def min_def)
  then show "mp_val (mp_make_alias x 0 n) = mp_val x mod B ^ n" "mp_val (mp_make_alias x k n) = mp_val x div B ^ k mod B ^ n"
    by (simp_all add: mp_val_take mp_val_drop)
qed

lemma add_at_val:
  assumes "k \<le> length r"
  shows "length (add_at r k x) = length r" "mp_val (add_at r k x) = (mp_val r + B ^ k * mp_val x) mod B ^ length r"
proof -
  have al: "mp_make_alias r k (length r) = drop k r" by (simp add: mp_make_alias_def Let_def min_def)
  show "length (add_at r k x) = length r" using assms by (simp add: add_at_def al Let_def)
  have "mp_val (add_at r k x) = mp_val (take k r) + B ^ k * ((mp_val (drop k r) + mp_val x) mod B ^ (length r - k))"
    using assms by (simp add: add_at_def al Let_def mp_val_append mp_add_into_val)
  also have "\<dots> = (mp_val (take k r) + B ^ k * (mp_val (drop k r) + mp_val x)) mod (B ^ k * B ^ (length r - k))"
  proof -
    have "(mp_val (take k r) + B ^ k * y) div B ^ k = y" "(mp_val (take k r) + B ^ k * y) mod B ^ k = mp_val (take k r)" for y
      using mp_val_less [of "take k r"] assms by simp_all
    then show ?thesis by (simp add: mod_mult2_eq)
  qed
  also have "\<dots> = (mp_val r + B ^ k * mp_val x) mod B ^ length r"
    using assms mp_val_take_drop [of r k] by (simp add: algebra_simps flip: power_add)
  finally show "mp_val (add_at r k x) = (mp_val r + B ^ k * mp_val x) mod B ^ length r" .
qed

text \<open>The arithmetic of the splitting.\<close>

lemma mod_scaled: "k \<le> n \<Longrightarrow> (y + B ^ k * (x mod B ^ (n - k))) mod B ^ n = (y + B ^ k * x) mod B ^ n"
proof -
  assume "k \<le> n"
  then have "B ^ k * (x mod B ^ (n - k)) = (B ^ k * x) mod B ^ n" by (simp add: mult_mod_right flip: power_add)
  then show ?thesis by (simp add: mod_add_right_eq)
qed

lemma split_words: "x mod B ^ k + B ^ k * (x div B ^ k mod B ^ m) = x mod B ^ (k + m)"
  by (simp add: power_add mod_mult2_eq)

lemma inputs_mod:
  assumes "n = min rw (max (length a) (length b))"
  shows "((mp_val a mod B ^ n) * (mp_val b mod B ^ n)) mod B ^ rw = (mp_val a * mp_val b) mod B ^ rw"
proof (cases "n = rw")
  case True
  then show ?thesis by (simp add: mod_mult_eq)
next
  case False
  then have "length a \<le> n" "length b \<le> n" using assms by (auto simp: min_def split: if_splits)
  then show ?thesis using mp_val_less_power by simp
qed

lemma outer_pieces:
  assumes "x < B ^ (2 * k)" "r0w = min (k * 2) rw"
  shows "x mod B ^ r0w + B ^ r0w * (y mod B ^ (rw - r0w)) = (x + B ^ k * B ^ k * y) mod B ^ rw"
proof (cases "k * 2 \<le> rw")
  case True
  then have r: "r0w = 2 * k" using assms(2) by simp
  have sq: "B ^ k * B ^ k = B ^ (2 * k)" by (simp add: mult_2 power_add)
  have pw: "B ^ (2 * k) * B ^ (rw - 2 * k) = B ^ rw" using True by (simp flip: power_add)
  have "(x + B ^ (2 * k) * y) div B ^ (2 * k) = y" "(x + B ^ (2 * k) * y) mod B ^ (2 * k) = x" using assms(1) by simp_all
  then have "(x + B ^ (2 * k) * y) mod (B ^ (2 * k) * B ^ (rw - 2 * k)) = x + B ^ (2 * k) * (y mod B ^ (rw - 2 * k))" by (simp add: mod_mult2_eq)
  then show ?thesis using r assms(1) sq pw by simp
next
  case False
  then have "r0w = rw" "B ^ rw dvd B ^ k * B ^ k * y" using assms(2) by (simp_all add: dvd_mult2 le_imp_power_dvd flip: power_add)
  then show ?thesis by (metis diff_self_eq_0 mod_0_imp_dvd mod_add_right_eq mod_by_1 mult_0_right power_0 add.right_neutral dvd_imp_mod_0)
qed

definition multiplies :: "nat \<Rightarrow> mp_int \<Rightarrow> mp_int \<Rightarrow> nat \<Rightarrow> bool" where
  "multiplies rw a b scratch \<longleftrightarrow>
     (\<exists>r. mp_mul_internal rw a b scratch = Inr r \<and> length r = rw \<and> mp_val r = (mp_val a * mp_val b) mod B ^ rw)"

definition multiplies_upto :: "nat \<Rightarrow> bool" where
  "multiplies_upto k \<longleftrightarrow> (\<forall>m \<le> k. \<forall>u x y sc. length x \<le> m \<longrightarrow> length y \<le> m \<longrightarrow> 6 * m \<le> sc \<longrightarrow> multiplies u x y sc)"

lemma multiplies_uptoE:
  assumes "multiplies_upto k" "m \<le> k" "length x \<le> m" "length y \<le> m" "6 * m \<le> sc"
  obtains r where "mp_mul_internal u x y sc = Inr r" "length r = u" "mp_val r = (mp_val x * mp_val y) mod B ^ u"
  using assms unfolding multiplies_upto_def multiplies_def by blast

text \<open>The sizes of the pieces, and the inputs put together from them.\<close>

definition pieces :: "nat \<Rightarrow> mp_int \<Rightarrow> mp_int \<Rightarrow> nat \<Rightarrow> nat \<Rightarrow> nat \<Rightarrow> bool" where
  "pieces rw a b n bt tp \<longleftrightarrow> n = min rw (max (length a) (length b)) \<and> \<not> (n < KARATSUBA_THRESHOLD \<or> length a = 0 \<or> length b = 0) \<and>
     tp = n div 2 \<and> bt = n - tp"

lemma pieces_sizes:
  assumes "pieces rw a b n bt tp"
  shows "n = bt + tp" "tp \<le> bt" "12 \<le> tp" "bt \<le> tp + 1" "n \<le> rw"
proof -
  have "n = bt + tp \<and> tp \<le> bt \<and> 12 \<le> tp \<and> bt \<le> tp + 1" using assms unfolding pieces_def by linarith
  then show "n = bt + tp" "tp \<le> bt" "12 \<le> tp" "bt \<le> tp + 1" by simp_all
  show "n \<le> rw" using assms by (simp add: pieces_def)
qed

lemma piecesD:
  assumes "pieces rw a b n bt tp"
  shows "min rw (max (length a) (length b)) = n" "n div 2 = tp" "n - tp = bt" "\<not> (n < KARATSUBA_THRESHOLD \<or> length a = 0 \<or> length b = 0)"
  using assms by (simp_all add: pieces_def)

lemma alias_sizes: "length (mp_make_alias x i n) \<le> n" "mp_val (mp_make_alias x i n) < B ^ n"
  using alias_val(2) [of x i n] by simp_all

lemma pieces_value:
  assumes "pieces rw a b n bt tp"
  shows "(mp_val (mp_make_alias a 0 bt) + B ^ bt * mp_val (mp_make_alias a bt tp)) * (mp_val (mp_make_alias b 0 bt) + B ^ bt * mp_val (mp_make_alias b bt tp))
    mod B ^ rw = (mp_val a * mp_val b) mod B ^ rw"
proof -
  have "n = min rw (max (length a) (length b))" using assms by (simp add: pieces_def)
  then show ?thesis using inputs_mod pieces_sizes(1) [OF assms] by (simp add: alias_val split_words)
qed

text \<open>The two cross products are added separately when the output is too short for the trick.\<close>

lemma karatsuba_partial:
  assumes "n = bt + tp" "n \<le> rw" "rw < n * 2" "tp \<le> bt" "a0 < B ^ bt" "b0 < B ^ bt" "a1 < B ^ tp" "b1 < B ^ tp" "sw = min (bt + tp) (rw - bt)"
    "length r = rw" "mp_val r = (a0 * b0 + B ^ bt * B ^ bt * (a1 * b1)) mod B ^ rw"
    "mp_val s1 = (a0 * b1) mod B ^ sw" "mp_val s2 = (a1 * b0) mod B ^ sw"
  shows "mp_val (add_at (add_at r bt s1) bt s2) = ((a0 + B ^ bt * a1) * (b0 + B ^ bt * b1)) mod B ^ rw"
proof -
  let ?D = "B ^ bt"
  have k: "bt \<le> rw" using assms(1,2) by simp
  have part: "(y + ?D * (x mod B ^ sw)) mod B ^ rw = (y + ?D * x) mod B ^ rw" if "x < B ^ n" for x y
  proof (cases "bt + tp \<le> rw - bt")
    case True
    then show ?thesis using assms(1,9) that by simp
  next
    case False
    then show ?thesis using assms(9) mod_scaled [OF k] by simp
  qed
  have l: "a0 * b1 < B ^ n" "a1 * b0 < B ^ n" using assms(1,5-8) by (simp_all add: power_add mult_strict_mono mult.commute [of "a1"])
  have "mp_val (add_at r bt s1) = (a0 * b0 + ?D * ?D * (a1 * b1) + ?D * (a0 * b1)) mod B ^ rw"
    using add_at_val(2) [of bt r s1] k assms(10-12) part [OF l(1)] by (simp add: mod_add_left_eq)
  then have "mp_val (add_at (add_at r bt s1) bt s2) = (a0 * b0 + ?D * ?D * (a1 * b1) + ?D * (a0 * b1) + ?D * (a1 * b0)) mod B ^ rw"
    using add_at_val [of bt r s1] add_at_val(2) [of bt "add_at r bt s1" s2] k assms(10,13) part [OF l(2)] by (simp add: mod_add_left_eq)
  also have "a0 * b0 + ?D * ?D * (a1 * b1) + ?D * (a0 * b1) + ?D * (a1 * b0) = (a0 + ?D * a1) * (b0 + ?D * b1)" by (simp add: algebra_simps)
  finally show ?thesis .
qed

lemma karatsuba_full:
  assumes "n = bt + tp" "n * 2 \<le> rw" "tp \<le> bt" "1 \<le> tp" "a0 < B ^ bt" "b0 < B ^ bt" "a1 < B ^ tp" "b1 < B ^ tp"
    "mp_val r0 = a0 * b0" "mp_val r2 = a1 * b1" "length (r0 @ r2) = rw" "length r0 = bt * 2"
    "mp_val p = ((a0 + a1) * (b0 + b1)) mod B ^ (bt * 2 + 1)"
  shows "mp_val (add_at (r0 @ r2) bt (mp_sub_into (bt * 2 + 1) (mp_sub_into (bt * 2 + 1) p r0) r2)) =
    ((a0 + B ^ bt * a1) * (b0 + B ^ bt * b1)) mod B ^ rw"
proof -
  let ?D = "B ^ bt" and ?w = "bt * 2 + 1"
  have "B ^ tp \<le> ?D" using assms(3) by (simp add: power_increasing)
  then have "a0 + a1 < 2 * ?D" "b0 + b1 < 2 * ?D" using assms(5-8) by linarith+
  then have "(a0 + a1) * (b0 + b1) < (2 * ?D) * (2 * ?D)" by (intro mult_strict_mono) simp_all
  also have "\<dots> = 4 * B ^ (bt * 2)" by (simp add: power_mult power2_eq_square mult.commute)
  also have "\<dots> \<le> B * B ^ (bt * 2)" by (intro mult_le_mono1) (simp add: B_def)
  finally have lt: "(a0 + a1) * (b0 + b1) < B ^ ?w" by simp
  have p: "mp_val p = a0 * b0 + a1 * b1 + a0 * b1 + a1 * b0" using assms(13) lt by (simp add: algebra_simps)
  have p1: "mp_val (mp_sub_into ?w p r0) = a1 * b1 + a0 * b1 + a1 * b0"
    using mp_sub_into_le [of r0 p ?w] p assms(9) lt by (simp add: algebra_simps)
  have p2: "mp_val (mp_sub_into ?w (mp_sub_into ?w p r0) r2) = a0 * b1 + a1 * b0"
    using mp_sub_into_le [of r2 "mp_sub_into ?w p r0" ?w] p1 assms(10) lt by (simp add: algebra_simps)
  have "mp_val (r0 @ r2) = a0 * b0 + ?D * ?D * (a1 * b1)" using assms(9,10,12) by (simp add: mp_val_append power_mult power2_eq_square mult_2_right power_add)
  then have "mp_val (add_at (r0 @ r2) bt (mp_sub_into ?w (mp_sub_into ?w p r0) r2)) = (a0 * b0 + ?D * ?D * (a1 * b1) + ?D * (a0 * b1 + a1 * b0)) mod B ^ rw"
    using add_at_val(2) [of bt "r0 @ r2"] assms(11,12) p2 by simp
  also have "a0 * b0 + ?D * ?D * (a1 * b1) + ?D * (a0 * b1 + a1 * b0) = (a0 + ?D * a1) * (b0 + ?D * b1)" by (simp add: algebra_simps)
  finally show ?thesis .
qed

lemma multiplies_partial:
  assumes p: "pieces rw a b n bt tp" and scr: "6 * n \<le> scratch" and up: "multiplies_upto (bt + 1)" and short: "rw < n * 2"
    and r0: "mp_mul_internal (min (bt * 2) rw) (mp_make_alias a 0 bt) (mp_make_alias b 0 bt) scratch = Inr r0"
    and r2: "mp_mul_internal (rw - min (bt * 2) rw) (mp_make_alias a bt tp) (mp_make_alias b bt tp) scratch = Inr r2"
    and lr: "length (r0 @ r2) = rw"
    and r: "mp_val (r0 @ r2) = (mp_val (mp_make_alias a 0 bt) * mp_val (mp_make_alias b 0 bt) +
      B ^ bt * B ^ bt * (mp_val (mp_make_alias a bt tp) * mp_val (mp_make_alias b bt tp))) mod B ^ rw"
  shows "multiplies rw a b scratch"
proof -
  note nb = pieces_sizes [OF p]
  define a0 b0 a1 b1 where parts: "a0 = mp_make_alias a 0 bt" "b0 = mp_make_alias b 0 bt" "a1 = mp_make_alias a bt tp" "b1 = mp_make_alias b bt tp"
  have lens: "length a0 \<le> bt" "length b0 \<le> bt" "length a1 \<le> bt" "length b1 \<le> bt" using nb(2) by (simp_all add: parts le_trans [OF alias_sizes(1)])
  have small: "mp_val a0 < B ^ bt" "mp_val b0 < B ^ bt" "mp_val a1 < B ^ tp" "mp_val b1 < B ^ tp" by (simp_all add: parts alias_sizes)
  define sw where "sw = min (bt + tp) (rw - bt)"
  have sc: "sw \<le> scratch" "6 * bt \<le> scratch - sw" using scr nb by (auto simp: sw_def)
  obtain s1 where s1: "mp_mul_internal sw a0 b1 (scratch - sw) = Inr s1" "mp_val s1 = (mp_val a0 * mp_val b1) mod B ^ sw"
    by (rule multiplies_uptoE [OF up _ lens(1,4) sc(2), of sw]) auto
  obtain s2 where s2: "mp_mul_internal sw a1 b0 (scratch - sw) = Inr s2" "mp_val s2 = (mp_val a1 * mp_val b0) mod B ^ sw"
    by (rule multiplies_uptoE [OF up _ lens(3,2) sc(2), of sw]) auto
  have "mp_mul_internal rw a b scratch = Inr (add_at (add_at (r0 @ r2) bt s1) bt s2)"
    using piecesD(4) [OF p] scr short s1(1) s2(1) sc(1) r0 [folded parts] r2 [folded parts]
    by (simp add: piecesD(1-3) [OF p] mp_mul_internal.simps [of rw a b scratch] parts [symmetric] sw_def [symmetric] Let_def mp_alloc_from_scratch_def mp_mul_scratchspace_unary_def)
  moreover have "mp_val (add_at (add_at (r0 @ r2) bt s1) bt s2) = (mp_val a * mp_val b) mod B ^ rw"
    using karatsuba_partial [OF nb(1,5) short nb(2) small sw_def lr r [folded parts] s1(2) s2(2)] pieces_value [OF p] by (simp add: parts)
  moreover have "length (add_at (add_at (r0 @ r2) bt s1) bt s2) = rw" using lr nb by (simp add: add_at_val)
  ultimately show ?thesis by (simp add: multiplies_def)
qed

lemma multiplies_full:
  assumes p: "pieces rw a b n bt tp" and scr: "6 * n \<le> scratch" and up: "multiplies_upto (bt + 1)" and full: "n * 2 \<le> rw"
    and r0: "mp_mul_internal (bt * 2) (mp_make_alias a 0 bt) (mp_make_alias b 0 bt) scratch = Inr r0" "length r0 = bt * 2"
      "mp_val r0 = mp_val (mp_make_alias a 0 bt) * mp_val (mp_make_alias b 0 bt)"
    and r2: "mp_mul_internal (rw - bt * 2) (mp_make_alias a bt tp) (mp_make_alias b bt tp) scratch = Inr r2" "length (r0 @ r2) = rw"
      "mp_val r2 = mp_val (mp_make_alias a bt tp) * mp_val (mp_make_alias b bt tp)"
  shows "multiplies rw a b scratch"
proof -
  note nb = pieces_sizes [OF p]
  define a0 b0 a1 b1 where parts: "a0 = mp_make_alias a 0 bt" "b0 = mp_make_alias b 0 bt" "a1 = mp_make_alias a bt tp" "b1 = mp_make_alias b bt tp"
  have small: "mp_val a0 < B ^ bt" "mp_val b0 < B ^ bt" "mp_val a1 < B ^ tp" "mp_val b1 < B ^ tp" by (simp_all add: parts alias_sizes)
  define w where "w = bt * 2 + 1"
  define asum bsum where sums: "asum = mp_add_into (bt + 1) a0 a1" "bsum = mp_add_into (bt + 1) b0 b1"
  define sc where "sc = scratch - (bt + 1) - (bt + 1) - w"
  have sc: "bt + 1 \<le> scratch" "bt + 1 \<le> scratch - (bt + 1)" "w \<le> scratch - (bt + 1) - (bt + 1)" "6 * (bt + 1) \<le> sc"
    using scr nb by (auto simp: sc_def w_def)
  have "B ^ tp \<le> B ^ bt" "2 * B ^ bt \<le> B ^ (bt + 1)" using nb(2) by (simp_all add: power_increasing B_def)
  then have "mp_val a0 + mp_val a1 < B ^ (bt + 1)" "mp_val b0 + mp_val b1 < B ^ (bt + 1)" using small by linarith+
  then have sv: "mp_val asum = mp_val a0 + mp_val a1" "mp_val bsum = mp_val b0 + mp_val b1"
    unfolding sums mp_add_into_val by (simp_all only: mod_less)
  have "length asum \<le> bt + 1" "length bsum \<le> bt + 1" by (simp_all add: sums)
  then obtain pr where pr: "mp_mul_internal w asum bsum sc = Inr pr" "mp_val pr = ((mp_val a0 + mp_val a1) * (mp_val b0 + mp_val b1)) mod B ^ w"
    unfolding sv [symmetric] by (rule multiplies_uptoE [OF up le_refl _ _ sc(4), of asum bsum w])
  have r0w: "min (bt * 2) rw = bt * 2" using full nb by simp
  define r where "r = add_at (r0 @ r2) bt (mp_sub_into w (mp_sub_into w pr r0) r2)"
  have "mp_mul_internal rw a b scratch = Inr r"
    using piecesD(4) [OF p] scr full sc(1-3) [unfolded w_def] pr(1) [unfolded sc_def w_def] r0(1) [folded parts] r2(1) [folded parts] r0w
    by (simp add: piecesD(1-3) [OF p] mp_mul_internal.simps [of rw a b scratch] parts [symmetric] w_def sums [unfolded Suc_eq_plus1 [symmetric], symmetric] r_def Let_def
      mp_alloc_from_scratch_def mp_mul_scratchspace_unary_def)
  moreover have "mp_val r = (mp_val a * mp_val b) mod B ^ rw" unfolding r_def w_def
    using karatsuba_full [OF nb(1) full nb(2) _ small r0(3) [folded parts] r2(3) [folded parts] r2(2) r0(2) pr(2) [unfolded w_def]] nb(3) pieces_value [OF p]
    by (simp add: parts)
  moreover have "length r = rw" using r2(2) nb full by (simp add: r_def add_at_val)
  ultimately show ?thesis by (simp add: multiplies_def)
qed

lemma multiplies_pieces:
  assumes p: "pieces rw a b n bt tp" and scr: "6 * n \<le> scratch" and up: "multiplies_upto (bt + 1)"
  shows "multiplies rw a b scratch"
proof -
  note nb = pieces_sizes [OF p]
  define r0w where "r0w = min (bt * 2) rw"
  let ?a0 = "mp_make_alias a 0 bt" and ?b0 = "mp_make_alias b 0 bt" and ?a1 = "mp_make_alias a bt tp" and ?b1 = "mp_make_alias b bt tp"
  have lens: "length ?a0 \<le> bt" "length ?b0 \<le> bt" "length ?a1 \<le> bt" "length ?b1 \<le> bt" using nb(2) by (simp_all add: le_trans [OF alias_sizes(1)] del: length_alias)
  have small: "mp_val ?a0 < B ^ bt" "mp_val ?b0 < B ^ bt" "mp_val ?a1 < B ^ tp" "mp_val ?b1 < B ^ tp" by (simp_all add: alias_sizes)
  have six: "6 * bt \<le> scratch" using scr nb by simp
  obtain r0 where r0: "mp_mul_internal r0w ?a0 ?b0 scratch = Inr r0" "length r0 = r0w" "mp_val r0 = (mp_val ?a0 * mp_val ?b0) mod B ^ r0w"
    by (rule multiplies_uptoE [OF up _ lens(1,2) six, of r0w]) simp_all
  obtain r2 where r2: "mp_mul_internal (rw - r0w) ?a1 ?b1 scratch = Inr r2" "length r2 = rw - r0w" "mp_val r2 = (mp_val ?a1 * mp_val ?b1) mod B ^ (rw - r0w)"
    by (rule multiplies_uptoE [OF up _ lens(3,4) six, of "rw - r0w"]) simp_all
  have lr: "length (r0 @ r2) = rw" using r0(2) r2(2) by (simp add: r0w_def)
  have sq: "mp_val ?a0 * mp_val ?b0 < B ^ (2 * bt)" "mp_val ?a1 * mp_val ?b1 < B ^ (2 * tp)" using small by (simp_all add: mult_2 power_add mult_strict_mono)
  show ?thesis
  proof (cases "rw < n * 2")
    case True
    have "mp_val (r0 @ r2) = (mp_val ?a0 * mp_val ?b0 + B ^ bt * B ^ bt * (mp_val ?a1 * mp_val ?b1)) mod B ^ rw"
      using outer_pieces [OF sq(1) r0w_def] by (simp add: mp_val_append r0 r2)
    then show ?thesis by (rule multiplies_partial [OF p scr up True r0(1) [unfolded r0w_def] r2(1) [unfolded r0w_def] lr])
  next
    case False
    then have full: "n * 2 \<le> rw" and w: "r0w = bt * 2" using nb by (simp_all add: r0w_def)
    have "2 * tp \<le> rw - r0w" using full nb w by simp
    then have "B ^ (2 * tp) \<le> B ^ (rw - r0w)" by (simp add: power_increasing)
    then have "mp_val ?a1 * mp_val ?b1 < B ^ (rw - r0w)" "mp_val ?a0 * mp_val ?b0 < B ^ r0w" using sq w by (simp_all add: mult.commute [of 2] less_le_trans)
    then have v: "mp_val r0 = mp_val ?a0 * mp_val ?b0" "mp_val r2 = mp_val ?a1 * mp_val ?b1" using r0(3) r2(3) by simp_all
    show ?thesis by (rule multiplies_full [OF p scr up full r0(1,2) [unfolded w] v(1) r2(1) [unfolded w] lr v(2)])
  qed
qed

lemma mul_internal_multiplies:
  "6 * min rw (max (length a) (length b)) \<le> scratch \<Longrightarrow> multiplies rw a b scratch"
proof (induction "min rw (max (length a) (length b))" arbitrary: rw a b scratch rule: less_induct)
  case less
  define n where "n = min rw (max (length a) (length b))"
  show ?case
  proof (cases "n < KARATSUBA_THRESHOLD \<or> length a = 0 \<or> length b = 0")
    case True
    then show ?thesis using less.prems mul_add_simple_val [of "replicate rw 0" a b]
      by (simp add: multiplies_def mp_mul_internal.simps [of rw] n_def [symmetric] Let_def mp_mul_scratchspace_unary_def)
  next
    case False
    define tp where "tp = n div 2"
    define bt where "bt = n - tp"
    have up: "multiplies_upto (bt + 1)" unfolding multiplies_upto_def
    proof (intro allI impI)
      fix m u x y sc
      assume m: "m \<le> bt + 1" "length (x :: mp_int) \<le> m" "length (y :: mp_int) \<le> m" "6 * m \<le> sc"
      have "min u (max (length x) (length y)) \<le> m" using m(2,3) by simp
      then have "6 * min u (max (length x) (length y)) \<le> sc" using m(4) by linarith
      moreover have "min u (max (length x) (length y)) < min rw (max (length a) (length b))"
        by (rule pieces_less [OF n_def tp_def bt_def False]) (use m(1-3) in linarith)+
      ultimately show "multiplies u x y sc" using less.hyps by blast
    qed
    have "pieces rw a b n bt tp" using False by (simp add: pieces_def n_def [symmetric] tp_def bt_def)
    then show ?thesis using multiplies_pieces [OF _ _ up] less.prems by (simp add: n_def)
  qed
qed

lemma mul_internal_val:
  assumes "6 * min rw (max (length a) (length b)) \<le> scratch"
  obtains r where "mp_mul_internal rw a b scratch = Inr r" "length r = rw" "mp_val r = (mp_val a * mp_val b) mod B ^ rw"
  using mul_internal_multiplies [OF assms] unfolding multiplies_def by blast

end
