(* ===== verification/Mpint_Bits.thy ===== *)
theory Mpint_Bits
  imports Mpint_Correct
begin

unbundle bit_operations_syntax

text \<open>
  Multiprecision integers bit by bit: copying and selection, shifts, reduction modulo a power of two, single bits, and
  the comparisons that work on the words without carries.
\<close>

section \<open>The bits of a value\<close>

lemma word_index: "n = 64 * q + r \<Longrightarrow> r < 64 \<Longrightarrow> n div 64 = q" "n = 64 * q + r \<Longrightarrow> r < 64 \<Longrightarrow> n mod 64 = r" for n :: nat
  by simp_all

lemma word_indexE:
  obtains q r :: nat where "n = 64 * q + r" "r < 64" "n div 64 = q" "n mod 64 = r"
  by (metis mod_less_divisor mult_div_mod_eq zero_less_numeral)

lemma bit_mp_val: "bit (mp_val x) i \<longleftrightarrow> bit (mp_word x (i div 64)) (i mod 64)"
proof (induction x arbitrary: i)
  case (Cons w ws)
  have split: "mp_val (w # ws) = unat w + 2 ^ 64 * mp_val ws" by (simp add: B_def)
  have "unat w < 2 ^ 64" using unsigned_less [of w] by simp
  then have w: "take_bit 64 (mp_val (w # ws)) = unat w" "drop_bit 64 (mp_val (w # ws)) = mp_val ws"
    unfolding split take_bit_eq_mod drop_bit_eq_div by simp_all
  show ?case
  proof (cases "i < 64")
    case True
    then have "bit (mp_val (w # ws)) i = bit (take_bit 64 (mp_val (w # ws))) i" by (simp add: bit_take_bit_iff del: mp_val.simps)
    also have "\<dots> = bit w i" by (simp only: w(1) bit_unsigned_iff) (use True in \<open>simp add: bit_imp_le_length\<close>)
    finally show ?thesis using True by (simp add: mp_word_def)
  next
    case False
    then have "bit (mp_val (w # ws)) i = bit (drop_bit 64 (mp_val (w # ws))) (i - 64)" by (simp add: bit_drop_bit_eq del: mp_val.simps)
    also have "\<dots> = bit (mp_word ws ((i - 64) div 64)) ((i - 64) mod 64)" by (simp only: w(2) Cons)
    also have "(i - 64) div 64 = i div 64 - 1" using False by (simp add: le_div_geq)
    also have "(i - 64) mod 64 = i mod 64" using False by (simp add: le_mod_geq)
    finally have "bit (mp_val (w # ws)) i = bit (mp_word ws (i div 64 - 1)) (i mod 64)" .
    moreover have "0 < i div 64" using False by (simp add: div_greater_zero_iff)
    ultimately show ?thesis by (cases "i div 64") (simp_all add: mp_word_def)
  qed
qed (simp add: mp_word_def)

lemma mp_word_map: "mp_word (map f [0..<n]) i = (if i < n then f i else 0)"
  by (simp add: mp_word_def)

lemma B_power_two: "B ^ n = 2 ^ (64 * n)"
  by (simp add: B_power)

lemma div64_less: "i div 64 < n \<longleftrightarrow> i < 64 * n" for i n :: nat
  by (auto simp: less_mult_imp_div_less mult.commute div_less_iff_less_mult)

section \<open>Copying and selection\<close>

lemma mp_copy_into_val: "length (mp_copy_into nw x) = nw" "mp_val (mp_copy_into nw x) = mp_val x mod B ^ nw"
proof -
  show "length (mp_copy_into nw x) = nw" by (simp add: mp_copy_into_def Let_def)
  have "mp_val (mp_copy_into nw x) = mp_val (take (min nw (length x)) x)" by (simp add: mp_copy_into_def Let_def mp_val_append)
  also have "take (min nw (length x)) x = take nw x" by (simp add: min_def)
  finally show "mp_val (mp_copy_into nw x) = mp_val x mod B ^ nw" by (simp add: mp_val_take)
qed

lemma words_of: "mp_val (map (mp_word x) [0..<n]) = mp_val x mod B ^ n"
  using digits_mp_word [of x n] by simp

lemma mp_select_into_val: "mp_select_into nw x y (if c then 1 else 0) = map (mp_word (if c then y else x)) [0..<nw]"
  by (auto simp: mp_select_into_def Let_def xor.assoc [symmetric] intro!: bit_word_eqI simp: bit_simps)

lemma mp_cond_swap_val: "length x = length y \<Longrightarrow> mp_cond_swap x y (if c then 1 else 0) = Inr (if c then (y, x) else (x, y))"
  by (auto simp: mp_cond_swap_def Let_def zip_map2 intro!: nth_equalityI bit_word_eqI simp: bit_simps)

section \<open>Shifts\<close>

lemma mp_val_mapI:
  assumes "\<And>i. i < 64 * n \<Longrightarrow> bit (f (i div 64)) (i mod 64) \<longleftrightarrow> bit v i"
  shows "mp_val (map f [0..<n]) = v mod B ^ n"
proof -
  have "mp_val (map f [0..<n]) = take_bit (64 * n) v"
    by (rule bit_eqI) (use assms in \<open>auto simp: bit_mp_val mp_word_map bit_take_bit_iff div64_less\<close>)
  then show ?thesis by (simp add: B_power_two take_bit_eq_mod)
qed

lemma mp_rshift_fixed_into_val: "length (mp_rshift_fixed_into rw a bits) = rw" "mp_val (mp_rshift_fixed_into rw a bits) = (mp_val a div 2 ^ bits) mod B ^ rw"
proof -
  show "length (mp_rshift_fixed_into rw a bits) = rw" by (simp add: mp_rshift_fixed_into_def Let_def)
  define wd sh where d: "wd = bits div 64" "sh = bits mod 64"
  then have bits: "bits = 64 * wd + sh" "sh < 64" by simp_all
  have "mp_val (mp_rshift_fixed_into rw a bits) = drop_bit bits (mp_val a) mod B ^ rw"
    unfolding mp_rshift_fixed_into_def Let_def d [symmetric]
  proof (rule mp_val_mapI)
    fix i :: nat
    obtain q r where i: "i = 64 * q + r" "r < 64" "i div 64 = q" "i mod 64 = r" by (rule word_indexE)
    show "bit (if sh = 0 then mp_word a (i div 64 + wd)
         else drop_bit sh (mp_word a (i div 64 + wd)) OR push_bit (64 - sh) (mp_word a (i div 64 + wd + 1))) (i mod 64) = bit (drop_bit bits (mp_val a)) i"
    proof (cases "sh + r < 64")
      case True
      have "bits + i = 64 * (q + wd) + (sh + r)" using i bits by simp
      then have "(bits + i) div 64 = q + wd" "(bits + i) mod 64 = sh + r" using True by (rule word_index)+
      then show ?thesis using True i by (auto simp: bit_drop_bit_eq bit_mp_val bit_or_iff bit_push_bit_iff)
    next
      case False
      then have eq: "bits + i = 64 * (q + wd + 1) + (sh + r - 64)" "sh + r - 64 < 64" using i bits by simp_all
      have "(bits + i) div 64 = q + wd + 1" "(bits + i) mod 64 = sh + r - 64" by (rule word_index [OF eq])+
      then show ?thesis using False i bits by (auto simp: bit_drop_bit_eq bit_mp_val bit_or_iff bit_push_bit_iff add.commute [of r] dest: bit_imp_le_length)
    qed
  qed
  then show "mp_val (mp_rshift_fixed_into rw a bits) = (mp_val a div 2 ^ bits) mod B ^ rw" by (simp add: drop_bit_eq_div)
qed

lemma mp_lshift_fixed_into_val: "length (mp_lshift_fixed_into rw a bits) = rw" "mp_val (mp_lshift_fixed_into rw a bits) = (mp_val a * 2 ^ bits) mod B ^ rw"
proof -
  show "length (mp_lshift_fixed_into rw a bits) = rw" by (simp add: mp_lshift_fixed_into_def Let_def)
  define wd sh where d: "wd = bits div 64" "sh = bits mod 64"
  then have bits: "bits = 64 * wd + sh" "sh < 64" by simp_all
  have "mp_val (mp_lshift_fixed_into rw a bits) = push_bit bits (mp_val a) mod B ^ rw"
    unfolding mp_lshift_fixed_into_def Let_def d [symmetric]
  proof (rule mp_val_mapI)
    fix i :: nat
    obtain q r where i: "i = 64 * q + r" "r < 64" "i div 64 = q" "i mod 64 = r" by (rule word_indexE)
    consider "q < wd" | "q = wd" "r < sh" | "q > wd" "r < sh" | "q \<ge> wd" "r \<ge> sh" by linarith
    then show "bit (if i div 64 < wd then 0 else if sh = 0 then mp_word a (i div 64 - wd)
         else push_bit sh (mp_word a (i div 64 - wd)) OR (if wd < i div 64 then drop_bit (64 - sh) (mp_word a (i div 64 - wd - 1)) else 0)) (i mod 64) =
       bit (push_bit bits (mp_val a)) i"
    proof cases
      case 1
      then show ?thesis using i bits by (simp add: bit_push_bit_iff)
    next
      case 2
      then show ?thesis using i bits by (simp add: bit_push_bit_iff bit_or_iff)
    next
      case 3
      then have eq: "i - bits = 64 * (q - wd - 1) + (64 + r - sh)" "64 + r - sh < 64" and "bits \<le> i" using i bits by (simp_all add: algebra_simps)
      have "(i - bits) div 64 = q - wd - 1" "(i - bits) mod 64 = 64 + r - sh" by (rule word_index [OF eq])+
      then show ?thesis using 3 i bits \<open>bits \<le> i\<close> by (auto simp: bit_push_bit_iff bit_or_iff bit_drop_bit_eq bit_mp_val)
    next
      case 4
      then have eq: "i - bits = 64 * (q - wd) + (r - sh)" "r - sh < 64" and "bits \<le> i" using i bits by (simp_all add: algebra_simps)
      have "(i - bits) div 64 = q - wd" "(i - bits) mod 64 = r - sh" by (rule word_index [OF eq])+
      then show ?thesis using 4 i bits \<open>bits \<le> i\<close> by (auto simp: bit_push_bit_iff bit_or_iff bit_drop_bit_eq bit_mp_val dest: bit_imp_le_length)
    qed
  qed
  then show "mp_val (mp_lshift_fixed_into rw a bits) = (mp_val a * 2 ^ bits) mod B ^ rw" by (simp add: push_bit_eq_mult)
qed

lemma mp_reduce_mod_2to_val: "length (mp_reduce_mod_2to x p) = length x" "mp_val (mp_reduce_mod_2to x p) = mp_val x mod 2 ^ p"
proof -
  show "length (mp_reduce_mod_2to x p) = length x" by (simp add: mp_reduce_mod_2to_def Let_def)
  have m: "bit (push_bit (p mod 64) 1 - 1 :: u64) r \<longleftrightarrow> r < p mod 64" for r
    using bit_mask_iff [of "p mod 64" r, where ?'a = u64] by (auto simp: mask_eq_exp_minus_1 push_bit_eq_mult intro: less_trans)
  have "mp_val (mp_reduce_mod_2to x p) = take_bit p (mp_val x)"
  proof (rule bit_eqI)
    fix i :: nat
    obtain q r where i: "i = 64 * q + r" "r < 64" "i div 64 = q" "i mod 64 = r" by (rule word_indexE)
    obtain q' r' where p: "p = 64 * q' + r'" "r' < 64" "p div 64 = q'" "p mod 64 = r'" by (rule word_indexE)
    have "i < p \<longleftrightarrow> q < q' \<or> q = q' \<and> r < r'" using i(1,2) p(1,2) by linarith
    then show "bit (mp_val (mp_reduce_mod_2to x p)) i = bit (take_bit p (mp_val x)) i"
      using m [of r] i p by (auto simp: mp_reduce_mod_2to_def Let_def bit_mp_val bit_take_bit_iff mp_word_map bit_and_iff mp_word_def)
  qed
  then show "mp_val (mp_reduce_mod_2to x p) = mp_val x mod 2 ^ p" by (simp add: take_bit_eq_mod)
qed

section \<open>Bits and comparisons\<close>

lemma low_bit: "1 AND w = (if bit w 0 then 1 else 0)" "w AND 1 = (if bit w 0 then 1 else 0)" for w :: u64
  by (simp_all add: bit_0 and_one_eq one_and_eq mod_2_eq_odd)

lemma mp_get_bit_val: "mp_get_bit x i = (if bit (mp_val x) i then 1 else 0)"
  by (simp add: mp_get_bit_def low_bit bit_mp_val bit_drop_bit_eq)

lemma normalise_to_1_val: "normalise_to_1 n = (if n = 0 then 0 else 1)"
proof (cases "n = 0")
  case False
  define k where "k = drop_bit 1 n OR (n AND 1)"
  have "\<not> bit k i" if "63 \<le> i" for i using that by (auto simp: k_def bit_or_iff bit_drop_bit_eq bit_and_iff bit_1_iff dest: bit_imp_le_length)
  then have "take_bit 63 k = k" by (intro bit_word_eqI) (meson bit_take_bit_iff not_le_imp_less)
  then have "unat k < 2 ^ 63" by (metis take_bit_nat_less_exp unsigned_take_bit_eq)
  moreover have "k \<noteq> 0"
  proof
    assume "k = 0"
    then have "drop_bit 1 n = 0" "take_bit 1 n = 0" by (simp_all add: k_def or_eq_0_iff take_bit_eq_mask mask_Suc_0)
    then show False using bits_ident [of 1 n] False by simp
  qed
  then have "unat (k - 1) = unat k - 1" "0 < unat k" by (simp_all add: unat_minus_one unat_gt_0)
  moreover have "NOT (k - 1) = - k" by (simp add: not_eq_complement)
  ultimately have "unat (- k) div 2 ^ 63 = 1" using unat_not [of "k - 1"] by (simp add: B_def div_nat_eqI)
  then have "unat (drop_bit 63 (- k)) = unat (1 :: u64)" unfolding unat_drop_bit_eq by (simp add: drop_bit_eq_div)
  then have "drop_bit 63 (- k) = 1" by (simp only: word_unat_eq_iff)
  then show ?thesis using False by (simp add: normalise_to_1_def k_def Let_def)
qed (simp add: normalise_to_1_def)

lemma or_fold: "foldl (\<lambda>diff i. diff OR f i) z is = 0 \<longleftrightarrow> z = 0 \<and> (\<forall>i \<in> set is. f i = (0 :: u64))"
  by (induction "is" arbitrary: z) (auto simp: or_eq_0_iff)

lemma mp_val_eq_iff: "mp_val x = mp_val y \<longleftrightarrow> (\<forall>i < max (length x) (length y). mp_word x i = mp_word y i)"
proof
  assume v: "mp_val x = mp_val y"
  show "\<forall>i < max (length x) (length y). mp_word x i = mp_word y i"
  proof (intro allI impI bit_word_eqI)
    fix i j
    assume "j < LENGTH(64)"
    then show "bit (mp_word x i) j = bit (mp_word y i) j" using v bit_mp_val [of x "64 * i + j"] bit_mp_val [of y "64 * i + j"] by simp
  qed
next
  assume w: "\<forall>i < max (length x) (length y). mp_word x i = mp_word y i"
  have "mp_word x i = mp_word y i" for i using w by (cases "i < max (length x) (length y)") (auto simp: mp_word_def)
  then show "mp_val x = mp_val y" by (intro bit_eqI) (simp add: bit_mp_val)
qed

lemma xor_zero_iff: "a XOR b = 0 \<longleftrightarrow> a = b" for a b :: u64
proof
  assume "a XOR b = 0"
  then have "(a XOR b) XOR b = b" by simp
  then show "a = b" by (simp add: xor.assoc)
qed simp

lemma mp_cmp_eq_val: "mp_cmp_eq a b = (if mp_val a = mp_val b then 1 else 0)"
  by (auto simp: mp_cmp_eq_def normalise_to_1_val or_fold xor_zero_iff mp_val_eq_iff)

lemma integer_word_val: "integer_word n i = mp_word [n] i"
proof -
  have "integer_word 0 i = 0" for i by (induction i) (simp_all add: shift_right_by_one_word_def)
  then show ?thesis by (cases i) (simp_all add: mp_word_def shift_right_by_one_word_def)
qed

lemma mp_eq_integer_val: "mp_eq_integer x n = (if mp_val x = unat n then 1 else 0)"
proof -
  have "(mp_val x = unat n) = (\<forall>i < max (length x) 1. mp_word x i = mp_word [n] i)" using mp_val_eq_iff [of x "[n]"] by simp
  then show ?thesis by (auto simp: mp_eq_integer_def Let_def normalise_to_1_val or_fold xor_zero_iff integer_word_val)
qed

lemma mp_add_integer_into_val: "length (mp_add_integer_into rw a n) = rw" "mp_val (mp_add_integer_into rw a n) = (mp_val a + unat n) mod B ^ rw"
proof -
  have "mp_add_integer_into rw a n = mp_add_into rw a [n]"
    by (simp add: mp_add_integer_into_def mp_add_masked_integer_into_def mp_add_into_def mp_add_masked_into_def integer_word_val)
  then show "length (mp_add_integer_into rw a n) = rw" "mp_val (mp_add_integer_into rw a n) = (mp_val a + unat n) mod B ^ rw"
    by (simp_all add: mp_add_into_val)
qed

lemma mp_cond_add_into_val: "mp_cond_add_into rw a b (if c then 1 else 0) = mp_add_into rw a (if c then b else [])"
  by (auto simp: mp_cond_add_into_def mp_add_into_def mp_add_masked_into_def mp_word_def Let_def)

lemma mp_neg_into_val: "length (mp_neg_into rw a) = rw" "int (mp_val (mp_neg_into rw a)) = (- int (mp_val a)) mod int (B ^ rw)"
  by (simp_all add: mp_neg_into_def mp_sub_into_val del: of_nat_power)

lemma mp_make_sized_ok [simp]: "0 < n \<Longrightarrow> mp_make_sized n = Inr (replicate n 0)"
  by (simp add: mp_make_sized_def)

lemma mp_alloc_ok [simp]: "len \<le> pool \<Longrightarrow> mp_alloc_from_scratch pool len = Inr (pool - len)"
  by (simp add: mp_alloc_from_scratch_def)

section \<open>Whole numbers\<close>

lemma mp_mul_into_val:
  assumes "0 < rw" "x \<noteq> [] \<or> y \<noteq> []"
  obtains r where "mp_mul_into rw x y = Inr r" "length r = rw" "mp_val r = (mp_val x * mp_val y) mod B ^ rw"
proof -
  let ?n = "mp_mul_scratchspace rw (length x) (length y)"
  have n: "?n = 6 * min rw (max (length x) (length y))" by (simp add: mp_mul_scratchspace_def mp_mul_scratchspace_unary_def)
  then have "0 < ?n" using assms by (auto simp: min_def max_def)
  then have e: "mp_mul_into rw x y = mp_mul_internal rw x y ?n" by (simp add: mp_mul_into_def)
  have "6 * min rw (max (length x) (length y)) \<le> ?n" by (simp only: n)
  then show ?thesis using mul_internal_val that unfolding e by blast
qed

lemma mp_add_val: "\<exists>r. mp_add x y = Inr r \<and> mp_val r = mp_val x + mp_val y"
proof -
  let ?n = "max (length x) (length y)"
  have "mp_val x < B ^ ?n" "mp_val y < B ^ ?n" by (simp_all add: mp_val_less_power)
  then have "mp_val x + mp_val y < 2 * B ^ ?n" by simp
  also have "\<dots> \<le> B ^ (?n + 1)" by (simp add: B_def)
  finally show ?thesis by (simp add: mp_add_def mp_add_into_val)
qed

lemma mp_lshift_fixed_val:
  assumes "x \<noteq> []"
  shows "\<exists>r. mp_lshift_fixed x n = Inr r \<and> mp_val r = mp_val x * 2 ^ n"
proof -
  let ?w = "(n + 64 - 1) div 64"
  have "n \<le> 64 * ?w" by linarith
  then have "(2 :: nat) ^ n \<le> B ^ ?w" unfolding B_power_two by (intro power_increasing) simp_all
  then have "mp_val x * 2 ^ n < B ^ length x * B ^ ?w" using mp_val_less [of x] by (intro mult_less_le_imp_less) simp_all
  then show ?thesis using assms by (simp add: mp_lshift_fixed_def mp_lshift_fixed_into_val power_add)
qed

lemma mp_rshift_fixed_val: "\<exists>r. mp_rshift_fixed x n = Inr r \<and> mp_val r = mp_val x div 2 ^ n"
proof -
  let ?k = "max (length x - min (length x) (n div 64)) 1"
  have "length x \<le> n div 64 + ?k" by linarith
  then have "mp_val x < B ^ (n div 64) * B ^ ?k" unfolding power_add [symmetric] by (rule mp_val_less_power)
  moreover have "B ^ (n div 64) \<le> 2 ^ n" unfolding B_power_two by (intro power_increasing) simp_all
  ultimately have "mp_val x < B ^ ?k * 2 ^ n" by (metis mult.commute mult_le_mono1 less_le_trans)
  then have "mp_val x div 2 ^ n < B ^ ?k" by (simp add: less_mult_imp_div_less)
  then show ?thesis by (simp add: mp_rshift_fixed_def Let_def mp_rshift_fixed_into_val del: max.bounded_iff)
qed

text \<open>
  C32.  Arithmetic on big integers is exact.  The product of any two numbers is computed without a failed assertion,
  so the scratch space that Karatsuba's method is given suffices at every depth of its recursion, and it is the product, or
  what fits of it when the output is shorter; the sum has room for its carry; the difference wraps at the longer of the two
  lengths; the comparisons return 1 or 0; and shifts by any distance multiply and divide by the power of two.
\<close>

theorem mp_arithmetic_exact:
  assumes "x \<noteq> []" "y \<noteq> []" "0 < rw"
  shows "(\<exists>r. mp_mul x y = Inr r \<and> length r = length x + length y \<and> mp_val r = mp_val x * mp_val y) \<and>
    (\<exists>r. mp_mul_into rw x y = Inr r \<and> length r = rw \<and> mp_val r = mp_val x * mp_val y mod 2 ^ (64 * rw)) \<and>
    (\<exists>r. mp_add x y = Inr r \<and> mp_val r = mp_val x + mp_val y) \<and>
    (\<exists>r. mp_sub x y = Inr r \<and>
       int (mp_val r) = (int (mp_val x) - int (mp_val y)) mod 2 ^ (64 * max (length x) (length y))) \<and>
    mp_cmp_hs x y = (if mp_val y \<le> mp_val x then 1 else 0) \<and>
    mp_cmp_eq x y = (if mp_val x = mp_val y then 1 else 0) \<and>
    (\<exists>r. mp_lshift_fixed x n = Inr r \<and> mp_val r = mp_val x * 2 ^ n) \<and>
    (\<exists>r. mp_rshift_fixed x n = Inr r \<and> mp_val r = mp_val x div 2 ^ n)"
proof (intro conjI)
  have pos: "0 < length x + length y" "0 < max (length x) (length y)" using assms(1) by (auto simp: less_max_iff_disj)
  have "mp_val x * mp_val y < B ^ length x * B ^ length y" using mp_val_less by (intro mult_strict_mono) simp_all
  then have "mp_val x * mp_val y mod B ^ (length x + length y) = mp_val x * mp_val y" by (simp add: power_add)
  moreover obtain r where "mp_mul_into (length x + length y) x y = Inr r" "length r = length x + length y"
    "mp_val r = mp_val x * mp_val y mod B ^ (length x + length y)"
    using mp_mul_into_val [OF pos(1), of x y] assms(1) by blast
  ultimately show "\<exists>r. mp_mul x y = Inr r \<and> length r = length x + length y \<and> mp_val r = mp_val x * mp_val y"
    using pos(1) by (simp add: mp_mul_def)
  show "\<exists>r. mp_mul_into rw x y = Inr r \<and> length r = rw \<and> mp_val r = mp_val x * mp_val y mod 2 ^ (64 * rw)"
    unfolding B_power using mp_mul_into_val [OF assms(3), of x y] assms(1) by blast
  show "\<exists>r. mp_sub x y = Inr r \<and> int (mp_val r) = (int (mp_val x) - int (mp_val y)) mod 2 ^ (64 * max (length x) (length y))"
    using pos(2) mp_sub_into_val [of "max (length x) (length y)" x y] by (simp add: mp_sub_def B_power_two)
qed (rule mp_add_val mp_cmp_hs_val mp_cmp_eq_val mp_lshift_fixed_val [OF assms(1)] mp_rshift_fixed_val)+

theorem mp_arithmetic_exact_witness:
  "\<exists>r. mp_mul (replicate 30 (- 1)) [5, 7] = Inr r \<and> length r = 32 \<and> mp_val r = mp_val (replicate 30 (- 1)) * mp_val [5, 7]"
  using mp_arithmetic_exact [of "replicate 30 (- 1)" "[5, 7]" 1] by simp

end
