(* ===== verification/Spec2Isabelle.thy ===== *)
theory Spec2Isabelle
  imports Bufchain Utils Conf_Correct Telnet_Negotiation Hash_Suite Wildcard_Correct Crc Ssh2_Suite Mpint_Bits
begin

text \<open>
  A verification library for PuTTY-TDE, a port of the PuTTY terminal emulator and SSH and Telnet client.
  All modelled sources are under \<open>src/_LEGACY/\<close>; file names below are relative to it.

  \<^bold>\<open>The program and its parts.\<close>  A session is described by a configuration store (\<open>conf.c\<close>), whose settings
  live in a counted 2-3-4 tree (\<open>tree234.c\<close>).  A backend connects the terminal to the network: \<open>telnet.c\<close> speaks
  the Telnet protocol; for SSH a stack of layers does, of which the binary packet protocol
  (\<open>ssh2bpp.c\<close>) cuts the byte stream of the connection into packets and protects them with the
  ciphers and MACs of \<open>sshdes.c\<close>, \<open>ssharcf.c\<close>, \<open>sshhmac.c\<close> and the hash functions.  All of it stands on a layer of
  utilities: checked allocation (\<open>memory.c\<close>), string buffers, buffer chains and string routines
  (\<open>utils.c\<close>), and the marshalling of wire formats (\<open>marshal.c\<close>, \<open>marshal.h\<close>, \<open>misc.h\<close>).
  Wildcards (\<open>wildcard.c\<close>) serve the configuration, the bug detection and the file transfer clients; multiprecision integers
  (\<open>mpint.c\<close>) carry the public key algorithms.

  \<^bold>\<open>How the code is modelled.\<close>  A struct is a record and an enum a datatype; integers have their C width
  (\<open>8\<close>, \<open>32\<close> and \<open>64 word\<close>) wherever they can wrap; functions take and return the states they
  change.  Memory is bounded: a block is the list of its bytes with its allocated length, indeterminate bytes are
  \<open>None\<close> (or an arbitrary parameter, \<open>junk\<close>, where they are overwritten before use), and an access outside a block, a
  failed assertion, a null dereference or an exhausted allocator is a value of the type \<open>fault\<close> in the left half of
  the result type \<open>'a res\<close> (theory \<open>Prelude\<close>).  So each theorem that an operation returns \<open>Inr\<close> is a
  memory-safety statement as well.  Loops that end on their data are structural recursions or functions with a
  measure; the input coroutine of the packet protocol is a \<open>partial_function\<close> that is proved to return.  The loops of
  \<open>conf.c\<close> over the entries of a tree or a serialised store, the walk over the environment in \<open>telnet.c\<close> and the slot search
  of \<open>tree234.c\<close> take fuel: one more than the number of entries or bytes, and four times the size of the tree; that it is
  enough is part of the theorems about them, which state that the operations return.  Code outside the sources (allocator, formatted
  printing, the operating system's sockets, the Telnet terminal) appears as parameters or as recorded events.

  \<^bold>\<open>The theories.\<close>
  \<^item> \<open>Prelude\<close>: faults and results, byte and word types, the byte-order accessors of \<open>misc.h\<close>, blocks of memory, and
    the lemma collections that the other theories add to.
  \<^item> \<open>Memory\<close>: \<open>safemalloc\<close>, \<open>saferealloc\<close>, \<open>safegrowarray\<close> with their overflow checks.  \<open>Strbuf\<close>: growable strings;
    every store is checked against the allocation.  \<open>Marshal\<close>: \<open>BinarySink\<close> and \<open>BinarySource\<close>, round trips, sticky errors.
    \<open>Bufchain\<close>: chains of granules as byte queues.  \<open>Utils\<close>: host and port strings, base64, comparison, C literals.
  \<^item> \<open>Tree234\<close>, \<open>Tree234_Correct\<close>: every operation of \<open>tree234.c\<close> on nodes with child, count and element slots; the
    functional behaviour on sorted and on unsorted (positional) trees, with balance and counts as the invariant, and
    what an insertion beyond the end does.
  \<^item> \<open>Conf\<close>, \<open>Conf_Correct\<close>: the option table of \<open>putty.h\<close> and the operations of \<open>conf.c\<close>; a refinement to a partial map
    from keys to values, and serialisation: that it succeeds, over the locale \<open>roomy_sink\<close> of sinks with room, and its round trip.
  \<^item> \<open>Telnet\<close>, \<open>Telnet_Correct\<close>, \<open>Telnet_Data\<close>, \<open>Telnet_Negotiation\<close>: the backend's state machine, negotiation
    of options, subnegotiation and data; the session invariant along every run, absence of overruns, data round trips,
    and that negotiation between two such ends settles: for all ten options at once, for active and passive starts, with the
    messages about each option delivered in order and those about different options in any order.
  \<^item> \<open>Rotations\<close>, \<open>Block_Hash\<close>, \<open>Block_Stream\<close>, \<open>Sha\<close>, \<open>Sha_Correct\<close>, \<open>Md5\<close>, \<open>Sha512\<close>, \<open>Hash_Suite\<close>: the hash interface of \<open>ssh.h\<close> as
    the locale \<open>hash_provider\<close>, HMAC and packet MACs proved over it, the five hash functions against their standards.
    \<open>Sha_Constants\<close>: the constants of FIPS 180-4 computed from the roots of the first primes, so that the standards do not
    share the tables of the code.
  \<^item> \<open>Cipher\<close>, \<open>Arcfour\<close>, \<open>Des\<close>, \<open>Des_Correct\<close>: the cipher interface as the locale \<open>cipher_provider\<close> with \<open>block_cipher\<close>
    below it, Arcfour (indices are the promoted sums of the code, each access checked) and all modes of DES and triple DES
    as interpretations.  \<open>Crc\<close>: both CRC-32 variants.
  \<^item> \<open>Ssh2_Bpp\<close>: the packet layer, one definition for each stretch of the input coroutine between two suspensions.
    \<open>Ssh2_Bpp_Correct\<close>: it returns, and how the stream is cut does not matter.  \<open>Ssh2_Bpp_Session\<close>: the locale
    \<open>bpp_crypto\<close>, which builds on the cipher and hash locales, and sealing and opening of packets in all three modes.
    \<open>Ssh2_Bpp_Exchange\<close>: whole connections with changes of keys (\<open>bpp_session\<close>).  \<open>Ssh2_Bpp_Safety\<close>: any peer
    (\<open>bpp_defence\<close>).  \<open>Ssh2_Suite\<close>: these locales on the program's own ciphers and MACs.
  \<^item> \<open>Mpint\<close>, \<open>Mpint_Correct\<close>, \<open>Mpint_Bits\<close>: multiprecision integers with 64-bit words as lists of words; addition,
    comparison, multiplication by the simple method and by Karatsuba's with its scratch space, and shifts, against natural
    numbers.
  \<^item> \<open>Wildcard\<close>, \<open>Wildcard_Correct\<close>: both matchers over memory, against a declarative meaning of wildcards.

  \<^bold>\<open>Bounds.\<close>  Hypotheses of the theorems that need them: single writes to a hash are shorter than \<open>2 ^ 32\<close> bytes;
  messages handed to the packet layer fit a packet of \<open>OUR_V2_PACKETLIMIT\<close> bytes with its largest padding; buffer chains
  consumed have a size that fits an \<open>int\<close>; a serialised store is below \<open>2 ^ 29\<close> bytes.  Limits of the model, not
  hypotheses: the counts and indices of \<open>tree234.c\<close> are unbounded integers, so its theorems speak of the code for trees of fewer
  than \<open>2 ^ 31\<close> elements; the length of a MAC's input is an \<open>int\<close> in \<open>sshmac.c\<close>, so there they speak of bodies below
  \<open>2 ^ 31\<close> bytes; word counts and shift distances of big integers are natural numbers.

  \<^bold>\<open>Not modelled.\<close>  The user interfaces (\<open>tqt/\<close>, \<open>windows/\<close>, \<open>unix/\<close> with its GTK front end, \<open>config.c\<close>, \<open>dialog.c\<close>), which are
  calls of toolkits and of the operating system; the terminal emulator (\<open>terminal.c\<close>, \<open>minibidi.c\<close>, \<open>ldisc.c\<close>,
  \<open>charset/\<close>), whose state is the screen and whose size asks for a development of its own; the SSH layers above the
  packet protocol (\<open>ssh2transport.c\<close>, \<open>ssh2userauth.c\<close>, \<open>ssh2connection.c\<close>, channels, port and X11 forwarding,
  connection sharing) and SSH-1; the public key algorithms, and of \<open>mpint.c\<close> the conversions to text, division, Montgomery
  arithmetic and shifts by secret distances; key files, agents and the file transfer clients; the ciphers \<open>sshaes.c\<close>, \<open>sshblowf.c\<close> and
  \<open>sshccp.c\<close>, whose place in the packet layer is the locale \<open>cipher_provider\<close>; compression (\<open>sshzlib.c\<close>), a parameter of
  the packet layer; variants of the hashes for processor extensions.  Within modelled files, freeing, logging
  and formatted output are left out.
\<close>

end
